(* ===== verification/Prelude.thy ===== *)
theory Prelude
  imports Main "HOL-Library.Word" "HOL-Library.Multiset"
begin

text \<open>
  The prelude of the development: the result type of fallible code with its plumbing, the
  fact collections the components fill, and generic lemmas on lists and permutations that
  several components share.
\<close>

unbundle bit_operations_syntax

section \<open>Fact collections\<close>

named_theorems float_simps \<open>evaluation rules of the IEEE formats\<close>
named_theorems table_simps \<open>what a table operation leaves in the table\<close>
named_theorems wf_intros \<open>preservation of the components' well-formedness\<close>

section \<open>Fallible computations\<close>

text \<open>
  A call that may throw, fail an assertion or run into undefined behaviour returns
  \<open>Inl e\<close>; the sequencing of such calls stops at the first error. The faults of the program:
  a failed \<open>assert\<close>, an exception of the SQL connector, the use of a null pointer, a checked
  container access out of range, and the use of a variable that was never assigned. \<open>OutOfFuel\<close>
  is not one of them: it marks a recursion of the model that was given too little fuel.
\<close>

datatype fault = AssertFailed | SqlError | NullDeref | OutOfRange | Unassigned | OutOfFuel

definition bindE :: "'e + 'a \<Rightarrow> ('a \<Rightarrow> 'e + 'b) \<Rightarrow> 'e + 'b" where
  "bindE m f = (case m of Inl e \<Rightarrow> Inl e | Inr a \<Rightarrow> f a)"

lemma bindE_simps [simp]:
  "bindE (Inl e) f = Inl e"
  "bindE (Inr a) f = f a"
  by (simp_all add: bindE_def)

lemma bindE_Inr_iff: "bindE m f = Inr b \<longleftrightarrow> (\<exists>a. m = Inr a \<and> f a = Inr b)"
  by (cases m) auto

lemma bindE_Inl_iff: "bindE m f = Inl e \<longleftrightarrow> m = Inl e \<or> (\<exists>a. m = Inr a \<and> f a = Inl e)"
  by (cases m) auto

lemma bindE_cong [fundef_cong]:
  "m = m' \<Longrightarrow> (\<And>a. m' = Inr a \<Longrightarrow> f a = g a) \<Longrightarrow> bindE m f = bindE m' g"
  by (cases m') auto

fun mapE :: "('a \<Rightarrow> 'e + 'b) \<Rightarrow> 'a list \<Rightarrow> 'e + 'b list" where
  "mapE f [] = Inr []"
| "mapE f (x # xs) = bindE (f x) (\<lambda>y. bindE (mapE f xs) (\<lambda>ys. Inr (y # ys)))"

lemma mapE_cong [fundef_cong]:
  "xs = ys \<Longrightarrow> (\<And>x. x \<in> set ys \<Longrightarrow> f x = g x) \<Longrightarrow> mapE f xs = mapE g ys"
proof (induction ys arbitrary: xs)
  case (Cons y ys)
  then have "mapE f ys = mapE g ys" by simp
  with Cons.prems show ?case by simp
qed simp

lemma mapE_Inr: "(\<And>x. x \<in> set xs \<Longrightarrow> f x = Inr (g x)) \<Longrightarrow> mapE f xs = Inr (map g xs)"
  by (induction xs) auto

lemma mapE_Inr_length: "mapE f xs = Inr ys \<Longrightarrow> length ys = length xs"
  by (induction xs arbitrary: ys) (auto simp: bindE_Inr_iff)

fun foldE :: "('s \<Rightarrow> 'a \<Rightarrow> 'e + 's) \<Rightarrow> 's \<Rightarrow> 'a list \<Rightarrow> 'e + 's" where
  "foldE f s [] = Inr s"
| "foldE f s (x # xs) = bindE (f s x) (\<lambda>s'. foldE f s' xs)"

lemma foldE_append: "foldE f s (xs @ ys) = bindE (foldE f s xs) (\<lambda>s'. foldE f s' ys)"
proof (induction xs arbitrary: s)
  case (Cons x xs)
  then show ?case by (cases "f s x") auto
qed simp

lemma foldE_invariant:
  assumes "\<And>s x s'. x \<in> set xs \<Longrightarrow> I s \<Longrightarrow> f s x = Inr s' \<Longrightarrow> I s'"
    and "I s" and "foldE f s xs = Inr t"
  shows "I t"
  using assms
proof (induction xs arbitrary: s)
  case (Cons x xs)
  from Cons.prems(3) obtain s' where s': "f s x = Inr s'" "foldE f s' xs = Inr t"
    by (auto simp: bindE_Inr_iff)
  have "I s'" using Cons.prems(1)[of x s s'] Cons.prems(2) s'(1) by simp
  then show ?case using Cons.IH[of s'] Cons.prems(1) s'(2) by auto
qed simp

section \<open>Options and sets\<close>

lemma image_setcompr2: "f ` {g a b | a b. P a b} = {f (g a b) | a b. P a b}"
  by auto

text \<open>\<open>collect\<close> keeps the values that are present, as a loop with
  \<open>if (v.has_value()) out.push_back(v.value())\<close> does.\<close>

fun collect :: "'a option list \<Rightarrow> 'a list" where
  "collect [] = []"
| "collect (None # xs) = collect xs"
| "collect (Some x # xs) = x # collect xs"

lemma set_collect: "set (collect xs) = {x. Some x \<in> set xs}"
  by (induction xs rule: collect.induct) auto

lemma collect_map_Some [simp]: "collect (map (\<lambda>x. Some (f x)) xs) = map f xs"
  by (induction xs) auto

section \<open>Reading a result set in an order the engine chooses\<close>

text \<open>An order function may permute a list and nothing else.\<close>

definition reorders :: "('a list \<Rightarrow> 'a list) \<Rightarrow> bool" where
  "reorders ord \<longleftrightarrow> (\<forall>xs. mset (ord xs) = mset xs)"

lemma reorders_id [simp]: "reorders (\<lambda>xs. xs)"
  by (simp add: reorders_def)

lemma reorders_rev [simp]: "reorders rev"
  by (simp add: reorders_def)

lemma reorders_mset: "reorders ord \<Longrightarrow> mset (ord xs) = mset xs"
  by (simp add: reorders_def)

lemma reorders_set: "reorders ord \<Longrightarrow> set (ord xs) = set xs"
  by (metis reorders_mset set_mset_mset)

lemma reorders_Nil_iff: "reorders ord \<Longrightarrow> ord xs = [] \<longleftrightarrow> xs = []"
  by (metis reorders_mset mset_zero_iff)

lemma reorders_Nil [simp]: "reorders ord \<Longrightarrow> ord [] = []"
  by (simp add: reorders_Nil_iff)

lemma reorders_singleton: "reorders ord \<Longrightarrow> ord [x] = [x]"
  using reorders_mset[of ord "[x]"] by simp

section \<open>Folding a choice over a list\<close>

text \<open>
  A loop that keeps the better of two values ends on a list element or the start value, and
  with a key that the choice maximises, on one whose key is maximal.
\<close>

lemma foldl_choice_mem:
  assumes "\<And>a b. f a b = a \<or> f a b = b"
  shows "foldl f a xs \<in> insert a (set xs)"
  using assms
proof (induction xs arbitrary: a)
  case (Cons x xs)
  from Cons.IH[of "f a x"] Cons.prems have "foldl f (f a x) xs \<in> insert (f a x) (set xs)" by blast
  with Cons.prems[of a x] show ?case by auto
qed simp

lemma foldl_choice_max:
  fixes k :: "'a \<Rightarrow> 'k::linorder"
  assumes "\<And>a b. k (f a b) = max (k a) (k b)"
  shows "k (foldl f a xs) = Max (k ` insert a (set xs))"
  using assms
proof (induction xs arbitrary: a)
  case (Cons x xs)
  have "k (foldl f (f a x) xs) = Max (k ` insert (f a x) (set xs))"
    using Cons by blast
  also have "k ` insert (f a x) (set xs) = insert (max (k a) (k x)) (k ` set xs)"
    using Cons.prems by simp
  also have "Max \<dots> = Max (insert (k a) (insert (k x) (k ` set xs)))"
    by (cases "xs = []") (simp_all add: max.assoc)
  finally show ?case by (simp add: insert_commute)
qed simp

lemma foldl_max_Max: "foldl max (a::'k::linorder) xs = Max (insert a (set xs))"
  using foldl_choice_max[of "\<lambda>x. x" max a xs] by simp

section \<open>Generalised sums and ranked choices\<close>

text \<open>
  \<open>std::reduce\<close> may combine the values of its range in any order and grouping: the relation
  holds for every result the standard allows.
\<close>

inductive gsum :: "('a \<Rightarrow> 'a \<Rightarrow> 'a) \<Rightarrow> 'a list \<Rightarrow> 'a \<Rightarrow> bool" for f where
  gsum_one: "gsum f [x] x"
| gsum_split: "gsum f ys a \<Longrightarrow> gsum f zs b \<Longrightarrow> mset xs = mset ys + mset zs \<Longrightarrow> gsum f xs (f a b)"

inductive_cases gsum_NilE: "gsum f [] r"

lemma gsum_foldl:
  assumes "xs \<noteq> []"
  shows "gsum f xs (foldl f (hd xs) (tl xs))"
  using assms
proof (induction xs rule: rev_induct)
  case (snoc x xs)
  show ?case
  proof (cases "xs = []")
    case True
    then show ?thesis by (simp add: gsum_one)
  next
    case False
    with snoc.IH have "gsum f xs (foldl f (hd xs) (tl xs))" by simp
    from gsum_split[OF this gsum_one[of f x], of "xs @ [x]"] False
    show ?thesis by simp
  qed
qed simp

lemma gsum_Nil [simp]: "\<not> gsum f [] r"
proof
  assume "gsum f [] r"
  then show False by (induction "[] :: 'a list" r rule: gsum.induct) auto
qed

text \<open>
  A binary choice that returns the argument with the smaller key. Its generalised sums have
  the least key of the range; where the key determines the value, the sum is unique, whatever
  the order and grouping.
\<close>

locale ranked_choice =
  fixes pick :: "'a \<Rightarrow> 'a \<Rightarrow> 'a"
    and rank :: "'a \<Rightarrow> 'k::linorder"
    and valid :: "'a \<Rightarrow> bool"
  assumes pick_arg: "pick a b = a \<or> pick a b = b"
    and pick_rank: "valid a \<Longrightarrow> valid b \<Longrightarrow> rank (pick a b) = min (rank a) (rank b)"
begin

lemma valid_pick: "valid a \<Longrightarrow> valid b \<Longrightarrow> valid (pick a b)"
  using pick_arg[of a b] by (elim disjE) simp_all

lemma gsum_mem: "gsum pick xs r \<Longrightarrow> r \<in> set xs"
proof (induction rule: gsum.induct)
  case (gsum_split ys a zs b xs)
  then have "set xs = set ys \<union> set zs" by (metis set_mset_mset set_mset_union)
  with gsum_split have "a \<in> set xs" "b \<in> set xs" by auto
  with pick_arg[of a b] show ?case by (elim disjE) simp_all
qed simp

lemma gsum_least: "gsum pick xs r \<Longrightarrow> \<forall>x \<in> set xs. valid x \<Longrightarrow> y \<in> set xs \<Longrightarrow> rank r \<le> rank y"
proof (induction arbitrary: y rule: gsum.induct)
  case (gsum_split ys a zs b xs)
  have xs: "set xs = set ys \<union> set zs" using gsum_split.hyps by (metis set_mset_mset set_mset_union)
  have "valid a" "valid b"
    using gsum_mem gsum_split.hyps(1,2) gsum_split.prems(1) xs by auto
  then have "rank (pick a b) = min (rank a) (rank b)" by (rule pick_rank)
  with gsum_split xs show ?case by (auto simp: min_le_iff_disj)
qed simp

end

locale preference = ranked_choice +
  assumes rank_inj: "valid a \<Longrightarrow> valid b \<Longrightarrow> rank a = rank b \<Longrightarrow> a = b"
begin

lemma pick_comm: "valid a \<Longrightarrow> valid b \<Longrightarrow> pick a b = pick b a"
  by (rule rank_inj) (auto simp: valid_pick pick_rank min.commute)

lemma pick_assoc:
  "valid a \<Longrightarrow> valid b \<Longrightarrow> valid c \<Longrightarrow> pick (pick a b) c = pick a (pick b c)"
  by (rule rank_inj) (auto simp: valid_pick pick_rank min.assoc)

lemma pick_idem: "pick a a = a"
  using pick_arg[of a a] by (elim disjE) simp_all

lemma gsum_unique:
  assumes "gsum pick xs r" "gsum pick ys s" "set xs = set ys" "\<forall>x \<in> set xs. valid x"
  shows "r = s"
proof (rule rank_inj)
  have m: "r \<in> set xs" "s \<in> set ys" using assms gsum_mem by blast+
  with assms show "valid r" "valid s" by auto
  show "rank r = rank s"
    using gsum_least[OF assms(1)] gsum_least[OF assms(2)] m assms(3,4) by (intro antisym) auto
qed

end

end
