(* ===== verification/Ieee754.thy ===== *)
theory Ieee754
  imports Prelude
begin

text \<open>
  The floating-point values of the program at bit level. A C++ \<open>float\<close> is a 32-bit word and
  a \<open>double\<close> a 64-bit word in the IEEE-754 binary32 and binary64 formats: comparison is the
  order of the signed magnitudes with the NaN cases apart, arithmetic is the exact dyadic
  result rounded to nearest, ties to even. A NaN result is the quiet NaN without payload;
  expressions are not contracted to fused multiply-adds.
\<close>

type_synonym f32 = "32 word"
type_synonym f64 = "64 word"

section \<open>Integers for the significands\<close>

fun bitlen :: "int \<Rightarrow> int" where
  "bitlen n = (if n \<le> 0 then 0 else 1 + bitlen (n div 2))"

fun isqrt :: "int \<Rightarrow> int" where
  "isqrt n = (if n \<le> 0 then 0 else
     let r = 2 * isqrt (n div 4) in if (r + 1) * (r + 1) \<le> n then r + 1 else r)"

declare bitlen.simps [simp del] isqrt.simps [simp del]

lemma bitlen_nonpos [simp]: "n \<le> 0 \<Longrightarrow> bitlen n = 0"
  by (simp add: bitlen.simps)

lemma bitlen_nonneg [simp]: "0 \<le> bitlen n"
proof (induction n rule: bitlen.induct)
  case (1 n)
  then show ?case by (subst bitlen.simps) simp
qed

lemma bitlen_pos: "0 < n \<Longrightarrow> 0 < bitlen n"
  by (subst bitlen.simps) (simp add: add_pos_nonneg)

lemma bitlen_bounds: "0 < n \<Longrightarrow> 2 ^ nat (bitlen n - 1) \<le> n \<and> n < 2 ^ nat (bitlen n)"
proof (induction n rule: bitlen.induct)
  case (1 n)
  show ?case
  proof (cases "n = 1")
    case True
    then show ?thesis by (simp add: bitlen.simps)
  next
    case False
    with 1 have n2: "0 < n div 2" by simp
    define k where "k = bitlen (n div 2)"
    have IH: "2 ^ nat (k - 1) \<le> n div 2" "n div 2 < 2 ^ nat k"
      using 1 n2 by (simp_all add: k_def)
    have k: "0 < k" using n2 by (simp add: k_def bitlen_pos)
    have e: "bitlen n = 1 + k" using 1 by (subst bitlen.simps) (simp add: k_def)
    have "nat k = Suc (nat (k - 1))" using k by simp
    then have "(2::int) ^ nat k = 2 * 2 ^ nat (k - 1)" by simp
    with IH have "2 ^ nat k \<le> n" "n < 2 * 2 ^ nat k" by linarith+
    moreover have "nat (1 + k) = Suc (nat k)" using k by simp
    ultimately show ?thesis using e by simp
  qed
qed

lemma isqrt_bounds: "0 \<le> n \<Longrightarrow> 0 \<le> isqrt n \<and> isqrt n * isqrt n \<le> n \<and> n < (isqrt n + 1) * (isqrt n + 1)"
proof (induction n rule: isqrt.induct)
  case (1 n)
  show ?case
  proof (cases "n = 0")
    case True
    then show ?thesis by (simp add: isqrt.simps)
  next
    case False
    define q where "q = isqrt (n div 4)"
    have IH: "0 \<le> q" "q * q \<le> n div 4" "n div 4 < (q + 1) * (q + 1)"
      using 1 False by (simp_all add: q_def)
    have lo: "4 * (q * q) \<le> n" using IH(2) by linarith
    have "n div 4 + 1 \<le> (q + 1) * (q + 1)" using IH(3) by linarith
    then have hi: "n < 4 * ((q + 1) * (q + 1))" by linarith
    have e: "isqrt n = (if (2 * q + 1) * (2 * q + 1) \<le> n then 2 * q + 1 else 2 * q)"
      using False 1 by (subst isqrt.simps) (simp add: q_def Let_def)
    show ?thesis
    proof (cases "(2 * q + 1) * (2 * q + 1) \<le> n")
      case True
      with e hi IH(1) show ?thesis by (simp add: algebra_simps)
    next
      case False
      with e lo IH(1) show ?thesis by (simp add: algebra_simps)
    qed
  qed
qed

text \<open>Division by a power of two, rounded to nearest with ties to even.\<close>

definition rne :: "int \<Rightarrow> nat \<Rightarrow> int" where
  "rne m k = (let q = m div 2 ^ k; r = m mod 2 ^ k in
     if 2 ^ k < 2 * r \<or> (2 * r = 2 ^ k \<and> odd q) then q + 1 else q)"

lemma rne_0 [simp]: "rne m 0 = m"
  by (simp add: rne_def)

lemma rne_exact: "rne (m * 2 ^ k) k = m"
  by (simp add: rne_def)

lemma rne_error: "2 * \<bar>rne m k * 2 ^ k - m\<bar> \<le> 2 ^ k"
proof -
  define p q r :: int where "p = 2 ^ k" and "q = m div p" and "r = m mod p"
  have m: "m = q * p + r" by (simp add: q_def r_def)
  have "0 \<le> r" "r < p" by (simp_all add: r_def p_def)
  moreover have "rne m k = (if p < 2 * r \<or> (2 * r = p \<and> odd q) then q + 1 else q)"
    by (simp add: rne_def Let_def p_def q_def r_def)
  ultimately show ?thesis
    unfolding p_def[symmetric] by (auto simp: m algebra_simps)
qed

section \<open>Encoding a rounded result\<close>

text \<open>
  \<open>round_pos mb emin infb m e\<close> is the bit pattern of \<open>m * 2 ^ e\<close> in the format with \<open>mb\<close>
  stored significand bits, least exponent \<open>emin\<close> and infinity at \<open>infb\<close>. The exponent field and
  the significand are one number, so a carry out of the significand moves to the next exponent
  by itself and subnormal results need no case of their own.
\<close>

definition round_pos :: "nat \<Rightarrow> int \<Rightarrow> int \<Rightarrow> int \<Rightarrow> int \<Rightarrow> int" where
  "round_pos mb emin infb m e =
     (if m = 0 then 0 else
      let e' = max (e + bitlen m - (int mb + 1)) emin;
          q = (if e \<le> e' then rne m (nat (e' - e)) else m * 2 ^ nat (e - e'));
          bits = (e' - emin) * 2 ^ mb + q
      in min bits infb)"

lemma round_pos_le_inf: "0 \<le> infb \<Longrightarrow> round_pos mb emin infb m e \<le> infb"
  by (simp add: round_pos_def Let_def)

section \<open>binary32\<close>

definition f32_mag :: "f32 \<Rightarrow> int" where
  "f32_mag x = uint x mod 2 ^ 31"

definition f32_neg :: "f32 \<Rightarrow> bool" where
  "f32_neg x \<longleftrightarrow> 2 ^ 31 \<le> uint x"

definition f32_isnan :: "f32 \<Rightarrow> bool" where
  "f32_isnan x \<longleftrightarrow> 0x7F800000 < f32_mag x"

definition f32_isinf :: "f32 \<Rightarrow> bool" where
  "f32_isinf x \<longleftrightarrow> f32_mag x = 0x7F800000"

definition f32_key :: "f32 \<Rightarrow> int" where
  "f32_key x = (if f32_neg x then - f32_mag x else f32_mag x)"

definition f32_lt :: "f32 \<Rightarrow> f32 \<Rightarrow> bool" where
  "f32_lt a b \<longleftrightarrow> \<not> f32_isnan a \<and> \<not> f32_isnan b \<and> f32_key a < f32_key b"

definition f32_le :: "f32 \<Rightarrow> f32 \<Rightarrow> bool" where
  "f32_le a b \<longleftrightarrow> \<not> f32_isnan a \<and> \<not> f32_isnan b \<and> f32_key a \<le> f32_key b"

definition f32_eq :: "f32 \<Rightarrow> f32 \<Rightarrow> bool" where
  "f32_eq a b \<longleftrightarrow> \<not> f32_isnan a \<and> \<not> f32_isnan b \<and> f32_key a = f32_key b"

definition f32_man :: "f32 \<Rightarrow> int" where
  "f32_man x = (let e = f32_mag x div 2 ^ 23; m = f32_mag x mod 2 ^ 23
                in if e = 0 then m else m + 2 ^ 23)"

definition f32_exp :: "f32 \<Rightarrow> int" where
  "f32_exp x = (let e = f32_mag x div 2 ^ 23 in if e = 0 then - 149 else e - 150)"

definition f32_nan :: f32 where "f32_nan = 0x7FC00000"

definition f32_inf :: "bool \<Rightarrow> f32" where
  "f32_inf neg = (if neg then 0xFF800000 else 0x7F800000)"

definition f32_pack :: "bool \<Rightarrow> int \<Rightarrow> int \<Rightarrow> f32" where
  "f32_pack neg m e =
     word_of_int (round_pos 23 (- 149) 0x7F800000 m e + (if neg then 2 ^ 31 else 0))"

definition f32_uminus :: "f32 \<Rightarrow> f32" where
  "f32_uminus x = x XOR 0x80000000"

definition f32_abs :: "f32 \<Rightarrow> f32" where
  "f32_abs x = x AND 0x7FFFFFFF"

definition f32_add :: "f32 \<Rightarrow> f32 \<Rightarrow> f32" where
  "f32_add a b =
     (if f32_isnan a \<or> f32_isnan b then f32_nan
      else if f32_isinf a then
        (if f32_isinf b \<and> f32_neg a \<noteq> f32_neg b then f32_nan else a)
      else if f32_isinf b then b
      else
        let e = min (f32_exp a) (f32_exp b);
            va = f32_man a * 2 ^ nat (f32_exp a - e) * (if f32_neg a then - 1 else 1);
            vb = f32_man b * 2 ^ nat (f32_exp b - e) * (if f32_neg b then - 1 else 1);
            v = va + vb
        in if v = 0 then (if f32_neg a \<and> f32_neg b then 0x80000000 else 0)
           else f32_pack (v < 0) \<bar>v\<bar> e)"

definition f32_sub :: "f32 \<Rightarrow> f32 \<Rightarrow> f32" where
  "f32_sub a b = (if f32_isnan a \<or> f32_isnan b then f32_nan else f32_add a (f32_uminus b))"

definition f32_mul :: "f32 \<Rightarrow> f32 \<Rightarrow> f32" where
  "f32_mul a b =
     (let s = (f32_neg a \<noteq> f32_neg b) in
      if f32_isnan a \<or> f32_isnan b then f32_nan
      else if f32_isinf a then (if f32_mag b = 0 then f32_nan else f32_inf s)
      else if f32_isinf b then (if f32_mag a = 0 then f32_nan else f32_inf s)
      else f32_pack s (f32_man a * f32_man b) (f32_exp a + f32_exp b))"

text \<open>The square root scales the significand to at least 58 bits and an even exponent, and
  appends a sticky bit when the integer root is not exact.\<close>

definition f32_sqrt :: "f32 \<Rightarrow> f32" where
  "f32_sqrt x =
     (if f32_isnan x then f32_nan
      else if f32_mag x = 0 then x
      else if f32_neg x then f32_nan
      else if f32_isinf x then x
      else
        let k = (if even (f32_exp x) then 58 else 59 :: nat);
            m = f32_man x * 2 ^ k;
            q = isqrt m
        in f32_pack False (2 * q + (if q * q = m then 0 else 1)) ((f32_exp x - int k) div 2 - 1))"

section \<open>binary64 and the conversions\<close>

definition f64_mag :: "f64 \<Rightarrow> int" where
  "f64_mag x = uint x mod 2 ^ 63"

definition f64_neg :: "f64 \<Rightarrow> bool" where
  "f64_neg x \<longleftrightarrow> 2 ^ 63 \<le> uint x"

definition f64_isnan :: "f64 \<Rightarrow> bool" where
  "f64_isnan x \<longleftrightarrow> 0x7FF0000000000000 < f64_mag x"

definition f64_isinf :: "f64 \<Rightarrow> bool" where
  "f64_isinf x \<longleftrightarrow> f64_mag x = 0x7FF0000000000000"

definition f64_key :: "f64 \<Rightarrow> int" where
  "f64_key x = (if f64_neg x then - f64_mag x else f64_mag x)"

definition f64_lt :: "f64 \<Rightarrow> f64 \<Rightarrow> bool" where
  "f64_lt a b \<longleftrightarrow> \<not> f64_isnan a \<and> \<not> f64_isnan b \<and> f64_key a < f64_key b"

definition f64_le :: "f64 \<Rightarrow> f64 \<Rightarrow> bool" where
  "f64_le a b \<longleftrightarrow> \<not> f64_isnan a \<and> \<not> f64_isnan b \<and> f64_key a \<le> f64_key b"

definition f64_man :: "f64 \<Rightarrow> int" where
  "f64_man x = (let e = f64_mag x div 2 ^ 52; m = f64_mag x mod 2 ^ 52
                in if e = 0 then m else m + 2 ^ 52)"

definition f64_exp :: "f64 \<Rightarrow> int" where
  "f64_exp x = (let e = f64_mag x div 2 ^ 52 in if e = 0 then - 1074 else e - 1075)"

definition f64_of_f32 :: "f32 \<Rightarrow> f64" where
  "f64_of_f32 x =
     (if f32_isnan x then 0x7FF8000000000000
      else word_of_int
        ((if f32_isinf x then 0x7FF0000000000000
          else round_pos 52 (- 1074) 0x7FF0000000000000 (f32_man x) (f32_exp x))
         + (if f32_neg x then 2 ^ 63 else 0)))"

definition f32_of_f64 :: "f64 \<Rightarrow> f32" where
  "f32_of_f64 x =
     (if f64_isnan x then f32_nan
      else if f64_isinf x then f32_inf (f64_neg x)
      else f32_pack (f64_neg x) (f64_man x) (f64_exp x))"

section \<open>The order on numbers\<close>

text \<open>On values that are not NaN the comparison is a linear preorder; both zeros have key 0.\<close>

lemma f32_lt_irrefl [simp]: "\<not> f32_lt a a"
  by (simp add: f32_lt_def)

lemma f32_lt_trans: "f32_lt a b \<Longrightarrow> f32_lt b c \<Longrightarrow> f32_lt a c"
  by (simp add: f32_lt_def)

lemma f32_lt_asym: "f32_lt a b \<Longrightarrow> \<not> f32_lt b a"
  by (simp add: f32_lt_def)

lemma f32_not_lt: "\<not> f32_isnan a \<Longrightarrow> \<not> f32_isnan b \<Longrightarrow> \<not> f32_lt a b \<longleftrightarrow> f32_key b \<le> f32_key a"
  by (auto simp: f32_lt_def)

lemma f32_lt_key: "\<not> f32_isnan a \<Longrightarrow> \<not> f32_isnan b \<Longrightarrow> f32_lt a b \<longleftrightarrow> f32_key a < f32_key b"
  by (simp add: f32_lt_def)

lemma f32_mag_nonneg [simp]: "0 \<le> f32_mag x"
  by (simp add: f32_mag_def)

text \<open>A non-NaN value other than zero is determined by its key.\<close>

lemma f32_key_inj:
  assumes "f32_key a = f32_key b" and "f32_key a \<noteq> 0"
  shows "a = b"
proof -
  have arith: "\<lbrakk>(if p then - x else x) = (if q then - y else y); (if p then - x else x) \<noteq> 0;
      0 \<le> x; 0 \<le> y\<rbrakk> \<Longrightarrow> x = y \<and> x \<noteq> 0 \<and> p = q" for x y :: int and p q
    by (auto split: if_splits)
  have m: "f32_mag a = f32_mag b" "f32_mag a \<noteq> 0" "f32_neg a = f32_neg b"
    using arith[OF assms[unfolded f32_key_def] f32_mag_nonneg f32_mag_nonneg] by simp_all
  have split: "uint x = f32_mag x + (if f32_neg x then 2 ^ 31 else 0)" for x :: f32
  proof -
    have b: "0 \<le> uint x" "uint x < 2 ^ 32" using uint_bounded[of x] by simp_all
    have "uint x mod 2 ^ 31 = uint x - 2 ^ 31" if "2 ^ 31 \<le> uint x"
      using b that by (intro int_mod_pos_eq[where q = 1]) simp_all
    with b show ?thesis by (simp add: f32_mag_def f32_neg_def)
  qed
  have "uint a = uint b" using m by (simp add: split[of a] split[of b])
  then show ?thesis by (rule word_uint_eqI)
qed

lemmas f32_defs [float_simps] =
  f32_mag_def f32_neg_def f32_isnan_def f32_isinf_def f32_key_def f32_lt_def f32_le_def f32_eq_def
  f32_man_def f32_exp_def f32_nan_def f32_inf_def f32_pack_def f32_uminus_def f32_abs_def
  f64_mag_def f64_neg_def f64_isnan_def f64_isinf_def f64_key_def f64_lt_def f64_le_def f64_man_def
  f64_exp_def f64_of_f32_def f32_of_f64_def f32_add_def f32_sub_def f32_mul_def f32_sqrt_def round_pos_def rne_def bitlen.simps isqrt.simps

end
