(* ===== verification/Uuid.thy ===== *)
theory Uuid
  imports Prelude
begin

text \<open>
  Identifiers (\<open>include/data/Base.h\<close>: \<open>ID\<close> is \<open>boost::uuids::uuid\<close>) and the text form in which
  the database stores them: \<open>to_string\<close> and the stream extraction of
  \<open>thirdparty/boost/uuid/uuid_io.hpp\<close>, with the round trip that makes them usable as keys.
  A uuid is a 128-bit word whose byte \<open>i\<close>, from the most significant end, is \<open>data[i]\<close>.
\<close>

type_synonym ID = "128 word"

section \<open>Bytes of a uuid\<close>

fun be_bytes :: "nat \<Rightarrow> int \<Rightarrow> int list" where
  "be_bytes 0 n = []"
| "be_bytes (Suc k) n = be_bytes k (n div 256) @ [n mod 256]"

definition of_be_bytes :: "int list \<Rightarrow> int" where
  "of_be_bytes bs = foldl (\<lambda>a b. 256 * a + b) 0 bs"

lemma length_be_bytes [simp]: "length (be_bytes k n) = k"
  by (induction k arbitrary: n) auto

lemma be_bytes_range: "b \<in> set (be_bytes k n) \<Longrightarrow> 0 \<le> b \<and> b < 256"
  by (induction k arbitrary: n) auto

lemma of_be_bytes_be_bytes: "0 \<le> n \<Longrightarrow> n < 256 ^ k \<Longrightarrow> of_be_bytes (be_bytes k n) = n"
proof (induction k arbitrary: n)
  case 0
  then show ?case by (simp add: of_be_bytes_def)
next
  case (Suc k)
  have "of_be_bytes (be_bytes k (n div 256)) = n div 256"
    using Suc by (intro Suc.IH) auto
  then show ?case by (simp add: of_be_bytes_def)
qed

definition uuid_data :: "ID \<Rightarrow> int list" where
  "uuid_data u = be_bytes 16 (uint u)"

definition uuid_of_data :: "int list \<Rightarrow> ID" where
  "uuid_of_data bs = word_of_int (of_be_bytes bs)"

lemma length_uuid_data [simp]: "length (uuid_data u) = 16"
  by (simp add: uuid_data_def)

lemma uuid_data_range: "b \<in> set (uuid_data u) \<Longrightarrow> 0 \<le> b \<and> b < 256"
  by (simp add: uuid_data_def be_bytes_range)

lemma uuid_of_data_uuid_data [simp]: "uuid_of_data (uuid_data u) = u"
proof -
  have "of_be_bytes (be_bytes 16 (uint u)) = uint u"
    using uint_bounded[of u] by (intro of_be_bytes_be_bytes) simp_all
  then show ?thesis by (simp add: uuid_of_data_def uuid_data_def)
qed

section \<open>Printing\<close>

definition to_char :: "int \<Rightarrow> char" where
  "to_char i = (if i \<le> 9 then char_of (48 + nat i) else char_of (97 + nat (i - 10)))"

definition dash_after :: "nat \<Rightarrow> bool" where
  "dash_after i \<longleftrightarrow> i = 3 \<or> i = 5 \<or> i = 7 \<or> i = 9"

fun print_bytes :: "nat \<Rightarrow> int list \<Rightarrow> string" where
  "print_bytes i [] = []"
| "print_bytes i (b # bs) =
     to_char (b div 16) # to_char (b mod 16) #
     (if dash_after i then CHR ''-'' # print_bytes (Suc i) bs else print_bytes (Suc i) bs)"

definition to_string :: "ID \<Rightarrow> string" where
  "to_string u = print_bytes 0 (uuid_data u)"

section \<open>Parsing\<close>

text \<open>\<open>is >> c\<close> for a character skips white space and fails at the end of the input.\<close>

definition is_space :: "char \<Rightarrow> bool" where
  "is_space c \<longleftrightarrow> of_char c \<in> {9::nat, 10, 11, 12, 13, 32}"

definition get_char :: "string \<Rightarrow> (char \<times> string) option" where
  "get_char s = (case dropWhile is_space s of [] \<Rightarrow> None | c # cs \<Rightarrow> Some (c, cs))"

text \<open>The position of the upper-case form of a character in ''0123456789ABCDEF''.\<close>

definition xdigit :: "char \<Rightarrow> int option" where
  "xdigit c = (let n = of_char c :: nat in
     if 48 \<le> n \<and> n \<le> 57 then Some (int n - 48)
     else if 65 \<le> n \<and> n \<le> 70 then Some (int n - 55)
     else if 97 \<le> n \<and> n \<le> 102 then Some (int n - 87)
     else None)"

fun parse_bytes :: "nat \<Rightarrow> nat \<Rightarrow> string \<Rightarrow> (int list \<times> string) option" where
  "parse_bytes i 0 s = Some ([], s)"
| "parse_bytes i (Suc k) s =
     (case get_char s of None \<Rightarrow> None | Some (c1, s1) \<Rightarrow>
      (case xdigit c1 of None \<Rightarrow> None | Some h \<Rightarrow>
       (case get_char s1 of None \<Rightarrow> None | Some (c2, s2) \<Rightarrow>
        (case xdigit c2 of None \<Rightarrow> None | Some l \<Rightarrow>
         (case (if dash_after i
                then (case get_char s2 of None \<Rightarrow> None
                      | Some (d, s3) \<Rightarrow> if d = CHR ''-'' then Some s3 else None)
                else Some s2) of None \<Rightarrow> None | Some s4 \<Rightarrow>
          (case parse_bytes (Suc i) k s4 of None \<Rightarrow> None
           | Some (bs, s') \<Rightarrow> Some ((16 * h + l) # bs, s')))))))"

text \<open>\<open>None\<close>: the stream has its fail bit set and the target keeps its old value.\<close>

definition from_stream :: "string \<Rightarrow> ID option" where
  "from_stream s = map_option (\<lambda>(bs, _). uuid_of_data bs) (parse_bytes 0 16 s)"

section \<open>Round trip\<close>

lemma nibble_cases:
  assumes "0 \<le> d" "d < (16::int)"
  shows "xdigit (to_char d) = Some d \<and> \<not> is_space (to_char d)"
proof -
  have "d = 0 \<or> d = 1 \<or> d = 2 \<or> d = 3 \<or> d = 4 \<or> d = 5 \<or> d = 6 \<or> d = 7 \<or> d = 8 \<or> d = 9 \<or>
      d = 10 \<or> d = 11 \<or> d = 12 \<or> d = 13 \<or> d = 14 \<or> d = 15"
    using assms by presburger
  then show ?thesis
    by (elim disjE) (simp_all add: xdigit_def to_char_def is_space_def Let_def)
qed

lemma get_char_nibble: "0 \<le> d \<Longrightarrow> d < 16 \<Longrightarrow> get_char (to_char d # s) = Some (to_char d, s)"
  by (simp add: get_char_def nibble_cases)

lemma get_char_dash [simp]: "get_char (CHR ''-'' # s) = Some (CHR ''-'', s)"
  by (simp add: get_char_def is_space_def)

lemma parse_print_bytes:
  "\<forall>b \<in> set bs. 0 \<le> b \<and> b < 256 \<Longrightarrow>
   parse_bytes i (length bs) (print_bytes i bs @ s) = Some (bs, s)"
proof (induction bs arbitrary: i)
  case (Cons b bs)
  then have r: "0 \<le> b div 16" "b div 16 < 16" "0 \<le> b mod 16" "b mod 16 < 16" by auto
  have "parse_bytes (Suc i) (length bs) (print_bytes (Suc i) bs @ s) = Some (bs, s)"
    using Cons by simp
  with r show ?case
    by (simp add: get_char_nibble nibble_cases mult_div_mod_eq)
qed simp

lemma from_stream_to_string [simp]: "from_stream (to_string u) = Some u"
  using parse_print_bytes[of "uuid_data u" 0 "[]"] uuid_data_range[of _ u]
  by (simp add: from_stream_def to_string_def)

lemma to_string_inj [simp]: "to_string u = to_string v \<longleftrightarrow> u = v"
  by (metis from_stream_to_string option.inject)

end
