(* ===== verification/Attributes.thy ===== *)
theory Attributes
  imports Ieee754 Uuid "HOL-Library.List_Lexorder" "HOL-Library.Char_ord"
begin

text \<open>
  The data of a document: coordinates, radii, set operations, names and nodes
  (\<open>include/data\<close>, \<open>src/data\<close>, \<open>src/base\<close>), node types and the priority between concurrent
  attribute values (\<open>src/db/NodeType.cpp\<close>, \<open>src/db/attribute_priority.cpp\<close>).
\<close>

section \<open>Numbers\<close>

definition approximately_equal :: "f32 \<Rightarrow> f32 \<Rightarrow> f32 \<Rightarrow> bool" where
  "approximately_equal a b epsilon =
     f32_le (f32_abs (f32_sub a b))
       (f32_mul (if f32_lt (f32_abs a) (f32_abs b) then f32_abs b else f32_abs a) epsilon)"

definition is_deleted :: "bool \<Rightarrow> int" where
  "is_deleted deleted = (if deleted then 1 else 0)"

text \<open>The conversion of a signed column value to \<open>size_t\<close>.\<close>

definition size_of_int :: "int \<Rightarrow> nat" where
  "size_of_int i = nat (i mod 2 ^ 64)"

section \<open>Coordinates\<close>

record coord =
  cx :: f32
  cy :: f32
  cz :: f32

definition Coord :: "f32 \<Rightarrow> f32 \<Rightarrow> f32 \<Rightarrow> coord" where
  "Coord x y z = \<lparr>cx = x, cy = y, cz = z\<rparr>"

definition Coord_default :: coord where
  "Coord_default = \<lparr>cx = 0, cy = 0, cz = 0\<rparr>"

definition distance_from_origin :: "coord \<Rightarrow> f32" where
  "distance_from_origin c =
     f32_sqrt (f32_add (f32_add (f32_mul (cx c) (cx c)) (f32_mul (cy c) (cy c)))
                       (f32_mul (cz c) (cz c)))"

text \<open>The tolerance is the float nearest to 0.0001.\<close>

definition coord_eq :: "coord \<Rightarrow> coord \<Rightarrow> bool" where
  "coord_eq a b \<longleftrightarrow> approximately_equal (cx a) (cx b) 0x38D1B717
     \<and> approximately_equal (cy a) (cy b) 0x38D1B717
     \<and> approximately_equal (cz a) (cz b) 0x38D1B717"

section \<open>Radii\<close>

record radius =
  magnitude :: f32

definition Radius_default :: radius where
  "Radius_default = \<lparr>magnitude = 0\<rparr>"

definition Radius :: "f32 \<Rightarrow> fault + radius" where
  "Radius m = (if f32_le 0 m then Inr \<lparr>magnitude = m\<rparr> else Inl AssertFailed)"

definition radius_eq :: "radius \<Rightarrow> radius \<Rightarrow> bool" where
  "radius_eq left right = f32_eq (magnitude left) (magnitude right)"

section \<open>Set operations and node types\<close>

datatype SetOperationType = Union_op | Intersection_op

definition from_operationType :: "SetOperationType \<Rightarrow> nat" where
  "from_operationType type = (case type of Union_op \<Rightarrow> 0 | Intersection_op \<Rightarrow> 1)"

definition to_operationType :: "nat \<Rightarrow> SetOperationType option" where
  "to_operationType typeId =
     (if typeId = 0 then Some Union_op else if typeId = 1 then Some Intersection_op else None)"

datatype NodeType = Sphere_type | SetOperation_type

definition to_integral :: "NodeType \<Rightarrow> nat" where
  "to_integral type = (case type of Sphere_type \<Rightarrow> 0 | SetOperation_type \<Rightarrow> 1)"

definition from_integral :: "nat \<Rightarrow> NodeType option" where
  "from_integral integral =
     (if integral = 0 then Some Sphere_type
      else if integral = 1 then Some SetOperation_type else None)"

lemma to_from_operationType [simp]: "to_operationType (from_operationType t) = Some t"
  by (cases t) (simp_all add: to_operationType_def from_operationType_def)

lemma from_to_integral [simp]: "from_integral (to_integral t) = Some t"
  by (cases t) (simp_all add: from_integral_def to_integral_def)

lemma to_operationType_Some: "to_operationType n = Some t \<longleftrightarrow> n = from_operationType t"
  by (cases t) (auto simp: to_operationType_def from_operationType_def)

lemma from_integral_Some: "from_integral n = Some t \<longleftrightarrow> n = to_integral t"
  by (cases t) (auto simp: from_integral_def to_integral_def)

lemma from_operationType_le: "from_operationType t \<le> 1"
  by (cases t) (simp_all add: from_operationType_def)

lemma to_integral_le: "to_integral t \<le> 1"
  by (cases t) (simp_all add: to_integral_def)

lemma size_of_int_of_nat [simp]: "n < 2 ^ 64 \<Longrightarrow> size_of_int (int n) = n"
  unfolding size_of_int_def by (subst mod_pos_pos_trivial) auto

section \<open>Names\<close>

record name =
  name_value :: string

text \<open>The characters of the raw string literal, in its order: a raw string keeps both
  backslashes.\<close>

definition allowedCharacters :: string where
  "allowedCharacters = map char_of
     ([32..<39] @ [92] @ [39..<92] @ [92] @ [92..<(127 :: nat)])"

definition Name_default :: name where
  "Name_default = \<lparr>name_value = []\<rparr>"

definition Name :: "string \<Rightarrow> fault + name" where
  "Name s = (if s = [] then Inl AssertFailed
     else if list_all (\<lambda>chr. chr \<in> set allowedCharacters) s then Inr \<lparr>name_value = s\<rparr>
     else Inl AssertFailed)"

definition name_eq :: "name \<Rightarrow> name \<Rightarrow> bool" where
  "name_eq left right \<longleftrightarrow> name_value left = name_value right"

definition name_less :: "name \<Rightarrow> name \<Rightarrow> bool" where
  "name_less left right \<longleftrightarrow> name_value left < name_value right"

definition valid_name :: "name \<Rightarrow> bool" where
  "valid_name n \<longleftrightarrow> Name (name_value n) = Inr n"

lemma name_surj [simp]: "\<lparr>name_value = name_value n\<rparr> = n"
  by simp

lemma Name_Inr_iff: "Name s = Inr n \<longleftrightarrow> name_value n = s \<and> valid_name n"
  by (cases n) (auto simp: Name_def valid_name_def split: if_splits)

lemma valid_name_Name [simp]: "valid_name n \<Longrightarrow> Name (name_value n) = Inr n"
  by (simp add: valid_name_def)

text \<open>The allowed characters are the printable ASCII characters.\<close>

lemma set_allowedCharacters: "set allowedCharacters = {c. 32 \<le> (of_char c :: nat) \<and> (of_char c :: nat) < 127}"
proof -
  have "set allowedCharacters = char_of ` {32..<(127::nat)}"
  proof -
    have "{32..<39} \<union> {92} \<union> {39..<92} \<union> {92} \<union> {92..<127} = {32..<(127::nat)}" by auto
    then show ?thesis
      by (simp only: allowedCharacters_def set_map set_append set_upt list.set image_Un[symmetric] Un_assoc)
  qed
  also have "\<dots> = {c. 32 \<le> (of_char c :: nat) \<and> (of_char c :: nat) < 127}"
  proof (intro equalityI subsetI)
    fix c :: char
    assume "c \<in> {c. 32 \<le> (of_char c :: nat) \<and> (of_char c :: nat) < 127}"
    then have "(of_char c :: nat) \<in> {32..<127}" by simp
    then show "c \<in> char_of ` {32..<(127::nat)}"
      by (intro image_eqI[of c char_of "of_char c :: nat"]) simp_all
  next
    fix c :: char
    assume "c \<in> char_of ` {32..<(127::nat)}"
    then obtain n where "n \<in> {32..<(127::nat)}" "c = char_of n" by auto
    then show "c \<in> {c. 32 \<le> (of_char c :: nat) \<and> (of_char c :: nat) < 127}" by simp
  qed
  finally show ?thesis .
qed

section \<open>Attributes and nodes\<close>

datatype attribute = ACoord coord | ARadius radius | ASetOp SetOperationType | AName name

datatype node = Sphere ID coord radius | SetOp ID SetOperationType

fun node_id :: "node \<Rightarrow> ID" where
  "node_id (Sphere uid c r) = uid"
| "node_id (SetOp uid t) = uid"

section \<open>Priority between concurrent values\<close>

definition preferred_radius :: "radius \<Rightarrow> radius \<Rightarrow> radius" where
  "preferred_radius left right =
     (if f32_lt (magnitude left) (magnitude right) then left else right)"

definition preferred_coord :: "coord \<Rightarrow> coord \<Rightarrow> coord" where
  "preferred_coord left right =
     (if f32_lt (distance_from_origin left) (distance_from_origin right) then left else right)"

definition preferred_name :: "name \<Rightarrow> name \<Rightarrow> name" where
  "preferred_name left right = (if name_value left < name_value right then left else right)"

definition preferred_setop :: "SetOperationType \<Rightarrow> SetOperationType \<Rightarrow> SetOperationType" where
  "preferred_setop left right =
     (if left = Union_op then left else if right = Union_op then right else left)"

text \<open>A radius that is a number; the two zeros, which compare equal, count once.\<close>

definition radius_number :: "radius \<Rightarrow> bool" where
  "radius_number r \<longleftrightarrow> \<not> f32_isnan (magnitude r) \<and> magnitude r \<noteq> 0x80000000"

definition coord_number :: "coord \<Rightarrow> bool" where
  "coord_number c \<longleftrightarrow> \<not> f32_isnan (distance_from_origin c)"

lemma f32_key_zero: "f32_key a = 0 \<Longrightarrow> a = 0 \<or> a = 0x80000000"
proof -
  assume "f32_key a = 0"
  then have m: "uint a mod 2 ^ 31 = 0" by (auto simp: f32_key_def f32_mag_def split: if_splits)
  define k where "k = uint a div 2 ^ 31"
  have k: "uint a = 2 ^ 31 * k"
    using div_mult_mod_eq[of "uint a" "2 ^ 31"] unfolding m k_def add_0_right by (metis mult.commute)
  have "0 \<le> uint a" "uint a < 2 ^ 32" using uint_bounded[of a] by simp_all
  with k have "k = 0 \<or> k = 1" by auto
  with k have "uint a = uint (0 :: f32) \<or> uint a = uint (0x80000000 :: f32)" by auto
  then show ?thesis by (auto intro: word_uint_eqI)
qed

interpretation radius_pref: preference preferred_radius "\<lambda>r. f32_key (magnitude r)" radius_number
proof
  fix a b
  show "preferred_radius a b = a \<or> preferred_radius a b = b"
    by (simp add: preferred_radius_def)
  assume v: "radius_number a" "radius_number b"
  then show "f32_key (magnitude (preferred_radius a b))
      = min (f32_key (magnitude a)) (f32_key (magnitude b))"
    by (auto simp: preferred_radius_def radius_number_def f32_lt_key)
  assume k: "f32_key (magnitude a) = f32_key (magnitude b)"
  have "magnitude a = magnitude b"
  proof (cases "f32_key (magnitude b) = 0")
    case True
    with v k show ?thesis
      using f32_key_zero[of "magnitude a"] f32_key_zero[of "magnitude b"]
      by (auto simp: radius_number_def)
  next
    case False
    with k show ?thesis by (auto intro: f32_key_inj)
  qed
  then show "a = b" by simp
qed

interpretation name_pref: preference preferred_name name_value "\<lambda>_. True"
  by unfold_locales (auto simp: preferred_name_def min_def)

interpretation setop_pref: preference preferred_setop from_operationType "\<lambda>_. True"
  by unfold_locales
    (auto simp: preferred_setop_def from_operationType_def split: SetOperationType.splits)

text \<open>Coordinates are ranked by their distance, which does not determine them.\<close>

interpretation coord_pref: ranked_choice preferred_coord
  "\<lambda>c. f32_key (distance_from_origin c)" coord_number
  by unfold_locales (auto simp: preferred_coord_def coord_number_def f32_lt_key)

end
