(* ===== verification/Tables.thy ===== *)
theory Tables
  imports Attributes
begin

text \<open>
  The tables both stores share: rows with the columns \<open>deleted\<close>, \<open>timestamp\<close> and \<open>entity\<close>, the
  SQL statements on them, and the two statement templates of the CRDT
  (\<open>LastWriterWinsTimestamp\<close> and \<open>CRDTCollectGarbage\<close>). A table is the list of its rows in
  insertion order; in which order a \<open>SELECT\<close> yields its rows is the engine's choice and a
  parameter wherever a statement has no \<open>ORDER BY\<close>. The record extension plays the role of the
  C++ template parameter \<open>Table\<close>.
\<close>

type_synonym timestamp = "64 word"

record row =
  deleted :: int
  timestamp :: timestamp
  entity :: string

section \<open>Statements\<close>

definition remove_from :: "('r \<Rightarrow> bool) \<Rightarrow> 'r list \<Rightarrow> 'r list" where
  "remove_from cond tbl = filter (\<lambda>r. \<not> cond r) tbl"

definition insert_into :: "'r \<Rightarrow> 'r list \<Rightarrow> 'r list" where
  "insert_into r tbl = tbl @ [r]"

text \<open>\<open>SELECT max(timestamp)\<close>: no row, no maximum.\<close>

definition max_timestamp :: "'a row_scheme list \<Rightarrow> timestamp option" where
  "max_timestamp rs = (case rs of [] \<Rightarrow> None
     | r # rest \<Rightarrow> Some (foldl (\<lambda>m q. max m (timestamp q)) (timestamp r) rest))"

definition LastWriterWinsTimestamp :: "'a row_scheme list \<Rightarrow> string \<Rightarrow> timestamp option" where
  "LastWriterWinsTimestamp tbl entity_id =
     max_timestamp (filter (\<lambda>r. deleted r = is_deleted False \<and> entity r = entity_id) tbl)"

definition CRDTCollectGarbage ::
    "string \<Rightarrow> timestamp \<Rightarrow> 'a row_scheme list \<Rightarrow> 'a row_scheme list" where
  "CRDTCollectGarbage entity_id ts tbl =
     remove_from (\<lambda>r. timestamp r < ts
        \<and> (entity r = entity_id \<or> deleted r = is_deleted True)) tbl"

text \<open>The rows a lookup reads: live rows of the entity at the last writer's timestamp.\<close>

definition latest_rows :: "'a row_scheme list \<Rightarrow> string \<Rightarrow> 'a row_scheme list" where
  "latest_rows tbl entity_id =
     filter (\<lambda>r. deleted r = is_deleted False \<and> entity r = entity_id
        \<and> Some (timestamp r) = LastWriterWinsTimestamp tbl entity_id) tbl"

text \<open>One garbage-collected write: the statement pair of every \<open>upsertI\<close> but one.\<close>

definition write_row :: "'a row_scheme list \<Rightarrow> 'a row_scheme \<Rightarrow> 'a row_scheme list" where
  "write_row tbl r = insert_into r (CRDTCollectGarbage (entity r) (timestamp r) tbl)"

abbreviation live :: "'a row_scheme \<Rightarrow> bool" where
  "live r \<equiv> deleted r = is_deleted False"

section \<open>Maxima\<close>

lemma is_deleted_simps [simp]:
  "is_deleted False = 0" "is_deleted True = 1"
  by (simp_all add: is_deleted_def)

lemma max_timestamp_None [simp]: "max_timestamp rs = None \<longleftrightarrow> rs = []"
  by (cases rs) (simp_all add: max_timestamp_def)

lemma max_timestamp_Max: "rs \<noteq> [] \<Longrightarrow> max_timestamp rs = Some (Max (timestamp ` set rs))"
proof (cases rs)
  case (Cons r rest)
  have "foldl (\<lambda>m q. max m (timestamp q)) (timestamp r) rest
      = foldl max (timestamp r) (map timestamp rest)"
    by (simp add: foldl_map)
  also have "\<dots> = Max (insert (timestamp r) (timestamp ` set rest))"
    by (simp add: foldl_max_Max)
  finally show ?thesis using Cons by (simp add: max_timestamp_def)
qed simp

lemma max_timestamp_Some_iff:
  "max_timestamp rs = Some m \<longleftrightarrow>
     (\<exists>r \<in> set rs. timestamp r = m) \<and> (\<forall>r \<in> set rs. timestamp r \<le> m)"
proof (cases "rs = []")
  case False
  then have "max_timestamp rs = Some m \<longleftrightarrow> Max (timestamp ` set rs) = m"
    by (simp add: max_timestamp_Max)
  also have "\<dots> \<longleftrightarrow> m \<in> timestamp ` set rs \<and> (\<forall>t \<in> timestamp ` set rs. t \<le> m)"
    using False by (intro Max_eq_iff) auto
  finally show ?thesis by auto
qed (simp add: max_timestamp_def)

lemma LWW_Some_iff:
  "LastWriterWinsTimestamp tbl e = Some m \<longleftrightarrow>
     (\<exists>r \<in> set tbl. live r \<and> entity r = e \<and> timestamp r = m)
     \<and> (\<forall>r \<in> set tbl. live r \<longrightarrow> entity r = e \<longrightarrow> timestamp r \<le> m)"
  by (auto simp: LastWriterWinsTimestamp_def max_timestamp_Some_iff)

lemma latest_rows_eq:
  "\<lbrakk>\<exists>r \<in> set tbl. live r \<and> entity r = e \<and> timestamp r = m;
    \<forall>r \<in> set tbl. live r \<longrightarrow> entity r = e \<longrightarrow> timestamp r \<le> m\<rbrakk>
   \<Longrightarrow> latest_rows tbl e = filter (\<lambda>r. live r \<and> entity r = e \<and> timestamp r = m) tbl"
proof -
  assume "\<exists>r \<in> set tbl. live r \<and> entity r = e \<and> timestamp r = m"
    and "\<forall>r \<in> set tbl. live r \<longrightarrow> entity r = e \<longrightarrow> timestamp r \<le> m"
  then have "LastWriterWinsTimestamp tbl e = Some m" by (simp add: LWW_Some_iff)
  then show ?thesis unfolding latest_rows_def by (intro filter_cong) auto
qed

lemma set_latest_rows:
  "set (latest_rows tbl e) =
     {r \<in> set tbl. live r \<and> entity r = e
        \<and> (\<forall>q \<in> set tbl. live q \<longrightarrow> entity q = e \<longrightarrow> timestamp q \<le> timestamp r)}"
  by (fastforce simp: latest_rows_def LWW_Some_iff eq_commute[of "Some _"])

lemma latest_rows_Nil_iff: "latest_rows tbl e = [] \<longleftrightarrow> (\<forall>r \<in> set tbl. live r \<longrightarrow> entity r \<noteq> e)"
proof
  assume n: "latest_rows tbl e = []"
  show "\<forall>r \<in> set tbl. live r \<longrightarrow> entity r \<noteq> e"
  proof (rule ccontr)
    assume "\<not> ?thesis"
    then have ne: "filter (\<lambda>r. live r \<and> entity r = e) tbl \<noteq> []" by (auto simp: filter_empty_conv)
    then obtain m where "LastWriterWinsTimestamp tbl e = Some m"
      unfolding LastWriterWinsTimestamp_def by (metis max_timestamp_None not_None_eq)
    then obtain r where "r \<in> set tbl" "live r" "entity r = e"
      "\<forall>q \<in> set tbl. live q \<longrightarrow> entity q = e \<longrightarrow> timestamp q \<le> timestamp r"
      by (auto simp: LWW_Some_iff)
    then have "r \<in> set (latest_rows tbl e)" by (simp add: set_latest_rows)
    with n show False by simp
  qed
next
  assume "\<forall>r \<in> set tbl. live r \<longrightarrow> entity r \<noteq> e"
  then show "latest_rows tbl e = []" by (auto simp: latest_rows_def filter_empty_conv)
qed

section \<open>What a write leaves\<close>

lemma set_write_row [table_simps]:
  "set (write_row tbl r) =
     insert r {q \<in> set tbl. \<not> (timestamp q < timestamp r \<and> (entity q = entity r \<or> deleted q = 1))}"
  by (auto simp: write_row_def insert_into_def CRDTCollectGarbage_def remove_from_def)

lemma set_run_subset: "set (foldl write_row tbl rs) \<subseteq> set tbl \<union> set rs"
  by (induction rs arbitrary: tbl) (fastforce simp: table_simps)+

text \<open>A live row is only collected by a later write to its own entity.\<close>

lemma run_keeps_row:
  assumes "r \<in> set tbl" "live r"
    and "\<forall>q \<in> set rs. entity q = entity r \<longrightarrow> timestamp q \<le> timestamp r"
  shows "r \<in> set (foldl write_row tbl rs)"
  using assms
proof (induction rs arbitrary: tbl)
  case (Cons q rs)
  have "r \<in> set (write_row tbl q)" using Cons.prems by (auto simp: table_simps)
  then show ?case using Cons.IH[of "write_row tbl q"] Cons.prems by simp
qed simp

lemma run_has_row:
  assumes "r \<in> set rs" "live r" "\<forall>q \<in> set rs. entity q = entity r \<longrightarrow> timestamp q \<le> timestamp r"
  shows "r \<in> set (foldl write_row tbl rs)"
proof -
  from assms(1) obtain xs ys where rs: "rs = xs @ r # ys" by (auto simp: in_set_conv_decomp)
  have "r \<in> set (write_row (foldl write_row tbl xs) r)" by (simp add: table_simps)
  then have "r \<in> set (foldl write_row (write_row (foldl write_row tbl xs) r) ys)"
    using assms(2,3) by (intro run_keeps_row) (auto simp: rs)
  then show ?thesis by (simp add: rs)
qed

text \<open>
  The history of an entity decides what a lookup reads as soon as one of its last writes is
  live: exactly the live writes with the greatest timestamp, in whatever order the writes
  came. On a tie between a live write and a tombstone the live write wins.
\<close>

lemma latest_rows_run:
  assumes "\<exists>r \<in> set rs. live r \<and> entity r = e \<and> timestamp r = m"
    and "\<forall>r \<in> set rs. entity r = e \<longrightarrow> timestamp r \<le> m"
  shows "set (latest_rows (foldl write_row [] rs) e)
       = {r \<in> set rs. live r \<and> entity r = e \<and> timestamp r = m}"
proof -
  let ?t = "foldl write_row [] rs"
  have sub: "set ?t \<subseteq> set rs" using set_run_subset[of "[]" rs] by simp
  have top: "r \<in> set ?t" if "r \<in> set rs" "live r" "entity r = e" "timestamp r = m" for r
    using that assms(2) by (intro run_has_row) auto
  have "latest_rows ?t e = filter (\<lambda>r. live r \<and> entity r = e \<and> timestamp r = m) ?t"
    using assms sub top by (intro latest_rows_eq) blast+
  then show ?thesis using sub top by auto
qed

text \<open>
  Conversely, when the writes arrive in the order of their timestamps and the last one of the
  entity is a tombstone newer than every live write, the entity is gone.
\<close>

lemma latest_rows_tombstone:
  assumes "deleted t = 1" "entity t = e" "\<forall>r \<in> set rs. timestamp r \<le> timestamp t"
    and "\<forall>r \<in> set rs. entity r = e \<longrightarrow> live r \<longrightarrow> timestamp r < timestamp t"
  shows "latest_rows (write_row (foldl write_row [] rs) t) e = []"
proof -
  have "set (foldl write_row [] rs) \<subseteq> set rs" using set_run_subset[of "[]" rs] by simp
  with assms show ?thesis by (auto simp: latest_rows_Nil_iff table_simps)
qed

section \<open>The last-writer-wins register\<close>

text \<open>
  What a store promises for one kind of attribute when it is only written: after any history of
  successful writes, a lookup of an entity reads exactly the values the store kept for the
  writes with the greatest timestamp. Everything a replica needs follows from that law alone.
\<close>

locale lww_register =
  fixes init :: 's
    and put :: "'s \<Rightarrow> ID \<Rightarrow> 'v \<Rightarrow> timestamp \<Rightarrow> fault + 's"
    and values_of :: "'s \<Rightarrow> ID \<Rightarrow> 'w set"
    and stored :: "'v \<Rightarrow> 'w option"
  assumes latest_values:
    "foldE (\<lambda>s w. case w of (i, v, t) \<Rightarrow> put s i v t) init h = Inr s \<Longrightarrow>
     values_of s e = {x. \<exists>v t. (e, v, t) \<in> set h \<and> stored v = Some x
        \<and> (\<forall>(i', v', t') \<in> set h. i' = e \<longrightarrow> t' \<le> t)}"
begin

lemma convergence:
  assumes "foldE (\<lambda>s w. case w of (i, v, t) \<Rightarrow> put s i v t) init h1 = Inr s1"
    and "foldE (\<lambda>s w. case w of (i, v, t) \<Rightarrow> put s i v t) init h2 = Inr s2"
    and "set h1 = set h2"
  shows "values_of s1 e = values_of s2 e"
  unfolding latest_values[OF assms(1)] latest_values[OF assms(2)] assms(3) ..

lemma last_writer_wins:
  assumes "foldE (\<lambda>s w. case w of (i, v, t) \<Rightarrow> put s i v t) init h = Inr s"
    and "(e, v, t) \<in> set h" "stored v = Some x"
    and "\<forall>(i', v', t') \<in> set h. i' = e \<longrightarrow> (i', v', t') \<noteq> (e, v, t) \<longrightarrow> t' < t"
  shows "values_of s e = {x}"
proof -
  have "{y. \<exists>v' t'. (e, v', t') \<in> set h \<and> stored v' = Some y
        \<and> (\<forall>(i2, v2, t2) \<in> set h. i2 = e \<longrightarrow> t2 \<le> t')} = {x}" (is "?S = _")
  proof (intro equalityI subsetI)
    fix y assume "y \<in> ?S"
    then obtain v' t' where "(e, v', t') \<in> set h" "stored v' = Some y"
      "\<forall>(i2, v2, t2) \<in> set h. i2 = e \<longrightarrow> t2 \<le> t'" by auto
    with assms(2-4) show "y \<in> {x}" by fastforce
  next
    fix y assume "y \<in> {x}"
    then have "y = x" by simp
    moreover have "\<forall>(i2, v2, t2) \<in> set h. i2 = e \<longrightarrow> t2 \<le> t"
      using assms(4) by fastforce
    ultimately show "y \<in> ?S" using assms(2,3) by auto
  qed
  with latest_values[OF assms(1)] show ?thesis by simp
qed

lemma never_written:
  assumes "foldE (\<lambda>s w. case w of (i, v, t) \<Rightarrow> put s i v t) init h = Inr s"
    and "\<forall>(i', v', t') \<in> set h. i' \<noteq> e"
  shows "values_of s e = {}"
  using latest_values[OF assms(1), of e] assms(2) by fastforce

end

section \<open>Registers kept in a table\<close>

text \<open>
  A store that keeps one row per write, with or without collecting garbage first, and reads the
  latest rows of the entity is such a register.
\<close>

definition append_row :: "'r list \<Rightarrow> 'r \<Rightarrow> 'r list" where
  "append_row tbl r = insert_into r tbl"

lemma foldl_append_row: "foldl append_row tbl rs = tbl @ rs"
  by (induction rs arbitrary: tbl) (simp_all add: append_row_def insert_into_def)

lemma latest_rows_append_run:
  assumes "\<exists>r \<in> set rs. live r \<and> entity r = e \<and> timestamp r = m"
    and "\<forall>r \<in> set rs. entity r = e \<longrightarrow> timestamp r \<le> m"
  shows "set (latest_rows (foldl append_row [] rs) e)
       = {r \<in> set rs. live r \<and> entity r = e \<and> timestamp r = m}"
proof -
  have "latest_rows rs e = filter (\<lambda>r. live r \<and> entity r = e \<and> timestamp r = m) rs"
    using assms by (intro latest_rows_eq) auto
  then show ?thesis by (auto simp: foldl_append_row)
qed

locale table_register =
  fixes init :: 's
    and put :: "'s \<Rightarrow> ID \<Rightarrow> 'v \<Rightarrow> timestamp \<Rightarrow> fault + 's"
    and table_of :: "'s \<Rightarrow> 'a row_scheme list"
    and mk_row :: "ID \<Rightarrow> 'v \<Rightarrow> timestamp \<Rightarrow> 'a row_scheme option"
    and step :: "'a row_scheme list \<Rightarrow> 'a row_scheme \<Rightarrow> 'a row_scheme list"
    and val :: "'a row_scheme \<Rightarrow> 'w"
    and stored :: "'v \<Rightarrow> 'w option"
  assumes step_cases: "step = write_row \<or> step = append_row"
    and table_init: "table_of init = []"
    and put_Inr: "put s i v t = Inr s' \<Longrightarrow>
      \<exists>r. mk_row i v t = Some r \<and> table_of s' = step (table_of s) r"
    and row_Some: "mk_row i v t = Some r \<Longrightarrow>
      live r \<and> entity r = to_string i \<and> timestamp r = t \<and> stored v = Some (val r)"
begin

lemma run_table:
  "foldE (\<lambda>s w. case w of (i, v, t) \<Rightarrow> put s i v t) s h = Inr s' \<Longrightarrow>
   \<exists>rs. map (\<lambda>(i, v, t). mk_row i v t) h = map Some rs \<and> table_of s' = foldl step (table_of s) rs"
proof (induction h arbitrary: s)
  case (Cons w h)
  obtain i v t where w: "w = (i, v, t)" by (cases w)
  from Cons.prems obtain s1 where s1: "put s i v t = Inr s1"
    "foldE (\<lambda>s w. case w of (i, v, t) \<Rightarrow> put s i v t) s1 h = Inr s'"
    by (auto simp: w bindE_Inr_iff)
  obtain r where r: "mk_row i v t = Some r" "table_of s1 = step (table_of s) r"
    using put_Inr[OF s1(1)] by blast
  obtain rs where "map (\<lambda>(i, v, t). mk_row i v t) h = map Some rs"
    "table_of s' = foldl step (table_of s1) rs"
    using Cons.IH[OF s1(2)] by blast
  then have "map (\<lambda>(i, v, t). mk_row i v t) (w # h) = map Some (r # rs)
      \<and> table_of s' = foldl step (table_of s) (r # rs)" by (simp add: w r)
  then show ?case by blast
qed simp

lemma run_row:
  assumes "map (\<lambda>(i, v, t). mk_row i v t) h = map Some rs"
  shows "(i, v, t) \<in> set h \<Longrightarrow> \<exists>r \<in> set rs. mk_row i v t = Some r"
    and "r \<in> set rs \<Longrightarrow> \<exists>i v t. (i, v, t) \<in> set h \<and> mk_row i v t = Some r"
proof -
  have eq: "(\<lambda>(i, v, t). mk_row i v t) ` set h = Some ` set rs"
    using arg_cong[OF assms, of set] by simp
  show "\<exists>r \<in> set rs. mk_row i v t = Some r" if "(i, v, t) \<in> set h"
    using that eq by (auto dest!: equalityD1 [THEN subsetD, OF eq, OF imageI])
  show "\<exists>i v t. (i, v, t) \<in> set h \<and> mk_row i v t = Some r" if "r \<in> set rs"
  proof -
    have "Some r \<in> (\<lambda>(i, v, t). mk_row i v t) ` set h" using that eq by blast
    then obtain w where "w \<in> set h" "Some r = (case w of (i, v, t) \<Rightarrow> mk_row i v t)" by auto
    moreover obtain i v t where "w = (i, v, t)" by (cases w)
    ultimately have "(i, v, t) \<in> set h \<and> mk_row i v t = Some r" by simp
    then show ?thesis by blast
  qed
qed

lemma latest_of_run:
  assumes "\<exists>r \<in> set rs. live r \<and> entity r = e \<and> timestamp r = m"
    and "\<forall>r \<in> set rs. entity r = e \<longrightarrow> timestamp r \<le> m"
  shows "set (latest_rows (foldl step [] rs) e)
       = {r \<in> set rs. live r \<and> entity r = e \<and> timestamp r = m}"
  using step_cases latest_rows_run[OF assms] latest_rows_append_run[OF assms] by auto

lemma latest_none:
  assumes "\<forall>r \<in> set rs. entity r \<noteq> e"
  shows "latest_rows (foldl step [] rs) e = []"
  using step_cases
proof
  assume "step = write_row"
  then show ?thesis using set_run_subset[of "[]" rs] assms by (auto simp: latest_rows_Nil_iff)
next
  assume "step = append_row"
  then show ?thesis using assms by (auto simp: latest_rows_Nil_iff foldl_append_row)
qed

end

sublocale table_register \<subseteq> lww_register init put
  "\<lambda>s i. val ` set (latest_rows (table_of s) (to_string i))" stored
proof
  fix h s e
  assume run: "foldE (\<lambda>s w. case w of (i, v, t) \<Rightarrow> put s i v t) init h = Inr s"
  obtain rs where rs: "map (\<lambda>(i, v, t). mk_row i v t) h = map Some rs"
    and tbl: "table_of s = foldl step [] rs"
    using run_table[OF run] by (auto simp: table_init)
  show "val ` set (latest_rows (table_of s) (to_string e)) =
      {x. \<exists>v t. (e, v, t) \<in> set h \<and> stored v = Some x
        \<and> (\<forall>(i', v', t') \<in> set h. i' = e \<longrightarrow> t' \<le> t)}" (is "?L = ?R")
  proof (cases "\<exists>v t. (e, v, t) \<in> set h")
    case False
    have "\<forall>r \<in> set rs. entity r \<noteq> to_string e"
      using run_row(2)[OF rs] row_Some False by fastforce
    then have "?L = {}" by (simp add: tbl latest_none)
    with False show ?thesis by auto
  next
    case True
    define m where "m = Max {t. \<exists>v. (e, v, t) \<in> set h}"
    have fin: "finite {t. \<exists>v. (e, v, t) \<in> set h}"
      by (rule finite_subset[of _ "(\<lambda>(i, v, t). t) ` set h"]) force+
    have ne: "{t. \<exists>v. (e, v, t) \<in> set h} \<noteq> {}" using True by auto
    obtain v0 where v0: "(e, v0, m) \<in> set h" using Max_in[OF fin ne] by (auto simp: m_def)
    have le: "t \<le> m" if "(e, v, t) \<in> set h" for v t
      using Max_ge[OF fin] that unfolding m_def by blast
    have ent: "\<exists>v. (e, v, timestamp r) \<in> set h \<and> mk_row e v (timestamp r) = Some r"
      if "r \<in> set rs" "entity r = to_string e" for r
      using run_row(2)[OF rs that(1)] row_Some that(2) by fastforce
    have rows: "set (latest_rows (table_of s) (to_string e))
        = {r \<in> set rs. live r \<and> entity r = to_string e \<and> timestamp r = m}"
      unfolding tbl
    proof (rule latest_of_run)
      show "\<exists>r \<in> set rs. live r \<and> entity r = to_string e \<and> timestamp r = m"
        using run_row(1)[OF rs v0] row_Some by blast
      show "\<forall>r \<in> set rs. entity r = to_string e \<longrightarrow> timestamp r \<le> m"
        using ent le by blast
    qed
    show ?thesis
    proof (intro equalityI subsetI)
      fix x assume "x \<in> ?L"
      then obtain r where r: "r \<in> set rs" "entity r = to_string e" "timestamp r = m" "x = val r"
        by (auto simp: rows)
      obtain v where v: "(e, v, m) \<in> set h" "mk_row e v m = Some r" using ent[OF r(1,2)] r(3) by auto
      then show "x \<in> ?R" using row_Some[OF v(2)] le r(4) by fastforce
    next
      fix x assume "x \<in> ?R"
      then obtain v t where v: "(e, v, t) \<in> set h" "stored v = Some x"
        and top: "\<forall>(i', v', t') \<in> set h. i' = e \<longrightarrow> t' \<le> t" by auto
      have "t = m" using le[OF v(1)] top v0 by (intro antisym) auto
      obtain r where "r \<in> set rs" "mk_row e v t = Some r" using run_row(1)[OF rs v(1)] by blast
      then have "r \<in> set (latest_rows (table_of s) (to_string e))" "val r = x"
        using row_Some v(2) \<open>t = m\<close> by (auto simp: rows)
      then show "x \<in> ?L" by blast
    qed
  qed
qed

end
