(* ===== verification/Database.thy ===== *)
theory Database
  imports Tables
begin

text \<open>
  The document database \<open>DatabaseImpl\<close> (\<open>include/db/Database.h\<close>, \<open>src/db/DatabaseImpl.cpp\<close>): one
  table per kind of fact, every fact written with its timestamp and a deletion flag, queries that
  read the latest live facts. Each write runs in a transaction that is rolled back when a
  statement throws, so a faulty write returns \<open>Inl\<close> and no new state.
\<close>

section \<open>Rows and tables\<close>

record edge_row = row +
  entityTo :: string

record radius_row = row +
  row_magnitude :: f64

record coord_row = row +
  row_x :: f64
  row_y :: f64
  row_z :: f64

record setop_row = row +
  row_type :: int

record document_row = row +
  doc_type :: int
  document :: string

record name_row = row +
  row_name :: string

record database =
  edge_table :: "edge_row list"
  radius_table :: "radius_row list"
  coord_table :: "coord_row list"
  setop_table :: "setop_row list"
  document_table :: "document_row list"
  name_table :: "name_row list"

definition empty_database :: database where
  "empty_database = \<lparr>edge_table = [], radius_table = [], coord_table = [],
     setop_table = [], document_table = [], name_table = []\<rparr>"

text \<open>
  The SQL engine is a parameter. The connector prints a \<open>double\<close> into the statement text
  and the engine reads that literal back: \<open>real_literal\<close> is the value the \<open>REAL\<close> column then
  holds, \<open>None\<close> if the engine rejects the statement (there is no literal for a NaN or an
  infinity). The other fields are the orders in which result sets come back.
\<close>

record engine =
  real_literal :: "f64 \<Rightarrow> f64 option"
  order_text :: "string list \<Rightarrow> string list"
  order_radius :: "radius_row list \<Rightarrow> radius_row list"
  order_coord :: "coord_row list \<Rightarrow> coord_row list"
  order_setop :: "setop_row list \<Rightarrow> setop_row list"
  order_document :: "document_row list \<Rightarrow> document_row list"
  order_name :: "name_row list \<Rightarrow> name_row list"

definition engine_ok :: "engine \<Rightarrow> bool" where
  "engine_ok E \<longleftrightarrow> (\<forall>x y. real_literal E x = Some y \<longrightarrow> \<not> f64_isnan y)
     \<and> reorders (order_text E) \<and> reorders (order_radius E) \<and> reorders (order_coord E)
     \<and> reorders (order_setop E) \<and> reorders (order_document E) \<and> reorders (order_name E)"

text \<open>A concrete engine: finite values are kept, result sets come in insertion order.\<close>

definition plain_engine :: engine where
  "plain_engine = \<lparr>real_literal = (\<lambda>x. if f64_isnan x \<or> f64_isinf x then None else Some x),
     order_text = (\<lambda>xs. xs), order_radius = (\<lambda>xs. xs), order_coord = (\<lambda>xs. xs),
     order_setop = (\<lambda>xs. xs), order_document = (\<lambda>xs. xs), order_name = (\<lambda>xs. xs)\<rparr>"

lemma engine_ok_plain [simp]: "engine_ok plain_engine"
  by (simp add: engine_ok_def plain_engine_def)

section \<open>Writing\<close>

text \<open>The row an \<open>INSERT\<close> of a coordinate adds; \<open>None\<close> when the statement is rejected.\<close>

definition coord_insert :: "engine \<Rightarrow> ID \<Rightarrow> coord \<Rightarrow> timestamp \<Rightarrow> bool \<Rightarrow> coord_row option" where
  "coord_insert E ent c ts del =
     (case (real_literal E (f64_of_f32 (cx c)), real_literal E (f64_of_f32 (cy c)),
            real_literal E (f64_of_f32 (cz c))) of
        (Some x, Some y, Some z) \<Rightarrow>
          Some \<lparr>deleted = is_deleted del, timestamp = ts, entity = to_string ent,
                row_x = x, row_y = y, row_z = z\<rparr>
      | _ \<Rightarrow> None)"

definition upsertI_coord ::
    "engine \<Rightarrow> database \<Rightarrow> ID \<Rightarrow> coord \<Rightarrow> timestamp \<Rightarrow> bool \<Rightarrow> fault + database" where
  "upsertI_coord E db ent c ts del =
     (let collected = CRDTCollectGarbage (to_string ent) ts (coord_table db)
      in case coord_insert E ent c ts del of
           None \<Rightarrow> Inl SqlError
         | Some r \<Rightarrow> Inr (db\<lparr>coord_table := insert_into r collected\<rparr>))"

text \<open>The \<open>setoperationtype\<close> table checks \<open>type = 0 or type = 1 or type = 2\<close>.\<close>

definition upsertI_setop ::
    "engine \<Rightarrow> database \<Rightarrow> ID \<Rightarrow> SetOperationType \<Rightarrow> timestamp \<Rightarrow> bool \<Rightarrow> fault + database" where
  "upsertI_setop E db ent type ts del =
     (let eid = to_string ent;
          collected = CRDTCollectGarbage eid ts (setop_table db);
          typeAsInteger = int (from_operationType type)
      in if typeAsInteger = 0 \<or> typeAsInteger = 1 \<or> typeAsInteger = 2
         then Inr (db\<lparr>setop_table := insert_into
           \<lparr>deleted = is_deleted del, timestamp = ts, entity = eid, row_type = typeAsInteger\<rparr>
           collected\<rparr>)
         else Inl SqlError)"

definition upsertI_name ::
    "engine \<Rightarrow> database \<Rightarrow> ID \<Rightarrow> name \<Rightarrow> timestamp \<Rightarrow> bool \<Rightarrow> fault + database" where
  "upsertI_name E db ent n ts del =
     (let eid = to_string ent;
          collected = CRDTCollectGarbage eid ts (name_table db)
      in Inr (db\<lparr>name_table := insert_into
           \<lparr>deleted = is_deleted del, timestamp = ts, entity = eid, row_name = name_value n\<rparr>
           collected\<rparr>))"

text \<open>
  For radii the garbage collection statement is built and dropped, not run, so nothing
  is removed. The \<open>radius\<close> table checks \<open>magnitude >= 0\<close>.
\<close>

definition radius_insert :: "engine \<Rightarrow> ID \<Rightarrow> radius \<Rightarrow> timestamp \<Rightarrow> bool \<Rightarrow> radius_row option" where
  "radius_insert E ent r ts del =
     (case real_literal E (f64_of_f32 (magnitude r)) of
        None \<Rightarrow> None
      | Some m \<Rightarrow>
          if f64_le 0 m
          then Some \<lparr>deleted = is_deleted del, timestamp = ts, entity = to_string ent,
                     row_magnitude = m\<rparr>
          else None)"

definition upsertI_radius ::
    "engine \<Rightarrow> database \<Rightarrow> ID \<Rightarrow> radius \<Rightarrow> timestamp \<Rightarrow> bool \<Rightarrow> fault + database" where
  "upsertI_radius E db ent r ts del =
     (case radius_insert E ent r ts del of
        None \<Rightarrow> Inl SqlError
      | Some q \<Rightarrow> Inr (db\<lparr>radius_table := insert_into q (radius_table db)\<rparr>))"

definition connectI ::
    "engine \<Rightarrow> database \<Rightarrow> ID \<Rightarrow> ID \<Rightarrow> timestamp \<Rightarrow> bool \<Rightarrow> fault + database" where
  "connectI E db ent ent_to ts del =
     (let eid = to_string ent; eid_to = to_string ent_to;
          remaining = remove_from
            (\<lambda>r. (entity r = eid \<and> entityTo r = eid_to \<and> timestamp r < ts)
               \<or> (timestamp r < ts \<and> deleted r = is_deleted True)) (edge_table db)
      in Inr (db\<lparr>edge_table := insert_into
           \<lparr>deleted = is_deleted del, timestamp = ts, entity = eid, entityTo = eid_to\<rparr>
           remaining\<rparr>))"

definition createI ::
    "engine \<Rightarrow> database \<Rightarrow> ID \<Rightarrow> NodeType \<Rightarrow> ID \<Rightarrow> timestamp \<Rightarrow> bool \<Rightarrow> fault + database" where
  "createI E db ent type doc ts del =
     (let eid = to_string ent; did = to_string doc;
          remaining = remove_from
            (\<lambda>r. (entity r = eid \<and> document r = did \<and> timestamp r < ts)
               \<or> deleted r = is_deleted True) (document_table db)
      in Inr (db\<lparr>document_table := insert_into
           \<lparr>deleted = is_deleted del, timestamp = ts, entity = eid,
            doc_type = int (to_integral type), document = did\<rparr>
           remaining\<rparr>))"

definition upsert_coord where
  "upsert_coord E db ent c ts = upsertI_coord E db ent c ts False"

definition retract_coord where
  "retract_coord E db ent c ts = upsertI_coord E db ent c ts False"

definition upsert_radius where
  "upsert_radius E db ent r ts = upsertI_radius E db ent r ts False"

definition retract_radius where
  "retract_radius E db ent r ts = upsertI_radius E db ent r ts True"

definition upsert_setop where
  "upsert_setop E db ent type ts = upsertI_setop E db ent type ts False"

definition retract_setop where
  "retract_setop E db ent type ts = upsertI_setop E db ent type ts True"

definition upsert_name where
  "upsert_name E db ent n ts = upsertI_name E db ent n ts False"

definition retract_name where
  "retract_name E db ent n ts = upsertI_name E db ent n ts True"

definition connect where
  "connect E db ent ent_to ts = connectI E db ent ent_to ts False"

definition disconnect where
  "disconnect E db ent ent_to ts = connectI E db ent ent_to ts True"

definition create where
  "create E db ent type doc ts = createI E db ent type doc ts False"

definition remove where
  "remove E db ent doc ts = createI E db ent Sphere_type doc ts True"

section \<open>Querying\<close>

record document_with_name =
  doc_uid :: ID
  doc_name :: name

text \<open>An identifier read back from a column; a stream that fails leaves the variable as it was
  declared, without a value.\<close>

definition read_id :: "string \<Rightarrow> fault + ID" where
  "read_id s = (case from_stream s of None \<Rightarrow> Inl Unassigned | Some u \<Rightarrow> Inr u)"

text \<open>The name of one document row of the result set: nothing when no name is recorded.\<close>

definition document_name :: "engine \<Rightarrow> database \<Rightarrow> string \<Rightarrow> fault + document_with_name option" where
  "document_name E db did =
     (case order_name E (latest_rows (name_table db) did) of
        [] \<Rightarrow> Inr None
      | front # rest \<Rightarrow>
          bindE (Name (row_name front)) (\<lambda>first.
          bindE (foldE (\<lambda>latest row. bindE (Name (row_name row))
                    (\<lambda>this. Inr (preferred_name latest this))) first (front # rest)) (\<lambda>latest.
          bindE (read_id did) (\<lambda>uid. Inr (Some \<lparr>doc_uid = uid, doc_name = latest\<rparr>)))))"

definition documents :: "engine \<Rightarrow> database \<Rightarrow> fault + document_with_name list" where
  "documents E db =
     (let docs = order_text E (remdups (map document
            (filter (\<lambda>r. deleted r = is_deleted False) (document_table db))))
      in bindE (mapE (document_name E db) docs) (\<lambda>names. Inr (collect names)))"

record id_with_type =
  ent_uid :: ID
  ent_type :: NodeType

definition entities :: "engine \<Rightarrow> database \<Rightarrow> ID \<Rightarrow> fault + id_with_type list" where
  "entities E db of_document =
     (let did = to_string of_document;
          rows = order_document E (filter (\<lambda>r. deleted r = 0 \<and> document r = did) (document_table db))
      in bindE (mapE (\<lambda>r. case from_integral (size_of_int (doc_type r)) of
                   None \<Rightarrow> Inr None
                 | Some t \<Rightarrow> bindE (read_id (entity r))
                     (\<lambda>uid. Inr (Some \<lparr>ent_uid = uid, ent_type = t\<rparr>))) rows)
           (\<lambda>es. Inr (collect es)))"

text \<open>An edge is alive when one of the rows at its greatest timestamp is live.\<close>

definition edge_alive :: "database \<Rightarrow> string \<Rightarrow> string \<Rightarrow> bool" where
  "edge_alive db eid eid_to =
     (let rows = filter (\<lambda>r. entity r = eid \<and> entityTo r = eid_to) (edge_table db)
      in list_ex (\<lambda>r. Some (timestamp r) = max_timestamp rows \<and> deleted r = 0) rows)"

definition edges :: "engine \<Rightarrow> database \<Rightarrow> ID \<Rightarrow> fault + ID list" where
  "edges E db of_entity =
     (let eid = to_string of_entity;
          groups = order_text E (remdups (map entityTo (filter (\<lambda>r. entity r = eid) (edge_table db))))
      in bindE (mapE (\<lambda>to. if edge_alive db eid to
                   then bindE (read_id to) (\<lambda>uid. Inr (Some uid)) else Inr None) groups)
           (\<lambda>res. Inr (collect res)))"

text \<open>Reading back the attributes of a sphere. The column value is a \<open>double\<close>; the running
  maximum is a \<open>float\<close>, widened for the comparison.\<close>

definition max_radius :: "radius_row list \<Rightarrow> f32" where
  "max_radius rows =
     foldl (\<lambda>m r. if f64_lt (f64_of_f32 m) (row_magnitude r) then f32_of_f64 (row_magnitude r) else m)
       (f32_of_f64 (row_magnitude (hd rows))) rows"

definition row_coord :: "coord_row \<Rightarrow> coord" where
  "row_coord r = Coord (f32_of_f64 (row_x r)) (f32_of_f64 (row_y r)) (f32_of_f64 (row_z r))"

definition farthest_coord :: "coord_row list \<Rightarrow> coord" where
  "farthest_coord rows =
     foldl (\<lambda>best r. if f32_lt (distance_from_origin best) (distance_from_origin (row_coord r))
              then row_coord r else best) (row_coord (hd rows)) rows"

definition sphere :: "engine \<Rightarrow> database \<Rightarrow> ID \<Rightarrow> fault + node option" where
  "sphere E db from =
     (let eid = to_string from;
          lookup = filter (\<lambda>r. deleted r = is_deleted False \<and> entity r = eid) (document_table db);
          radiusRes = order_radius E (latest_rows (radius_table db) eid);
          coordRes = order_coord E (latest_rows (coord_table db) eid)
      in if lookup = [] then Inr None
         else if radiusRes = [] then Inr None
         else if coordRes = [] then Inr None
         else bindE (Radius (max_radius radiusRes))
                (\<lambda>r. Inr (Some (Sphere from (farthest_coord coordRes) r))))"

text \<open>\<open>ORDER BY timestamp DESC LIMIT 1\<close>: a row with the greatest timestamp; the engine decides
  between equal ones.\<close>

definition setop :: "engine \<Rightarrow> database \<Rightarrow> ID \<Rightarrow> node option" where
  "setop E db from =
     (let eid = to_string from;
          res = sort_key (\<lambda>r. - uint (timestamp r)) (order_setop E
            (filter (\<lambda>r. deleted r = 0 \<and> entity r = eid) (setop_table db)))
      in case res of [] \<Rightarrow> None
         | front # _ \<Rightarrow> map_option (SetOp from) (to_operationType (size_of_int (row_type front))))"

section \<open>Opening a database\<close>

text \<open>
  The constructor runs every statement of \<open>tables\<close> and \<open>indices\<close>. \<open>CREATE TABLE IF NOT EXISTS\<close>
  accepts an existing table, \<open>CREATE INDEX\<close> throws on an existing index.
\<close>

record catalog =
  cat_tables :: "string list"
  cat_indices :: "string list"

definition tables :: "string list" where
  "tables = [''edge'', ''radius'', ''coord'', ''setoperationtype'', ''document'', ''name'']"

definition indices :: "string list" where
  "indices = [''edge_index'', ''radius_index'', ''coord_index'', ''setoperationtype_index'',
     ''document_index'', ''name_index'']"

definition create_table :: "catalog \<Rightarrow> string \<Rightarrow> fault + catalog" where
  "create_table cat t =
     Inr (if t \<in> set (cat_tables cat) then cat else cat\<lparr>cat_tables := cat_tables cat @ [t]\<rparr>)"

definition create_index :: "catalog \<Rightarrow> string \<Rightarrow> fault + catalog" where
  "create_index cat i =
     (if i \<in> set (cat_indices cat) then Inl SqlError
      else Inr (cat\<lparr>cat_indices := cat_indices cat @ [i]\<rparr>))"

definition DatabaseImpl :: "catalog \<Rightarrow> fault + catalog" where
  "DatabaseImpl cat = bindE (foldE create_table cat tables) (\<lambda>c. foldE create_index c indices)"

section \<open>The attribute tables as last-writer-wins registers\<close>

lemmas write_defs =
  upsert_coord_def retract_coord_def upsert_radius_def retract_radius_def upsert_setop_def
  retract_setop_def upsert_name_def retract_name_def connect_def disconnect_def create_def remove_def
  upsertI_coord_def upsertI_radius_def upsertI_setop_def upsertI_name_def connectI_def createI_def

text \<open>The float that comes back for a float that went in.\<close>

definition read_back :: "engine \<Rightarrow> f32 \<Rightarrow> f32 option" where
  "read_back E x = map_option f32_of_f64 (real_literal E (f64_of_f32 x))"

definition stored_coord :: "engine \<Rightarrow> coord \<Rightarrow> coord option" where
  "stored_coord E c = map_option row_coord (coord_insert E 0 c 0 False)"

definition stored_radius :: "engine \<Rightarrow> radius \<Rightarrow> f32 option" where
  "stored_radius E r = map_option (\<lambda>q. f32_of_f64 (row_magnitude q)) (radius_insert E 0 r 0 False)"

text \<open>What the latest rows of an entity hold.\<close>

definition coord_values :: "database \<Rightarrow> ID \<Rightarrow> coord set" where
  "coord_values db i = row_coord ` set (latest_rows (coord_table db) (to_string i))"

definition radius_values :: "database \<Rightarrow> ID \<Rightarrow> f32 set" where
  "radius_values db i =
     (\<lambda>q. f32_of_f64 (row_magnitude q)) ` set (latest_rows (radius_table db) (to_string i))"

definition name_values :: "database \<Rightarrow> ID \<Rightarrow> string set" where
  "name_values db i = row_name ` set (latest_rows (name_table db) (to_string i))"

definition setop_values :: "database \<Rightarrow> ID \<Rightarrow> int set" where
  "setop_values db i = row_type ` set (latest_rows (setop_table db) (to_string i))"

lemma row_coord_insert:
  "coord_insert E i c t d = Some r \<Longrightarrow> stored_coord E c = Some (row_coord r)
     \<and> deleted r = is_deleted d \<and> entity r = to_string i \<and> timestamp r = t"
  by (auto simp: coord_insert_def stored_coord_def row_coord_def split: option.splits)

lemma row_radius_insert:
  "radius_insert E i c t d = Some r \<Longrightarrow> stored_radius E c = Some (f32_of_f64 (row_magnitude r))
     \<and> deleted r = is_deleted d \<and> entity r = to_string i \<and> timestamp r = t
     \<and> f64_le 0 (row_magnitude r)"
  by (auto simp: radius_insert_def stored_radius_def split: option.splits if_splits)

interpretation coord_reg: table_register empty_database "upsert_coord E" coord_table
    "\<lambda>i c t. coord_insert E i c t False" write_row row_coord "stored_coord E" for E
proof
  show "\<exists>r. coord_insert E i v t False = Some r \<and> coord_table s' = write_row (coord_table s) r"
    if "upsert_coord E s i v t = Inr s'" for s i v t s'
    using that row_coord_insert[of E i v t False]
    by (auto simp: write_defs Let_def write_row_def split: option.splits)
  show "live r \<and> entity r = to_string i \<and> timestamp r = t \<and> stored_coord E v = Some (row_coord r)"
    if "coord_insert E i v t False = Some r" for i v t r
    using row_coord_insert[OF that] by simp
qed (simp_all add: empty_database_def)

interpretation radius_reg: table_register empty_database "upsert_radius E" radius_table
    "\<lambda>i c t. radius_insert E i c t False" append_row "\<lambda>q. f32_of_f64 (row_magnitude q)"
    "stored_radius E" for E
proof
  show "\<exists>r. radius_insert E i v t False = Some r \<and> radius_table s' = append_row (radius_table s) r"
    if "upsert_radius E s i v t = Inr s'" for s i v t s'
    using that by (auto simp: write_defs append_row_def split: option.splits)
  show "live r \<and> entity r = to_string i \<and> timestamp r = t
      \<and> stored_radius E v = Some (f32_of_f64 (row_magnitude r))"
    if "radius_insert E i v t False = Some r" for i v t r
    using row_radius_insert[OF that] by simp
qed (simp_all add: empty_database_def)

interpretation name_reg: table_register empty_database "upsert_name E" name_table
    "\<lambda>i n t. Some \<lparr>deleted = 0, timestamp = t, entity = to_string i, row_name = name_value n\<rparr>"
    write_row row_name "\<lambda>n. Some (name_value n)" for E
  by unfold_locales (auto simp: empty_database_def write_defs Let_def write_row_def)

interpretation setop_reg: table_register empty_database "upsert_setop E" setop_table
    "\<lambda>i p t. Some \<lparr>deleted = 0, timestamp = t, entity = to_string i,
       row_type = int (from_operationType p)\<rparr>"
    write_row row_type "\<lambda>p. Some (int (from_operationType p))" for E
  by unfold_locales
    (auto simp: empty_database_def write_defs Let_def write_row_def split: if_splits)

end
