(* ===== verification/Replication.thy ===== *)
theory Replication
  imports Database
begin

text \<open>
  Whole histories of writes to the document database: the operations of the interface
  \<open>Database\<close> (\<open>include/db/Database.h\<close>) as data, their execution one after the other, what each
  table holds after a history, and the well-formedness of the tables.
\<close>

section \<open>Histories\<close>

datatype db_op =
    UpsertCoord ID coord timestamp
  | RetractCoord ID coord timestamp
  | UpsertRadius ID radius timestamp
  | RetractRadius ID radius timestamp
  | UpsertSetOp ID SetOperationType timestamp
  | RetractSetOp ID SetOperationType timestamp
  | UpsertName ID name timestamp
  | RetractName ID name timestamp
  | Connect ID ID timestamp
  | Disconnect ID ID timestamp
  | Create ID NodeType ID timestamp
  | Remove ID ID timestamp

fun apply_op :: "engine \<Rightarrow> database \<Rightarrow> db_op \<Rightarrow> fault + database" where
  "apply_op E db (UpsertCoord i c t) = upsert_coord E db i c t"
| "apply_op E db (RetractCoord i c t) = retract_coord E db i c t"
| "apply_op E db (UpsertRadius i r t) = upsert_radius E db i r t"
| "apply_op E db (RetractRadius i r t) = retract_radius E db i r t"
| "apply_op E db (UpsertSetOp i p t) = upsert_setop E db i p t"
| "apply_op E db (RetractSetOp i p t) = retract_setop E db i p t"
| "apply_op E db (UpsertName i n t) = upsert_name E db i n t"
| "apply_op E db (RetractName i n t) = retract_name E db i n t"
| "apply_op E db (Connect a b t) = connect E db a b t"
| "apply_op E db (Disconnect a b t) = disconnect E db a b t"
| "apply_op E db (Create i ty d t) = create E db i ty d t"
| "apply_op E db (Remove i d t) = remove E db i d t"

definition run_ops :: "engine \<Rightarrow> database \<Rightarrow> db_op list \<Rightarrow> fault + database" where
  "run_ops E db ops = foldE (apply_op E) db ops"

fun op_time :: "db_op \<Rightarrow> timestamp" where
  "op_time (UpsertCoord i c t) = t" | "op_time (RetractCoord i c t) = t"
| "op_time (UpsertRadius i r t) = t" | "op_time (RetractRadius i r t) = t"
| "op_time (UpsertSetOp i p t) = t" | "op_time (RetractSetOp i p t) = t"
| "op_time (UpsertName i n t) = t" | "op_time (RetractName i n t) = t"
| "op_time (Connect a b t) = t" | "op_time (Disconnect a b t) = t"
| "op_time (Create i ty d t) = t" | "op_time (Remove i d t) = t"

section \<open>The row each operation writes\<close>

fun coord_row_of :: "engine \<Rightarrow> db_op \<Rightarrow> coord_row option" where
  "coord_row_of E (UpsertCoord i c t) = coord_insert E i c t False"
| "coord_row_of E (RetractCoord i c t) = coord_insert E i c t False"
| "coord_row_of E _ = None"

fun radius_row_of :: "engine \<Rightarrow> db_op \<Rightarrow> radius_row option" where
  "radius_row_of E (UpsertRadius i r t) = radius_insert E i r t False"
| "radius_row_of E (RetractRadius i r t) = radius_insert E i r t True"
| "radius_row_of E _ = None"

definition setop_row_for :: "ID \<Rightarrow> SetOperationType \<Rightarrow> timestamp \<Rightarrow> bool \<Rightarrow> setop_row" where
  "setop_row_for i p t del = \<lparr>deleted = is_deleted del, timestamp = t, entity = to_string i,
     row_type = int (from_operationType p)\<rparr>"

fun setop_row_of :: "db_op \<Rightarrow> setop_row option" where
  "setop_row_of (UpsertSetOp i p t) = Some (setop_row_for i p t False)"
| "setop_row_of (RetractSetOp i p t) = Some (setop_row_for i p t True)"
| "setop_row_of _ = None"

definition name_row_for :: "ID \<Rightarrow> name \<Rightarrow> timestamp \<Rightarrow> bool \<Rightarrow> name_row" where
  "name_row_for i n t del = \<lparr>deleted = is_deleted del, timestamp = t, entity = to_string i,
     row_name = name_value n\<rparr>"

fun name_row_of :: "db_op \<Rightarrow> name_row option" where
  "name_row_of (UpsertName i n t) = Some (name_row_for i n t False)"
| "name_row_of (RetractName i n t) = Some (name_row_for i n t True)"
| "name_row_of _ = None"

definition edge_row_for :: "ID \<Rightarrow> ID \<Rightarrow> timestamp \<Rightarrow> bool \<Rightarrow> edge_row" where
  "edge_row_for a b t del = \<lparr>deleted = is_deleted del, timestamp = t, entity = to_string a,
     entityTo = to_string b\<rparr>"

fun edge_row_of :: "db_op \<Rightarrow> edge_row option" where
  "edge_row_of (Connect a b t) = Some (edge_row_for a b t False)"
| "edge_row_of (Disconnect a b t) = Some (edge_row_for a b t True)"
| "edge_row_of _ = None"

definition document_row_for :: "ID \<Rightarrow> NodeType \<Rightarrow> ID \<Rightarrow> timestamp \<Rightarrow> bool \<Rightarrow> document_row" where
  "document_row_for i ty d t del = \<lparr>deleted = is_deleted del, timestamp = t, entity = to_string i,
     doc_type = int (to_integral ty), document = to_string d\<rparr>"

fun document_row_of :: "db_op \<Rightarrow> document_row option" where
  "document_row_of (Create i ty d t) = Some (document_row_for i ty d t False)"
| "document_row_of (Remove i d t) = Some (document_row_for i Sphere_type d t True)"
| "document_row_of _ = None"

text \<open>What inserting an edge or a document row leaves of the table.\<close>

definition write_edge :: "edge_row list \<Rightarrow> edge_row \<Rightarrow> edge_row list" where
  "write_edge tbl r = insert_into r (remove_from (\<lambda>q. timestamp q < timestamp r
     \<and> ((entity q = entity r \<and> entityTo q = entityTo r) \<or> deleted q = 1)) tbl)"

definition write_document :: "document_row list \<Rightarrow> document_row \<Rightarrow> document_row list" where
  "write_document tbl r = insert_into r (remove_from (\<lambda>q.
     (timestamp q < timestamp r \<and> entity q = entity r \<and> document q = document r)
     \<or> deleted q = 1) tbl)"

lemmas row_for_defs = setop_row_for_def name_row_for_def edge_row_for_def document_row_for_def

lemma set_write_edge [table_simps]:
  "set (write_edge tbl r) = insert r {q \<in> set tbl. \<not> (timestamp q < timestamp r
     \<and> ((entity q = entity r \<and> entityTo q = entityTo r) \<or> deleted q = 1))}"
  by (auto simp: write_edge_def insert_into_def remove_from_def)

lemma set_write_document [table_simps]:
  "set (write_document tbl r) = insert r {q \<in> set tbl.
     \<not> (timestamp q < timestamp r \<and> entity q = entity r \<and> document q = document r)
     \<and> deleted q \<noteq> 1}"
  by (auto simp: write_document_def insert_into_def remove_from_def)

section \<open>The tables after a history\<close>

text \<open>Each operation writes the row above into its table and leaves the other tables alone.\<close>

definition add_row :: "('t \<Rightarrow> 'r \<Rightarrow> 't) \<Rightarrow> 't \<Rightarrow> 'r option \<Rightarrow> 't" where
  "add_row w tbl r = (case r of None \<Rightarrow> tbl | Some q \<Rightarrow> w tbl q)"

lemma apply_op_tables:
  assumes "apply_op E db p = Inr db'"
  shows "coord_table db' = add_row write_row (coord_table db) (coord_row_of E p)"
    and "radius_table db' = add_row append_row (radius_table db) (radius_row_of E p)"
    and "setop_table db' = add_row write_row (setop_table db) (setop_row_of p)"
    and "name_table db' = add_row write_row (name_table db) (name_row_of p)"
    and "edge_table db' = add_row write_edge (edge_table db) (edge_row_of p)"
    and "document_table db' = add_row write_document (document_table db) (document_row_of p)"
proof -
  note simps = write_defs Let_def add_row_def write_row_def append_row_def write_edge_def
    write_document_def row_for_defs from_operationType_def
  show "coord_table db' = add_row write_row (coord_table db) (coord_row_of E p)"
    using assms row_coord_insert
    by (cases p) (auto simp: simps split: option.splits if_splits)
  show "radius_table db' = add_row append_row (radius_table db) (radius_row_of E p)"
    using assms by (cases p) (auto simp: simps split: option.splits if_splits)
  show "setop_table db' = add_row write_row (setop_table db) (setop_row_of p)"
    using assms by (cases p) (auto simp: simps split: option.splits if_splits)
  show "name_table db' = add_row write_row (name_table db) (name_row_of p)"
    using assms by (cases p) (auto simp: simps split: option.splits if_splits)
  show "edge_table db' = add_row write_edge (edge_table db) (edge_row_of p)"
    using assms by (cases p) (auto simp: simps conj_disj_distribL conj_commute conj_left_commute split: option.splits if_splits)
  show "document_table db' = add_row write_document (document_table db) (document_row_of p)"
    using assms by (cases p) (auto simp: simps conj_commute conj_left_commute split: option.splits if_splits)
qed

lemma history_table:
  assumes "run_ops E db ops = Inr db'"
    and "\<And>db p db'. apply_op E db p = Inr db' \<Longrightarrow> tab db' = add_row w (tab db) (row p)"
  shows "tab db' = foldl w (tab db) (collect (map row ops))"
  using assms(1)
proof (induction ops arbitrary: db)
  case (Cons p ops)
  then obtain d where d: "apply_op E db p = Inr d" "run_ops E d ops = Inr db'"
    by (auto simp: run_ops_def bindE_Inr_iff)
  from Cons.IH[OF d(2)] assms(2)[OF d(1)] show ?case
    by (cases "row p") (simp_all add: add_row_def)
qed (simp add: run_ops_def)

lemma run_tables:
  assumes "run_ops E db ops = Inr db'"
  shows "coord_table db' = foldl write_row (coord_table db) (collect (map (coord_row_of E) ops))"
    and "radius_table db' = foldl append_row (radius_table db) (collect (map (radius_row_of E) ops))"
    and "setop_table db' = foldl write_row (setop_table db) (collect (map setop_row_of ops))"
    and "name_table db' = foldl write_row (name_table db) (collect (map name_row_of ops))"
    and "edge_table db' = foldl write_edge (edge_table db) (collect (map edge_row_of ops))"
    and "document_table db'
      = foldl write_document (document_table db) (collect (map document_row_of ops))"
  by (rule history_table[OF assms], erule apply_op_tables)+

lemma empty_tables [simp]:
  "coord_table empty_database = []" "radius_table empty_database = []"
  "setop_table empty_database = []" "name_table empty_database = []"
  "edge_table empty_database = []" "document_table empty_database = []"
  by (simp_all add: empty_database_def)

lemma run_ops_append:
  "run_ops E db (xs @ ys) = bindE (run_ops E db xs) (\<lambda>d. run_ops E d ys)"
  by (simp add: run_ops_def foldE_append)

section \<open>Tables whose writes replace older rows of the same key\<close>

text \<open>
  The law the three kinds of garbage collection share: a write adds its row, invents none, and
  takes a live row away only when it is older and of the same key. What a history leaves of the
  live rows follows from it.
\<close>

locale keyed_table =
  fixes wr :: "'a row_scheme list \<Rightarrow> 'a row_scheme \<Rightarrow> 'a row_scheme list"
    and key :: "'a row_scheme \<Rightarrow> 'k"
  assumes wr_new: "r \<in> set (wr tbl r)"
    and wr_old: "set (wr tbl r) \<subseteq> insert r (set tbl)"
    and wr_live: "live q \<Longrightarrow> q \<in> set tbl \<Longrightarrow>
      q \<in> set (wr tbl r) \<longleftrightarrow> q = r \<or> \<not> (timestamp q < timestamp r \<and> key q = key r)"
begin

lemma run_rows: "set (foldl wr [] rs) \<subseteq> set rs"
proof (induction rs rule: rev_induct)
  case (snoc r rs)
  then show ?case using wr_old[of "foldl wr [] rs" r] by auto
qed simp

text \<open>In any order, a live row that no write of its key outdates is there.\<close>

lemma run_top:
  assumes "live r" "r \<in> set rs" "\<forall>q \<in> set rs. key q = key r \<longrightarrow> timestamp q \<le> timestamp r"
  shows "r \<in> set (foldl wr [] rs)"
  using assms(2,3)
proof (induction rs rule: rev_induct)
  case (snoc q rs)
  show ?case
  proof (cases "r = q")
    case True
    then show ?thesis using wr_new[of q "foldl wr [] rs"] by simp
  next
    case False
    then have "r \<in> set (foldl wr [] rs)" using snoc by simp
    then show ?thesis using wr_live[OF assms(1), of "foldl wr [] rs" q] snoc.prems(2)
      by (auto simp: not_less)
  qed
qed simp

text \<open>In the order of the timestamps, those are all the live rows.\<close>

lemma run_sorted:
  assumes "live r" "sorted (map timestamp rs)"
  shows "r \<in> set (foldl wr [] rs) \<longleftrightarrow>
    r \<in> set rs \<and> (\<forall>q \<in> set rs. key q = key r \<longrightarrow> timestamp q \<le> timestamp r)"
  using assms(2)
proof (induction rs rule: rev_induct)
  case (snoc q rs)
  have le: "\<forall>x \<in> set rs. timestamp x \<le> timestamp q" and srt: "sorted (map timestamp rs)"
    using snoc.prems by (auto simp: sorted_append)
  note IH = snoc.IH[OF srt]
  show ?case
  proof (cases "r = q")
    case True
    then show ?thesis using wr_new[of q "foldl wr [] rs"] le by auto
  next
    case False
    then have "r \<in> set (foldl wr [] (rs @ [q])) \<longleftrightarrow>
        r \<in> set (foldl wr [] rs) \<and> \<not> (timestamp r < timestamp q \<and> key q = key r)"
      using wr_live[OF assms(1), of "foldl wr [] rs" q] wr_old[of "foldl wr [] rs" q] by auto
    then show ?thesis using IH False by (auto simp: not_less)
  qed
qed simp

text \<open>The live writes of a key that no tombstone of the key outdates.\<close>

definition unretracted :: "'a row_scheme list \<Rightarrow> 'k \<Rightarrow> bool" where
  "unretracted rs k \<longleftrightarrow> (\<exists>r \<in> set rs. live r \<and> key r = k
     \<and> (\<forall>q \<in> set rs. key q = k \<longrightarrow> \<not> live q \<longrightarrow> timestamp q \<le> timestamp r))"

lemma unretracted_top:
  assumes "unretracted rs k"
  shows "\<exists>r \<in> set rs. live r \<and> key r = k \<and> (\<forall>q \<in> set rs. key q = k \<longrightarrow> timestamp q \<le> timestamp r)"
proof -
  let ?L = "{r \<in> set rs. live r \<and> key r = k}"
  from assms obtain r0 where r0: "r0 \<in> ?L"
    "\<forall>q \<in> set rs. key q = k \<longrightarrow> \<not> live q \<longrightarrow> timestamp q \<le> timestamp r0"
    by (auto simp: unretracted_def)
  have fin: "finite (timestamp ` ?L)" by simp
  have "timestamp ` ?L \<noteq> {}" using r0(1) by blast
  then have "Max (timestamp ` ?L) \<in> timestamp ` ?L" using Max_in[OF fin] by blast
  then obtain r where r: "r \<in> ?L" "timestamp r = Max (timestamp ` ?L)" by auto
  have top: "timestamp q \<le> timestamp r" if "q \<in> ?L" for q using that r(2) Max_ge[OF fin] by simp
  have "timestamp q \<le> timestamp r" if "q \<in> set rs" "key q = k" for q
  proof (cases "live q")
    case False
    then show ?thesis using r0(2) that top[OF r0(1)] by fastforce
  qed (use top that in simp)
  with r(1) show ?thesis by auto
qed

lemma run_alive:
  assumes "sorted (map timestamp rs)"
  shows "(\<exists>r \<in> set (foldl wr [] rs). live r \<and> key r = k
      \<and> (\<forall>q \<in> set (foldl wr [] rs). key q = k \<longrightarrow> timestamp q \<le> timestamp r)) \<longleftrightarrow> unretracted rs k"
    and "(\<exists>r \<in> set (foldl wr [] rs). live r \<and> key r = k) \<longleftrightarrow> unretracted rs k"
proof -
  have sub: "unretracted rs k" if "r \<in> set (foldl wr [] rs)" "live r" "key r = k" for r
    using that run_sorted[OF that(2) assms] by (auto simp: unretracted_def)
  have sup: "\<exists>r \<in> set (foldl wr [] rs). live r \<and> key r = k
      \<and> (\<forall>q \<in> set (foldl wr [] rs). key q = k \<longrightarrow> timestamp q \<le> timestamp r)" if u: "unretracted rs k"
  proof -
    obtain r where r: "r \<in> set rs" "live r" "key r = k"
      "\<forall>q \<in> set rs. key q = k \<longrightarrow> timestamp q \<le> timestamp r" using unretracted_top[OF u] by blast
    then have "r \<in> set (foldl wr [] rs)" by (intro run_top) auto
    with r run_rows[of rs] show ?thesis by blast
  qed
  show "(\<exists>r \<in> set (foldl wr [] rs). live r \<and> key r = k
      \<and> (\<forall>q \<in> set (foldl wr [] rs). key q = k \<longrightarrow> timestamp q \<le> timestamp r)) \<longleftrightarrow> unretracted rs k"
    using sub sup by blast
  show "(\<exists>r \<in> set (foldl wr [] rs). live r \<and> key r = k) \<longleftrightarrow> unretracted rs k"
    using sub sup by blast
qed

text \<open>The same, for the operations the rows come from.\<close>

lemma unretracted_ops:
  assumes "\<And>r. r \<in> set rs \<and> key r = k \<and> live r \<longleftrightarrow> (\<exists>t \<in> ts. made r t)"
    and "\<And>r. r \<in> set rs \<and> key r = k \<and> \<not> live r \<longleftrightarrow> (\<exists>t \<in> us. unmade r t)"
    and "\<And>r t. made r t \<or> unmade r t \<Longrightarrow> timestamp r = t"
    and "\<And>t. t \<in> ts \<Longrightarrow> \<exists>r. made r t" "\<And>t. t \<in> us \<Longrightarrow> \<exists>r. unmade r t"
  shows "unretracted rs k \<longleftrightarrow> (\<exists>t \<in> ts. \<forall>t' \<in> us. t' \<le> t)"
proof
  assume "unretracted rs k"
  then obtain r where r: "r \<in> set rs \<and> key r = k \<and> live r"
    "\<forall>q \<in> set rs. key q = k \<longrightarrow> \<not> live q \<longrightarrow> timestamp q \<le> timestamp r"
    by (auto simp: unretracted_def)
  from r(1) obtain t where t: "t \<in> ts" "made r t" unfolding assms(1) by blast
  have "t' \<le> t" if "t' \<in> us" for t'
  proof -
    obtain q where q: "unmade q t'" using assms(5)[OF \<open>t' \<in> us\<close>] by blast
    then have "q \<in> set rs \<and> key q = k \<and> \<not> live q" unfolding assms(2) using that by blast
    with r(2) have "timestamp q \<le> timestamp r" by blast
    with assms(3)[of q t'] assms(3)[of r t] t q show ?thesis by simp
  qed
  with t(1) show "\<exists>t \<in> ts. \<forall>t' \<in> us. t' \<le> t" by blast
next
  assume "\<exists>t \<in> ts. \<forall>t' \<in> us. t' \<le> t"
  then obtain t where t: "t \<in> ts" "\<forall>t' \<in> us. t' \<le> t" by blast
  obtain r where m: "made r t" using assms(4)[OF t(1)] by blast
  then have r: "r \<in> set rs \<and> key r = k \<and> live r" unfolding assms(1) using t(1) by blast
  have "timestamp q \<le> timestamp r" if "q \<in> set rs" "key q = k" "\<not> live q" for q
  proof -
    have "\<exists>t' \<in> us. unmade q t'" unfolding assms(2)[symmetric] using that by blast
    then show ?thesis using t(2) assms(3) m by fastforce
  qed
  with r show "unretracted rs k" unfolding unretracted_def by blast
qed

end

interpretation entity_keyed: keyed_table write_row entity
  by unfold_locales (auto simp: table_simps)

interpretation edge_keyed: keyed_table write_edge
  "\<lambda>r. (entity r, entityTo r)"
  by unfold_locales (auto simp: table_simps)

interpretation document_keyed: keyed_table write_document
  "\<lambda>r. (entity r, document r)"
  by unfold_locales (auto simp: table_simps)

section \<open>The rows of a history\<close>

lemma set_rows_of: "set (collect (map row ops)) = {r. \<exists>p \<in> set ops. row p = Some r}"
  by (auto simp: set_collect eq_commute[of "Some _"])

lemma row_of_time:
  "coord_row_of E p = Some r1 \<Longrightarrow> timestamp r1 = op_time p"
  "setop_row_of p = Some r3 \<Longrightarrow> timestamp r3 = op_time p"
  "name_row_of p = Some r4 \<Longrightarrow> timestamp r4 = op_time p"
  "edge_row_of p = Some r5 \<Longrightarrow> timestamp r5 = op_time p"
  "document_row_of p = Some r6 \<Longrightarrow> timestamp r6 = op_time p"
proof -
  show "coord_row_of E p = Some r1 \<Longrightarrow> timestamp r1 = op_time p"
    by (cases p) (auto dest: row_coord_insert)
  show "setop_row_of p = Some r3 \<Longrightarrow> timestamp r3 = op_time p"
    by (cases p) (auto simp: row_for_defs)
  show "name_row_of p = Some r4 \<Longrightarrow> timestamp r4 = op_time p"
    by (cases p) (auto simp: row_for_defs)
  show "edge_row_of p = Some r5 \<Longrightarrow> timestamp r5 = op_time p"
    by (cases p) (auto simp: row_for_defs)
  show "document_row_of p = Some r6 \<Longrightarrow> timestamp r6 = op_time p"
    by (cases p) (auto simp: row_for_defs)
qed

lemma sorted_rows:
  assumes "\<And>p r. row p = Some r \<Longrightarrow> timestamp r = op_time p" "sorted (map op_time ops)"
  shows "sorted (map timestamp (collect (map row ops)))"
  using assms(2)
proof (induction ops)
  case (Cons p ops)
  show ?case
  proof (cases "row p")
    case (Some r)
    have "timestamp r \<le> timestamp q" if "q \<in> set (collect (map row ops))" for q
      using that Cons.prems assms(1) Some by (auto simp: set_rows_of)
    with Cons Some show ?thesis by auto
  qed (use Cons in simp)
qed simp

text \<open>When every row of the entity is live, the order of the writes does not matter.\<close>

lemma latest_rows_order:
  assumes "set rs1 = set rs2" "\<forall>r \<in> set rs1. entity r = e \<longrightarrow> live r"
  shows "set (latest_rows (foldl write_row [] rs1) e) = set (latest_rows (foldl write_row [] rs2) e)"
proof (cases "\<exists>r \<in> set rs1. entity r = e")
  case False
  then have "latest_rows (foldl write_row [] rs) e = []" if "set rs = set rs1" for rs
    using that set_run_subset[of "[]" rs] by (auto simp: latest_rows_Nil_iff)
  from this[of rs1] this[of rs2] show ?thesis using assms(1) by simp
next
  case True
  define ts where "ts = timestamp ` {r \<in> set rs1. entity r = e}"
  have fin: "finite ts" and ne: "ts \<noteq> {}" using True by (auto simp: ts_def)
  have top: "\<exists>r \<in> set rs1. live r \<and> entity r = e \<and> timestamp r = Max ts"
    using Max_in[OF fin ne] assms(2) by (auto simp: ts_def)
  have le: "\<forall>r \<in> set rs1. entity r = e \<longrightarrow> timestamp r \<le> Max ts"
    using Max_ge[OF fin] by (auto simp: ts_def)
  show ?thesis
    using latest_rows_run[OF top le] latest_rows_run[of rs2 e "Max ts"] top le assms(1) by simp
qed

lemma latest_rows_sorted:
  assumes "sorted (map timestamp rs)"
  shows "set (latest_rows (foldl write_row [] rs) e) = {r \<in> set rs. live r \<and> entity r = e
    \<and> (\<forall>q \<in> set rs. entity q = e \<longrightarrow> timestamp q \<le> timestamp r)}"
proof -
  note run = entity_keyed.run_sorted[OF _ assms] and sub = entity_keyed.run_rows[of rs]
  show ?thesis
  proof (intro equalityI subsetI)
    fix r assume "r \<in> set (latest_rows (foldl write_row [] rs) e)"
    then have "r \<in> set (foldl write_row [] rs)" "live r" "entity r = e"
      by (auto simp: set_latest_rows)
    with run[of r] show "r \<in> {r \<in> set rs. live r \<and> entity r = e
      \<and> (\<forall>q \<in> set rs. entity q = e \<longrightarrow> timestamp q \<le> timestamp r)}" by auto
  next
    fix r assume r: "r \<in> {r \<in> set rs. live r \<and> entity r = e
      \<and> (\<forall>q \<in> set rs. entity q = e \<longrightarrow> timestamp q \<le> timestamp r)}"
    with run[of r] have "r \<in> set (foldl write_row [] rs)" by auto
    with r sub show "r \<in> set (latest_rows (foldl write_row [] rs) e)"
      by (auto simp: set_latest_rows)
  qed
qed

end
