(* ===== verification/IeeeRounding.thy ===== *)
theory IeeeRounding
  imports Ieee754
begin

text \<open>
  Facts about rounding that the stores and the numeric code rely on: the encoding of a rounded
  value depends on the value only and is monotone in it, it is exact on values the format has,
  and so the conversions between \<open>float\<close> and \<open>double\<close> keep the order and round-trip.
\<close>

section \<open>Significands\<close>

lemma bitlen_unique:
  assumes "0 < k" "2 ^ nat (k - 1) \<le> n" "n < 2 ^ nat k"
  shows "bitlen n = k"
proof -
  have n: "0 < n" using assms(2) by (metis less_le_trans zero_less_numeral zero_less_power)
  note b = bitlen_bounds[OF n] and p = bitlen_pos[OF n]
  have "(2::int) ^ nat (k - 1) < 2 ^ nat (bitlen n)" using assms(2) b by linarith
  then have "nat (k - 1) < nat (bitlen n)" by simp
  moreover have "(2::int) ^ nat (bitlen n - 1) < 2 ^ nat k" using assms(3) b by linarith
  then have "nat (bitlen n - 1) < nat k" by simp
  ultimately show ?thesis using assms(1) p by linarith
qed

lemma bitlen_mono: "0 < m \<Longrightarrow> m \<le> n \<Longrightarrow> bitlen m \<le> bitlen n"
proof -
  assume "0 < m" "m \<le> n"
  then have n: "0 < n" by simp
  have "(2::int) ^ nat (bitlen m - 1) < 2 ^ nat (bitlen n)"
    using bitlen_bounds[OF \<open>0 < m\<close>] bitlen_bounds[OF n] \<open>m \<le> n\<close> by linarith
  then have "nat (bitlen m - 1) < nat (bitlen n)" by simp
  then show ?thesis using bitlen_pos[OF \<open>0 < m\<close>] by linarith
qed

lemma bitlen_shift: "0 < m \<Longrightarrow> bitlen (m * 2 ^ k) = bitlen m + int k"
proof (rule bitlen_unique)
  assume m: "0 < m"
  note b = bitlen_bounds[OF m] and p = bitlen_pos[OF m]
  show "0 < bitlen m + int k" using p by simp
  have "nat (bitlen m + int k - 1) = nat (bitlen m - 1) + k" using p by simp
  then show "2 ^ nat (bitlen m + int k - 1) \<le> m * 2 ^ k" using b by (simp add: power_add)
  have "nat (bitlen m + int k) = nat (bitlen m) + k" using p by simp
  then show "m * 2 ^ k < 2 ^ nat (bitlen m + int k)" using b by (simp add: power_add)
qed

lemma rne_cases: "rne m k = m div 2 ^ k \<or> rne m k = m div 2 ^ k + 1"
  by (simp add: rne_def Let_def)

lemma rne_mono: "m \<le> n \<Longrightarrow> rne m k \<le> rne n k"
proof -
  assume mn: "m \<le> n"
  define p where "p = (2::int) ^ k"
  have p: "0 < p" by (simp add: p_def)
  have qle: "m div p \<le> n div p" using mn p by (rule zdiv_mono1)
  show ?thesis
  proof (cases "m div p = n div p")
    case True
    have "m = m div p * p + m mod p" "n = n div p * p + n mod p" by simp_all
    with mn True have "m mod p \<le> n mod p" by (metis add_le_cancel_left)
    with True show ?thesis by (auto simp: rne_def Let_def p_def[symmetric])
  next
    case False
    with qle have "m div p + 1 \<le> n div p" by linarith
    with rne_cases[of m k] rne_cases[of n k] show ?thesis by (auto simp: p_def)
  qed
qed

lemma rne_shift: "rne (m * 2 ^ j) (k + j) = rne m k"
proof -
  have d: "m * 2 ^ j div 2 ^ (k + j) = m div 2 ^ k"
    by (simp add: power_add)
  have "m * 2 ^ j mod 2 ^ (k + j) = (m mod 2 ^ k) * 2 ^ j"
    by (simp add: power_add mult_mod_left)
  then show ?thesis
    by (simp only: rne_def Let_def d power_add) (simp add: mult.assoc[symmetric])
qed

lemma rne_exact_shift: "j \<le> k \<Longrightarrow> rne (m * 2 ^ k) j = m * 2 ^ (k - j)"
  using rne_exact[of "m * 2 ^ (k - j)" j] by (simp add: mult.assoc power_add[symmetric])

section \<open>The encoding depends on the value\<close>

definition fp_exp :: "nat \<Rightarrow> int \<Rightarrow> int \<Rightarrow> int \<Rightarrow> int" where
  "fp_exp mb emin m e = max (e + bitlen m - (int mb + 1)) emin"

definition fp_sig :: "nat \<Rightarrow> int \<Rightarrow> int \<Rightarrow> int \<Rightarrow> int" where
  "fp_sig mb emin m e = (let e' = fp_exp mb emin m e in
     if e \<le> e' then rne m (nat (e' - e)) else m * 2 ^ nat (e - e'))"

lemma round_pos_alt:
  "m \<noteq> 0 \<Longrightarrow> round_pos mb emin infb m e =
     min ((fp_exp mb emin m e - emin) * 2 ^ mb + fp_sig mb emin m e) infb"
  by (simp add: round_pos_def fp_exp_def fp_sig_def Let_def)

lemma fp_exp_shift: "0 < m \<Longrightarrow> fp_exp mb emin (m * 2 ^ k) (e - int k) = fp_exp mb emin m e"
  by (simp add: fp_exp_def bitlen_shift)

lemma fp_sig_shift:
  assumes "0 < m"
  shows "fp_sig mb emin (m * 2 ^ k) (e - int k) = fp_sig mb emin m e"
proof -
  define e' where "e' = fp_exp mb emin m e"
  have x: "fp_exp mb emin (m * 2 ^ k) (e - int k) = e'"
    using assms by (simp add: fp_exp_shift e'_def)
  consider "e \<le> e'" | "e' < e" "e - int k \<le> e'" | "e' < e - int k" by linarith
  then show ?thesis
  proof cases
    case 1
    then have "nat (e' - (e - int k)) = nat (e' - e) + k" by simp
    with 1 show ?thesis by (simp add: fp_sig_def x e'_def[symmetric] rne_shift)
  next
    case 2
    then have "nat (e' - (e - int k)) \<le> k" "k - nat (e' - (e - int k)) = nat (e - e')" by simp_all
    with 2 show ?thesis by (simp add: fp_sig_def x e'_def[symmetric] rne_exact_shift)
  next
    case 3
    then have "nat (e - e') = k + nat (e - int k - e')" by simp
    with 3 show ?thesis by (simp add: fp_sig_def x e'_def[symmetric] power_add)
  qed
qed

lemma round_pos_shift:
  "0 \<le> m \<Longrightarrow> round_pos mb emin infb (m * 2 ^ k) (e - int k) = round_pos mb emin infb m e"
proof (cases "m = 0")
  case False
  assume "0 \<le> m"
  with False show ?thesis by (simp add: round_pos_alt fp_exp_shift fp_sig_shift)
qed (simp add: round_pos_def)

section \<open>Monotonicity\<close>

lemma fp_sig_nonneg: "0 \<le> m \<Longrightarrow> 0 \<le> fp_sig mb emin m e"
  using rne_mono[of 0 m] rne_exact[of 0]
  by (auto simp: fp_sig_def Let_def)

lemma fp_sig_le: "0 < m \<Longrightarrow> fp_sig mb emin m e \<le> 2 ^ (mb + 1)"
proof -
  assume m: "0 < m"
  define e' where "e' = fp_exp mb emin m e"
  have b: "m < 2 ^ nat (bitlen m)" using bitlen_bounds[OF m] by simp
  have ge: "e + bitlen m - (int mb + 1) \<le> e'" by (simp add: e'_def fp_exp_def)
  show ?thesis
  proof (cases "e \<le> e'")
    case True
    then have "nat (bitlen m) \<le> mb + 1 + nat (e' - e)" using ge by linarith
    then have "(2::int) ^ nat (bitlen m) \<le> 2 ^ (mb + 1 + nat (e' - e))"
      by (intro power_increasing) simp_all
    then have "m \<le> 2 ^ (mb + 1) * 2 ^ nat (e' - e)"
      using b by (simp only: power_add)
    then have "rne m (nat (e' - e)) \<le> 2 ^ (mb + 1)"
      using rne_mono rne_exact by metis
    then show ?thesis using True by (simp add: fp_sig_def Let_def e'_def[symmetric])
  next
    case False
    then have "nat (bitlen m) + nat (e - e') \<le> mb + 1"
      using ge bitlen_pos[OF m] by linarith
    then have "(2::int) ^ (nat (bitlen m) + nat (e - e')) \<le> 2 ^ (mb + 1)"
      by (intro power_increasing) simp_all
    moreover have "m * 2 ^ nat (e - e') \<le> 2 ^ nat (bitlen m) * 2 ^ nat (e - e')"
      using b by (intro mult_right_mono) simp_all
    ultimately have "m * 2 ^ nat (e - e') \<le> 2 ^ (mb + 1)" by (simp only: power_add)
    then show ?thesis using False by (simp add: fp_sig_def Let_def e'_def[symmetric])
  qed
qed

lemma fp_sig_ge:
  assumes m: "0 < m" and norm: "emin < fp_exp mb emin m e"
  shows "2 ^ mb \<le> fp_sig mb emin m e"
proof -
  define e' where "e' = fp_exp mb emin m e"
  have e': "e' = e + bitlen m - (int mb + 1)" using norm by (simp add: e'_def fp_exp_def)
  have b: "2 ^ nat (bitlen m - 1) \<le> m" using bitlen_bounds[OF m] by simp
  show ?thesis
  proof (cases "e \<le> e'")
    case True
    then have "nat (bitlen m - 1) = mb + nat (e' - e)" using e' by linarith
    then have "2 ^ mb * 2 ^ nat (e' - e) \<le> m" using b by (simp add: power_add)
    then have "2 ^ mb \<le> rne m (nat (e' - e))" using rne_mono rne_exact by metis
    then show ?thesis using True by (simp add: fp_sig_def Let_def e'_def[symmetric])
  next
    case False
    then have "mb = nat (bitlen m - 1) + nat (e - e')" using e' bitlen_pos[OF m] by linarith
    then have "(2::int) ^ mb = 2 ^ nat (bitlen m - 1) * 2 ^ nat (e - e')"
      by (simp add: power_add)
    also have "\<dots> \<le> m * 2 ^ nat (e - e')" using b by (intro mult_right_mono) simp_all
    finally show ?thesis using False by (simp add: fp_sig_def Let_def e'_def[symmetric])
  qed
qed

lemma round_pos_nonneg: "0 \<le> m \<Longrightarrow> 0 \<le> infb \<Longrightarrow> 0 \<le> round_pos mb emin infb m e"
proof (cases "m = 0")
  case False
  assume "0 \<le> m" "0 \<le> infb"
  moreover have "0 \<le> (fp_exp mb emin m e - emin) * 2 ^ mb"
    by (simp add: fp_exp_def)
  ultimately show ?thesis using False fp_sig_nonneg[of m mb emin e] by (simp add: round_pos_alt)
qed (simp add: round_pos_def)

lemma round_pos_mono_same:
  assumes "0 < m" "m \<le> n"
  shows "round_pos mb emin infb m e \<le> round_pos mb emin infb n e"
proof -
  define a b where "a = fp_exp mb emin m e" and "b = fp_exp mb emin n e"
  have n: "0 < n" using assms by simp
  have ab: "a \<le> b" using bitlen_mono[OF assms] by (simp add: a_def b_def fp_exp_def)
  have "(a - emin) * 2 ^ mb + fp_sig mb emin m e \<le> (b - emin) * 2 ^ mb + fp_sig mb emin n e"
  proof (cases "a = b")
    case True
    have "fp_sig mb emin m e \<le> fp_sig mb emin n e"
      using True assms rne_mono[of m n]
      by (auto simp: fp_sig_def Let_def a_def[symmetric] b_def[symmetric] intro: mult_right_mono)
    with True show ?thesis by simp
  next
    case False
    with ab have "a + 1 \<le> b" by simp
    then have "(a + 1 - emin) * 2 ^ mb \<le> (b - emin) * 2 ^ mb" by (intro mult_right_mono) simp_all
    moreover have "(a - emin) * 2 ^ mb + 2 ^ (mb + 1) = (a + 1 - emin) * 2 ^ mb + 2 ^ mb"
      by (simp add: algebra_simps)
    moreover have "emin < b" using \<open>a + 1 \<le> b\<close> by (simp add: a_def fp_exp_def)
    then have "2 ^ mb \<le> fp_sig mb emin n e" using fp_sig_ge[OF n] by (simp add: b_def)
    ultimately show ?thesis using fp_sig_le[OF assms(1), of mb emin e] by linarith
  qed
  then show ?thesis using assms n by (simp add: round_pos_alt a_def b_def)
qed

theorem round_pos_mono:
  assumes "0 \<le> m" "c \<le> d" "c \<le> e" "m * 2 ^ nat (d - c) \<le> n * 2 ^ nat (e - c)" "0 \<le> infb"
  shows "round_pos mb emin infb m d \<le> round_pos mb emin infb n e"
proof -
  have n0: "0 \<le> n"
  proof (rule ccontr)
    assume "\<not> 0 \<le> n"
    then have "n * 2 ^ nat (e - c) < 0" by (simp add: mult_neg_pos)
    moreover have "0 \<le> m * 2 ^ nat (d - c)" using assms(1) by simp
    ultimately show False using assms(4) by linarith
  qed
  show ?thesis
  proof (cases "m = 0")
    case True
    then show ?thesis using round_pos_nonneg[OF n0 assms(5)] by (simp add: round_pos_def)
  next
    case False
    have "round_pos mb emin infb m d = round_pos mb emin infb (m * 2 ^ nat (d - c)) c"
      using round_pos_shift[OF assms(1), of mb emin infb "nat (d - c)" d] assms(2) by simp
    moreover have "round_pos mb emin infb n e = round_pos mb emin infb (n * 2 ^ nat (e - c)) c"
      using round_pos_shift[OF n0, of mb emin infb "nat (e - c)" e] assms(3) by simp
    moreover have "0 < m * 2 ^ nat (d - c)" using False assms(1) by simp
    ultimately show ?thesis using round_pos_mono_same[OF _ assms(4)] by simp
  qed
qed

section \<open>Packing\<close>

lemma f32_round_bounds:
  "0 \<le> m \<Longrightarrow> 0 \<le> round_pos 23 (- 149) 0x7F800000 m e \<and> round_pos 23 (- 149) 0x7F800000 m e \<le> 0x7F800000"
  by (simp add: round_pos_nonneg round_pos_le_inf)

lemma f32_pack_uint:
  "0 \<le> m \<Longrightarrow> uint (f32_pack s m e) = round_pos 23 (- 149) 0x7F800000 m e + (if s then 2 ^ 31 else 0)"
proof -
  assume "0 \<le> m"
  then have b: "0 \<le> round_pos 23 (- 149) 0x7F800000 m e + (if s then 2 ^ 31 else 0)"
    "round_pos 23 (- 149) 0x7F800000 m e + (if s then 2 ^ 31 else 0) < 2 ^ 32"
    using f32_round_bounds[of m e] by auto
  have "uint (word_of_int n :: f32) = n" if "0 \<le> n" "n < 2 ^ 32" for n
    using that unfolding uint_word_of_int by (intro mod_pos_pos_trivial) simp_all
  from this[OF b] show ?thesis by (simp only: f32_pack_def)
qed

lemma f32_pack_mag: "0 \<le> m \<Longrightarrow> f32_mag (f32_pack s m e) = round_pos 23 (- 149) 0x7F800000 m e"
  using f32_round_bounds[of m e]
  by (auto simp: f32_mag_def f32_pack_uint)

lemma f32_pack_neg: "0 \<le> m \<Longrightarrow> f32_neg (f32_pack s m e) = s"
  using f32_round_bounds[of m e]
  by (auto simp: f32_neg_def f32_pack_uint)

lemma f32_pack_number [simp]: "0 \<le> m \<Longrightarrow> \<not> f32_isnan (f32_pack s m e)"
  using f32_round_bounds[of m e]
  by (simp add: f32_isnan_def f32_pack_mag)

lemma f64_mag_nonneg: "0 \<le> f64_mag x" and f64_man_nonneg [simp]: "0 \<le> f64_man x"
  by (simp_all add: f64_mag_def f64_man_def Let_def)

lemma f32_man_nonneg [simp]: "0 \<le> f32_man x"
  by (simp add: f32_man_def Let_def)

lemma f32_inf_facts [simp]:
  "f32_mag (f32_inf s) = 0x7F800000" "f32_neg (f32_inf s) = s" "\<not> f32_isnan (f32_inf s)"
  by (simp_all add: f32_inf_def f32_mag_def f32_neg_def f32_isnan_def)

text \<open>The key of the float nearest to a double, as a function of the double's sign and value.\<close>

lemma f32_of_f64_number [simp]: "\<not> f64_isnan x \<Longrightarrow> \<not> f32_isnan (f32_of_f64 x)"
  by (simp add: f32_of_f64_def)

definition f64_round :: "f64 \<Rightarrow> int" where
  "f64_round x = (if f64_isinf x then 0x7F800000
     else round_pos 23 (- 149) 0x7F800000 (f64_man x) (f64_exp x))"

lemma f32_key_of_f64:
  "\<not> f64_isnan x \<Longrightarrow> f32_key (f32_of_f64 x) = (if f64_neg x then - f64_round x else f64_round x)"
  by (simp add: f32_of_f64_def f64_round_def f32_key_def f32_pack_mag f32_pack_neg)

lemma f64_round_nonneg: "0 \<le> f64_round x"
  by (simp add: f64_round_def round_pos_nonneg)

text \<open>Exponent and significand of a larger magnitude are a larger value.\<close>

lemma f64_value_mono:
  assumes "f64_mag x \<le> f64_mag y"
  shows "f64_man x * 2 ^ nat (f64_exp x + 1074) \<le> f64_man y * 2 ^ nat (f64_exp y + 1074)"
proof -
  define P :: int where "P = 2 ^ 52"
  define a b where "a = f64_mag x div P" and "b = f64_mag y div P"
  define u v where "u = f64_mag x mod P" and "v = f64_mag y mod P"
  have P: "0 < P" by (simp add: P_def)
  have x: "f64_mag x = a * P + u" and y: "f64_mag y = b * P + v"
    by (simp_all add: a_def b_def u_def v_def)
  have ab: "a \<le> b" unfolding a_def b_def using assms P by (intro zdiv_mono1)
  have nn: "0 \<le> a" "0 \<le> u" "u < P" "0 \<le> v" "v < P"
    using P f64_mag_nonneg by (simp_all add: a_def u_def v_def pos_imp_zdiv_nonneg_iff)
  have val: "f64_man z * 2 ^ nat (f64_exp z + 1074) =
      (let k = f64_mag z div P; r = f64_mag z mod P
       in if k = 0 then r else (r + P) * 2 ^ nat (k - 1))" for z
    by (simp add: f64_man_def f64_exp_def Let_def P_def)
  show ?thesis
  proof (cases "a = b")
    case True
    then have "u \<le> v" using assms x y by simp
    with True show ?thesis
      by (simp add: val Let_def a_def[symmetric] b_def[symmetric] u_def[symmetric] v_def[symmetric]
          mult_right_mono)
  next
    case False
    with ab nn(1) have b: "1 \<le> b" "a + 1 \<le> b" by simp_all
    have hi: "P * 2 ^ nat (b - 1) \<le> (v + P) * 2 ^ nat (b - 1)" using nn by (intro mult_right_mono) simp_all
    have "(if a = 0 then u else (u + P) * 2 ^ nat (a - 1)) \<le> P * 2 ^ nat a"
    proof (cases "a = 0")
      case False
      then have "nat a = Suc (nat (a - 1))" using nn(1) by simp
      moreover have "(u + P) * 2 ^ nat (a - 1) \<le> (P + P) * 2 ^ nat (a - 1)"
        using nn by (intro mult_right_mono) simp_all
      ultimately show ?thesis using False by simp
    qed (use nn in simp)
    also have "\<dots> \<le> P * 2 ^ nat (b - 1)"
      using b P by (intro mult_left_mono power_increasing) simp_all
    also note hi
    finally show ?thesis using b
      by (simp only: val Let_def a_def[symmetric] b_def[symmetric] u_def[symmetric] v_def[symmetric])
        simp
  qed
qed

lemma f64_exp_ge: "- 1074 \<le> f64_exp x"
proof -
  have "0 \<le> f64_mag x div 2 ^ 52" by (simp add: f64_mag_nonneg pos_imp_zdiv_nonneg_iff)
  then show ?thesis by (auto simp: f64_exp_def Let_def)
qed

lemma f64_round_mono:
  assumes "f64_mag x \<le> f64_mag y" "\<not> f64_isnan y"
  shows "f64_round x \<le> f64_round y"
proof -
  have "round_pos 23 (- 149) 0x7F800000 (f64_man x) (f64_exp x)
      \<le> round_pos 23 (- 149) 0x7F800000 (f64_man y) (f64_exp y)"
    using f64_value_mono[OF assms(1)] f64_exp_ge by (intro round_pos_mono[where c = "- 1074"]) simp_all
  moreover have "f64_isinf x \<Longrightarrow> f64_isinf y"
    using assms by (simp add: f64_isinf_def f64_isnan_def)
  ultimately show ?thesis by (auto simp: f64_round_def round_pos_le_inf)
qed

theorem f32_of_f64_mono:
  assumes "f64_key x \<le> f64_key y" "\<not> f64_isnan x" "\<not> f64_isnan y"
  shows "f32_key (f32_of_f64 x) \<le> f32_key (f32_of_f64 y)"
proof -
  note k = f32_key_of_f64[OF assms(2)] f32_key_of_f64[OF assms(3)]
  note nn = f64_mag_nonneg[of x] f64_mag_nonneg[of y] f64_round_nonneg[of x] f64_round_nonneg[of y]
  consider "f64_neg x" "\<not> f64_neg y" | "f64_neg x" "f64_neg y" | "\<not> f64_neg x" "\<not> f64_neg y"
    | "\<not> f64_neg x" "f64_neg y" by blast
  then show ?thesis
  proof cases
    case 1
    with k nn show ?thesis by simp
  next
    case 2
    with assms(1) have "f64_mag y \<le> f64_mag x" by (simp add: f64_key_def)
    with 2 k show ?thesis using f64_round_mono[OF _ assms(2)] by simp
  next
    case 3
    with assms(1) have "f64_mag x \<le> f64_mag y" by (simp add: f64_key_def)
    with 3 k show ?thesis using f64_round_mono[OF _ assms(3)] by simp
  next
    case 4
    with assms(1) nn have z: "f64_mag x = 0" "f64_mag y = 0" by (simp_all add: f64_key_def)
    then have "f64_round x = 0" "f64_round y = 0"
      by (simp_all add: f64_round_def f64_isinf_def f64_man_def round_pos_def)
    with k show ?thesis by simp
  qed
qed

section \<open>Widening is exact\<close>

lemma digits:
  fixes u p k :: int
  assumes "0 \<le> u" "u < p"
  shows "(k * p + u) div p = k" "(k * p + u) mod p = u"
  using assms by simp_all

lemma f32_round_exact:
  "\<not> f32_isnan x \<Longrightarrow> round_pos 23 (- 149) 0x7F800000 (f32_man x) (f32_exp x) = f32_mag x"
proof -
  assume n: "\<not> f32_isnan x"
  define k r where "k = f32_mag x div 2 ^ 23" and "r = f32_mag x mod 2 ^ 23"
  have x: "f32_mag x = k * 2 ^ 23 + r" by (simp add: k_def r_def)
  have nn: "0 \<le> k" "0 \<le> r" "r < 2 ^ 23" by (simp_all add: k_def r_def pos_imp_zdiv_nonneg_iff)
  have le: "f32_mag x \<le> 0x7F800000" using n by (simp add: f32_isnan_def)
  show ?thesis
  proof (cases "k = 0")
    case True
    then have m: "f32_man x = r" "f32_exp x = - 149"
      unfolding f32_man_def f32_exp_def Let_def k_def[symmetric] r_def[symmetric] by simp_all
    show ?thesis
    proof (cases "r = 0")
      case False
      then have "0 < r" using nn by simp
      have "bitlen r \<le> bitlen (2 ^ 23)" using \<open>0 < r\<close> nn by (intro bitlen_mono) simp_all
      also have "bitlen (2 ^ 23) = 24" by (intro bitlen_unique) simp_all
      finally have "fp_exp 23 (- 149) r (- 149) = - 149" by (simp add: fp_exp_def)
      then have "fp_sig 23 (- 149) r (- 149) = r" by (simp add: fp_sig_def)
      with \<open>fp_exp 23 (- 149) r (- 149) = - 149\<close> show ?thesis
        using False le m x True by (simp add: round_pos_alt)
    qed (simp add: m round_pos_def x True)
  next
    case False
    then have m: "f32_man x = r + 2 ^ 23" "f32_exp x = k - 150"
      unfolding f32_man_def f32_exp_def Let_def k_def[symmetric] r_def[symmetric] by simp_all
    have "bitlen (r + 2 ^ 23) = 24" using nn by (intro bitlen_unique) simp_all
    then have e: "fp_exp 23 (- 149) (r + 2 ^ 23) (k - 150) = k - 150"
      using False nn by (simp add: fp_exp_def)
    then have "fp_sig 23 (- 149) (r + 2 ^ 23) (k - 150) = r + 2 ^ 23" by (simp add: fp_sig_def)
    then have "round_pos 23 (- 149) 0x7F800000 (f32_man x) (f32_exp x)
        = min ((k - 1) * 2 ^ 23 + (r + 2 ^ 23)) 0x7F800000"
      using nn unfolding m by (subst round_pos_alt) (simp_all only: e, simp_all)
    then show ?thesis using le x by simp
  qed
qed

text \<open>A float that is neither NaN nor infinite becomes a normal double with the same value.\<close>

lemma f64_encode_small:
  assumes "0 < m" "m < 2 ^ 24" "- 149 \<le> e" "e \<le> 104"
    and z: "f64_mag z = round_pos 52 (- 1074) 0x7FF0000000000000 m e"
  shows "f64_man z = m * 2 ^ nat (53 - bitlen m)" "f64_exp z = e - (53 - bitlen m)"
    "f64_mag z < 0x7FF0000000000000"
proof -
  define s where "s = 53 - bitlen m"
  have "bitlen m \<le> bitlen (2 ^ 24 - 1)" using assms(1,2) by (intro bitlen_mono) simp_all
  also have "bitlen (2 ^ 24 - 1) = 24" by (intro bitlen_unique) simp_all
  finally have s: "29 \<le> s" "s \<le> 52" using bitlen_pos[OF assms(1)] by (simp_all add: s_def)
  define q where "q = m * 2 ^ nat s"
  have q: "2 ^ 52 \<le> q" "q < 2 ^ 53"
  proof -
    have len: "bitlen q = 53" using bitlen_shift[OF assms(1), of "nat s"] s by (simp add: q_def s_def)
    have "0 < q" using assms(1) by (simp add: q_def)
    from bitlen_bounds[OF this] len show "2 ^ 52 \<le> q" "q < 2 ^ 53" by simp_all
  qed
  have e': "fp_exp 52 (- 1074) m e = e - s" using assms(3) s by (simp add: fp_exp_def s_def)
  then have sig: "fp_sig 52 (- 1074) m e = q" using s by (simp add: fp_sig_def q_def)
  have le: "(e - s + 1074) * 2 ^ 52 + q < 0x7FF0000000000000"
  proof -
    have "(e - s + 1074) * 2 ^ 52 \<le> 1149 * 2 ^ 52" using assms(4) s by (intro mult_right_mono) simp_all
    with q show ?thesis by simp
  qed
  have mag: "f64_mag z = (e - s + 1075) * 2 ^ 52 + (q - 2 ^ 52)"
    using assms(1) le by (simp add: z round_pos_alt e' sig algebra_simps)
  have dm: "f64_mag z div 2 ^ 52 = e - s + 1075" "f64_mag z mod 2 ^ 52 = q - 2 ^ 52"
    unfolding mag using q by (intro digits; simp)+
  have "e - s + 1075 \<noteq> 0" using assms(3) s by simp
  with dm show "f64_man z = m * 2 ^ nat (53 - bitlen m)" "f64_exp z = e - (53 - bitlen m)"
    unfolding f64_man_def f64_exp_def Let_def by (simp_all add: q_def s_def)
  show "f64_mag z < 0x7FF0000000000000" using mag le by simp
qed

lemma f64_of_f32_bits:
  assumes "\<not> f32_isnan x"
  shows "f64_neg (f64_of_f32 x) = f32_neg x"
    "f64_mag (f64_of_f32 x) = (if f32_isinf x then 0x7FF0000000000000
       else round_pos 52 (- 1074) 0x7FF0000000000000 (f32_man x) (f32_exp x))"
proof -
  define b where "b = (if f32_isinf x then 0x7FF0000000000000
       else round_pos 52 (- 1074) 0x7FF0000000000000 (f32_man x) (f32_exp x))"
  have b: "0 \<le> b" "b \<le> 0x7FF0000000000000"
    by (simp_all add: b_def round_pos_nonneg round_pos_le_inf)
  have word64: "uint (word_of_int n :: f64) = n" if "0 \<le> n" "n < 2 ^ 64" for n
    using that unfolding uint_word_of_int by (intro mod_pos_pos_trivial) simp_all
  have u: "uint (f64_of_f32 x) = b + (if f32_neg x then 2 ^ 63 else 0)"
  proof -
    have "0 \<le> b + (if f32_neg x then 2 ^ 63 else 0)" "b + (if f32_neg x then 2 ^ 63 else 0) < 2 ^ 64"
      using b by auto
    from word64[OF this]
    show ?thesis using assms by (simp only: f64_of_f32_def if_False b_def[symmetric])
  qed
  have "(b + 2 ^ 63) mod 2 ^ 63 = b mod 2 ^ 63" by (rule mod_add_self2)
  moreover have "b mod 2 ^ 63 = b" using b by (intro mod_pos_pos_trivial) simp_all
  ultimately show "f64_neg (f64_of_f32 x) = f32_neg x" "f64_mag (f64_of_f32 x) = b"
    unfolding f64_neg_def f64_mag_def u using b by simp_all
qed

lemma f32_exp_range: "\<not> f32_isnan x \<Longrightarrow> \<not> f32_isinf x \<Longrightarrow> - 149 \<le> f32_exp x \<and> f32_exp x \<le> 104"
proof -
  assume "\<not> f32_isnan x" "\<not> f32_isinf x"
  then have "f32_mag x < 255 * 2 ^ 23" by (simp add: f32_isnan_def f32_isinf_def)
  then have "f32_mag x div 2 ^ 23 < 255" by simp
  moreover have "0 \<le> f32_mag x div 2 ^ 23" by (simp add: pos_imp_zdiv_nonneg_iff)
  ultimately show ?thesis by (auto simp: f32_exp_def Let_def)
qed

lemma f32_man_less: "f32_man x < 2 ^ 24"
proof -
  have "f32_mag x mod 2 ^ 23 < 2 ^ 23" by (rule pos_mod_bound) simp
  moreover have "0 \<le> f32_mag x mod 2 ^ 23" by simp
  ultimately show ?thesis unfolding f32_man_def Let_def by (cases "f32_mag x div 2 ^ 23 = 0") simp_all
qed

lemma f64_of_f32_number [simp]: "\<not> f32_isnan x \<Longrightarrow> \<not> f64_isnan (f64_of_f32 x)"
  by (simp add: f64_isnan_def f64_of_f32_bits round_pos_le_inf not_less)

lemma f64_round_of_f32: "\<not> f32_isnan x \<Longrightarrow> f64_round (f64_of_f32 x) = f32_mag x"
proof -
  assume n: "\<not> f32_isnan x"
  note bits = f64_of_f32_bits[OF n]
  consider "f32_isinf x" | "\<not> f32_isinf x" "f32_man x = 0" | "\<not> f32_isinf x" "0 < f32_man x"
    using f32_man_nonneg[of x] by linarith
  then show ?thesis
  proof cases
    case 1
    with bits show ?thesis by (simp add: f64_round_def f64_isinf_def) (simp add: f32_isinf_def)
  next
    case 2
    then have "f64_mag (f64_of_f32 x) = 0" by (simp add: bits round_pos_def)
    then have "f64_round (f64_of_f32 x) = 0"
      by (simp add: f64_round_def f64_isinf_def f64_man_def round_pos_def)
    moreover have "f32_mag x = 0" using f32_round_exact[OF n] 2 by (simp add: round_pos_def)
    ultimately show ?thesis by simp
  next
    case 3
    note e = f32_exp_range[OF n 3(1)]
    have mag: "f64_mag (f64_of_f32 x)
        = round_pos 52 (- 1074) 0x7FF0000000000000 (f32_man x) (f32_exp x)"
      using bits 3 by simp
    note enc = f64_encode_small[OF 3(2) f32_man_less conjunct1[OF e] conjunct2[OF e] mag]
    have len: "bitlen (f32_man x) \<le> 53"
    proof -
      have "bitlen (f32_man x) \<le> bitlen (2 ^ 24)"
        using 3(2) f32_man_less[of x] by (intro bitlen_mono) simp_all
      also have "bitlen (2 ^ 24) = 25" by (intro bitlen_unique) simp_all
      finally show ?thesis by simp
    qed
    have "f64_round (f64_of_f32 x) = round_pos 23 (- 149) 0x7F800000
        (f32_man x * 2 ^ nat (53 - bitlen (f32_man x))) (f32_exp x - int (nat (53 - bitlen (f32_man x))))"
      using enc len by (simp add: f64_round_def f64_isinf_def)
    also have "\<dots> = f32_mag x" by (simp only: round_pos_shift[OF f32_man_nonneg] f32_round_exact[OF n])
    finally show ?thesis .
  qed
qed

theorem f32_of_f64_of_f32: "\<not> f32_isnan x \<Longrightarrow> f32_key (f32_of_f64 (f64_of_f32 x)) = f32_key x"
  by (simp add: f32_key_of_f64 f64_of_f32_bits f64_round_of_f32) (simp add: f32_key_def)

text \<open>A value that a double exceeds is at most the float nearest to that double.\<close>

theorem f64_lt_widened:
  assumes "f64_lt (f64_of_f32 x) y" "\<not> f32_isnan x"
  shows "f32_key x \<le> f32_key (f32_of_f64 y)"
  using f32_of_f64_mono[of "f64_of_f32 x" y] assms by (simp add: f64_lt_def f32_of_f64_of_f32)

theorem f64_not_lt_widened:
  assumes "\<not> f64_lt (f64_of_f32 x) y" "\<not> f32_isnan x" "\<not> f64_isnan y"
  shows "f32_key (f32_of_f64 y) \<le> f32_key x"
  using f32_of_f64_mono[of y "f64_of_f32 x"] assms by (simp add: f64_lt_def f32_of_f64_of_f32)

lemma f32_of_f64_nonneg: "f64_le 0 d \<Longrightarrow> f32_le 0 (f32_of_f64 d)"
proof -
  assume d: "f64_le 0 d"
  have "f32_key (f32_of_f64 0) \<le> f32_key (f32_of_f64 d)"
    using d by (intro f32_of_f64_mono) (simp_all add: f64_le_def)
  moreover have "f32_key (f32_of_f64 0) = 0" "f32_key 0 = 0" "\<not> f32_isnan 0" by code_simp+
  ultimately show ?thesis using d by (simp add: f32_le_def f64_le_def)
qed

end
