(* ===== verification/Queries.thy ===== *)
theory Queries
  imports Replication IeeeRounding
begin

text \<open>
  Well-formed databases and what the queries answer on them: every write keeps the tables
  well formed, no query of a well-formed database faults, and each query returns what an
  abstract reading of the tables says.
\<close>

section \<open>Well-formed tables\<close>

definition row_wf :: "'a row_scheme \<Rightarrow> bool" where
  "row_wf r \<longleftrightarrow> (deleted r = 0 \<or> deleted r = 1) \<and> entity r \<in> range to_string"

definition tables_wf :: "database \<Rightarrow> bool" where
  "tables_wf db \<longleftrightarrow>
     (\<forall>r \<in> set (edge_table db). row_wf r \<and> entityTo r \<in> range to_string)
   \<and> (\<forall>r \<in> set (radius_table db). row_wf r \<and> f64_le 0 (row_magnitude r))
   \<and> (\<forall>r \<in> set (coord_table db). row_wf r
        \<and> \<not> f64_isnan (row_x r) \<and> \<not> f64_isnan (row_y r) \<and> \<not> f64_isnan (row_z r))
   \<and> (\<forall>r \<in> set (setop_table db). row_wf r \<and> (row_type r = 0 \<or> row_type r = 1))
   \<and> (\<forall>r \<in> set (document_table db). row_wf r \<and> document r \<in> range to_string
        \<and> (doc_type r = 0 \<or> doc_type r = 1))
   \<and> (\<forall>r \<in> set (name_table db). row_wf r)"

text \<open>Nothing checks a name that arrives in a message, so that the names are those \<open>Name\<close> accepts is
  a condition of its own.\<close>

definition names_wf :: "database \<Rightarrow> bool" where
  "names_wf db \<longleftrightarrow> (\<forall>r \<in> set (name_table db). valid_name \<lparr>name_value = row_name r\<rparr>)"

definition db_wf :: "database \<Rightarrow> bool" where
  "db_wf db \<longleftrightarrow> tables_wf db \<and> names_wf db"

lemma db_wf_tables: "db_wf db \<Longrightarrow> tables_wf db"
  by (simp add: db_wf_def)

text \<open>The names a client can build are those \<open>Name\<close> accepts.\<close>

fun op_ok :: "db_op \<Rightarrow> bool" where
  "op_ok (UpsertName i n t) = valid_name n"
| "op_ok (RetractName i n t) = valid_name n"
| "op_ok _ = True"

lemma empty_database_wf [wf_intros]: "db_wf empty_database"
  by (simp add: db_wf_def tables_wf_def names_wf_def)

lemma add_row_ball:
  assumes "\<And>q. set (w tbl q) \<subseteq> insert q (set tbl)"
    and "\<forall>r \<in> set tbl. P r" "\<And>q. p = Some q \<Longrightarrow> P q"
  shows "\<forall>r \<in> set (add_row w tbl p). P r"
proof (cases p)
  case (Some q)
  then show ?thesis using assms(1)[of q] assms(2) assms(3)[of q] by (auto simp: add_row_def)
qed (simp add: add_row_def assms(2))

lemma set_write_subset:
  "set (write_row tbl r) \<subseteq> insert r (set tbl)"
  "set (append_row tbl' q) \<subseteq> insert q (set tbl')"
  "set (write_edge tbl1 e) \<subseteq> insert e (set tbl1)"
  "set (write_document tbl2 d) \<subseteq> insert d (set tbl2)"
  by (auto simp: table_simps append_row_def insert_into_def)

lemma row_wf_is_deleted: "deleted r = is_deleted d \<Longrightarrow> entity r = to_string i \<Longrightarrow> row_wf r"
  by (auto simp: row_wf_def is_deleted_def)

lemma coord_insert_numbers:
  "engine_ok E \<Longrightarrow> coord_insert E i c t d = Some r \<Longrightarrow>
   \<not> f64_isnan (row_x r) \<and> \<not> f64_isnan (row_y r) \<and> \<not> f64_isnan (row_z r)"
  by (auto simp: coord_insert_def engine_ok_def split: option.splits)

lemma coord_insert_wf:
  "engine_ok E \<Longrightarrow> coord_insert E i c t d = Some r \<Longrightarrow>
   row_wf r \<and> \<not> f64_isnan (row_x r) \<and> \<not> f64_isnan (row_y r) \<and> \<not> f64_isnan (row_z r)"
  using row_coord_insert[of E i c t d r] row_wf_is_deleted[of r d i] coord_insert_numbers[of E i c t d r]
  by simp

lemma radius_insert_wf:
  "radius_insert E i c t d = Some r \<Longrightarrow> row_wf r \<and> f64_le 0 (row_magnitude r)"
  using row_radius_insert[of E i c t d r] row_wf_is_deleted[of r d i] by simp

lemma coord_row_of_wf:
  "engine_ok E \<Longrightarrow> coord_row_of E p = Some r \<Longrightarrow>
   row_wf r \<and> \<not> f64_isnan (row_x r) \<and> \<not> f64_isnan (row_y r) \<and> \<not> f64_isnan (row_z r)"
  by (cases p) (auto dest: coord_insert_wf)

lemma radius_row_of_wf: "radius_row_of E p = Some r \<Longrightarrow> row_wf r \<and> f64_le 0 (row_magnitude r)"
  by (cases p) (auto dest: radius_insert_wf)

lemma setop_row_of_wf: "setop_row_of p = Some r \<Longrightarrow> row_wf r \<and> (row_type r = 0 \<or> row_type r = 1)"
  by (cases p) (auto simp: row_for_defs row_wf_def from_operationType_def split: SetOperationType.splits)

lemma edge_row_of_wf: "edge_row_of p = Some r \<Longrightarrow> row_wf r \<and> entityTo r \<in> range to_string"
  by (cases p) (auto simp: row_for_defs row_wf_def)

lemma document_row_of_wf:
  "document_row_of p = Some r \<Longrightarrow> row_wf r \<and> document r \<in> range to_string
     \<and> (doc_type r = 0 \<or> doc_type r = 1)"
  by (cases p) (auto simp: row_for_defs row_wf_def to_integral_def split: NodeType.splits)

lemma name_row_of_wf:
  "name_row_of p = Some r \<Longrightarrow> row_wf r"
  "op_ok p \<Longrightarrow> name_row_of p = Some r \<Longrightarrow> valid_name \<lparr>name_value = row_name r\<rparr>"
  by (cases p; auto simp: row_for_defs row_wf_def)+

lemma apply_op_tables_wf [wf_intros]:
  assumes "engine_ok E" "tables_wf db" "apply_op E db p = Inr db'"
  shows "tables_wf db'"
  unfolding tables_wf_def apply_op_tables[OF assms(3)]
proof (intro conjI)
  note old = assms(2)[unfolded tables_wf_def]
  show "\<forall>r \<in> set (add_row write_edge (edge_table db) (edge_row_of p)).
      row_wf r \<and> entityTo r \<in> range to_string"
    using old edge_row_of_wf by (intro add_row_ball[OF set_write_subset(3)]) auto
  show "\<forall>r \<in> set (add_row append_row (radius_table db) (radius_row_of E p)).
      row_wf r \<and> f64_le 0 (row_magnitude r)"
    using old radius_row_of_wf by (intro add_row_ball[OF set_write_subset(2)]) auto
  show "\<forall>r \<in> set (add_row write_row (coord_table db) (coord_row_of E p)).
      row_wf r \<and> \<not> f64_isnan (row_x r) \<and> \<not> f64_isnan (row_y r) \<and> \<not> f64_isnan (row_z r)"
    using old coord_row_of_wf[OF assms(1)] by (intro add_row_ball[OF set_write_subset(1)]) auto
  show "\<forall>r \<in> set (add_row write_row (setop_table db) (setop_row_of p)).
      row_wf r \<and> (row_type r = 0 \<or> row_type r = 1)"
    using old setop_row_of_wf by (intro add_row_ball[OF set_write_subset(1)]) auto
  show "\<forall>r \<in> set (add_row write_document (document_table db) (document_row_of p)).
      row_wf r \<and> document r \<in> range to_string \<and> (doc_type r = 0 \<or> doc_type r = 1)"
    using old document_row_of_wf by (intro add_row_ball[OF set_write_subset(4)]) auto
  show "\<forall>r \<in> set (add_row write_row (name_table db) (name_row_of p)). row_wf r"
    using old name_row_of_wf(1) by (intro add_row_ball[OF set_write_subset(1)]) auto
qed

lemma apply_op_wf [wf_intros]:
  assumes "engine_ok E" "db_wf db" "op_ok p" "apply_op E db p = Inr db'"
  shows "db_wf db'"
proof -
  have "\<forall>r \<in> set (add_row write_row (name_table db) (name_row_of p)). valid_name \<lparr>name_value = row_name r\<rparr>"
    using assms(2) name_row_of_wf(2)[OF assms(3)] unfolding db_wf_def names_wf_def
    by (intro add_row_ball[OF set_write_subset(1)]) auto
  then show ?thesis using apply_op_tables_wf[OF assms(1) _ assms(4)] assms(2)
    by (simp add: db_wf_def names_wf_def apply_op_tables[OF assms(4)])
qed

lemma run_ops_wf [wf_intros]:
  "engine_ok E \<Longrightarrow> db_wf db \<Longrightarrow> \<forall>p \<in> set ops. op_ok p \<Longrightarrow> run_ops E db ops = Inr db' \<Longrightarrow> db_wf db'"
  unfolding run_ops_def by (rule foldE_invariant[where I = db_wf]) (auto intro: apply_op_wf)

section \<open>Identifiers come back\<close>

lemma read_id_to_string [simp]: "read_id (to_string u) = Inr u"
  by (simp add: read_id_def)

definition id_of :: "string \<Rightarrow> ID" where
  "id_of s = (case from_stream s of None \<Rightarrow> 0 | Some u \<Rightarrow> u)"

lemma id_of_to_string [simp]: "id_of (to_string u) = u"
  by (simp add: id_of_def)

lemma to_string_id_of: "s \<in> range to_string \<Longrightarrow> to_string (id_of s) = s"
  by auto

lemma read_id_range: "s \<in> range to_string \<Longrightarrow> read_id s = Inr (id_of s)"
  by auto

section \<open>The greatest radius\<close>

lemma max_radius_key:
  assumes "rows \<noteq> []" "\<forall>r \<in> set rows. \<not> f64_isnan (row_magnitude r)"
  shows "f32_key (max_radius rows) = Max ((\<lambda>r. f32_key (f32_of_f64 (row_magnitude r))) ` set rows)
     \<and> max_radius rows \<in> (\<lambda>r. f32_of_f64 (row_magnitude r)) ` set rows"
proof -
  define v where "v = (\<lambda>r :: radius_row. f32_of_f64 (row_magnitude r))"
  define f where "f = (\<lambda>m r. if f64_lt (f64_of_f32 m) (row_magnitude r) then v r else m)"
  have step: "f32_key (f m r) = max (f32_key m) (f32_key (v r)) \<and> \<not> f32_isnan (f m r)"
    if "\<not> f32_isnan m" "\<not> f64_isnan (row_magnitude r)" for m and r :: radius_row
    using that f64_lt_widened[of m "row_magnitude r"] f64_not_lt_widened[of m "row_magnitude r"]
    by (auto simp: f_def v_def)
  have run: "f32_key (foldl f m rs) = Max (insert (f32_key m) ((\<lambda>r. f32_key (v r)) ` set rs))
      \<and> foldl f m rs \<in> insert m (v ` set rs)"
    if "\<not> f32_isnan m" "\<forall>r \<in> set rs. \<not> f64_isnan (row_magnitude r)" for m rs
    using that
  proof (induction rs arbitrary: m)
    case (Cons r rs)
    let ?K = "(\<lambda>r. f32_key (v r)) ` set rs"
    have IH: "f32_key (foldl f (f m r) rs) = Max (insert (f32_key (f m r)) ?K)
        \<and> foldl f (f m r) rs \<in> insert (f m r) (v ` set rs)"
      using Cons step by simp
    have k: "f32_key (f m r) = max (f32_key m) (f32_key (v r))" using Cons step by simp
    have "f m r = m \<or> f m r = v r" by (simp add: f_def)
    moreover have "Max (insert (max (f32_key m) (f32_key (v r))) ?K)
        = Max (insert (f32_key m) (insert (f32_key (v r)) ?K))"
      by (cases "rs = []") (simp_all add: max.assoc)
    ultimately show ?case using IH k by auto
  qed simp
  obtain r rs where rows: "rows = r # rs" using assms(1) by (cases rows) auto
  have "max_radius rows = foldl f (v r) rows" unfolding max_radius_def f_def v_def rows by simp
  with run[of "v r" rows] assms(2) show ?thesis
    by (auto simp: rows v_def insert_absorb image_def)
qed

section \<open>Distances are numbers\<close>

lemma f32_mul_self: "\<not> f32_isnan x \<Longrightarrow> \<not> f32_isnan (f32_mul x x) \<and> \<not> f32_neg (f32_mul x x)"
  by (auto simp: f32_mul_def f32_pack_neg f32_isinf_def)

lemma f32_add_nonneg:
  assumes "\<not> f32_isnan x" "\<not> f32_isnan y" "\<not> f32_neg x" "\<not> f32_neg y"
  shows "\<not> f32_isnan (f32_add x y) \<and> \<not> f32_neg (f32_add x y)"
proof -
  have z: "\<not> f32_isnan (0 :: f32)" "\<not> f32_neg (0 :: f32)" by code_simp+
  show ?thesis using assms z
    by (auto simp: f32_add_def Let_def f32_pack_neg not_less
        intro!: add_nonneg_nonneg mult_nonneg_nonneg)
qed

lemma f32_sqrt_number: "\<not> f32_isnan x \<Longrightarrow> \<not> f32_neg x \<Longrightarrow> \<not> f32_isnan (f32_sqrt x)"
  using isqrt_bounds[of "f32_man x * 2 ^ 58"] isqrt_bounds[of "f32_man x * 2 ^ 59"]
  by (auto simp: f32_sqrt_def Let_def intro!: f32_pack_number)

lemma distance_number:
  "\<not> f32_isnan (cx c) \<Longrightarrow> \<not> f32_isnan (cy c) \<Longrightarrow> \<not> f32_isnan (cz c) \<Longrightarrow>
   \<not> f32_isnan (distance_from_origin c)"
  using f32_mul_self[of "cx c"] f32_mul_self[of "cy c"] f32_mul_self[of "cz c"]
  by (simp add: distance_from_origin_def f32_sqrt_number f32_add_nonneg)

lemma row_coord_number:
  "\<not> f64_isnan (row_x r) \<Longrightarrow> \<not> f64_isnan (row_y r) \<Longrightarrow> \<not> f64_isnan (row_z r) \<Longrightarrow>
   \<not> f32_isnan (distance_from_origin (row_coord r))"
  by (rule distance_number) (simp_all add: row_coord_def Coord_def)

lemma farthest_coord_key:
  assumes "rows \<noteq> []" "\<forall>r \<in> set rows. \<not> f32_isnan (distance_from_origin (row_coord r))"
  shows "f32_key (distance_from_origin (farthest_coord rows))
       = Max ((\<lambda>r. f32_key (distance_from_origin (row_coord r))) ` set rows)
     \<and> farthest_coord rows \<in> row_coord ` set rows"
proof -
  define k where "k = (\<lambda>c. f32_key (distance_from_origin c))"
  define f where "f = (\<lambda>best c. if f32_lt (distance_from_origin best) (distance_from_origin c)
      then c else best)"
  obtain r rs where rows: "rows = r # rs" using assms(1) by (cases rows) auto
  have eq: "farthest_coord rows = foldl f (row_coord r) (map row_coord rows)"
    by (simp add: farthest_coord_def f_def rows foldl_map)
  have run: "k (foldl f a cs) = Max (k ` insert a (set cs)) \<and> foldl f a cs \<in> insert a (set cs)"
    if "\<forall>c \<in> insert a (set cs). \<not> f32_isnan (distance_from_origin c)" for a cs
    using that
  proof (induction cs arbitrary: a)
    case (Cons c cs)
    have fa: "f a c = a \<or> f a c = c" "k (f a c) = max (k a) (k c)"
      using Cons.prems by (auto simp: f_def k_def f32_lt_key)
    then have IH: "k (foldl f (f a c) cs) = Max (k ` insert (f a c) (set cs))
        \<and> foldl f (f a c) cs \<in> insert (f a c) (set cs)"
      using Cons by (intro Cons.IH) auto
    have "Max (k ` insert (f a c) (set cs)) = Max (k ` insert a (insert c (set cs)))"
      using fa(2) by (cases "cs = []") (simp_all add: max.assoc)
    with IH fa(1) show ?case by auto
  qed simp
  from run[of "row_coord r" "map row_coord rows"] assms(2) show ?thesis
    unfolding eq by (auto simp: k_def rows insert_absorb image_image)
qed

section \<open>Well-formed databases, table by table\<close>

lemma tables_wfD:
  assumes "tables_wf db"
  shows "r1 \<in> set (edge_table db) \<Longrightarrow> row_wf r1 \<and> entityTo r1 \<in> range to_string"
    and "r2 \<in> set (radius_table db) \<Longrightarrow> row_wf r2 \<and> f64_le 0 (row_magnitude r2)"
    and "r3 \<in> set (coord_table db) \<Longrightarrow> row_wf r3
      \<and> \<not> f64_isnan (row_x r3) \<and> \<not> f64_isnan (row_y r3) \<and> \<not> f64_isnan (row_z r3)"
    and "r4 \<in> set (setop_table db) \<Longrightarrow> row_wf r4 \<and> (row_type r4 = 0 \<or> row_type r4 = 1)"
    and "r5 \<in> set (document_table db) \<Longrightarrow> row_wf r5 \<and> document r5 \<in> range to_string
      \<and> (doc_type r5 = 0 \<or> doc_type r5 = 1)"
    and "r6 \<in> set (name_table db) \<Longrightarrow> row_wf r6"
  using assms unfolding tables_wf_def by blast+

lemmas db_wfD = tables_wfD[OF db_wf_tables]

lemma names_wfD: "names_wf db \<Longrightarrow> r \<in> set (name_table db) \<Longrightarrow> valid_name \<lparr>name_value = row_name r\<rparr>"
  by (simp add: names_wf_def)

lemma latest_rows_subset: "r \<in> set (latest_rows tbl e) \<Longrightarrow> r \<in> set tbl"
  by (simp add: set_latest_rows)

section \<open>The sphere of an entity\<close>

definition document_live :: "database \<Rightarrow> ID \<Rightarrow> bool" where
  "document_live db i \<longleftrightarrow>
     (\<exists>r \<in> set (document_table db). deleted r = 0 \<and> entity r = to_string i)"

lemma sphere_None:
  assumes "engine_ok E" "\<not> document_live db i \<or> radius_values db i = {} \<or> coord_values db i = {}"
  shows "sphere E db i = Inr None"
  using assms
  by (auto simp: sphere_def Let_def engine_ok_def reorders_Nil_iff document_live_def
      radius_values_def coord_values_def filter_empty_conv)

lemma sphere_Some:
  assumes E: "engine_ok E" and wf: "db_wf db" and d: "document_live db i"
    and r: "radius_values db i \<noteq> {}" and c: "coord_values db i \<noteq> {}"
  shows "\<exists>c r. sphere E db i = Inr (Some (Sphere i c r))
    \<and> c \<in> coord_values db i
    \<and> (\<forall>c' \<in> coord_values db i.
         f32_key (distance_from_origin c') \<le> f32_key (distance_from_origin c))
    \<and> magnitude r \<in> radius_values db i
    \<and> (\<forall>m \<in> radius_values db i. f32_key m \<le> f32_key (magnitude r))"
proof -
  define rs where "rs = order_radius E (latest_rows (radius_table db) (to_string i))"
  define cs where "cs = order_coord E (latest_rows (coord_table db) (to_string i))"
  have set: "set rs = set (latest_rows (radius_table db) (to_string i))"
      "set cs = set (latest_rows (coord_table db) (to_string i))"
    using E by (simp_all add: rs_def cs_def engine_ok_def reorders_set)
  have vals: "radius_values db i = (\<lambda>q. f32_of_f64 (row_magnitude q)) ` set rs"
    "coord_values db i = row_coord ` set cs"
    by (simp_all add: radius_values_def coord_values_def set)
  have ne: "rs \<noteq> []" "cs \<noteq> []" using r c vals by auto
  have rn: "\<forall>q \<in> set rs. f64_le 0 (row_magnitude q)"
    using db_wfD(2)[OF wf] latest_rows_subset set by blast
  then have rn': "\<forall>q \<in> set rs. \<not> f64_isnan (row_magnitude q)" by (auto simp: f64_le_def)
  have cn: "\<forall>q \<in> set cs. \<not> f32_isnan (distance_from_origin (row_coord q))"
    using db_wfD(3)[OF wf] latest_rows_subset row_coord_number unfolding set by blast
  note mr = max_radius_key[OF ne(1) rn'] and fc = farthest_coord_key[OF ne(2) cn]
  have "f32_le 0 (max_radius rs)" using mr rn f32_of_f64_nonneg by auto
  then have "sphere E db i = Inr (Some (Sphere i (farthest_coord cs) \<lparr>magnitude = max_radius rs\<rparr>))"
    using d ne unfolding sphere_def document_live_def Let_def rs_def[symmetric] cs_def[symmetric]
    by (auto simp: Radius_def filter_empty_conv)
  moreover have "\<forall>c' \<in> coord_values db i.
      f32_key (distance_from_origin c') \<le> f32_key (distance_from_origin (farthest_coord cs))"
    using fc by (auto simp: vals)
  moreover have "\<forall>m \<in> radius_values db i. f32_key m \<le> f32_key (max_radius rs)"
    using mr by (auto simp: vals)
  ultimately show ?thesis using mr fc by (intro exI conjI) (auto simp: vals)
qed

section \<open>The edges of an entity\<close>

lemma edge_alive_iff:
  "edge_alive db a b \<longleftrightarrow> (\<exists>r \<in> set (edge_table db). entity r = a \<and> entityTo r = b \<and> deleted r = 0
     \<and> (\<forall>q \<in> set (edge_table db). entity q = a \<longrightarrow> entityTo q = b \<longrightarrow> timestamp q \<le> timestamp r))"
  by (fastforce simp: edge_alive_def Let_def list_ex_iff eq_commute[of "Some _"] max_timestamp_Some_iff)

lemma edges_spec:
  assumes E: "engine_ok E" and wf: "db_wf db"
  shows "\<exists>es. edges E db i = Inr es \<and> distinct es
    \<and> set es = {j. edge_alive db (to_string i) (to_string j)}"
proof -
  define gs where "gs = order_text E (remdups (map entityTo
      (filter (\<lambda>r. entity r = to_string i) (edge_table db))))"
  have ms: "mset gs = mset (remdups (map entityTo
      (filter (\<lambda>r. entity r = to_string i) (edge_table db))))"
    using E by (simp add: gs_def engine_ok_def reorders_mset)
  have gs: "set gs = entityTo ` {r \<in> set (edge_table db). entity r = to_string i}"
    using mset_eq_setD[OF ms] by auto
  have dist: "distinct gs" using mset_eq_imp_distinct_iff[OF ms] by simp
  have rng: "s \<in> range to_string" if "s \<in> set gs" for s
    using that db_wfD(1)[OF wf] by (auto simp: gs)
  define f where "f = (\<lambda>s. if edge_alive db (to_string i) s then Some (id_of s) else None)"
  have "mapE (\<lambda>to. if edge_alive db (to_string i) to
      then bindE (read_id to) (\<lambda>uid. Inr (Some uid)) else Inr None) gs = Inr (map f gs)"
    using rng by (intro mapE_Inr) (auto simp: f_def read_id_range)
  then have "edges E db i = Inr (collect (map f gs))"
    by (simp add: edges_def Let_def gs_def)
  moreover have "collect (map f gs) = map id_of (filter (edge_alive db (to_string i)) gs)"
    by (induction gs) (auto simp: f_def)
  moreover have "inj_on id_of (set gs)"
    using rng by (auto simp: inj_on_def) (metis id_of_to_string rangeE)
  then have "distinct (map id_of (filter (edge_alive db (to_string i)) gs))"
    using dist by (auto simp: distinct_map inj_on_def)
  moreover have "set (map id_of (filter (edge_alive db (to_string i)) gs))
      = {j. edge_alive db (to_string i) (to_string j)}"
  proof (intro equalityI subsetI)
    fix j assume "j \<in> set (map id_of (filter (edge_alive db (to_string i)) gs))"
    then obtain s where s: "s \<in> set gs" "edge_alive db (to_string i) s" "j = id_of s" by auto
    with rng[OF s(1)] show "j \<in> {j. edge_alive db (to_string i) (to_string j)}" by auto
  next
    fix j assume "j \<in> {j. edge_alive db (to_string i) (to_string j)}"
    then have a: "edge_alive db (to_string i) (to_string j)" by simp
    then have "to_string j \<in> set gs" by (auto simp: gs edge_alive_iff image_iff)
    with a show "j \<in> set (map id_of (filter (edge_alive db (to_string i)) gs))"
      by (auto intro!: image_eqI[of j id_of "to_string j"])
  qed
  ultimately show ?thesis by auto
qed

section \<open>The entities of a document\<close>

definition document_rows :: "database \<Rightarrow> ID \<Rightarrow> document_row list" where
  "document_rows db d = filter (\<lambda>r. deleted r = 0 \<and> document r = to_string d) (document_table db)"

lemma from_integral_column:
  "n = 0 \<or> n = 1 \<Longrightarrow> \<exists>ty. from_integral (size_of_int n) = Some ty \<and> n = int (to_integral ty)"
  by (elim disjE) (auto simp: from_integral_def to_integral_def size_of_int_def intro: exI[of _ Sphere_type] exI[of _ SetOperation_type])

text \<open>One entry per live row: the entity and the type the row was created with.\<close>

lemma entities_spec:
  assumes E: "engine_ok E" and wf: "tables_wf db"
  shows "\<exists>es. entities E db d = Inr es
    \<and> image_mset (\<lambda>e. (to_string (ent_uid e), int (to_integral (ent_type e)))) (mset es)
      = image_mset (\<lambda>r. (entity r, doc_type r)) (mset (document_rows db d))"
proof -
  define rs where "rs = order_document E (document_rows db d)"
  have ms: "mset rs = mset (document_rows db d)"
    using E by (simp add: rs_def engine_ok_def reorders_mset)
  have sub: "r \<in> set (document_table db)" if "r \<in> set rs" for r
    using that mset_eq_setD[OF ms] by (auto simp: document_rows_def)
  define ty where "ty = (\<lambda>r :: document_row. the (from_integral (size_of_int (doc_type r))))"
  have ty: "from_integral (size_of_int (doc_type r)) = Some (ty r) \<and> doc_type r = int (to_integral (ty r))"
    if "r \<in> set rs" for r
  proof -
    have "doc_type r = 0 \<or> doc_type r = 1" using tables_wfD(5)[OF wf sub[OF that]] by blast
    from from_integral_column[OF this] show ?thesis by (auto simp: ty_def)
  qed
  have ent: "entity r \<in> range to_string" if "r \<in> set rs" for r
    using tables_wfD(5)[OF wf sub[OF that]] by (simp add: row_wf_def)
  define f where "f = (\<lambda>r. \<lparr>ent_uid = id_of (entity r), ent_type = ty r\<rparr>)"
  have "mapE (\<lambda>r. case from_integral (size_of_int (doc_type r)) of None \<Rightarrow> Inr None
      | Some t \<Rightarrow> bindE (read_id (entity r)) (\<lambda>uid. Inr (Some \<lparr>ent_uid = uid, ent_type = t\<rparr>))) rs
      = Inr (map (\<lambda>r. Some (f r)) rs)"
    using ty[THEN conjunct1] ent by (intro mapE_Inr) (simp add: f_def read_id_range)
  then have "entities E db d = Inr (map f rs)"
    by (simp add: entities_def Let_def rs_def document_rows_def)
  moreover have "image_mset (\<lambda>e. (to_string (ent_uid e), int (to_integral (ent_type e)))) (mset (map f rs))
      = image_mset (\<lambda>r. (entity r, doc_type r)) (mset rs)"
    unfolding mset_map[symmetric] using ty ent by (intro arg_cong[where f = mset]) (auto simp: f_def to_string_id_of)
  ultimately show ?thesis using ms by auto
qed

section \<open>The set operation of an entity\<close>

lemma setop_None: "engine_ok E \<Longrightarrow> setop_values db i = {} \<Longrightarrow> setop E db i = None"
  using reorders_set[of "order_setop E" "filter (\<lambda>r. deleted r = 0 \<and> entity r = to_string i) (setop_table db)"]
  by (auto simp: setop_def setop_values_def Let_def engine_ok_def latest_rows_Nil_iff
      split: list.splits dest: arg_cong[of _ _ set])

lemma hd_sort_key_least:
  "xs \<noteq> [] \<Longrightarrow> hd (sort_key f xs) \<in> set xs \<and> (\<forall>x \<in> set xs. f (hd (sort_key f xs)) \<le> f x)"
  for f :: "'a \<Rightarrow> 'k::linorder"
proof -
  assume "xs \<noteq> []"
  then obtain y ys where s: "sort_key f xs = y # ys"
    by (metis list.exhaust set_empty set_sort)
  have set: "set xs = set (y # ys)" using arg_cong[OF s, of set] by simp
  moreover have "sorted (map f (y # ys))" using s by (metis sorted_sort_key)
  ultimately show ?thesis unfolding s set by auto
qed

lemma setop_Some:
  assumes E: "engine_ok E" and wf: "db_wf db" and ne: "setop_values db i \<noteq> {}"
  shows "\<exists>t. setop E db i = Some (SetOp i t) \<and> int (from_operationType t) \<in> setop_values db i"
proof -
  define rows where "rows = filter (\<lambda>r. deleted r = 0 \<and> entity r = to_string i) (setop_table db)"
  define xs where "xs = order_setop E rows"
  have set: "set xs = set rows" using E by (simp add: xs_def engine_ok_def reorders_set)
  have "rows \<noteq> []" using ne by (auto simp: rows_def setop_values_def set_latest_rows filter_empty_conv)
  then have "xs \<noteq> []" using set by auto
  define y where "y = hd (sort_key (\<lambda>r. - uint (timestamp r)) xs)"
  have y: "y \<in> set rows" "\<forall>x \<in> set rows. timestamp x \<le> timestamp y"
    using hd_sort_key_least[OF \<open>xs \<noteq> []\<close>, of "\<lambda>r. - uint (timestamp r)"]
    by (auto simp: y_def set word_le_def)
  then have latest: "y \<in> set (latest_rows (setop_table db) (to_string i))"
    by (auto simp: rows_def set_latest_rows)
  have "row_type y = 0 \<or> row_type y = 1"
    using db_wfD(4)[OF wf] y(1) by (auto simp: rows_def)
  then obtain t where t: "to_operationType (size_of_int (row_type y)) = Some t"
    "row_type y = int (from_operationType t)"
    by (auto simp: to_operationType_def size_of_int_def from_operationType_def)
  obtain ys where "sort_key (\<lambda>r. - uint (timestamp r)) xs = y # ys"
    using \<open>xs \<noteq> []\<close> by (metis y_def list.collapse set_empty set_sort)
  then have "setop E db i = Some (SetOp i t)"
    using t by (simp add: setop_def Let_def xs_def rows_def)
  moreover have "int (from_operationType t) \<in> setop_values db i"
    using imageI[OF latest, of row_type] t(2) by (simp add: setop_values_def)
  ultimately show ?thesis by blast
qed

section \<open>The documents\<close>

lemma foldE_names:
  "\<forall>r \<in> set rs. valid_name \<lparr>name_value = row_name r\<rparr> \<Longrightarrow>
   foldE (\<lambda>latest row. bindE (Name (row_name row)) (\<lambda>this. Inr (preferred_name latest this))) n rs
   = Inr (foldl preferred_name n (map (\<lambda>r. \<lparr>name_value = row_name r\<rparr>) rs))"
proof (induction rs arbitrary: n)
  case (Cons r rs)
  have "Name (row_name r) = Inr \<lparr>name_value = row_name r\<rparr>"
    using Cons.prems by (simp add: Name_Inr_iff)
  with Cons show ?case by simp
qed simp

lemma foldl_preferred_name:
  "name_value (foldl preferred_name n ns) = Min (name_value ` insert n (set ns))"
proof (induction ns arbitrary: n)
  case (Cons m ns)
  have "name_value (foldl preferred_name (preferred_name n m) ns)
      = Min (insert (min (name_value n) (name_value m)) (name_value ` set ns))"
    by (simp add: Cons.IH name_pref.pick_rank)
  also have "\<dots> = Min (insert (name_value n) (insert (name_value m) (name_value ` set ns)))"
    by (cases "ns = []") (simp_all add: min.assoc)
  finally show ?case by (simp add: insert_commute)
qed simp

lemma document_name_spec:
  assumes E: "engine_ok E" and wf: "db_wf db"
  shows "document_name E db (to_string d) = Inr (if name_values db d = {} then None
     else Some \<lparr>doc_uid = d, doc_name = \<lparr>name_value = Min (name_values db d)\<rparr>\<rparr>)"
proof -
  define xs where "xs = order_name E (latest_rows (name_table db) (to_string d))"
  have set: "set xs = set (latest_rows (name_table db) (to_string d))"
    using E by (simp add: xs_def engine_ok_def reorders_set)
  have vals: "name_values db d = row_name ` set xs" by (simp add: name_values_def set)
  have ok: "\<forall>r \<in> set xs. valid_name \<lparr>name_value = row_name r\<rparr>"
    using names_wfD wf latest_rows_subset unfolding set db_wf_def by blast
  show ?thesis
  proof (cases xs)
    case Nil
    then show ?thesis by (simp add: document_name_def xs_def[symmetric] vals)
  next
    case (Cons r rs)
    define n where "n = foldl preferred_name \<lparr>name_value = row_name r\<rparr>
        (map (\<lambda>r. \<lparr>name_value = row_name r\<rparr>) (r # rs))"
    have "name_value n = Min (name_values db d)"
      unfolding n_def foldl_preferred_name vals Cons by (simp add: image_image insert_absorb)
    then have n: "n = \<lparr>name_value = Min (name_values db d)\<rparr>" by simp
    have nm: "Name (row_name r) = Inr \<lparr>name_value = row_name r\<rparr>"
      using ok Cons by (simp add: Name_Inr_iff)
    have "document_name E db (to_string d) = Inr (Some \<lparr>doc_uid = d, doc_name = n\<rparr>)"
      unfolding document_name_def xs_def[symmetric] Cons list.case nm bindE_simps
      by (subst foldE_names) (use ok Cons in \<open>simp_all add: n_def\<close>)
    then show ?thesis using vals Cons n by simp
  qed
qed

text \<open>A name that \<open>Name\<close> refuses stops the listing, whichever document has it.\<close>

lemma foldE_names_refused:
  "r \<in> set rs \<Longrightarrow> \<not> valid_name \<lparr>name_value = row_name r\<rparr> \<Longrightarrow>
   foldE (\<lambda>latest row. bindE (Name (row_name row)) (\<lambda>this. Inr (preferred_name latest this))) n rs
   = Inl AssertFailed"
proof (induction rs arbitrary: n)
  case (Cons q rs)
  show ?case
  proof (cases "valid_name \<lparr>name_value = row_name q\<rparr>")
    case True
    then have "Name (row_name q) = Inr \<lparr>name_value = row_name q\<rparr>" "r \<in> set rs"
      using Cons.prems by (auto simp: Name_Inr_iff)
    then show ?thesis using Cons by simp
  qed (auto simp: valid_name_def Name_def)
qed simp

lemma document_name_refused:
  assumes "engine_ok E" "r \<in> set (latest_rows (name_table db) s)" "\<not> valid_name \<lparr>name_value = row_name r\<rparr>"
  shows "document_name E db s = Inl AssertFailed"
proof -
  have set: "set (order_name E (latest_rows (name_table db) s)) = set (latest_rows (name_table db) s)"
    using assms(1) by (simp add: engine_ok_def reorders_set)
  then obtain q qs where qs: "order_name E (latest_rows (name_table db) s) = q # qs"
    using assms(2) by (cases "order_name E (latest_rows (name_table db) s)") auto
  have "r \<in> set (q # qs)" using assms(2) set unfolding qs by blast
  from foldE_names_refused[OF this assms(3)] show ?thesis
    by (cases "Name (row_name q)") (simp_all add: document_name_def qs Name_def split: if_splits)
qed

lemma document_name_outcome:
  assumes "engine_ok E"
  shows "(\<exists>x. document_name E db (to_string d) = Inr x) \<or> document_name E db (to_string d) = Inl AssertFailed"
proof (cases "\<exists>r \<in> set (latest_rows (name_table db) (to_string d)). \<not> valid_name \<lparr>name_value = row_name r\<rparr>")
  case True
  then show ?thesis using document_name_refused[OF assms] by blast
next
  case False
  define xs where "xs = order_name E (latest_rows (name_table db) (to_string d))"
  have "set xs = set (latest_rows (name_table db) (to_string d))"
    using assms by (simp add: xs_def engine_ok_def reorders_set)
  then have "\<forall>r \<in> set xs. valid_name \<lparr>name_value = row_name r\<rparr>" using False by blast
  then show ?thesis
    using foldE_names[of xs] valid_name_Name[of "\<lparr>name_value = row_name (hd xs)\<rparr>"]
    unfolding document_name_def xs_def[symmetric] by (cases xs) auto
qed

lemma mapE_first_fault:
  "\<forall>x \<in> set xs. (\<exists>y. f x = Inr y) \<or> f x = Inl e \<Longrightarrow> x \<in> set xs \<Longrightarrow> f x = Inl e \<Longrightarrow> mapE f xs = Inl e"
proof (induction xs)
  case (Cons a xs)
  then consider "f a = Inl e" | y where "f a = Inr y" "x \<in> set xs" by fastforce
  then show ?case by cases (use Cons in simp_all)
qed simp

lemma documents_refused:
  assumes E: "engine_ok E" and wf: "tables_wf db" and d: "document_rows db d \<noteq> []"
    and r: "r \<in> set (latest_rows (name_table db) (to_string d))" "\<not> valid_name \<lparr>name_value = row_name r\<rparr>"
  shows "documents E db = Inl AssertFailed"
proof -
  define gs where "gs = order_text E (remdups (map document
      (filter (\<lambda>r. deleted r = is_deleted False) (document_table db))))"
  have ms: "mset gs = mset (remdups (map document (filter (\<lambda>r. deleted r = 0) (document_table db))))"
    using E by (simp add: gs_def engine_ok_def reorders_mset)
  have gs: "set gs = document ` {r \<in> set (document_table db). deleted r = 0}"
    using mset_eq_setD[OF ms] by auto
  have rng: "s \<in> range to_string" if "s \<in> set gs" for s
    using that tables_wfD(5)[OF wf] by (auto simp: gs)
  have "\<exists>r \<in> set (document_table db). deleted r = 0 \<and> document r = to_string d"
    using d by (auto simp: document_rows_def filter_empty_conv)
  then have "to_string d \<in> set gs" unfolding gs by (auto simp: image_iff)
  then have "mapE (document_name E db) gs = Inl AssertFailed"
  proof (intro mapE_first_fault[where x = "to_string d"] ballI)
    show "(\<exists>y. document_name E db s = Inr y) \<or> document_name E db s = Inl AssertFailed" if "s \<in> set gs" for s
      using rng[OF that] document_name_outcome[OF E] by blast
  qed (use document_name_refused[OF E r] in simp_all)
  then show ?thesis by (simp add: documents_def gs_def Let_def)
qed

lemma documents_spec:
  assumes E: "engine_ok E" and wf: "db_wf db"
  shows "\<exists>ds. documents E db = Inr ds \<and> distinct ds \<and> set ds =
    {\<lparr>doc_uid = d, doc_name = \<lparr>name_value = Min (name_values db d)\<rparr>\<rparr> | d.
       document_rows db d \<noteq> [] \<and> name_values db d \<noteq> {}}"
proof -
  define gs where "gs = order_text E (remdups (map document
      (filter (\<lambda>r. deleted r = is_deleted False) (document_table db))))"
  have ms: "mset gs = mset (remdups (map document (filter (\<lambda>r. deleted r = 0) (document_table db))))"
    using E by (simp add: gs_def engine_ok_def reorders_mset)
  have gs: "set gs = document ` {r \<in> set (document_table db). deleted r = 0}"
    using mset_eq_setD[OF ms] by auto
  have dist: "distinct gs" using mset_eq_imp_distinct_iff[OF ms] by simp
  have rng: "s \<in> range to_string" if "s \<in> set gs" for s
    using that db_wfD(5)[OF wf] by (auto simp: gs)
  define f where "f = (\<lambda>s. if name_values db (id_of s) = {} then None
     else Some \<lparr>doc_uid = id_of s, doc_name = \<lparr>name_value = Min (name_values db (id_of s))\<rparr>\<rparr>)"
  have "document_name E db s = Inr (f s)" if "s \<in> set gs" for s
  proof -
    obtain d where "s = to_string d" using rng[OF \<open>s \<in> set gs\<close>] by blast
    then show ?thesis by (simp add: f_def document_name_spec[OF E wf])
  qed
  then have "mapE (document_name E db) gs = Inr (map f gs)" by (rule mapE_Inr)
  then have "documents E db = Inr (collect (map f gs))"
    by (simp add: documents_def Let_def gs_def)
  moreover have "set (collect (map f gs)) = {x. \<exists>d. document_rows db d \<noteq> [] \<and> f (to_string d) = Some x}"
  proof -
    have "x \<in> set (collect (map f gs)) \<longleftrightarrow> (\<exists>s \<in> set gs. f s = Some x)" for x
      by (auto simp: set_collect eq_commute[of "Some x"])
    moreover have "(\<exists>s \<in> set gs. f s = Some x) \<longleftrightarrow> (\<exists>d. to_string d \<in> set gs \<and> f (to_string d) = Some x)" for x
      using rng by blast
    moreover have "to_string d \<in> set gs \<longleftrightarrow> document_rows db d \<noteq> []" for d
      by (auto simp: gs document_rows_def filter_empty_conv image_iff eq_commute[of "to_string d"])
    ultimately show ?thesis by auto
  qed
  moreover have "distinct (collect (map f gs))"
    using dist rng
  proof (induction gs)
    case (Cons s gs)
    have IH: "distinct (collect (map f gs))" using Cons by simp
    show ?case
    proof (cases "f s")
      case (Some x)
      then have "doc_uid x = id_of s" by (auto simp: f_def split: if_splits)
      have "x \<notin> set (collect (map f gs))"
      proof
        assume "x \<in> set (collect (map f gs))"
        then obtain s' where s': "s' \<in> set gs" "f s' = Some x" by (auto simp: set_collect)
        then have "id_of s' = id_of s" using \<open>doc_uid x = id_of s\<close> by (auto simp: f_def split: if_splits)
        moreover have "s \<in> range to_string" "s' \<in> range to_string" using Cons.prems s'(1) by auto
        ultimately have "s' = s" by auto
        with s'(1) Cons.prems show False by simp
      qed
      with IH Some show ?thesis by simp
    qed (simp add: IH)
  qed simp
  ultimately show ?thesis by (auto simp: f_def)
qed

end
