(* ===== verification/DatabaseProps.thy ===== *)
theory DatabaseProps
  imports Queries
begin

text \<open>
  Properties of the document database: what replicas that saw the same writes agree on, what a
  history of writes leaves for the queries to find, where tombstones are forgotten, and that
  the queries of a reachable database never fault.
\<close>

section \<open>Evaluating small histories\<close>

lemma plain_literals:
  "real_literal plain_engine (f64_of_f32 0) = Some 0"
  "real_literal plain_engine (f64_of_f32 0x3F800000) = Some 0x3FF0000000000000"
  "real_literal plain_engine (f64_of_f32 0x40000000) = Some 0x4000000000000000"
proof -
  have v: "f64_of_f32 0 = 0" "f64_of_f32 0x3F800000 = 0x3FF0000000000000"
    "f64_of_f32 0x40000000 = 0x4000000000000000" by code_simp+
  have n: "\<not> f64_isnan 0 \<and> \<not> f64_isinf 0"
    "\<not> f64_isnan 0x3FF0000000000000 \<and> \<not> f64_isinf 0x3FF0000000000000"
    "\<not> f64_isnan 0x4000000000000000 \<and> \<not> f64_isinf 0x4000000000000000" by code_simp+
  show "real_literal plain_engine (f64_of_f32 0) = Some 0"
    "real_literal plain_engine (f64_of_f32 0x3F800000) = Some 0x3FF0000000000000"
    "real_literal plain_engine (f64_of_f32 0x40000000) = Some 0x4000000000000000"
    using n by (simp_all add: plain_engine_def v)
qed

lemma nonneg_doubles: "f64_le 0 0" "f64_le 0 0x3FF0000000000000" "f64_le 0 0x4000000000000000"
  by code_simp+

lemmas history_simps = run_ops_def write_defs Let_def coord_insert_def radius_insert_def
  Coord_def plain_literals nonneg_doubles empty_database_def CRDTCollectGarbage_def
  remove_from_def insert_into_def from_operationType_def to_integral_def

section \<open>Replicas that saw the same writes\<close>

fun is_radius_retraction :: "db_op \<Rightarrow> bool" where
  "is_radius_retraction (RetractRadius i r t) = True"
| "is_radius_retraction _ = False"

fun as_upsert :: "db_op \<Rightarrow> db_op" where
  "as_upsert (RetractCoord i c t) = UpsertCoord i c t"
| "as_upsert p = p"

lemma coord_rows_live: "coord_row_of E p = Some r \<Longrightarrow> live r"
  by (cases p) (auto dest: row_coord_insert)

text \<open>C6: Two replicas that executed the same set of writes, in whatever order and with whatever
  writes of other kinds in between, hold the same latest coordinates for every entity.\<close>

theorem coords_converge:
  assumes "run_ops E empty_database h1 = Inr d1" "run_ops E empty_database h2 = Inr d2"
    and "set h1 = set h2"
  shows "coord_values d1 i = coord_values d2 i"
proof -
  have "set (collect (map (coord_row_of E) h1)) = set (collect (map (coord_row_of E) h2))"
    using assms(3) by (simp add: set_rows_of)
  then have "set (latest_rows (coord_table d1) (to_string i))
      = set (latest_rows (coord_table d2) (to_string i))"
    unfolding run_tables(1)[OF assms(1)] run_tables(1)[OF assms(2)] empty_tables
    by (rule latest_rows_order) (auto simp: set_rows_of dest: coord_rows_live)
  then show ?thesis by (simp add: coord_values_def)
qed

theorem coords_converge_witness:
  "\<exists>d1 d2. run_ops plain_engine empty_database
      [UpsertCoord 1 (Coord 0 0 0) 5, UpsertCoord 1 (Coord 0x3F800000 0 0) 7] = Inr d1
    \<and> run_ops plain_engine empty_database
      [UpsertCoord 1 (Coord 0x3F800000 0 0) 7, UpsertCoord 1 (Coord 0 0 0) 5] = Inr d2
    \<and> coord_values d1 1 = coord_values d2 1"
proof -
  obtain d1 where 1: "run_ops plain_engine empty_database
      [UpsertCoord 1 (Coord 0 0 0) 5, UpsertCoord 1 (Coord 0x3F800000 0 0) 7] = Inr d1"
    by (simp add: history_simps)
  obtain d2 where 2: "run_ops plain_engine empty_database
      [UpsertCoord 1 (Coord 0x3F800000 0 0) 7, UpsertCoord 1 (Coord 0 0 0) 5] = Inr d2"
    by (simp add: history_simps)
  have "coord_values d1 1 = coord_values d2 1"
    by (rule coords_converge[OF 1 2]) auto
  with 1 2 show ?thesis by blast
qed

text \<open>C20: The same holds for radii, although nothing is ever removed from their table: the latest
  live values of an entity depend on the set of writes only, retractions included.\<close>

theorem radii_converge:
  assumes "run_ops E empty_database h1 = Inr d1" "run_ops E empty_database h2 = Inr d2"
    and "set h1 = set h2"
  shows "radius_values d1 i = radius_values d2 i"
proof -
  have "set (radius_table d1) = set (radius_table d2)"
    unfolding run_tables(2)[OF assms(1)] run_tables(2)[OF assms(2)] empty_tables foldl_append_row
    using assms(3) by (simp add: set_rows_of)
  then show ?thesis by (simp add: radius_values_def set_latest_rows)
qed

theorem radii_converge_witness:
  "\<exists>d1 d2. run_ops plain_engine empty_database
      [UpsertRadius 1 \<lparr>magnitude = 0x3F800000\<rparr> 5, RetractRadius 1 \<lparr>magnitude = 0\<rparr> 6] = Inr d1
    \<and> run_ops plain_engine empty_database
      [RetractRadius 1 \<lparr>magnitude = 0\<rparr> 6, UpsertRadius 1 \<lparr>magnitude = 0x3F800000\<rparr> 5] = Inr d2
    \<and> radius_values d1 1 = radius_values d2 1"
proof -
  obtain d1 where 1: "run_ops plain_engine empty_database
      [UpsertRadius 1 \<lparr>magnitude = 0x3F800000\<rparr> 5, RetractRadius 1 \<lparr>magnitude = 0\<rparr> 6] = Inr d1"
    by (simp add: history_simps)
  obtain d2 where 2: "run_ops plain_engine empty_database
      [RetractRadius 1 \<lparr>magnitude = 0\<rparr> 6, UpsertRadius 1 \<lparr>magnitude = 0x3F800000\<rparr> 5] = Inr d2"
    by (simp add: history_simps)
  have "radius_values d1 1 = radius_values d2 1"
    by (rule radii_converge[OF 1 2]) auto
  with 1 2 show ?thesis by blast
qed

text \<open>Names converge in the same way for every entity whose name was never retracted.\<close>

theorem names_converge:
  assumes "run_ops E empty_database h1 = Inr d1" "run_ops E empty_database h2 = Inr d2"
    and "set h1 = set h2" and "\<forall>n t. RetractName i n t \<notin> set h1"
  shows "name_values d1 i = name_values d2 i"
proof -
  have "set (collect (map name_row_of h1)) = set (collect (map name_row_of h2))"
    using assms(3) by (simp add: set_rows_of)
  moreover have "live r" if "p \<in> set h1" "name_row_of p = Some r" "entity r = to_string i" for p r
  proof -
    have "\<forall>n t. p \<noteq> RetractName i n t" using that(1) assms(4) by blast
    then show ?thesis using that(2,3) by (cases p) (auto simp: row_for_defs)
  qed
  ultimately have "set (latest_rows (name_table d1) (to_string i))
      = set (latest_rows (name_table d2) (to_string i))"
    unfolding run_tables(4)[OF assms(1)] run_tables(4)[OF assms(2)] empty_tables
    by (intro latest_rows_order) (auto simp: set_rows_of)
  then show ?thesis by (simp add: name_values_def)
qed

theorem names_converge_witness:
  "\<exists>d1 d2. run_ops plain_engine empty_database
      [UpsertName 1 \<lparr>name_value = ''a''\<rparr> 5, UpsertName 1 \<lparr>name_value = ''b''\<rparr> 6] = Inr d1
    \<and> run_ops plain_engine empty_database
      [UpsertName 1 \<lparr>name_value = ''b''\<rparr> 6, UpsertName 1 \<lparr>name_value = ''a''\<rparr> 5] = Inr d2
    \<and> name_values d1 1 = name_values d2 1"
proof -
  obtain d1 where 1: "run_ops plain_engine empty_database
      [UpsertName 1 \<lparr>name_value = ''a''\<rparr> 5, UpsertName 1 \<lparr>name_value = ''b''\<rparr> 6] = Inr d1"
    by (simp add: history_simps)
  obtain d2 where 2: "run_ops plain_engine empty_database
      [UpsertName 1 \<lparr>name_value = ''b''\<rparr> 6, UpsertName 1 \<lparr>name_value = ''a''\<rparr> 5] = Inr d2"
    by (simp add: history_simps)
  have "name_values d1 1 = name_values d2 1"
    by (rule names_converge[OF 1 2]) auto
  with 1 2 show ?thesis by blast
qed

section \<open>Histories in the order of their timestamps\<close>

lemma history_rows:
  "(r \<in> set (collect (map row h)) \<and> P) \<longleftrightarrow> (\<exists>p \<in> set h. row p = Some r \<and> P)"
  by (auto simp: set_rows_of)

lemma edge_rows_of:
  "r \<in> set (collect (map edge_row_of h)) \<and> (entity r, entityTo r) = (to_string a, to_string b) \<and> live r
     \<longleftrightarrow> (\<exists>t. Connect a b t \<in> set h \<and> r = edge_row_for a b t False)" (is ?live)
  "r \<in> set (collect (map edge_row_of h)) \<and> (entity r, entityTo r) = (to_string a, to_string b) \<and> \<not> live r
     \<longleftrightarrow> (\<exists>t. Disconnect a b t \<in> set h \<and> r = edge_row_for a b t True)" (is ?dead)
proof -
  have "edge_row_of p = Some r \<and> (entity r, entityTo r) = (to_string a, to_string b) \<and> live r \<longleftrightarrow>
      (\<exists>t. p = Connect a b t \<and> r = edge_row_for a b t False)" for p
    by (cases p) (auto simp: row_for_defs)
  then show ?live unfolding history_rows by auto
  have "edge_row_of p = Some r \<and> (entity r, entityTo r) = (to_string a, to_string b) \<and> \<not> live r \<longleftrightarrow>
      (\<exists>t. p = Disconnect a b t \<and> r = edge_row_for a b t True)" for p
    by (cases p) (auto simp: row_for_defs)
  then show ?dead unfolding history_rows by auto
qed

lemma document_rows_of:
  "r \<in> set (collect (map document_row_of h)) \<and> (entity r, document r) = (to_string i, to_string d) \<and> live r
     \<longleftrightarrow> (\<exists>ty t. Create i ty d t \<in> set h \<and> r = document_row_for i ty d t False)" (is ?live)
  "r \<in> set (collect (map document_row_of h)) \<and> (entity r, document r) = (to_string i, to_string d) \<and> \<not> live r
     \<longleftrightarrow> (\<exists>t. Remove i d t \<in> set h \<and> r = document_row_for i Sphere_type d t True)" (is ?dead)
proof -
  have "document_row_of p = Some r \<and> (entity r, document r) = (to_string i, to_string d) \<and> live r \<longleftrightarrow>
      (\<exists>ty t. p = Create i ty d t \<and> r = document_row_for i ty d t False)" for p
    by (cases p) (auto simp: row_for_defs)
  then show ?live unfolding history_rows by auto
  have "document_row_of p = Some r \<and> (entity r, document r) = (to_string i, to_string d) \<and> \<not> live r \<longleftrightarrow>
      (\<exists>t. p = Remove i d t \<and> r = document_row_for i Sphere_type d t True)" for p
    by (cases p) (auto simp: row_for_defs)
  then show ?dead unfolding history_rows by auto
qed

lemma name_rows_of:
  "r \<in> set (collect (map name_row_of h)) \<and> entity r = to_string i \<longleftrightarrow>
     (\<exists>n t. (UpsertName i n t \<in> set h \<and> r = name_row_for i n t False)
       \<or> (RetractName i n t \<in> set h \<and> r = name_row_for i n t True))"
proof -
  have "name_row_of p = Some r \<and> entity r = to_string i \<longleftrightarrow>
      (\<exists>n t. (p = UpsertName i n t \<and> r = name_row_for i n t False)
        \<or> (p = RetractName i n t \<and> r = name_row_for i n t True))" for p
    by (cases p) (auto simp: row_for_defs)
  then show ?thesis unfolding history_rows by auto
qed

text \<open>When the writes arrive in timestamp order, an edge is alive exactly when it was connected
  and never disconnected at a later time; a connection wins against a disconnection with the same
  timestamp.\<close>

theorem edges_follow_history:
  assumes "run_ops E empty_database h = Inr db" "sorted (map op_time h)"
  shows "edge_alive db (to_string a) (to_string b) \<longleftrightarrow>
    (\<exists>t. Connect a b t \<in> set h \<and> (\<forall>t'. Disconnect a b t' \<in> set h \<longrightarrow> t' \<le> t))"
proof -
  let ?rs = "collect (map edge_row_of h)"
  have srt: "sorted (map timestamp ?rs)" by (rule sorted_rows[OF row_of_time(4) assms(2)])
  have "edge_alive db (to_string a) (to_string b)
      \<longleftrightarrow> edge_keyed.unretracted ?rs (to_string a, to_string b)"
    using edge_keyed.run_alive(1)[OF srt, of "(to_string a, to_string b)"]
    unfolding edge_alive_iff run_tables(5)[OF assms(1)] empty_tables by auto
  also have "\<dots> \<longleftrightarrow> (\<exists>t \<in> {t. Connect a b t \<in> set h}. \<forall>t' \<in> {t. Disconnect a b t \<in> set h}. t' \<le> t)"
    by (rule edge_keyed.unretracted_ops[where made = "\<lambda>r t. r = edge_row_for a b t False"
          and unmade = "\<lambda>r t. r = edge_row_for a b t True"], unfold edge_rows_of)
      (auto simp: row_for_defs)
  finally show ?thesis by simp
qed

theorem edges_follow_history_witness:
  "\<exists>db. run_ops plain_engine empty_database [Connect 1 2 1, Disconnect 1 2 5, Connect 3 4 6] = Inr db
    \<and> \<not> edge_alive db (to_string 1) (to_string 2)"
proof -
  obtain db where r: "run_ops plain_engine empty_database
      [Connect 1 2 1, Disconnect 1 2 5, Connect 3 4 6] = Inr db"
    by (simp add: history_simps)
  have "edge_alive db (to_string 1) (to_string 2) \<longleftrightarrow>
    (\<exists>t. Connect 1 2 t \<in> set [Connect 1 2 1, Disconnect 1 2 5, Connect 3 4 6]
      \<and> (\<forall>t'. Disconnect 1 2 t' \<in> set [Connect 1 2 1, Disconnect 1 2 5, Connect 3 4 6] \<longrightarrow> t' \<le> t))"
    by (rule edges_follow_history[OF r]) simp
  then have "\<not> edge_alive db (to_string 1) (to_string 2)" by (simp add: word_le_nat_alt)
  with r show ?thesis by blast
qed

text \<open>The writes of the name of an entity that no later write of it outdates.\<close>

definition last_names :: "db_op list \<Rightarrow> ID \<Rightarrow> (name \<times> timestamp) set" where
  "last_names h i = {(n, t). UpsertName i n t \<in> set h
    \<and> (\<forall>n' t'. UpsertName i n' t' \<in> set h \<or> RetractName i n' t' \<in> set h \<longrightarrow> t' \<le> t)}"

lemma name_rows_bound:
  "(\<forall>q \<in> set (collect (map name_row_of h)). entity q = to_string i \<longrightarrow> timestamp q \<le> t) \<longleftrightarrow>
   (\<forall>n' t'. UpsertName i n' t' \<in> set h \<or> RetractName i n' t' \<in> set h \<longrightarrow> t' \<le> t)"
proof -
  have tm: "timestamp (name_row_for i n' t' d) = t'" for n' t' d by (simp add: row_for_defs)
  have "(\<forall>q \<in> set (collect (map name_row_of h)). entity q = to_string i \<longrightarrow> timestamp q \<le> t) \<longleftrightarrow>
      (\<forall>q. q \<in> set (collect (map name_row_of h)) \<and> entity q = to_string i \<longrightarrow> timestamp q \<le> t)" by blast
  also have "\<dots> \<longleftrightarrow> (\<forall>n' t'. (UpsertName i n' t' \<in> set h \<longrightarrow> timestamp (name_row_for i n' t' False) \<le> t)
      \<and> (RetractName i n' t' \<in> set h \<longrightarrow> timestamp (name_row_for i n' t' True) \<le> t))"
    unfolding name_rows_of by blast
  finally show ?thesis unfolding tm by blast
qed

lemma latest_name_rows:
  assumes "sorted (map timestamp (collect (map name_row_of h)))"
  shows "set (latest_rows (foldl write_row [] (collect (map name_row_of h))) (to_string i))
    = (\<lambda>(n, t). name_row_for i n t False) ` last_names h i" (is "?L = ?R")
proof -
  let ?rs = "collect (map name_row_of h)"
  have "r \<in> ?L \<longleftrightarrow> (r \<in> set ?rs \<and> entity r = to_string i) \<and> live r
      \<and> (\<forall>q \<in> set ?rs. entity q = to_string i \<longrightarrow> timestamp q \<le> timestamp r)" for r
    unfolding latest_rows_sorted[OF assms] by blast
  also have "\<dots> r \<longleftrightarrow> r \<in> ?R" for r
    unfolding name_rows_of name_rows_bound last_names_def by (auto simp: row_for_defs image_iff)
  finally show ?thesis by blast
qed

text \<open>In timestamp order, the names an entity has are those of the writes that no later write or
  retraction of its name outdates.\<close>

theorem names_follow_history:
  assumes "run_ops E empty_database h = Inr db" "sorted (map op_time h)"
  shows "name_values db i = {name_value n | n t. UpsertName i n t \<in> set h
    \<and> (\<forall>n' t'. UpsertName i n' t' \<in> set h \<or> RetractName i n' t' \<in> set h \<longrightarrow> t' \<le> t)}"
proof -
  have "name_values db i = (\<lambda>(n, t). name_value n) ` last_names h i"
    using latest_name_rows[OF sorted_rows[OF row_of_time(3) assms(2)], of i]
    by (simp add: name_values_def run_tables(4)[OF assms(1)] image_image case_prod_unfold row_for_defs)
  then show ?thesis by (force simp: last_names_def)
qed

theorem names_follow_history_witness:
  "\<exists>db. run_ops plain_engine empty_database
      [UpsertName 1 \<lparr>name_value = ''a''\<rparr> 5, RetractName 1 \<lparr>name_value = ''a''\<rparr> 6] = Inr db
    \<and> name_values db 1 = {}"
proof -
  obtain db where r: "run_ops plain_engine empty_database
      [UpsertName 1 \<lparr>name_value = ''a''\<rparr> 5, RetractName 1 \<lparr>name_value = ''a''\<rparr> 6] = Inr db"
    by (simp add: history_simps)
  have "name_values db 1 = {}"
    by (subst names_follow_history[OF r]) (auto simp: word_le_nat_alt)
  with r show ?thesis by blast
qed

text \<open>In timestamp order, an entity is listed in a document exactly when it was created there
  and not removed from it at a later time.\<close>

theorem documents_follow_history:
  assumes "run_ops E empty_database h = Inr db" "sorted (map op_time h)"
  shows "(\<exists>r \<in> set (document_rows db d). entity r = to_string i) \<longleftrightarrow>
    (\<exists>ty t. Create i ty d t \<in> set h \<and> (\<forall>t'. Remove i d t' \<in> set h \<longrightarrow> t' \<le> t))"
proof -
  let ?rs = "collect (map document_row_of h)"
  have srt: "sorted (map timestamp ?rs)" by (rule sorted_rows[OF row_of_time(5) assms(2)])
  have "(\<exists>r \<in> set (document_rows db d). entity r = to_string i)
      \<longleftrightarrow> document_keyed.unretracted ?rs (to_string i, to_string d)"
    using document_keyed.run_alive(2)[OF srt, of "(to_string i, to_string d)"]
    by (auto simp: document_rows_def run_tables(6)[OF assms(1)])
  also have "\<dots> \<longleftrightarrow> (\<exists>t \<in> {t. \<exists>ty. Create i ty d t \<in> set h}. \<forall>t' \<in> {t. Remove i d t \<in> set h}. t' \<le> t)"
    by (rule document_keyed.unretracted_ops[where
          made = "\<lambda>r t. \<exists>ty. Create i ty d t \<in> set h \<and> r = document_row_for i ty d t False"
          and unmade = "\<lambda>r t. r = document_row_for i Sphere_type d t True"],
        unfold document_rows_of) (auto simp: row_for_defs)
  finally show ?thesis by auto
qed

theorem documents_follow_history_witness:
  "\<exists>db. run_ops plain_engine empty_database [Create 1 Sphere_type 9 5, Remove 1 9 6] = Inr db
    \<and> \<not> (\<exists>r \<in> set (document_rows db 9). entity r = to_string 1)"
proof -
  obtain db where r: "run_ops plain_engine empty_database [Create 1 Sphere_type 9 5, Remove 1 9 6] = Inr db"
    by (simp add: history_simps)
  have "\<not> (\<exists>r \<in> set (document_rows db 9). entity r = to_string 1)"
    by (subst documents_follow_history[OF r]) (auto simp: word_le_nat_alt)
  with r show ?thesis by blast
qed

section \<open>Where the order does matter\<close>

text \<open>C28: Replicas do not agree on edges when a disconnection is involved: a later write to any
  other edge collects the tombstone, and an older connection that arrives after it brings the
  edge back. On any database whose rows for the edge are older, the same three writes (connect at
  \<open>t1\<close>, disconnect at \<open>t2\<close>, connect another edge at \<open>t3\<close>) leave the edge disconnected in the order of
  their timestamps, and connected when the oldest arrives last; every other edge of the node is
  the same.\<close>

theorem edges_diverge:
  assumes "engine_ok E" "db_wf db" "(i, j) \<noteq> (k, l)" "t1 < t2" "t2 < t3" "t3 < 2 ^ 63"
    and "\<forall>r \<in> set (edge_table db). entity r = to_string i \<and> entityTo r = to_string j \<longrightarrow> timestamp r < t2"
  shows "\<exists>d1 d2 e1 e2. run_ops E db [Connect i j t1, Disconnect i j t2, Connect k l t3] = Inr d1
     \<and> run_ops E db [Disconnect i j t2, Connect k l t3, Connect i j t1] = Inr d2
     \<and> edges E d1 i = Inr e1 \<and> edges E d2 i = Inr e2
     \<and> j \<notin> set e1 \<and> set e2 = insert j (set e1)"
proof -
  let ?h1 = "[Connect i j t1, Disconnect i j t2, Connect k l t3]"
    and ?h2 = "[Disconnect i j t2, Connect k l t3, Connect i j t1]"
  obtain d1 where d1: "run_ops E db ?h1 = Inr d1" by (simp add: history_simps)
  obtain d2 where d2: "run_ops E db ?h2 = Inr d2" by (simp add: history_simps)
  let ?c = "edge_row_for i j t1 False"
  have t13: "t1 < t3" "\<not> t2 < t1" "\<not> t3 < t1" "\<not> t3 < t2" using assms(4,5) by simp_all
  have tab: "set (edge_table d2) = insert ?c (set (edge_table d1))"
    "\<forall>r \<in> set (edge_table d1). \<not> (entity r = to_string i \<and> entityTo r = to_string j)"
    using assms(3-5,7) t13
    unfolding run_tables(5)[OF d1] run_tables(5)[OF d2]
    by (auto simp: set_write_edge row_for_defs)
  then have alive: "edge_alive d2 (to_string i) (to_string m)
      \<longleftrightarrow> m = j \<or> edge_alive d1 (to_string i) (to_string m)"
    "\<not> edge_alive d1 (to_string i) (to_string j)" for m
    unfolding edge_alive_iff by (auto simp: row_for_defs)
  obtain e1 where e1: "edges E d1 i = Inr e1" "set e1 = {m. edge_alive d1 (to_string i) (to_string m)}"
    using edges_spec[OF assms(1) run_ops_wf[OF assms(1,2) _ d1], of i] by auto
  obtain e2 where e2: "edges E d2 i = Inr e2" "set e2 = {m. edge_alive d2 (to_string i) (to_string m)}"
    using edges_spec[OF assms(1) run_ops_wf[OF assms(1,2) _ d2], of i] by auto
  have "set e2 = insert j (set e1)" "j \<notin> set e1" using alive by (auto simp: e1(2) e2(2))
  with d1 d2 e1(1) e2(1) show ?thesis by blast
qed

theorem edges_diverge_witness:
  "\<exists>d1 d2 e1 e2. run_ops plain_engine empty_database [Connect 1 2 1, Disconnect 1 2 5, Connect 3 4 6] = Inr d1
     \<and> run_ops plain_engine empty_database [Disconnect 1 2 5, Connect 3 4 6, Connect 1 2 1] = Inr d2
     \<and> edges plain_engine d1 1 = Inr e1 \<and> edges plain_engine d2 1 = Inr e2
     \<and> 2 \<notin> set e1 \<and> set e2 = insert 2 (set e1)"
  by (rule edges_diverge[OF engine_ok_plain empty_database_wf]) (simp_all add: word_less_nat_alt)

text \<open>Retracting a radius changes nothing a reader sees: the garbage collection of the radius
  table never runs, so the values of a history are those of the history without its radius
  retractions.\<close>

theorem radius_retractions_ignored:
  assumes "run_ops E empty_database h = Inr d1"
    and "run_ops E empty_database (filter (\<lambda>p. \<not> is_radius_retraction p) h) = Inr d2"
  shows "radius_values d1 i = radius_values d2 i"
proof -
  have live_iff: "live r \<longleftrightarrow> \<not> is_radius_retraction p" if "radius_row_of E p = Some r" for p r
    using that by (cases p) (auto dest: row_radius_insert)
  have rows: "{r \<in> set (radius_table d1). live r} = {r \<in> set (radius_table d2). live r}"
    unfolding run_tables(2)[OF assms(1)] run_tables(2)[OF assms(2)] empty_tables foldl_append_row
    using live_iff by (auto simp: set_rows_of)
  then have "r \<in> set (radius_table d1) \<and> live r \<longleftrightarrow> r \<in> set (radius_table d2) \<and> live r" for r by blast
  then have "set (latest_rows (radius_table d1) e) = set (latest_rows (radius_table d2) e)" for e
    unfolding set_latest_rows by blast
  then show ?thesis by (simp add: radius_values_def)
qed

theorem radius_retractions_ignored_witness:
  "\<exists>d1 d2. run_ops plain_engine empty_database
      [UpsertRadius 1 \<lparr>magnitude = 0x3F800000\<rparr> 5, RetractRadius 1 \<lparr>magnitude = 0x3F800000\<rparr> 6] = Inr d1
    \<and> run_ops plain_engine empty_database [UpsertRadius 1 \<lparr>magnitude = 0x3F800000\<rparr> 5] = Inr d2
    \<and> radius_values d1 1 = radius_values d2 1"
proof -
  obtain d1 where 1: "run_ops plain_engine empty_database
      [UpsertRadius 1 \<lparr>magnitude = 0x3F800000\<rparr> 5, RetractRadius 1 \<lparr>magnitude = 0x3F800000\<rparr> 6] = Inr d1"
    by (simp add: history_simps)
  obtain d2 where 2: "run_ops plain_engine empty_database
      [UpsertRadius 1 \<lparr>magnitude = 0x3F800000\<rparr> 5] = Inr d2"
    by (simp add: history_simps)
  have "radius_values d1 1 = radius_values d2 1"
    by (rule radius_retractions_ignored[OF 1]) (simp add: 2)
  with 1 2 show ?thesis by blast
qed

text \<open>Retracting a coordinate stores it: a history does the same to the database when every
  retraction of a coordinate is replaced by an upsert.\<close>

theorem coord_retractions_write: "run_ops E db h = run_ops E db (map as_upsert h)"
proof -
  have "apply_op E d p = apply_op E d (as_upsert p)" for d p
    by (cases p) (simp_all add: write_defs)
  then show ?thesis
  proof (induction h arbitrary: db)
    case (Cons p h)
    have "foldE (apply_op E) d h = foldE (apply_op E) d (map as_upsert h)" for d
      using Cons unfolding run_ops_def by blast
    with Cons.prems[of db p] show ?case by (simp add: run_ops_def)
  qed simp
qed

section \<open>Queries of reachable databases\<close>

text \<open>C23: No query of a database that was built by writes with constructible names faults: the
  stored identifiers parse, the stored types and names are valid, and the radius a lookup finds
  passes the assertion of its constructor.\<close>

theorem queries_do_not_fault:
  assumes "engine_ok E" "\<forall>p \<in> set h. op_ok p" "run_ops E empty_database h = Inr db"
  shows "\<exists>ds es js s. documents E db = Inr ds \<and> entities E db i = Inr es
    \<and> edges E db i = Inr js \<and> sphere E db i = Inr s"
proof -
  have wf: "db_wf db" by (rule run_ops_wf[OF assms(1) empty_database_wf assms(2,3)])
  have "\<exists>s. sphere E db i = Inr s"
    using sphere_None[OF assms(1), of db i] sphere_Some[OF assms(1) wf, of i] by blast
  with documents_spec[OF assms(1) wf] entities_spec[OF assms(1) db_wf_tables[OF wf], of i] edges_spec[OF assms(1) wf, of i]
  show ?thesis by blast
qed

lemma abc_valid: "valid_name \<lparr>name_value = ''abc''\<rparr>"
  unfolding valid_name_def Name_def by (simp add: set_allowedCharacters)

theorem queries_do_not_fault_witness:
  "\<exists>db ds es js s. run_ops plain_engine empty_database
      [Create 1 Sphere_type 9 1, UpsertName 9 \<lparr>name_value = ''abc''\<rparr> 2] = Inr db
    \<and> documents plain_engine db = Inr ds \<and> entities plain_engine db 9 = Inr es
    \<and> edges plain_engine db 9 = Inr js \<and> sphere plain_engine db 9 = Inr s"
proof -
  obtain db where r: "run_ops plain_engine empty_database
      [Create 1 Sphere_type 9 1, UpsertName 9 \<lparr>name_value = ''abc''\<rparr> 2] = Inr db"
    by (simp add: history_simps)
  have "\<exists>ds es js s. documents plain_engine db = Inr ds \<and> entities plain_engine db 9 = Inr es
    \<and> edges plain_engine db 9 = Inr js \<and> sphere plain_engine db 9 = Inr s"
    by (rule queries_do_not_fault[OF engine_ok_plain _ r]) (simp add: abc_valid)
  with r show ?thesis by blast
qed

text \<open>The sphere of an entity has, among the latest coordinates stored for it, one at the
  greatest distance from the origin, and the greatest of the latest radii; it is missing exactly
  when the entity has no live document row, no radius or no coordinate.\<close>

theorem sphere_reads_latest:
  assumes "engine_ok E" "\<forall>p \<in> set h. op_ok p" "run_ops E empty_database h = Inr db"
  shows "(sphere E db i = Inr None \<and>
      (\<not> document_live db i \<or> radius_values db i = {} \<or> coord_values db i = {}))
    \<or> (\<exists>c r. sphere E db i = Inr (Some (Sphere i c r))
      \<and> c \<in> coord_values db i
      \<and> (\<forall>c' \<in> coord_values db i.
           f32_key (distance_from_origin c') \<le> f32_key (distance_from_origin c))
      \<and> magnitude r \<in> radius_values db i
      \<and> (\<forall>m \<in> radius_values db i. f32_key m \<le> f32_key (magnitude r)))"
proof -
  have wf: "db_wf db" by (rule run_ops_wf[OF assms(1) empty_database_wf assms(2,3)])
  show ?thesis using sphere_None[OF assms(1), of db i] sphere_Some[OF assms(1) wf, of i] by blast
qed

theorem sphere_reads_latest_witness:
  "\<exists>db c r. run_ops plain_engine empty_database
      [Create 1 Sphere_type 9 1, UpsertCoord 1 (Coord 0x3F800000 0 0) 2,
       UpsertRadius 1 \<lparr>magnitude = 0x40000000\<rparr> 3] = Inr db
    \<and> sphere plain_engine db 1 = Inr (Some (Sphere 1 c r))
    \<and> c \<in> coord_values db 1 \<and> magnitude r \<in> radius_values db 1"
proof -
  let ?h = "[Create 1 Sphere_type 9 1, UpsertCoord 1 (Coord 0x3F800000 0 0) 2,
       UpsertRadius 1 \<lparr>magnitude = 0x40000000\<rparr> 3]"
  obtain db where r: "run_ops plain_engine empty_database ?h = Inr db"
    and ne: "document_live db 1" "radius_values db 1 \<noteq> {}" "coord_values db 1 \<noteq> {}"
    by (simp add: history_simps document_live_def radius_values_def coord_values_def latest_rows_Nil_iff)
  show ?thesis
    using sphere_reads_latest[OF engine_ok_plain _ r, of 1] ne r by auto
qed

text \<open>The neighbours of an entity are listed once each, and they are those with an edge that
  is alive; a document is listed once, under the least of its latest names, when it has both a
  live row and a name.\<close>

theorem listings_are_complete:
  assumes "engine_ok E" "\<forall>p \<in> set h. op_ok p" "run_ops E empty_database h = Inr db"
  shows "(\<exists>es. edges E db i = Inr es \<and> distinct es
      \<and> set es = {j. edge_alive db (to_string i) (to_string j)})
    \<and> (\<exists>ds. documents E db = Inr ds \<and> distinct ds \<and> set ds =
      {\<lparr>doc_uid = d, doc_name = \<lparr>name_value = Min (name_values db d)\<rparr>\<rparr> | d.
         document_rows db d \<noteq> [] \<and> name_values db d \<noteq> {}})"
proof -
  have wf: "db_wf db" by (rule run_ops_wf[OF assms(1) empty_database_wf assms(2,3)])
  show ?thesis using edges_spec[OF assms(1) wf] documents_spec[OF assms(1) wf] by blast
qed

theorem listings_are_complete_witness:
  "\<exists>db es. run_ops plain_engine empty_database [Connect 1 2 1] = Inr db
    \<and> edges plain_engine db 1 = Inr es \<and> set es = {j. edge_alive db (to_string 1) (to_string j)}"
proof -
  obtain db where r: "run_ops plain_engine empty_database [Connect 1 2 1] = Inr db"
    by (simp add: history_simps)
  show ?thesis using listings_are_complete[OF engine_ok_plain _ r, of 1] r by auto
qed

section \<open>Reopening a database\<close>

text \<open>A database file can be opened once: creating the tables is idempotent, but the index
  statements lack \<open>IF NOT EXISTS\<close>, so opening the file again throws.\<close>

theorem reopening_throws:
  "\<exists>cat. DatabaseImpl \<lparr>cat_tables = [], cat_indices = []\<rparr> = Inr cat
    \<and> set tables \<subseteq> set (cat_tables cat) \<and> DatabaseImpl cat = Inl SqlError"
  by (simp add: DatabaseImpl_def tables_def indices_def create_table_def create_index_def)

end
