(* ===== verification/Graph.thy ===== *)
theory Graph
  imports Attributes
begin

text \<open>
  The graph of a document (\<open>include/data/Node.h\<close>, \<open>Edge.h\<close>, \<open>Graph.h\<close>, \<open>Tree.h\<close>,
  \<open>src/data/Graph.cpp\<close>). Nodes are shared, mutable objects: a \<open>shared_ptr<Node>\<close> is an address in
  a heap of nodes, the null pointer an address without an object. A graph holds edges between
  addresses and the addresses of its nodes; its operations find nodes by identifier.
\<close>

section \<open>Objects and graphs\<close>

type_synonym addr = nat
type_synonym heap = "addr \<Rightarrow> node option"

record edge =
  edge_uid :: ID
  edge_from :: addr
  edge_to :: addr

record graph =
  graph_edges :: "edge list"
  graph_nodes :: "addr list"

datatype tree = Tree addr "tree list"

definition Graph :: "edge list \<Rightarrow> addr list \<Rightarrow> graph" where
  "Graph es ns = \<lparr>graph_edges = es, graph_nodes = ns\<rparr>"

text \<open>\<open>p->id()\<close>: a virtual call on the object behind the pointer.\<close>

definition id_at :: "heap \<Rightarrow> addr \<Rightarrow> fault + ID" where
  "id_at h p = (case h p of None \<Rightarrow> Inl NullDeref | Some n \<Rightarrow> Inr (node_id n))"

definition Edge :: "heap \<Rightarrow> ID \<Rightarrow> addr \<Rightarrow> addr \<Rightarrow> fault + edge" where
  "Edge h uid p q =
     bindE (id_at h p) (\<lambda>i. bindE (id_at h q) (\<lambda>j.
       if i \<noteq> j then Inr \<lparr>edge_uid = uid, edge_from = p, edge_to = q\<rparr> else Inl AssertFailed))"

section \<open>Operations\<close>

definition graph_create :: "graph \<Rightarrow> addr \<Rightarrow> graph" where
  "graph_create g p = g\<lparr>graph_nodes := graph_nodes g @ [p]\<rparr>"

text \<open>\<open>erase(remove_if(...))\<close> with a predicate that may fault.\<close>

fun remove_ifE :: "('a \<Rightarrow> fault + bool) \<Rightarrow> 'a list \<Rightarrow> fault + 'a list" where
  "remove_ifE P [] = Inr []"
| "remove_ifE P (x # xs) = bindE (P x) (\<lambda>b. bindE (remove_ifE P xs)
     (\<lambda>ys. Inr (if b then ys else x # ys)))"

definition same_id :: "heap \<Rightarrow> addr \<Rightarrow> addr \<Rightarrow> fault + bool" where
  "same_id h p q = bindE (id_at h p) (\<lambda>i. bindE (id_at h q) (\<lambda>j. Inr (i = j)))"

definition graph_remove :: "heap \<Rightarrow> graph \<Rightarrow> addr \<Rightarrow> fault + graph" where
  "graph_remove h g p =
     bindE (remove_ifE (\<lambda>q. same_id h q p) (graph_nodes g)) (\<lambda>ns.
     bindE (remove_ifE (\<lambda>e. bindE (same_id h (edge_from e) p)
               (\<lambda>b. if b then Inr True else same_id h (edge_to e) p)) (graph_edges g)) (\<lambda>es.
       Inr \<lparr>graph_edges = es, graph_nodes = ns\<rparr>))"

text \<open>The loop of \<open>connect\<close> remembers the last node with each identifier; a node with the first
  identifier is not looked at for the second. \<open>0\<close> is the null pointer.\<close>

definition find_ends :: "heap \<Rightarrow> ID \<Rightarrow> ID \<Rightarrow> addr list \<Rightarrow> fault + (addr \<times> addr)" where
  "find_ends h from to ns = foldE (\<lambda>(start, end) p. bindE (id_at h p) (\<lambda>i.
       Inr (if i = from then (p, end) else if i = to then (start, p) else (start, end)))) (0, 0) ns"

definition graph_connect :: "heap \<Rightarrow> graph \<Rightarrow> ID \<Rightarrow> ID \<Rightarrow> ID \<Rightarrow> fault + graph" where
  "graph_connect h g new_uid from to =
     bindE (find_ends h from to (graph_nodes g)) (\<lambda>(start, end).
     bindE (Edge h new_uid start end) (\<lambda>e. Inr (g\<lparr>graph_edges := graph_edges g @ [e]\<rparr>)))"

definition graph_disconnect :: "heap \<Rightarrow> graph \<Rightarrow> ID \<Rightarrow> ID \<Rightarrow> fault + graph" where
  "graph_disconnect h g from to =
     bindE (remove_ifE (\<lambda>e. bindE (id_at h (edge_from e)) (\<lambda>i.
         if i = from then bindE (id_at h (edge_to e)) (\<lambda>j. Inr (j = to)) else Inr False)) (graph_edges g))
       (\<lambda>es. Inr (g\<lparr>graph_edges := es\<rparr>))"

text \<open>Every match runs the action on the first node.\<close>

definition graph_access ::
    "heap \<Rightarrow> graph \<Rightarrow> ID \<Rightarrow> (heap \<Rightarrow> addr \<Rightarrow> fault + heap) \<Rightarrow> fault + heap" where
  "graph_access h g uid action =
     foldE (\<lambda>h p. bindE (id_at h p) (\<lambda>i. if i = uid then action h (graph_nodes g ! 0) else Inr h))
       h (graph_nodes g)"

section \<open>Roots and trees\<close>

text \<open>The map of \<open>roots\<close> is keyed by the pointers and iterates in their order; \<open>at\<close> throws for
  a key that is not there.\<close>

definition edges_in :: "graph \<Rightarrow> fault + (addr \<Rightarrow> nat option)" where
  "edges_in g = foldE (\<lambda>m e. case m (edge_to e) of None \<Rightarrow> Inl OutOfRange
       | Some k \<Rightarrow> Inr (m(edge_to e \<mapsto> k + 1)))
     (\<lambda>p. if p \<in> set (graph_nodes g) then Some 0 else None) (graph_edges g)"

definition roots :: "graph \<Rightarrow> fault + addr list" where
  "roots g = bindE (edges_in g) (\<lambda>m. Inr (filter (\<lambda>p. m p = Some 0) (sort (remdups (graph_nodes g)))))"

fun subTreeOf :: "nat \<Rightarrow> heap \<Rightarrow> graph \<Rightarrow> addr \<Rightarrow> fault + tree" where
  "subTreeOf 0 h g p = Inl OutOfFuel"
| "subTreeOf (Suc n) h g p =
     bindE (foldE (\<lambda>subtrees e. bindE (same_id h (edge_from e) p) (\<lambda>b.
         if b then bindE (subTreeOf n h g (edge_to e)) (\<lambda>t. Inr (subtrees @ [t])) else Inr subtrees))
       [] (graph_edges g))
     (\<lambda>subtrees. Inr (Tree p subtrees))"

definition trees :: "nat \<Rightarrow> heap \<Rightarrow> graph \<Rightarrow> fault + tree list" where
  "trees n h g = bindE (roots g) (\<lambda>rs.
     foldE (\<lambda>res r. bindE (subTreeOf n h g r) (\<lambda>t. Inr (res @ [t]))) [] rs)"

section \<open>Well-formed graphs\<close>

text \<open>The identifier of an address that holds an object.\<close>

definition ident :: "heap \<Rightarrow> addr \<Rightarrow> ID" where
  "ident h p = (case h p of None \<Rightarrow> 0 | Some n \<Rightarrow> node_id n)"

text \<open>\<open>graph_ok\<close> holds whatever the clients do; \<open>graph_wf\<close> when no identifier is created twice.\<close>

definition graph_ok :: "heap \<Rightarrow> graph \<Rightarrow> bool" where
  "graph_ok h g \<longleftrightarrow>
     (\<forall>p \<in> set (graph_nodes g). h p \<noteq> None)
   \<and> (\<forall>e \<in> set (graph_edges g). edge_from e \<in> set (graph_nodes g) \<and> edge_to e \<in> set (graph_nodes g)
        \<and> ident h (edge_from e) \<noteq> ident h (edge_to e))"

definition graph_wf :: "heap \<Rightarrow> graph \<Rightarrow> bool" where
  "graph_wf h g \<longleftrightarrow> graph_ok h g \<and> distinct (map (ident h) (graph_nodes g))"

lemma id_at_ident: "h p \<noteq> None \<Longrightarrow> id_at h p = Inr (ident h p)"
  by (auto simp: id_at_def ident_def)

lemma same_id_ident: "h p \<noteq> None \<Longrightarrow> h q \<noteq> None \<Longrightarrow> same_id h p q = Inr (ident h p = ident h q)"
  by (simp add: same_id_def id_at_ident)

lemma remove_ifE_filter:
  "(\<And>x. x \<in> set xs \<Longrightarrow> P x = Inr (Q x)) \<Longrightarrow> remove_ifE P xs = Inr (filter (\<lambda>x. \<not> Q x) xs)"
  by (induction xs) auto

lemma graph_okD:
  assumes "graph_ok h g"
  shows "p \<in> set (graph_nodes g) \<Longrightarrow> h p \<noteq> None"
    and "e \<in> set (graph_edges g) \<Longrightarrow> edge_from e \<in> set (graph_nodes g)"
    and "e \<in> set (graph_edges g) \<Longrightarrow> edge_to e \<in> set (graph_nodes g)"
    and "e \<in> set (graph_edges g) \<Longrightarrow> ident h (edge_from e) \<noteq> ident h (edge_to e)"
  using assms by (auto simp: graph_ok_def)

lemma graph_wf_ok: "graph_wf h g \<Longrightarrow> graph_ok h g"
  by (simp add: graph_wf_def)

lemma graph_wfD:
  assumes "graph_wf h g"
  shows "p \<in> set (graph_nodes g) \<Longrightarrow> h p \<noteq> None"
    and "distinct (graph_nodes g)"
    and "inj_on (ident h) (set (graph_nodes g))"
    and "e \<in> set (graph_edges g) \<Longrightarrow> edge_from e \<in> set (graph_nodes g)"
    and "e \<in> set (graph_edges g) \<Longrightarrow> edge_to e \<in> set (graph_nodes g)"
    and "e \<in> set (graph_edges g) \<Longrightarrow> edge_from e \<noteq> edge_to e"
  using assms by (auto simp: graph_wf_def graph_ok_def distinct_map)

lemma graph_wf_idents:
  "graph_wf h g \<Longrightarrow> p \<in> set (graph_nodes g) \<Longrightarrow> q \<in> set (graph_nodes g) \<Longrightarrow> ident h p = ident h q \<longleftrightarrow> p = q"
  using graph_wfD(3) by (auto dest: inj_onD)

lemma graph_create_ok [wf_intros]: "graph_ok h g \<Longrightarrow> h p \<noteq> None \<Longrightarrow> graph_ok h (graph_create g p)"
  by (auto simp: graph_ok_def graph_create_def)

lemma graph_create_wf [wf_intros]:
  "graph_wf h g \<Longrightarrow> h p \<noteq> None \<Longrightarrow> ident h p \<notin> ident h ` set (graph_nodes g) \<Longrightarrow> graph_wf h (graph_create g p)"
  by (auto simp: graph_wf_def graph_create_ok) (simp_all add: graph_create_def)

text \<open>On such a graph the removals do what their names say.\<close>

lemma graph_remove_eq:
  assumes "graph_ok h g" "h p \<noteq> None"
  shows "graph_remove h g p = Inr
    \<lparr>graph_edges = filter (\<lambda>e. ident h (edge_from e) \<noteq> ident h p \<and> ident h (edge_to e) \<noteq> ident h p) (graph_edges g),
     graph_nodes = filter (\<lambda>q. ident h q \<noteq> ident h p) (graph_nodes g)\<rparr>"
proof -
  note valid = graph_okD(1)[OF assms(1)]
  have ns: "remove_ifE (\<lambda>q. same_id h q p) (graph_nodes g)
      = Inr (filter (\<lambda>q. \<not> (ident h q = ident h p)) (graph_nodes g))"
    using valid assms(2) by (intro remove_ifE_filter same_id_ident) auto
  have es: "remove_ifE (\<lambda>e. bindE (same_id h (edge_from e) p)
        (\<lambda>b. if b then Inr True else same_id h (edge_to e) p)) (graph_edges g)
      = Inr (filter (\<lambda>e. \<not> (ident h (edge_from e) = ident h p \<or> ident h (edge_to e) = ident h p)) (graph_edges g))"
    using graph_okD(2,3)[OF assms(1)] valid assms(2)
    by (intro remove_ifE_filter) (simp add: same_id_ident)
  show ?thesis by (simp add: graph_remove_def ns es)
qed

lemma graph_remove_ok [wf_intros]:
  assumes "graph_ok h g" "graph_remove h g p = Inr g'"
  shows "graph_ok h g'"
proof (cases "h p = None")
  case True
  show ?thesis
  proof (cases "graph_nodes g")
    case Nil
    then have "graph_edges g = []" using graph_okD(2)[OF assms(1)] by (cases "graph_edges g") auto
    with Nil assms(2) show ?thesis by (auto simp: graph_remove_def graph_ok_def)
  next
    case (Cons q qs)
    then have "same_id h q p = Inl NullDeref"
      using True graph_okD(1)[OF assms(1), of q] by (simp add: same_id_def id_at_ident) (simp add: id_at_def)
    with Cons assms(2) show ?thesis by (simp add: graph_remove_def)
  qed
next
  case False
  then show ?thesis using assms by (auto simp: graph_remove_eq) (auto simp: graph_ok_def)
qed

lemma graph_remove_wf [wf_intros]:
  assumes "graph_wf h g" "graph_remove h g p = Inr g'"
  shows "graph_wf h g'"
proof (cases "h p = None \<and> graph_nodes g \<noteq> []")
  case True
  then obtain q qs where q: "graph_nodes g = q # qs" by (cases "graph_nodes g") auto
  have "same_id h q p = Inl NullDeref"
    using True q graph_wfD(1)[OF assms(1), of q] by (simp add: same_id_def id_at_ident) (simp add: id_at_def)
  with q assms(2) show ?thesis by (simp add: graph_remove_def)
next
  case False
  then show ?thesis
    using graph_remove_ok[OF graph_wf_ok[OF assms(1)] assms(2)] graph_remove_eq[OF graph_wf_ok[OF assms(1)], of p] assms
    by (cases "graph_nodes g = []")
      (auto simp: graph_wf_def distinct_map inj_on_def graph_remove_def bindE_Inr_iff)
qed

lemma graph_disconnect_eq:
  assumes "graph_ok h g"
  shows "graph_disconnect h g i j = Inr (g\<lparr>graph_edges := filter (\<lambda>e.
    \<not> (ident h (edge_from e) = i \<and> ident h (edge_to e) = j)) (graph_edges g)\<rparr>)"
proof -
  have "remove_ifE (\<lambda>e. bindE (id_at h (edge_from e)) (\<lambda>k.
      if k = i then bindE (id_at h (edge_to e)) (\<lambda>m. Inr (m = j)) else Inr False)) (graph_edges g)
    = Inr (filter (\<lambda>e. \<not> (ident h (edge_from e) = i \<and> ident h (edge_to e) = j)) (graph_edges g))"
    using graph_okD(2,3)[OF assms] graph_okD(1)[OF assms]
    by (intro remove_ifE_filter) (simp add: id_at_ident)
  then show ?thesis by (simp add: graph_disconnect_def)
qed

lemma graph_disconnect_ok [wf_intros]:
  "graph_ok h g \<Longrightarrow> graph_disconnect h g i j = Inr g' \<Longrightarrow> graph_ok h g'"
  by (auto simp: graph_disconnect_eq) (auto simp: graph_ok_def)

lemma graph_disconnect_wf [wf_intros]:
  "graph_wf h g \<Longrightarrow> graph_disconnect h g i j = Inr g' \<Longrightarrow> graph_wf h g'"
  using graph_disconnect_ok[of h g i j g'] graph_disconnect_eq[of h g i j]
  by (auto simp: graph_wf_def)

text \<open>Heaps that agree on the identifiers of the valid addresses.\<close>

definition same_idents :: "heap \<Rightarrow> heap \<Rightarrow> bool" where
  "same_idents h h' \<longleftrightarrow> (\<forall>p. h p \<noteq> None \<longrightarrow> h' p \<noteq> None \<and> ident h' p = ident h p)"

lemma same_idents_refl [simp]: "same_idents h h"
  by (simp add: same_idents_def)

lemma same_idents_trans: "same_idents h h' \<Longrightarrow> same_idents h' h'' \<Longrightarrow> same_idents h h''"
  by (simp add: same_idents_def)

lemma same_idents_new: "h p = None \<Longrightarrow> same_idents h (h(p \<mapsto> n))"
  by (auto simp: same_idents_def ident_def)

lemma same_idents_set: "h p = Some n \<Longrightarrow> node_id n' = node_id n \<Longrightarrow> same_idents h (h(p \<mapsto> n'))"
  by (auto simp: same_idents_def ident_def)

lemma graph_ok_idents [wf_intros]: "graph_ok h g \<Longrightarrow> same_idents h h' \<Longrightarrow> graph_ok h' g"
  unfolding graph_ok_def same_idents_def by metis

lemma graph_access_idents:
  assumes "\<And>h p h'. act h p = Inr h' \<Longrightarrow> same_idents h h'" "graph_access h g uid act = Inr h'"
  shows "same_idents h h'"
  using assms(2) unfolding graph_access_def
  by (rule foldE_invariant[where I = "same_idents h", rotated 2])
    (auto simp: bindE_Inr_iff split: if_splits intro: same_idents_trans assms(1))

text \<open>The search of \<open>connect\<close>.\<close>

definition address_of :: "heap \<Rightarrow> addr list \<Rightarrow> ID \<Rightarrow> addr" where
  "address_of h ns i = (case filter (\<lambda>p. ident h p = i) ns of [] \<Rightarrow> 0 | p # _ \<Rightarrow> last (filter (\<lambda>p. ident h p = i) ns))"

lemma address_of_snoc:
  "address_of h (ns @ [p]) i = (if ident h p = i then p else address_of h ns i)"
  by (auto simp: address_of_def split: list.splits)

lemma find_ends_eq:
  assumes "\<forall>p \<in> set ns. h p \<noteq> None"
  shows "find_ends h i j ns = Inr (address_of h ns i, if i = j then 0 else address_of h ns j)"
  using assms
proof (induction ns rule: rev_induct)
  case Nil
  then show ?case by (simp add: find_ends_def address_of_def)
next
  case (snoc p ns)
  then show ?case by (auto simp: find_ends_def foldE_append id_at_ident address_of_snoc)
qed

lemma address_of_mem:
  "i \<in> ident h ` set ns \<Longrightarrow> address_of h ns i \<in> set ns \<and> ident h (address_of h ns i) = i"
proof (induction ns rule: rev_induct)
  case (snoc p ns)
  then show ?case by (auto simp: address_of_snoc)
qed simp

lemma address_of_none: "i \<notin> ident h ` set ns \<Longrightarrow> address_of h ns i = 0"
  by (induction ns rule: rev_induct) (auto simp: address_of_snoc, simp add: address_of_def)

lemma graph_connect_eq:
  assumes "graph_ok h g" "i \<in> ident h ` set (graph_nodes g)" "j \<in> ident h ` set (graph_nodes g)" "i \<noteq> j"
  shows "graph_connect h g u i j = Inr (g\<lparr>graph_edges := graph_edges g @
    [\<lparr>edge_uid = u, edge_from = address_of h (graph_nodes g) i, edge_to = address_of h (graph_nodes g) j\<rparr>]\<rparr>)"
proof -
  note a = address_of_mem[OF assms(2)] address_of_mem[OF assms(3)]
  have "h (address_of h (graph_nodes g) i) \<noteq> None" "h (address_of h (graph_nodes g) j) \<noteq> None"
    using a graph_okD(1)[OF assms(1)] by blast+
  with a assms(4) show ?thesis
    using find_ends_eq[of "graph_nodes g" h i j] graph_okD(1)[OF assms(1)]
    by (simp add: graph_connect_def Edge_def id_at_ident)
qed

lemma graph_connect_fault:
  assumes "graph_ok h g" "h 0 = None"
    and "i \<notin> ident h ` set (graph_nodes g) \<or> j \<notin> ident h ` set (graph_nodes g) \<or> i = j"
  shows "graph_connect h g u i j = Inl NullDeref"
proof -
  have fe: "find_ends h i j (graph_nodes g) = Inr (address_of h (graph_nodes g) i,
      if i = j then 0 else address_of h (graph_nodes g) j)"
    using graph_okD(1)[OF assms(1)] by (intro find_ends_eq) blast
  have null: "id_at h 0 = Inl NullDeref" using assms(2) by (simp add: id_at_def)
  have "id_at h (address_of h (graph_nodes g) i) = Inl NullDeref
      \<or> (\<exists>k. id_at h (address_of h (graph_nodes g) i) = Inr k)"
    by (simp add: id_at_def split: option.splits)
  then show ?thesis
    using assms(3) null by (auto simp: graph_connect_def fe Edge_def address_of_none)
qed

lemma graph_connect_ok [wf_intros]:
  assumes "graph_ok h g" "h 0 = None" "graph_connect h g u i j = Inr g'"
  shows "graph_ok h g'" "graph_nodes g' = graph_nodes g"
proof -
  have c: "i \<in> ident h ` set (graph_nodes g)" "j \<in> ident h ` set (graph_nodes g)" "i \<noteq> j"
    using graph_connect_fault[OF assms(1,2), of i j u] assms(3) by auto
  show "graph_ok h g'" "graph_nodes g' = graph_nodes g"
    using graph_connect_eq[OF assms(1) c, of u] assms address_of_mem[OF c(1)] address_of_mem[OF c(2)] c(3)
    by (auto simp: graph_ok_def)
qed

lemma graph_connect_wf [wf_intros]:
  "graph_wf h g \<Longrightarrow> h 0 = None \<Longrightarrow> graph_connect h g u i j = Inr g' \<Longrightarrow> graph_wf h g'"
  using graph_connect_ok[of h g u i j g'] by (simp add: graph_wf_def)

section \<open>Paths\<close>

definition arrow :: "graph \<Rightarrow> (addr \<times> addr) set" where
  "arrow g = (\<lambda>e. (edge_from e, edge_to e)) ` set (graph_edges g)"

definition succs :: "graph \<Rightarrow> addr \<Rightarrow> addr list" where
  "succs g p = map edge_to (filter (\<lambda>e. edge_from e = p) (graph_edges g))"

text \<open>No cycle can be entered from \<open>p\<close>.\<close>

definition cycle_free :: "graph \<Rightarrow> addr \<Rightarrow> bool" where
  "cycle_free g p \<longleftrightarrow> (\<forall>q. (p, q) \<in> (arrow g)\<^sup>* \<longrightarrow> (q, q) \<notin> (arrow g)\<^sup>+)"

lemma set_succs: "set (succs g p) = {q. (p, q) \<in> arrow g}"
  by (force simp: succs_def arrow_def)

lemma arrow_nodes: "graph_wf h g \<Longrightarrow> (p, q) \<in> arrow g \<Longrightarrow> p \<in> set (graph_nodes g) \<and> q \<in> set (graph_nodes g)"
  by (auto simp: arrow_def graph_wf_def graph_ok_def)

lemma arrow_trancl_nodes: "graph_wf h g \<Longrightarrow> (p, q) \<in> (arrow g)\<^sup>+ \<Longrightarrow> q \<in> set (graph_nodes g)"
  using tranclD2[of p q "arrow g"] arrow_nodes by blast

lemma cycle_free_step: "cycle_free g p \<Longrightarrow> (p, q) \<in> arrow g \<Longrightarrow> cycle_free g q"
  unfolding cycle_free_def using converse_rtrancl_into_rtrancl[of p q "arrow g"] by blast

section \<open>Roots\<close>

lemma edges_in_eq:
  assumes "\<forall>e \<in> set es. edge_to e \<in> dom m"
  shows "foldE (\<lambda>m e. case m (edge_to e) of None \<Rightarrow> Inl OutOfRange
       | Some k \<Rightarrow> Inr (m(edge_to e \<mapsto> k + 1))) m es
    = Inr (\<lambda>p. map_option (\<lambda>k. k + length (filter (\<lambda>e. edge_to e = p) es)) (m p))"
  using assms
proof (induction es arbitrary: m)
  case Nil
  show ?case by (simp add: option.map_ident)
next
  case (Cons e es)
  then obtain k where k: "m (edge_to e) = Some k" by auto
  have dom: "\<forall>e' \<in> set es. edge_to e' \<in> dom (m(edge_to e \<mapsto> k + 1))" using Cons.prems by auto
  have "(\<lambda>p. map_option (\<lambda>k. k + length (filter (\<lambda>e. edge_to e = p) es)) ((m(edge_to e \<mapsto> k + 1)) p))
      = (\<lambda>p. map_option (\<lambda>k. k + length (filter (\<lambda>e. edge_to e = p) (e # es))) (m p))"
    by (auto simp: k fun_eq_iff)
  then show ?case by (simp only: foldE.simps k option.case bindE_simps Cons.IH[OF dom])
qed

lemma roots_total: "graph_ok h g \<Longrightarrow> \<exists>rs. roots g = Inr rs"
proof -
  assume ok: "graph_ok h g"
  have "\<exists>m. edges_in g = Inr m"
    unfolding edges_in_def using graph_okD(3)[OF ok] by (subst edges_in_eq) auto
  then show ?thesis by (auto simp: roots_def)
qed

lemma roots_ok_eq:
  assumes "graph_ok h g"
  shows "roots g = Inr (filter (\<lambda>p. \<forall>q. (q, p) \<notin> arrow g) (sort (remdups (graph_nodes g))))"
proof -
  have "edges_in g = Inr (\<lambda>p. map_option (\<lambda>k. k + length (filter (\<lambda>e. edge_to e = p) (graph_edges g)))
      (if p \<in> set (graph_nodes g) then Some 0 else None))"
    unfolding edges_in_def using graph_okD(3)[OF assms] by (intro edges_in_eq) auto
  then show ?thesis
    by (auto simp: roots_def arrow_def filter_empty_conv image_iff intro!: filter_cong)
qed

lemma roots_eq:
  "graph_wf h g \<Longrightarrow> roots g = Inr (filter (\<lambda>p. \<forall>q. (q, p) \<notin> arrow g) (sort (graph_nodes g)))"
  using roots_ok_eq[OF graph_wf_ok] graph_wfD(2) by (simp add: distinct_remdups_id)

section \<open>Unfolding a graph into trees\<close>

fun tree_root :: "tree \<Rightarrow> addr" where
  "tree_root (Tree p ts) = p"

fun tree_children :: "tree \<Rightarrow> tree list" where
  "tree_children (Tree p ts) = ts"

fun tree_nodes :: "tree \<Rightarrow> addr set" where
  "tree_nodes (Tree p ts) = insert p (\<Union>t \<in> set ts. tree_nodes t)"

declare subTreeOf.simps(2) [simp del]

text \<open>The loops that push back the results of a call are maps.\<close>

lemma foldE_push_mapE:
  "foldE (\<lambda>res x. bindE (f x) (\<lambda>t. Inr (res @ [t]))) acc xs
   = bindE (mapE f xs) (\<lambda>ts. Inr (acc @ ts))"
proof (induction xs arbitrary: acc)
  case (Cons x xs)
  then show ?case by (cases "f x"; cases "mapE f xs") auto
qed simp

lemma subTreeOf_Suc:
  assumes "graph_wf h g" "p \<in> set (graph_nodes g)"
  shows "subTreeOf (Suc n) h g p = bindE (mapE (subTreeOf n h g) (succs g p)) (\<lambda>ts. Inr (Tree p ts))"
proof -
  have fold: "foldE (\<lambda>subtrees e. bindE (same_id h (edge_from e) p) (\<lambda>b.
         if b then bindE (subTreeOf n h g (edge_to e)) (\<lambda>t. Inr (subtrees @ [t])) else Inr subtrees))
       acc es = foldE (\<lambda>res q. bindE (subTreeOf n h g q) (\<lambda>t. Inr (res @ [t]))) acc
         (map edge_to (filter (\<lambda>e. edge_from e = p) es))"
    if "set es \<subseteq> set (graph_edges g)" for acc es
    using that
  proof (induction es arbitrary: acc)
    case (Cons e es)
    have mem: "edge_from e \<in> set (graph_nodes g)" using Cons.prems graph_wfD(4)[OF assms(1)] by simp
    have "same_id h (edge_from e) p = Inr (edge_from e = p)"
      using same_id_ident[of h "edge_from e" p] graph_wfD(1)[OF assms(1)] assms(2) mem
        graph_wf_idents[OF assms(1) mem assms(2)] by simp
    with Cons show ?case by (cases "subTreeOf n h g (edge_to e)") auto
  qed simp
  show ?thesis
    by (simp only: subTreeOf.simps fold[OF subset_refl] foldE_push_mapE succs_def[symmetric])
      (cases "mapE (subTreeOf n h g) (succs g p)"; simp)
qed

lemma mapE_all:
  "\<forall>x \<in> set xs. \<exists>y. f x = Inr y \<and> P x y \<Longrightarrow> \<exists>ys. mapE f xs = Inr ys \<and> list_all2 P xs ys"
  by (induction xs) auto

lemma mapE_some_fault:
  "\<forall>x \<in> set xs. f x = Inl e \<or> (\<exists>y. f x = Inr y) \<Longrightarrow> \<exists>x \<in> set xs. f x = Inl e \<Longrightarrow> mapE f xs = Inl e"
proof (induction xs)
  case (Cons x xs)
  show ?case
  proof (cases "f x")
    case (Inr y)
    with Cons have "mapE f xs = Inl e" by auto
    with Inr show ?thesis by simp
  qed (use Cons.prems in auto)
qed simp

lemma mapE_fault_or_all:
  "\<forall>x \<in> set xs. f x = Inl e \<or> (\<exists>y. f x = Inr y) \<Longrightarrow> mapE f xs = Inl e \<or> (\<exists>ys. mapE f xs = Inr ys)"
  using mapE_some_fault[of xs f e] mapE_all[of xs f "\<lambda>_ _. True"] by blast

text \<open>With more fuel than there are nodes below \<open>p\<close>, the recursion returns, and the tree holds
  exactly the nodes that can be reached from \<open>p\<close>.\<close>

lemma subTreeOf_total:
  assumes "graph_wf h g" "p \<in> set (graph_nodes g)" "cycle_free g p"
    and "card {q. (p, q) \<in> (arrow g)\<^sup>+} < n"
  shows "\<exists>t. subTreeOf n h g p = Inr t \<and> tree_root t = p
    \<and> map tree_root (tree_children t) = succs g p \<and> tree_nodes t = {q. (p, q) \<in> (arrow g)\<^sup>*}"
  using assms(2-4)
proof (induction n arbitrary: p)
  case (Suc n)
  have fin: "finite {q. (p, q) \<in> (arrow g)\<^sup>+}"
    by (rule finite_subset[of _ "set (graph_nodes g)"]) (auto dest: arrow_trancl_nodes[OF assms(1)])
  have IH: "\<forall>q \<in> set (succs g p). \<exists>t. subTreeOf n h g q = Inr t
      \<and> (tree_root t = q \<and> tree_nodes t = {r. (q, r) \<in> (arrow g)\<^sup>*})"
  proof
    fix q assume "q \<in> set (succs g p)"
    then have pq: "(p, q) \<in> arrow g" by (simp add: set_succs)
    have "(q, q) \<notin> (arrow g)\<^sup>+" using Suc.prems(2) pq by (auto simp: cycle_free_def)
    then have "{r. (q, r) \<in> (arrow g)\<^sup>+} \<subset> {r. (p, r) \<in> (arrow g)\<^sup>+}"
      using pq by (auto intro: trancl_into_trancl2)
    then have "card {r. (q, r) \<in> (arrow g)\<^sup>+} < card {r. (p, r) \<in> (arrow g)\<^sup>+}"
      using fin by (rule psubset_card_mono[rotated])
    then have "card {r. (q, r) \<in> (arrow g)\<^sup>+} < n" using Suc.prems(3) by simp
    then show "\<exists>t. subTreeOf n h g q = Inr t
      \<and> (tree_root t = q \<and> tree_nodes t = {r. (q, r) \<in> (arrow g)\<^sup>*})"
      using Suc.IH[of q] arrow_nodes[OF assms(1) pq] cycle_free_step[OF Suc.prems(2) pq] by blast
  qed
  obtain ts where ts: "mapE (subTreeOf n h g) (succs g p) = Inr ts"
    "list_all2 (\<lambda>q t. tree_root t = q \<and> tree_nodes t = {r. (q, r) \<in> (arrow g)\<^sup>*}) (succs g p) ts"
    using mapE_all[OF IH] by blast
  have roots: "map tree_root ts = succs g p"
    using ts(2) by (induction rule: list_all2_induct) auto
  have "(\<Union>t \<in> set ts. tree_nodes t) = (\<Union>q \<in> set (succs g p). {r. (q, r) \<in> (arrow g)\<^sup>*})"
    using ts(2) by (induction rule: list_all2_induct) auto
  also have "insert p \<dots> = {q. (p, q) \<in> (arrow g)\<^sup>*}"
    by (auto simp: set_succs intro: converse_rtrancl_into_rtrancl elim: converse_rtranclE)
  finally have "tree_nodes (Tree p ts) = {q. (p, q) \<in> (arrow g)\<^sup>*}" by simp
  then show ?case using roots ts(1) subTreeOf_Suc[OF assms(1) Suc.prems(1)] by simp
qed simp

lemma reachable_card:
  assumes "graph_wf h g" "p \<in> set (graph_nodes g)" "cycle_free g p"
  shows "card {q. (p, q) \<in> (arrow g)\<^sup>+} < length (graph_nodes g)"
proof -
  have "{q. (p, q) \<in> (arrow g)\<^sup>+} \<subseteq> set (graph_nodes g) - {p}"
    using arrow_trancl_nodes[OF assms(1)] assms(3) by (auto simp: cycle_free_def)
  then have "card {q. (p, q) \<in> (arrow g)\<^sup>+} \<le> card (set (graph_nodes g) - {p})"
    by (rule card_mono[rotated]) simp
  also have "\<dots> < card (set (graph_nodes g))" using assms(2) by (intro psubset_card_mono) auto
  also have "\<dots> \<le> length (graph_nodes g)" by (rule card_length)
  finally show ?thesis .
qed

text \<open>Below a cycle no fuel is enough.\<close>

lemma subTreeOf_result:
  assumes "graph_wf h g" "p \<in> set (graph_nodes g)"
  shows "subTreeOf n h g p = Inl OutOfFuel \<or> (\<exists>t. subTreeOf n h g p = Inr t)"
  using assms(2)
proof (induction n arbitrary: p)
  case (Suc n)
  have "\<forall>q \<in> set (succs g p). subTreeOf n h g q = Inl OutOfFuel \<or> (\<exists>t. subTreeOf n h g q = Inr t)"
    using Suc.IH arrow_nodes[OF assms(1)] by (auto simp: set_succs)
  then have "mapE (subTreeOf n h g) (succs g p) = Inl OutOfFuel
      \<or> (\<exists>ts. mapE (subTreeOf n h g) (succs g p) = Inr ts)"
    by (rule mapE_fault_or_all)
  then show ?case using subTreeOf_Suc[OF assms(1) Suc.prems] by auto
qed simp

lemma subTreeOf_diverges:
  assumes "graph_wf h g" "p \<in> set (graph_nodes g)" "\<not> cycle_free g p"
  shows "subTreeOf n h g p = Inl OutOfFuel"
  using assms(2,3)
proof (induction n arbitrary: p)
  case (Suc n)
  obtain c where c: "(p, c) \<in> (arrow g)\<^sup>*" "(c, c) \<in> (arrow g)\<^sup>+"
    using Suc.prems(2) by (auto simp: cycle_free_def)
  then have "(p, c) \<in> (arrow g)\<^sup>+" by (rule rtrancl_trancl_trancl)
  then obtain q where q: "(p, q) \<in> arrow g" "(q, c) \<in> (arrow g)\<^sup>*" by (meson tranclD)
  have nq: "q \<in> set (graph_nodes g)" using arrow_nodes[OF assms(1) q(1)] by simp
  have "subTreeOf n h g q = Inl OutOfFuel"
    using Suc.IH[OF nq] q(2) c(2) by (auto simp: cycle_free_def)
  moreover have "\<forall>r \<in> set (succs g p). subTreeOf n h g r = Inl OutOfFuel \<or> (\<exists>t. subTreeOf n h g r = Inr t)"
    using subTreeOf_result[OF assms(1)] arrow_nodes[OF assms(1)] by (auto simp: set_succs)
  ultimately have "mapE (subTreeOf n h g) (succs g p) = Inl OutOfFuel"
    using q(1) by (intro mapE_some_fault) (auto simp: set_succs)
  then show ?case by (simp add: subTreeOf_Suc[OF assms(1) Suc.prems(1)])
qed simp

end
