(* ===== verification/GraphProps.thy ===== *)
theory GraphProps
  imports Graph
begin

text \<open>
  Properties of the document graph: the invariant of the graphs its operations build, when the
  recursion of \<open>subTreeOf\<close> returns and what it returns, and where the operations fault or miss
  their target.
\<close>

section \<open>Graphs that can be built\<close>

text \<open>One call on a graph over a fixed heap. A node that is added is an object; nothing else is asked
  of the arguments, as the operations ask nothing: an identifier, or the same object, may be added
  again. Calls that fault leave no graph.\<close>

inductive graph_step :: "heap \<Rightarrow> graph \<Rightarrow> graph \<Rightarrow> bool" for h where
  step_create: "h p \<noteq> None \<Longrightarrow> graph_step h g (graph_create g p)"
| step_remove: "graph_remove h g p = Inr g' \<Longrightarrow> graph_step h g g'"
| step_connect: "graph_connect h g u i j = Inr g' \<Longrightarrow> graph_step h g g'"
| step_disconnect: "graph_disconnect h g i j = Inr g' \<Longrightarrow> graph_step h g g'"

lemma empty_graph_ok [wf_intros]: "graph_ok h (Graph [] [])"
  by (simp add: graph_ok_def Graph_def)

lemma graph_step_ok [wf_intros]: "graph_step h g g' \<Longrightarrow> h 0 = None \<Longrightarrow> graph_ok h g \<Longrightarrow> graph_ok h g'"
  by (induction rule: graph_step.induct)
    (auto intro: graph_create_ok graph_remove_ok graph_connect_ok graph_disconnect_ok)

lemma reachable_graph_ok [wf_intros]:
  "(graph_step h)\<^sup>*\<^sup>* (Graph [] []) g \<Longrightarrow> h 0 = None \<Longrightarrow> graph_ok h g"
  by (induction rule: rtranclp_induct) (auto intro: empty_graph_ok graph_step_ok)

text \<open>A call adds an identifier the graph already holds, by creating a node with it.\<close>

definition duplicates :: "heap \<Rightarrow> graph \<Rightarrow> graph \<Rightarrow> bool" where
  "duplicates h g g' \<longleftrightarrow> (\<exists>p. g' = graph_create g p \<and> ident h p \<in> ident h ` set (graph_nodes g))"

lemma graph_step_wf:
  assumes "graph_step h g g'" "h 0 = None" "graph_wf h g"
  shows "graph_wf h g' \<longleftrightarrow> \<not> duplicates h g g'"
proof -
  have "\<not> graph_wf h g'" if "duplicates h g g'"
    using that by (auto simp: duplicates_def graph_wf_def) (simp add: graph_create_def)
  moreover have "graph_wf h g' \<or> duplicates h g g'"
    using assms by (induction rule: graph_step.induct)
      (auto simp: duplicates_def intro: graph_create_wf graph_remove_wf graph_connect_wf graph_disconnect_wf)
  ultimately show ?thesis by blast
qed

text \<open>A heap with three spheres, for the witnesses.\<close>

definition sample_heap :: heap where
  "sample_heap = [4 \<mapsto> Sphere 11 Coord_default Radius_default, 2 \<mapsto> SetOp 12 Union_op,
     3 \<mapsto> SetOp 13 Union_op]"

lemma sample_heap_simps [simp]:
  "sample_heap 0 = None" "ident sample_heap 4 = 11" "ident sample_heap 2 = 12" "ident sample_heap 3 = 13"
  "sample_heap 4 \<noteq> None" "sample_heap 2 \<noteq> None" "sample_heap 3 \<noteq> None"
  by (simp_all add: sample_heap_def ident_def)

lemma sample_reachable:
  assumes "graph_connect sample_heap (Graph [] [2, 4]) 7 12 11 = Inr g"
  shows "(graph_step sample_heap)\<^sup>*\<^sup>* (Graph [] []) g"
proof -
  have "graph_step sample_heap (Graph [] []) (Graph [] [2])"
    using step_create[of sample_heap 2 "Graph [] []"] by (simp add: Graph_def graph_create_def)
  moreover have "graph_step sample_heap (Graph [] [2]) (Graph [] [2, 4])"
    using step_create[of sample_heap 4 "Graph [] [2]"] by (simp add: Graph_def graph_create_def)
  moreover have "graph_step sample_heap (Graph [] [2, 4]) g"
    by (rule step_connect[OF assms])
  ultimately show ?thesis by (meson rtranclp.rtrancl_refl rtranclp.rtrancl_into_rtrancl)
qed

definition sample_graph :: graph where
  "sample_graph = Graph [\<lparr>edge_uid = 7, edge_from = 2, edge_to = 4\<rparr>] [2, 4]"

lemma sample_connect: "graph_connect sample_heap (Graph [] [2, 4]) 7 12 11 = Inr sample_graph"
  by (simp add: graph_connect_def find_ends_def Graph_def id_at_ident Edge_def sample_graph_def)

lemma sample_arrow: "arrow sample_graph = {(2, 4)}"
  by (simp add: arrow_def sample_graph_def Graph_def)

lemma sample_wf: "graph_wf sample_heap sample_graph"
  by (simp add: graph_wf_def graph_ok_def sample_graph_def Graph_def del: not_None_eq)

lemma sample_acyclic: "acyclic (arrow sample_graph)"
proof -
  have "(arrow sample_graph)\<^sup>+ = {(2, 4)}"
    unfolding sample_arrow by (rule trancl_id) (simp add: trans_def)
  then show ?thesis by (auto simp: acyclic_def)
qed

section \<open>Properties\<close>

text \<open>C22: In every graph that the operations build from an empty one out of existing nodes, whatever
  identifiers are added, removed, connected and disconnected, all node pointers are valid and edges
  join two nodes of the graph with different identifiers. So \<open>roots\<close> never throws: it returns the
  nodes without an incoming edge, each once even if it was added twice, in pointer order.
  Identifiers are not unique by themselves: one more call on a graph with unique identifiers keeps
  them unique unless it adds a node whose identifier the graph holds, which nothing checks.\<close>

theorem built_graphs_ok:
  assumes "(graph_step h)\<^sup>*\<^sup>* (Graph [] []) g" "h 0 = None"
  shows "graph_ok h g
    \<and> roots g = Inr (filter (\<lambda>p. \<forall>q. (q, p) \<notin> arrow g) (sort (remdups (graph_nodes g))))
    \<and> (\<forall>g'. graph_step h g g' \<longrightarrow> graph_wf h g \<longrightarrow> (graph_wf h g' \<longleftrightarrow> \<not> duplicates h g g'))"
  using reachable_graph_ok[OF assms] roots_ok_eq graph_step_wf assms(2) by blast

theorem built_graphs_ok_witness:
  "\<exists>g. graph_create sample_graph 2 = g \<and> graph_ok sample_heap g \<and> graph_nodes g = [2, 4, 2] \<and> roots g = Inr [2]
    \<and> \<not> graph_wf sample_heap g"
proof -
  let ?g = "graph_create sample_graph 2"
  have s: "graph_step sample_heap sample_graph ?g" by (rule step_create) simp
  then have "(graph_step sample_heap)\<^sup>*\<^sup>* (Graph [] []) ?g"
    using sample_reachable[OF sample_connect] by (rule rtranclp.rtrancl_into_rtrancl[rotated])
  note * = built_graphs_ok[OF this sample_heap_simps(1)]
  have nodes: "graph_nodes ?g = [2, 4, 2]" by (simp add: graph_create_def sample_graph_def Graph_def)
  have "arrow ?g = {(2, 4)}" by (simp add: arrow_def graph_create_def sample_graph_def Graph_def)
  then have "roots ?g = Inr [2]" using *[THEN conjunct2, THEN conjunct1] unfolding nodes by simp
  moreover have "duplicates sample_heap sample_graph ?g"
    by (auto simp: duplicates_def sample_graph_def Graph_def intro!: exI[of _ 2])
  then have "\<not> graph_wf sample_heap ?g"
    using built_graphs_ok[OF sample_reachable[OF sample_connect] sample_heap_simps(1)] s sample_wf by blast
  ultimately show ?thesis using * nodes by blast
qed

text \<open>C10: \<open>subTreeOf\<close> returns for a node of a well-formed graph exactly when no cycle can be entered
  from it, and then recursion as deep as the number of nodes is enough.\<close>

theorem subTreeOf_returns_iff:
  assumes "graph_wf h g" "p \<in> set (graph_nodes g)"
  shows "((\<exists>n t. subTreeOf n h g p = Inr t) \<longleftrightarrow> cycle_free g p)
    \<and> (cycle_free g p \<longrightarrow> (\<exists>t. subTreeOf (length (graph_nodes g)) h g p = Inr t))"
proof -
  have "\<exists>t. subTreeOf (length (graph_nodes g)) h g p = Inr t" if "cycle_free g p"
    using subTreeOf_total[OF assms that reachable_card[OF assms that]] by blast
  moreover have "cycle_free g p" if "subTreeOf n h g p = Inr t" for n t
    using subTreeOf_diverges[OF assms, of n] that by fastforce
  ultimately show ?thesis by blast
qed

theorem subTreeOf_returns_iff_witness:
  "\<exists>t. subTreeOf (length (graph_nodes sample_graph)) sample_heap sample_graph 2 = Inr t"
proof -
  note wf = sample_wf
  have "2 \<in> set (graph_nodes sample_graph)" by (simp add: sample_graph_def Graph_def)
  moreover have "cycle_free sample_graph 2"
    using sample_acyclic by (simp add: cycle_free_def acyclic_def)
  ultimately show ?thesis using subTreeOf_returns_iff[OF wf] by blast
qed

text \<open>C29: The tree of a node has the node at its root, the targets of its outgoing edges, in the
  order of the edges, as the roots of its children, and holds exactly the nodes that can be
  reached from it.\<close>

theorem subTreeOf_reachable:
  assumes "graph_wf h g" "p \<in> set (graph_nodes g)" "cycle_free g p" "length (graph_nodes g) \<le> n"
  shows "\<exists>t. subTreeOf n h g p = Inr t \<and> tree_root t = p
    \<and> map tree_root (tree_children t) = map edge_to (filter (\<lambda>e. edge_from e = p) (graph_edges g))
    \<and> tree_nodes t = {q. (p, q) \<in> (arrow g)\<^sup>*}"
  using subTreeOf_total[OF assms(1-3)] reachable_card[OF assms(1-3)] assms(4)
  by (simp add: succs_def)

theorem subTreeOf_reachable_witness:
  "\<exists>t. subTreeOf 2 sample_heap sample_graph 2 = Inr t \<and> tree_root t = 2
    \<and> tree_nodes t = {q. (2, q) \<in> (arrow sample_graph)\<^sup>*}"
proof -
  note wf = sample_wf
  have m: "2 \<in> set (graph_nodes sample_graph)" "length (graph_nodes sample_graph) \<le> 2"
    by (simp_all add: sample_graph_def Graph_def)
  have "cycle_free sample_graph 2"
    using sample_acyclic by (simp add: cycle_free_def acyclic_def)
  from subTreeOf_reachable[OF wf m(1) this m(2)] show ?thesis by blast
qed

lemma acyclic_root:
  assumes "graph_wf h g" "acyclic (arrow g)" "p \<in> set (graph_nodes g)"
  shows "\<exists>r \<in> set (graph_nodes g). (\<forall>q. (q, r) \<notin> arrow g) \<and> (r, p) \<in> (arrow g)\<^sup>*"
proof -
  have "wf (arrow g)" using assms(2) by (intro finite_acyclic_wf) (simp_all add: arrow_def)
  then show ?thesis using assms(3)
  proof (induction p rule: wf_induct_rule)
    case (less p)
    show ?case
    proof (cases "\<exists>q. (q, p) \<in> arrow g")
      case True
      then obtain q where q: "(q, p) \<in> arrow g" by blast
      with less arrow_nodes[OF assms(1) q] show ?thesis
        by (meson rtrancl.rtrancl_into_rtrancl)
    qed (use less.prems in auto)
  qed
qed

text \<open>C11: The trees of an acyclic graph show every node: each node of the graph occurs in the tree of
  some root, and nothing else occurs.\<close>

theorem trees_cover_graph:
  assumes "graph_wf h g" "acyclic (arrow g)" "length (graph_nodes g) \<le> n"
  shows "\<exists>ts. trees n h g = Inr ts \<and> (\<Union>t \<in> set ts. tree_nodes t) = set (graph_nodes g)"
proof -
  let ?rs = "filter (\<lambda>p. \<forall>q. (q, p) \<notin> arrow g) (sort (graph_nodes g))"
  have cf: "cycle_free g p" for p using assms(2) by (simp add: cycle_free_def acyclic_def)
  have "\<forall>r \<in> set ?rs. \<exists>t. subTreeOf n h g r = Inr t \<and> tree_nodes t = {q. (r, q) \<in> (arrow g)\<^sup>*}"
  proof
    fix r assume "r \<in> set ?rs"
    then have r: "r \<in> set (graph_nodes g)" by simp
    show "\<exists>t. subTreeOf n h g r = Inr t \<and> tree_nodes t = {q. (r, q) \<in> (arrow g)\<^sup>*}"
      using subTreeOf_total[OF assms(1) r cf order_less_le_trans[OF reachable_card[OF assms(1) r cf] assms(3)]]
      by blast
  qed
  from mapE_all[OF this] obtain ts where ts: "mapE (subTreeOf n h g) ?rs = Inr ts"
    "list_all2 (\<lambda>r t. tree_nodes t = {q. (r, q) \<in> (arrow g)\<^sup>*}) ?rs ts" by blast
  have "trees n h g = Inr ts"
    by (simp add: trees_def roots_eq[OF assms(1)] foldE_push_mapE ts(1))
  moreover have "(\<Union>t \<in> set ts. tree_nodes t) = (\<Union>r \<in> set ?rs. {q. (r, q) \<in> (arrow g)\<^sup>*})"
    using ts(2) by (induction rule: list_all2_induct) auto
  moreover have "(\<Union>r \<in> set ?rs. {q. (r, q) \<in> (arrow g)\<^sup>*}) = set (graph_nodes g)"
  proof (intro equalityI subsetI)
    fix q assume "q \<in> (\<Union>r \<in> set ?rs. {q. (r, q) \<in> (arrow g)\<^sup>*})"
    then obtain r where "(r, q) \<in> (arrow g)\<^sup>*" "r \<in> set (graph_nodes g)" by auto
    then show "q \<in> set (graph_nodes g)"
      by (induction rule: rtrancl_induct) (auto dest: arrow_nodes[OF assms(1)])
  next
    fix q assume "q \<in> set (graph_nodes g)"
    from acyclic_root[OF assms(1,2) this] obtain r where "r \<in> set (graph_nodes g)"
      "\<forall>p. (p, r) \<notin> arrow g" and rq: "(r, q) \<in> (arrow g)\<^sup>*" by blast
    then have "r \<in> set ?rs" by simp
    with rq show "q \<in> (\<Union>r \<in> set ?rs. {q. (r, q) \<in> (arrow g)\<^sup>*})" by blast
  qed
  ultimately show ?thesis by (intro exI[of _ ts] conjI) (assumption, simp only:)
qed

theorem trees_cover_graph_witness:
  "\<exists>ts. trees 2 sample_heap sample_graph = Inr ts \<and> (\<Union>t \<in> set ts. tree_nodes t) = set (graph_nodes sample_graph)"
proof -
  note wf = sample_wf
  show ?thesis
    by (rule trees_cover_graph[OF wf sample_acyclic]) (simp add: sample_graph_def Graph_def)
qed

text \<open>C30: Nothing stops a client from connecting a cycle, and the trees of such a graph are never
  delivered: with a root above two nodes that are connected both ways, all identifiers different,
  the recursion runs out of any amount of fuel.\<close>

theorem trees_diverge_on_cycle:
  "\<exists>g. (graph_step sample_heap)\<^sup>*\<^sup>* (Graph [] []) g \<and> graph_wf sample_heap g
    \<and> (\<forall>n. trees n sample_heap g = Inl OutOfFuel)"
proof -
  let ?e1 = "\<lparr>edge_uid = 7, edge_from = 2, edge_to = 4\<rparr>" and ?e2 = "\<lparr>edge_uid = 8, edge_from = 4, edge_to = 2\<rparr>"
    and ?e3 = "\<lparr>edge_uid = 9, edge_from = 3, edge_to = 4\<rparr>"
  let ?g = "Graph [?e1, ?e2, ?e3] [2, 4, 3]"
  have s1: "graph_step sample_heap sample_graph (Graph [?e1] [2, 4, 3])"
    using step_create[of sample_heap 3 sample_graph]
    by (simp add: Graph_def graph_create_def sample_graph_def)
  have s2: "graph_step sample_heap (Graph [?e1] [2, 4, 3]) (Graph [?e1, ?e2] [2, 4, 3])"
    by (rule step_connect[of _ _ 8 11 12])
      (simp add: graph_connect_def find_ends_def Graph_def id_at_ident Edge_def)
  have s3: "graph_step sample_heap (Graph [?e1, ?e2] [2, 4, 3]) ?g"
    by (rule step_connect[of _ _ 9 13 11])
      (simp add: graph_connect_def find_ends_def Graph_def id_at_ident Edge_def)
  have reach: "(graph_step sample_heap)\<^sup>*\<^sup>* (Graph [] []) ?g"
    using sample_reachable[OF sample_connect] s1 s2 s3 by (meson rtranclp.rtrancl_into_rtrancl)
  have wf: "graph_wf sample_heap ?g" by (simp add: graph_wf_def graph_ok_def Graph_def del: not_None_eq)
  have arrow: "arrow ?g = {(2, 4), (4, 2), (3, 4)}" by (auto simp: arrow_def Graph_def)
  have "(4, 2) \<in> arrow ?g" "(2, 4) \<in> arrow ?g" "(3, 4) \<in> arrow ?g" by (simp_all add: arrow)
  then have "(4, 4) \<in> (arrow ?g)\<^sup>+" "(3, 4) \<in> (arrow ?g)\<^sup>*" by (meson trancl.intros r_into_rtrancl)+
  then have "\<not> cycle_free ?g 3" by (auto simp: cycle_free_def)
  moreover have "roots ?g = Inr [3]"
    unfolding roots_eq[OF wf] arrow by (simp add: Graph_def) (auto simp: eq_commute)
  moreover have "3 \<in> set (graph_nodes ?g)" by (simp add: Graph_def)
  ultimately have "trees n sample_heap ?g = Inl OutOfFuel" for n
    using subTreeOf_diverges[OF wf, of 3 n] by (simp add: trees_def)
  with reach wf show ?thesis by blast
qed

text \<open>Connecting works exactly when the graph has both nodes and they are different: it appends
  an edge between the nodes with these identifiers, and otherwise it dereferences a null
  pointer.\<close>

theorem connect_needs_both_nodes:
  assumes "graph_wf h g" "h 0 = None"
  shows "(if i \<in> ident h ` set (graph_nodes g) \<and> j \<in> ident h ` set (graph_nodes g) \<and> i \<noteq> j
    then \<exists>p q. p \<in> set (graph_nodes g) \<and> q \<in> set (graph_nodes g) \<and> ident h p = i \<and> ident h q = j
      \<and> graph_connect h g u i j
        = Inr (g\<lparr>graph_edges := graph_edges g @ [\<lparr>edge_uid = u, edge_from = p, edge_to = q\<rparr>]\<rparr>)
    else graph_connect h g u i j = Inl NullDeref)"
proof (cases "i \<in> ident h ` set (graph_nodes g) \<and> j \<in> ident h ` set (graph_nodes g) \<and> i \<noteq> j")
  case True
  then have c: "graph_connect h g u i j = Inr (g\<lparr>graph_edges := graph_edges g @
      [\<lparr>edge_uid = u, edge_from = address_of h (graph_nodes g) i, edge_to = address_of h (graph_nodes g) j\<rparr>]\<rparr>)"
    by (intro graph_connect_eq[OF graph_wf_ok[OF assms(1)]]) auto
  show ?thesis
    unfolding if_P[OF True]
    using c True address_of_mem[of i h "graph_nodes g"] address_of_mem[of j h "graph_nodes g"] by blast
next
  case False
  then show ?thesis using graph_connect_fault[OF graph_wf_ok[OF assms(1)] assms(2), of i j u] by auto
qed

theorem connect_needs_both_nodes_witness:
  "graph_connect sample_heap sample_graph 9 11 11 = Inl NullDeref"
proof -
  note wf = sample_wf
  show ?thesis using connect_needs_both_nodes[OF wf sample_heap_simps(1), of 11 11 9] by simp
qed

lemma access_run:
  assumes "\<And>h p. I h \<Longrightarrow> p \<in> set ps \<Longrightarrow> h p \<noteq> None" "\<And>h p. I h \<Longrightarrow> ident h p = ident h0 p" "I h"
    and "uid \<notin> ident h0 ` set ps"
  shows "foldE (\<lambda>h p. bindE (id_at h p) (\<lambda>i. if i = uid then act h else Inr h)) h ps = Inr h"
  using assms
proof (induction ps arbitrary: h)
  case (Cons p ps)
  have "id_at h p = Inr (ident h0 p)" using Cons.prems(1)[of h p] Cons.prems(2,3) by (simp add: id_at_ident)
  moreover have "ident h0 p \<noteq> uid" using Cons.prems(4) by auto
  ultimately show ?case using Cons by simp
qed simp

text \<open>Accessing a node runs the action once, but on the first node of the graph, whichever
  node has the requested identifier; without a match the heap is left alone. (The action is one
  that keeps identifiers, as assigning an attribute does.)\<close>

theorem access_hits_first_node:
  assumes "graph_wf h g" "\<And>h p h'. action h p = Inr h' \<Longrightarrow> (\<forall>q. (h' q = None) = (h q = None) \<and> ident h' q = ident h q)"
  shows "graph_access h g uid action =
    (if uid \<in> ident h ` set (graph_nodes g) then action h (hd (graph_nodes g)) else Inr h)"
proof (cases "uid \<in> ident h ` set (graph_nodes g)")
  case False
  then show ?thesis
    unfolding graph_access_def using graph_wfD(1)[OF assms(1)]
    by (subst access_run[where I = "\<lambda>h'. h' = h" and ?h0.0 = h]) auto
next
  case True
  then obtain p where p: "p \<in> set (graph_nodes g)" "ident h p = uid" by blast
  then obtain xs ys where ns: "graph_nodes g = xs @ p # ys" by (auto simp: in_set_conv_decomp)
  let ?n = "graph_nodes g ! 0"
  let ?F = "foldE (\<lambda>h p. bindE (id_at h p) (\<lambda>i. if i = uid then action h ?n else Inr h))"
  have d: "uid \<notin> ident h ` set xs" "uid \<notin> ident h ` set ys"
    using assms(1) p(2) by (auto simp: graph_wf_def ns)
  have valid: "h q \<noteq> None" if "q \<in> set (graph_nodes g)" for q using graph_wfD(1)[OF assms(1) that] .
  have 1: "?F h xs = Inr h"
    using d(1) valid by (intro access_run[where I = "\<lambda>h'. h' = h" and ?h0.0 = h]) (auto simp: ns)
  have 2: "?F h' ys = Inr h'" if "action h ?n = Inr h'" for h'
    using d(2) valid assms(2)[OF that]
    by (intro access_run[where I = "\<lambda>k. k = h'" and ?h0.0 = h]) (auto simp: ns)
  have "graph_access h g uid action = ?F h (xs @ p # ys)" by (simp add: graph_access_def ns)
  then have "graph_access h g uid action = action h ?n"
    using 1 2 p valid by (cases "action h ?n") (auto simp: foldE_append id_at_ident)
  moreover have "hd (graph_nodes g) = ?n" using ns by (simp add: hd_conv_nth)
  ultimately show ?thesis using True by simp
qed

theorem access_hits_first_node_witness:
  "graph_access sample_heap sample_graph 11 (\<lambda>h p. Inr h) = Inr sample_heap"
proof -
  note wf = sample_wf
  have "graph_access sample_heap sample_graph 11 (\<lambda>h p. Inr h) =
    (if 11 \<in> ident sample_heap ` set (graph_nodes sample_graph)
     then (\<lambda>h p. Inr h) sample_heap (hd (graph_nodes sample_graph)) else Inr sample_heap)"
    by (rule access_hits_first_node[OF wf]) auto
  then show ?thesis by simp
qed

end
