(* ===== verification/Protocol.thy ===== *)
theory Protocol
  imports Graph Queries
begin

text \<open>
  The messages replicas exchange (\<open>include/wire/Message.h\<close>), the state of the application, the
  interactors that carry an edit to the database, the network and the open document
  (\<open>include/interactor\<close>, \<open>src/interactor\<close>), and the client end point that turns a received message
  into calls of an interactor (\<open>src/wire/ClientImpl.cpp\<close>).

  A call that fails leaves the state it had reached: the transactions that were committed before
  an exception stay committed. So an action returns its fault, if any, beside its state.
\<close>

section \<open>Actions\<close>

type_synonym 's action = "'s \<Rightarrow> fault option \<times> 's"

definition skip :: "'s action" where
  "skip s = (None, s)"

definition fail :: "fault \<Rightarrow> 's action" where
  "fail e s = (Some e, s)"

definition andThen :: "'s action \<Rightarrow> 's action \<Rightarrow> 's action" where
  "andThen a b s = (case a s of (None, s') \<Rightarrow> b s' | (Some e, s') \<Rightarrow> (Some e, s'))"

definition bindA :: "('s \<Rightarrow> fault + 'a) \<Rightarrow> ('a \<Rightarrow> 's action) \<Rightarrow> 's action" where
  "bindA r k s = (case r s of Inl e \<Rightarrow> (Some e, s) | Inr x \<Rightarrow> k x s)"

fun steps :: "'s action list \<Rightarrow> 's action" where
  "steps [] s = (None, s)"
| "steps (a # as) s = andThen a (steps as) s"

lemma andThen_simps [simp]:
  "a s = (None, s') \<Longrightarrow> andThen a b s = b s'"
  "a s = (Some e, s') \<Longrightarrow> andThen a b s = (Some e, s')"
  by (simp_all add: andThen_def)

lemma bindA_simps [simp]:
  "r s = Inl e \<Longrightarrow> bindA r k s = (Some e, s)"
  "r s = Inr x \<Longrightarrow> bindA r k s = k x s"
  by (simp_all add: bindA_def)

lemma steps_append: "steps (as @ bs) s = andThen (steps as) (steps bs) s"
  by (induction as arbitrary: s) (auto simp: andThen_def split: prod.splits option.splits)

section \<open>Messages\<close>

datatype change = Assert | Retract

datatype payload =
    ConnectDisconnect ID ID change
  | Update ID attribute
  | CreateDelete ID node change
  | Confirm int

record message =
  msg_payload :: payload
  msg_time :: timestamp

section \<open>The state of the application\<close>

text \<open>The open document: its mesh is what the factory last built, represented by the forest it
  was given and the heap it read the nodes from; a job is a forest whose mesh is being built.\<close>

record open_document =
  doc_id :: ID
  doc_graph :: graph
  doc_mesh :: "(tree list \<times> heap) option"
  doc_jobs :: "tree list list"

record app =
  app_db :: database
  app_heap :: heap
  app_next :: addr
  app_document :: "open_document option"
  app_documents :: "document_with_name list"
  app_sent :: "message list"
  app_ticks :: nat
  app_draws :: nat

text \<open>The outside: the SQL engine, the readings of the clock and the random identifiers.\<close>

record env =
  sql :: engine
  clock :: "nat \<Rightarrow> timestamp"
  random_id :: "nat \<Rightarrow> ID"

definition do_db :: "(database \<Rightarrow> fault + database) \<Rightarrow> app action" where
  "do_db f s = (case f (app_db s) of Inl e \<Rightarrow> (Some e, s) | Inr d \<Rightarrow> (None, s\<lparr>app_db := d\<rparr>))"

definition do_heap :: "(heap \<Rightarrow> fault + heap) \<Rightarrow> app action" where
  "do_heap f s = (case f (app_heap s) of Inl e \<Rightarrow> (Some e, s) | Inr h \<Rightarrow> (None, s\<lparr>app_heap := h\<rparr>))"

text \<open>\<open>doc->graph()->...\<close> on the open document; without one the pointer is null.\<close>

definition do_graph :: "(heap \<Rightarrow> graph \<Rightarrow> fault + graph) \<Rightarrow> app action" where
  "do_graph f s = (case app_document s of None \<Rightarrow> (Some NullDeref, s)
     | Some d \<Rightarrow> (case f (app_heap s) (doc_graph d) of Inl e \<Rightarrow> (Some e, s)
         | Inr g \<Rightarrow> (None, s\<lparr>app_document := Some (d\<lparr>doc_graph := g\<rparr>)\<rparr>)))"

definition do_access :: "ID \<Rightarrow> (heap \<Rightarrow> addr \<Rightarrow> fault + heap) \<Rightarrow> app action" where
  "do_access uid act s = (case app_document s of None \<Rightarrow> (Some NullDeref, s)
     | Some d \<Rightarrow> do_heap (\<lambda>h. graph_access h (doc_graph d) uid act) s)"

text \<open>\<open>network->send(message)\<close>.\<close>

definition do_send :: "message \<Rightarrow> app action" where
  "do_send m s = (None, s\<lparr>app_sent := app_sent s @ [m]\<rparr>)"

text \<open>\<open>TimestampFactory().timestamp()\<close> and \<open>IDFactory()()\<close>.\<close>

definition with_now :: "env \<Rightarrow> (timestamp \<Rightarrow> app action) \<Rightarrow> app action" where
  "with_now env k s = k (clock env (app_ticks s)) (s\<lparr>app_ticks := app_ticks s + 1\<rparr>)"

definition with_id :: "env \<Rightarrow> (ID \<Rightarrow> app action) \<Rightarrow> app action" where
  "with_id env k s = k (random_id env (app_draws s)) (s\<lparr>app_draws := app_draws s + 1\<rparr>)"

text \<open>\<open>std::make_shared\<close>.\<close>

definition with_new :: "node \<Rightarrow> (addr \<Rightarrow> app action) \<Rightarrow> app action" where
  "with_new n k s = k (app_next s)
     (s\<lparr>app_heap := (app_heap s)(app_next s \<mapsto> n), app_next := app_next s + 1\<rparr>)"

section \<open>Interactors\<close>

record interactor =
  on_create :: "addr \<Rightarrow> ID \<Rightarrow> timestamp \<Rightarrow> app action"
  on_connect :: "ID \<Rightarrow> ID \<Rightarrow> timestamp \<Rightarrow> app action"
  on_upsert :: "ID \<Rightarrow> attribute \<Rightarrow> timestamp \<Rightarrow> app action"
  on_remove :: "addr \<Rightarrow> ID \<Rightarrow> timestamp \<Rightarrow> app action"
  on_disconnect :: "ID \<Rightarrow> ID \<Rightarrow> timestamp \<Rightarrow> app action"

definition ModularInteractor where
  "ModularInteractor cr co up re di = \<lparr>on_create = cr, on_connect = co, on_upsert = up,
     on_remove = re, on_disconnect = di\<rparr>"

section \<open>The client end point\<close>

fun process_create :: "interactor \<Rightarrow> ID \<Rightarrow> node \<Rightarrow> change \<Rightarrow> timestamp \<Rightarrow> app action" where
  "process_create I doc n Assert t = with_new n (\<lambda>p. on_create I p doc t)"
| "process_create I doc n Retract t = with_new n (\<lambda>p. on_remove I p doc t)"

fun process_payload :: "interactor \<Rightarrow> payload \<Rightarrow> timestamp \<Rightarrow> app action" where
  "process_payload I (ConnectDisconnect from to Assert) t = on_connect I from to t"
| "process_payload I (ConnectDisconnect from to Retract) t = on_disconnect I from to t"
| "process_payload I (Update uid a) t = on_upsert I uid a t"
| "process_payload I (CreateDelete doc n c) t = process_create I doc n c t"
| "process_payload I (Confirm i) t = skip"

definition process :: "interactor \<Rightarrow> message \<Rightarrow> app action" where
  "process I m = process_payload I (msg_payload m) (msg_time m)"

definition client_receive :: "interactor \<Rightarrow> message \<Rightarrow> app action" where
  "client_receive I m = process I m"

text \<open>\<open>ClientImpl::sync\<close>, \<open>send\<close> and \<open>connect\<close> and the three handlers of \<open>ServerController\<close> have
  empty bodies.\<close>

definition client_sync :: "message list \<Rightarrow> app action" where
  "client_sync ms = skip"

definition client_send :: "message \<Rightarrow> app action" where
  "client_send m = skip"

definition client_connect :: "string \<Rightarrow> app action" where
  "client_connect uri = skip"

definition server_sync :: "ID \<Rightarrow> timestamp \<Rightarrow> message list \<Rightarrow> app action" where
  "server_sync doc t ms = skip"

definition server_receive :: "message \<Rightarrow> app action" where
  "server_receive m = skip"

definition server_broadcast :: "message \<Rightarrow> app action" where
  "server_broadcast m = skip"

lemmas action_defs = skip_def fail_def do_db_def do_heap_def do_graph_def do_access_def do_send_def
  with_now_def with_id_def with_new_def

end
