(* ===== verification/Document.thy ===== *)
theory Document
  imports Protocol
begin

text \<open>
  The open document \<open>DocumentImpl\<close> (\<open>include/document\<close>, \<open>src/document/DocumentImpl.cpp\<close>): every
  edit is reported to the document's interactor, applied to its graph, and followed by a job
  that rebuilds the mesh in the background.
\<close>

section \<open>Rebuilding the mesh\<close>

text \<open>\<open>regenMesh\<close> takes the trees of the graph at once and leaves the rest to a job. The recursion
  over an acyclic graph is no deeper than its number of nodes.\<close>

definition regenMesh :: "app action" where
  "regenMesh s = (case app_document s of None \<Rightarrow> (Some NullDeref, s)
     | Some d \<Rightarrow> (case trees (length (graph_nodes (doc_graph d))) (app_heap s) (doc_graph d) of
         Inl e \<Rightarrow> (Some e, s)
       | Inr forest \<Rightarrow> (None, s\<lparr>app_document := Some (d\<lparr>doc_jobs := doc_jobs d @ [forest]\<rparr>)\<rparr>)))"

text \<open>What the \<open>k\<close>-th pending job does when its thread gets there: it stores the mesh of its forest,
  made from the nodes as they are then.\<close>

definition run_job :: "nat \<Rightarrow> app action" where
  "run_job k s = (case app_document s of None \<Rightarrow> (None, s)
     | Some d \<Rightarrow> (if k < length (doc_jobs d)
         then (None, s\<lparr>app_document := Some (d\<lparr>doc_mesh := Some (doc_jobs d ! k, app_heap s),
           doc_jobs := take k (doc_jobs d) @ drop (Suc k) (doc_jobs d)\<rparr>)\<rparr>)
         else (None, s)))"

section \<open>Edits\<close>

definition with_document :: "(open_document \<Rightarrow> app action) \<Rightarrow> app action" where
  "with_document k s = (case app_document s of None \<Rightarrow> (Some NullDeref, s) | Some d \<Rightarrow> k d s)"

definition document_create :: "env \<Rightarrow> interactor \<Rightarrow> addr \<Rightarrow> app action" where
  "document_create env I p = with_document (\<lambda>d. with_now env (\<lambda>now. steps
     [on_create I p (doc_id d) now,
      do_graph (\<lambda>h g. Inr (graph_create g p)),
      regenMesh]))"

definition document_remove :: "env \<Rightarrow> interactor \<Rightarrow> addr \<Rightarrow> app action" where
  "document_remove env I p = with_document (\<lambda>d. with_now env (\<lambda>now. steps
     [on_remove I p (doc_id d) now,
      do_graph (\<lambda>h g. graph_remove h g p),
      regenMesh]))"

text \<open>The edges of a graph are made by \<open>Graph::connect\<close>; the one passed in gives the end points.\<close>

definition ends_of :: "edge \<Rightarrow> (ID \<Rightarrow> ID \<Rightarrow> app action) \<Rightarrow> app action" where
  "ends_of e k = bindA (\<lambda>s. id_at (app_heap s) (edge_from e)) (\<lambda>i.
     bindA (\<lambda>s. id_at (app_heap s) (edge_to e)) (\<lambda>j. k i j))"

definition document_connect :: "env \<Rightarrow> interactor \<Rightarrow> edge \<Rightarrow> app action" where
  "document_connect env I e = with_document (\<lambda>d. with_now env (\<lambda>now. ends_of e (\<lambda>i j. steps
     [on_connect I i j now,
      with_id env (\<lambda>u. do_graph (\<lambda>h g. graph_connect h g u i j)),
      regenMesh])))"

definition document_disconnect :: "env \<Rightarrow> interactor \<Rightarrow> edge \<Rightarrow> app action" where
  "document_disconnect env I e = with_document (\<lambda>d. with_now env (\<lambda>now. ends_of e (\<lambda>i j. steps
     [on_disconnect I i j now,
      do_graph (\<lambda>h g. graph_disconnect h g i j),
      regenMesh])))"

text \<open>\<open>std::dynamic_pointer_cast<Sphere>(q)->coord = ...\<close>: null when \<open>q\<close> is not a sphere.\<close>

fun set_coord :: "coord \<Rightarrow> heap \<Rightarrow> addr \<Rightarrow> fault + heap" where
  "set_coord c h q = (case h q of Some (Sphere u c' r) \<Rightarrow> Inr (h(q \<mapsto> Sphere u c r))
     | _ \<Rightarrow> Inl NullDeref)"

fun set_radius :: "radius \<Rightarrow> heap \<Rightarrow> addr \<Rightarrow> fault + heap" where
  "set_radius r h q = (case h q of Some (Sphere u c r') \<Rightarrow> Inr (h(q \<mapsto> Sphere u c r))
     | _ \<Rightarrow> Inl NullDeref)"

fun set_type :: "SetOperationType \<Rightarrow> heap \<Rightarrow> addr \<Rightarrow> fault + heap" where
  "set_type t h q = (case h q of Some (SetOp u t') \<Rightarrow> Inr (h(q \<mapsto> SetOp u t))
     | _ \<Rightarrow> Inl NullDeref)"

text \<open>The copy of a sphere's attributes reads the edited node at the time of the assignment.\<close>

definition assign_coord :: "addr \<Rightarrow> heap \<Rightarrow> addr \<Rightarrow> fault + heap" where
  "assign_coord p h q = (case h p of Some (Sphere u c r) \<Rightarrow> set_coord c h q | _ \<Rightarrow> Inl NullDeref)"

definition assign_radius :: "addr \<Rightarrow> heap \<Rightarrow> addr \<Rightarrow> fault + heap" where
  "assign_radius p h q = (case h p of Some (Sphere u c r) \<Rightarrow> set_radius r h q | _ \<Rightarrow> Inl NullDeref)"

definition copy_sphere :: "addr \<Rightarrow> heap \<Rightarrow> addr \<Rightarrow> fault + heap" where
  "copy_sphere p h q = bindE (assign_coord p h q) (\<lambda>h'. assign_radius p h' q)"

text \<open>For a set operation the code asks the null \<open>sphere\<close> for its identifier.\<close>

definition document_update :: "env \<Rightarrow> interactor \<Rightarrow> addr \<Rightarrow> app action" where
  "document_update env I p = with_document (\<lambda>d. with_now env (\<lambda>now s. steps
     [\<lambda>s. (case app_heap s p of
        Some (Sphere u c r) \<Rightarrow> steps
          [on_upsert I u (ARadius r) now,
           on_upsert I u (ACoord c) now,
           do_access u (copy_sphere p)] s
      | Some (SetOp u t) \<Rightarrow> steps
          [on_upsert I u (ASetOp t) now,
           fail NullDeref] s
      | None \<Rightarrow> (None, s)),
      regenMesh] s))"

lemmas document_defs = document_create_def document_remove_def document_connect_def
  document_disconnect_def document_update_def with_document_def ends_of_def

end
