(* ===== verification/Viewmodel.thy ===== *)
theory Viewmodel
  imports Document
begin

text \<open>
  The view model (\<open>include/vm\<close>, \<open>src/vm/ViewmodelImpl.cpp\<close>): the three interactors that wire the
  database, the network and the open document together, opening and creating documents, and the
  handling of one local edit or one received message.
\<close>

section \<open>The database interactor\<close>

definition db_on_create :: "env \<Rightarrow> addr \<Rightarrow> ID \<Rightarrow> timestamp \<Rightarrow> app action" where
  "db_on_create env p doc now s = (case app_heap s p of
     Some (Sphere uid c r) \<Rightarrow> steps
       [do_db (\<lambda>d. create (sql env) d uid Sphere_type doc now),
        do_db (\<lambda>d. upsert_radius (sql env) d uid r now),
        do_db (\<lambda>d. upsert_coord (sql env) d uid c now)] s
   | Some (SetOp uid t) \<Rightarrow> steps
       [do_db (\<lambda>d. create (sql env) d uid SetOperation_type doc now),
        do_db (\<lambda>d. upsert_setop (sql env) d uid t now)] s
   | None \<Rightarrow> (None, s))"

definition db_on_connect :: "env \<Rightarrow> ID \<Rightarrow> ID \<Rightarrow> timestamp \<Rightarrow> app action" where
  "db_on_connect env from to now = do_db (\<lambda>d. connect (sql env) d from to now)"

definition db_on_upsert :: "env \<Rightarrow> ID \<Rightarrow> attribute \<Rightarrow> timestamp \<Rightarrow> app action" where
  "db_on_upsert env ent a now = (case a of
     ACoord c \<Rightarrow> do_db (\<lambda>d. upsert_coord (sql env) d ent c now)
   | ARadius r \<Rightarrow> do_db (\<lambda>d. upsert_radius (sql env) d ent r now)
   | ASetOp t \<Rightarrow> do_db (\<lambda>d. upsert_setop (sql env) d ent t now)
   | AName n \<Rightarrow> do_db (\<lambda>d. upsert_name (sql env) d ent n now))"

definition db_on_remove :: "env \<Rightarrow> addr \<Rightarrow> ID \<Rightarrow> timestamp \<Rightarrow> app action" where
  "db_on_remove env p doc now s = (case app_heap s p of
     Some (Sphere uid c r) \<Rightarrow> steps
       [do_db (\<lambda>d. remove (sql env) d uid doc now),
        do_db (\<lambda>d. retract_radius (sql env) d uid r now),
        do_db (\<lambda>d. retract_coord (sql env) d uid c now)] s
   | Some (SetOp uid t) \<Rightarrow> steps
       [do_db (\<lambda>d. remove (sql env) d uid doc now),
        do_db (\<lambda>d. retract_setop (sql env) d uid t now)] s
   | None \<Rightarrow> (Some NullDeref, s))"

definition db_on_disconnect :: "env \<Rightarrow> ID \<Rightarrow> ID \<Rightarrow> timestamp \<Rightarrow> app action" where
  "db_on_disconnect env from to now = do_db (\<lambda>d. disconnect (sql env) d from to now)"

definition makeDBInteractor :: "env \<Rightarrow> interactor" where
  "makeDBInteractor env = ModularInteractor (db_on_create env) (db_on_connect env)
     (db_on_upsert env) (db_on_remove env) (db_on_disconnect env)"

section \<open>The document interactor\<close>

text \<open>What a local edit does: the database, then a message for the other replicas.\<close>

definition message :: "payload \<Rightarrow> timestamp \<Rightarrow> message" where
  "message p t = \<lparr>msg_payload = p, msg_time = t\<rparr>"

definition local_on_create :: "env \<Rightarrow> addr \<Rightarrow> ID \<Rightarrow> timestamp \<Rightarrow> app action" where
  "local_on_create env p doc now = steps
     [db_on_create env p doc now,
      (\<lambda>s. case app_heap s p of
         Some n \<Rightarrow> do_send (message (CreateDelete doc n Assert) now) s
       | None \<Rightarrow> (None, s))]"

definition local_on_connect :: "env \<Rightarrow> ID \<Rightarrow> ID \<Rightarrow> timestamp \<Rightarrow> app action" where
  "local_on_connect env from to now = steps
     [db_on_connect env from to now,
      do_send (message (ConnectDisconnect from to Assert) now)]"

definition local_on_upsert :: "env \<Rightarrow> ID \<Rightarrow> attribute \<Rightarrow> timestamp \<Rightarrow> app action" where
  "local_on_upsert env ent a now = steps
     [db_on_upsert env ent a now,
      (case a of AName n \<Rightarrow> skip | _ \<Rightarrow> do_send (message (Update ent a) now))]"

definition local_on_remove :: "env \<Rightarrow> addr \<Rightarrow> ID \<Rightarrow> timestamp \<Rightarrow> app action" where
  "local_on_remove env p doc now = steps
     [db_on_remove env p doc now,
      (\<lambda>s. case app_heap s p of
         Some n \<Rightarrow> do_send (message (CreateDelete doc n Retract) now) s
       | None \<Rightarrow> (None, s))]"

definition local_on_disconnect :: "env \<Rightarrow> ID \<Rightarrow> ID \<Rightarrow> timestamp \<Rightarrow> app action" where
  "local_on_disconnect env from to t = steps
     [db_on_disconnect env from to t,
      do_send (message (ConnectDisconnect from to Assert) t)]"

definition makeDocumentInteractor :: "env \<Rightarrow> interactor" where
  "makeDocumentInteractor env = ModularInteractor (local_on_create env) (local_on_connect env)
     (local_on_upsert env) (local_on_remove env) (local_on_disconnect env)"

section \<open>The network interactor\<close>

text \<open>What a received message does: the database, then the open document. Only \<open>create\<close> checks
  that a document is open; \<open>remove\<close> goes through the document and its interactor.\<close>

definition remote_on_create :: "env \<Rightarrow> addr \<Rightarrow> ID \<Rightarrow> timestamp \<Rightarrow> app action" where
  "remote_on_create env p doc t = steps
     [db_on_create env p doc t,
      (\<lambda>s. case app_document s of
         Some d \<Rightarrow> if doc_id d = doc then do_graph (\<lambda>h g. Inr (graph_create g p)) s else (None, s)
       | None \<Rightarrow> (None, s))]"

definition remote_on_connect :: "env \<Rightarrow> ID \<Rightarrow> ID \<Rightarrow> timestamp \<Rightarrow> app action" where
  "remote_on_connect env from to now = steps
     [db_on_connect env from to now,
      with_id env (\<lambda>u. do_graph (\<lambda>h g. graph_connect h g u from to))]"

definition remote_on_upsert :: "env \<Rightarrow> ID \<Rightarrow> attribute \<Rightarrow> timestamp \<Rightarrow> app action" where
  "remote_on_upsert env ent a now = steps
     [db_on_upsert env ent a now,
      (case a of
         ACoord c \<Rightarrow> do_access ent (set_coord c)
       | ARadius r \<Rightarrow> do_access ent (set_radius r)
       | ASetOp t \<Rightarrow> do_access ent (set_type t)
       | AName n \<Rightarrow> skip)]"

definition remote_on_remove :: "env \<Rightarrow> addr \<Rightarrow> ID \<Rightarrow> timestamp \<Rightarrow> app action" where
  "remote_on_remove env p doc t = steps
     [db_on_remove env p doc t,
      document_remove env (makeDocumentInteractor env) p]"

definition remote_on_disconnect :: "env \<Rightarrow> ID \<Rightarrow> ID \<Rightarrow> timestamp \<Rightarrow> app action" where
  "remote_on_disconnect env from to t = steps
     [db_on_disconnect env from to t,
      do_graph (\<lambda>h g. graph_disconnect h g from to)]"

definition makeNetworkInteractor :: "env \<Rightarrow> interactor" where
  "makeNetworkInteractor env = ModularInteractor (remote_on_create env) (remote_on_connect env)
     (remote_on_upsert env) (remote_on_remove env) (remote_on_disconnect env)"

section \<open>Opening a document\<close>

text \<open>The nodes of a document are allocated in the order in which the entities come back.\<close>

definition load_entity :: "env \<Rightarrow> database \<Rightarrow> id_with_type \<Rightarrow> fault + node option" where
  "load_entity env db e = (case ent_type e of
     Sphere_type \<Rightarrow> sphere (sql env) db (ent_uid e)
   | SetOperation_type \<Rightarrow> Inr (setop (sql env) db (ent_uid e)))"

fun allocate :: "node list \<Rightarrow> app \<Rightarrow> addr list \<times> app" where
  "allocate [] s = ([], s)"
| "allocate (n # ns) s =
     (let p = app_next s;
          (ps, s') = allocate ns (s\<lparr>app_heap := (app_heap s)(p \<mapsto> n), app_next := p + 1\<rparr>)
      in (p # ps, s'))"

text \<open>The three nested loops: for each node, each neighbour the database lists for it, each node of
  that identifier, one edge with a fresh identifier.\<close>

definition load_edges :: "env \<Rightarrow> app \<Rightarrow> addr list \<Rightarrow> fault + (edge list \<times> app)" where
  "load_edges env s ps = foldE (\<lambda>(es, s) p.
       bindE (id_at (app_heap s) p) (\<lambda>i.
       bindE (edges (sql env) (app_db s) i) (\<lambda>tos.
       foldE (\<lambda>(es, s) to. foldE (\<lambda>(es, s) q.
           bindE (id_at (app_heap s) q) (\<lambda>j.
             if j = to then
               bindE (Edge (app_heap s) (random_id env (app_draws s)) p q) (\<lambda>e.
                 Inr (es @ [e], s\<lparr>app_draws := app_draws s + 1\<rparr>))
             else Inr (es, s))) (es, s) ps) (es, s) tos))) ([], s) ps"

definition openDocument :: "env \<Rightarrow> ID \<Rightarrow> app action" where
  "openDocument env doc = bindA (\<lambda>s. entities (sql env) (app_db s) doc) (\<lambda>ents.
     bindA (\<lambda>s. mapE (load_entity env (app_db s)) ents) (\<lambda>loaded s.
       let (ps, s1) = allocate (collect loaded) s
       in bindA (\<lambda>s1. load_edges env s1 ps) (\<lambda>(es, s2) _.
            (None, s2\<lparr>app_document := Some \<lparr>doc_id = doc, doc_graph = Graph es ps,
               doc_mesh = None, doc_jobs = []\<rparr>\<rparr>)) s1))"

definition createDocument :: "env \<Rightarrow> name \<Rightarrow> app action" where
  "createDocument env n = with_id env (\<lambda>i. with_now env (\<lambda>now. steps
     [do_db (\<lambda>d. upsert_name (sql env) d i n now),
      (\<lambda>s. (None, s\<lparr>app_documents := app_documents s @ [\<lparr>doc_uid = i, doc_name = n\<rparr>]\<rparr>)),
      openDocument env i]))"

text \<open>The constructor, on a database it is given.\<close>

definition ViewModelImpl :: "env \<Rightarrow> database \<Rightarrow> fault + app" where
  "ViewModelImpl env db = bindE (documents (sql env) db) (\<lambda>ds.
     Inr \<lparr>app_db = db, app_heap = (\<lambda>_. None), app_next = 1, app_document = None,
          app_documents = ds, app_sent = [], app_ticks = 0, app_draws = 0\<rparr>)"

section \<open>Events\<close>

text \<open>What can happen to a running application: the user edits the open document, opens or creates
  one, or a message arrives.\<close>

datatype event =
    Open ID
  | CreateDocument name
  | LocalCreate node
  | LocalRemove addr
  | LocalConnect edge
  | LocalDisconnect edge
  | LocalUpdate addr
  | Received message

fun handle :: "env \<Rightarrow> event \<Rightarrow> app action" where
  "handle env (Open i) = openDocument env i"
| "handle env (CreateDocument n) = createDocument env n"
| "handle env (LocalCreate n) = with_new n (document_create env (makeDocumentInteractor env))"
| "handle env (LocalRemove p) = document_remove env (makeDocumentInteractor env) p"
| "handle env (LocalConnect e) = document_connect env (makeDocumentInteractor env) e"
| "handle env (LocalDisconnect e) = document_disconnect env (makeDocumentInteractor env) e"
| "handle env (LocalUpdate p) = document_update env (makeDocumentInteractor env) p"
| "handle env (Received m) = client_receive (makeNetworkInteractor env) m"

lemmas interactor_defs = makeDBInteractor_def makeDocumentInteractor_def makeNetworkInteractor_def
  ModularInteractor_def

end
