(* ===== verification/AppInvariant.thy ===== *)
theory AppInvariant
  imports Viewmodel
begin

text \<open>
  The invariant of the running application: the tables are well formed, addresses are allocated
  once, and the open document's graph refers to valid nodes. Every event keeps it, whether or not
  its handler ends in a fault.
\<close>

section \<open>The invariant\<close>

text \<open>\<open>P\<close> holds addresses that a caller keeps pointers to.\<close>

definition doc_ok :: "heap \<Rightarrow> open_document option \<Rightarrow> bool" where
  "doc_ok h d \<longleftrightarrow> (\<forall>d'. d = Some d' \<longrightarrow> graph_ok h (doc_graph d'))"

definition app_inv :: "addr set \<Rightarrow> app \<Rightarrow> bool" where
  "app_inv P s \<longleftrightarrow> tables_wf (app_db s) \<and> app_heap s 0 = None \<and> 0 < app_next s
     \<and> (\<forall>p \<ge> app_next s. app_heap s p = None) \<and> (\<forall>p \<in> P. app_heap s p \<noteq> None)
     \<and> doc_ok (app_heap s) (app_document s)"

lemma doc_ok_simps [simp]: "doc_ok h None" "doc_ok h (Some d) = graph_ok h (doc_graph d)"
  by (simp_all add: doc_ok_def)

lemma doc_ok_idents [wf_intros]: "doc_ok h d \<Longrightarrow> same_idents h h' \<Longrightarrow> doc_ok h' d"
  by (cases d) (auto intro: graph_ok_idents)

lemma app_inv_simps [simp]:
  "app_inv P (s\<lparr>app_ticks := n\<rparr>) = app_inv P s"
  "app_inv P (s\<lparr>app_draws := n\<rparr>) = app_inv P s"
  "app_inv P (s\<lparr>app_sent := ms\<rparr>) = app_inv P s"
  "app_inv P (s\<lparr>app_documents := ds\<rparr>) = app_inv P s"
  by (simp_all add: app_inv_def)

definition app_ok :: "app \<Rightarrow> bool" where
  "app_ok s \<longleftrightarrow> app_inv {} s"

text \<open>What a state reached by an action, with or without a fault, still satisfies.\<close>

definition keeps :: "('s \<Rightarrow> bool) \<Rightarrow> 's action \<Rightarrow> bool" where
  "keeps I a \<longleftrightarrow> (\<forall>s f s'. I s \<longrightarrow> a s = (f, s') \<longrightarrow> I s')"

lemma keepsI: "(\<And>s. I s \<Longrightarrow> I (snd (a s))) \<Longrightarrow> keeps I a"
  unfolding keeps_def by (metis snd_conv)

lemma keepsD: "keeps I a \<Longrightarrow> I s \<Longrightarrow> I (snd (a s))"
  unfolding keeps_def by (metis prod.collapse)

lemma keeps_andThen [wf_intros]: "keeps I a \<Longrightarrow> keeps I b \<Longrightarrow> keeps I (andThen a b)"
proof (rule keepsI)
  fix s assume ab: "keeps I a" "keeps I b" "I s"
  obtain f s' where a: "a s = (f, s')" by (cases "a s")
  then have "I s'" using ab(1,3) unfolding keeps_def by blast
  with a ab(2) show "I (snd (andThen a b s))" by (cases f) (auto dest: keepsD)
qed

lemma steps_Cons: "steps (a # as) = andThen a (steps as)"
  by (rule ext) simp

lemma keeps_steps [wf_intros]: "\<forall>a \<in> set as. keeps I a \<Longrightarrow> keeps I (steps as)"
proof (induction as)
  case Nil
  show ?case by (rule keepsI) simp
next
  case (Cons a as)
  then show ?case unfolding steps_Cons by (intro keeps_andThen) auto
qed

lemma keeps_skip [wf_intros]: "keeps I skip" and keeps_fail [wf_intros]: "keeps I (fail e)"
  by (rule keepsI, simp add: action_defs)+

lemma keeps_bindA [wf_intros]: "(\<And>x. keeps I (k x)) \<Longrightarrow> keeps I (bindA r k)"
  by (rule keepsI) (auto simp: bindA_def split: sum.splits dest: keepsD)

lemma keeps_read: "(\<And>s. I s \<Longrightarrow> keeps I (a s)) \<Longrightarrow> keeps I (\<lambda>s. a s s)"
  by (rule keepsI) (auto dest: keepsD)

section \<open>The steps of the handlers\<close>

lemma keeps_db [wf_intros]:
  "(\<And>d d'. tables_wf d \<Longrightarrow> f d = Inr d' \<Longrightarrow> tables_wf d') \<Longrightarrow> keeps (app_inv P) (do_db f)"
  by (rule keepsI) (auto simp: do_db_def app_inv_def split: sum.splits)

lemma keeps_heap [wf_intros]:
  assumes "\<And>h h'. f h = Inr h' \<Longrightarrow> same_idents h h' \<and> (\<forall>p. h p = None \<longrightarrow> h' p = None)"
  shows "keeps (app_inv P) (do_heap f)"
proof (rule keepsI)
  fix s assume I: "app_inv P s"
  show "app_inv P (snd (do_heap f s))"
  proof (cases "f (app_heap s)")
    case (Inr h')
    have s: "same_idents (app_heap s) h'" "\<forall>p. app_heap s p = None \<longrightarrow> h' p = None"
      using assms[OF Inr] by auto
    have "\<forall>p \<in> P. h' p \<noteq> None" using s(1) I unfolding app_inv_def same_idents_def by blast
    moreover have "doc_ok h' (app_document s)"
      using I s(1) unfolding app_inv_def by (blast intro: doc_ok_idents)
    ultimately show ?thesis using I s(2) Inr by (simp add: do_heap_def app_inv_def)
  qed (use I in \<open>simp add: do_heap_def\<close>)
qed

lemma keeps_graph [wf_intros]:
  assumes "\<And>h g g'. graph_ok h g \<Longrightarrow> h 0 = None \<Longrightarrow> \<forall>p \<in> P. h p \<noteq> None \<Longrightarrow> f h g = Inr g' \<Longrightarrow> graph_ok h g'"
  shows "keeps (app_inv P) (do_graph f)"
proof (rule keepsI)
  fix s assume I: "app_inv P s"
  show "app_inv P (snd (do_graph f s))"
  proof (cases "app_document s")
    case (Some d)
    have "graph_ok (app_heap s) g'" if "f (app_heap s) (doc_graph d) = Inr g'" for g'
      using assms[of "app_heap s" "doc_graph d" g'] I that Some by (simp add: app_inv_def)
    then show ?thesis using I Some by (auto simp: do_graph_def app_inv_def split: sum.splits)
  qed (use I in \<open>simp add: do_graph_def\<close>)
qed

lemma keeps_send [wf_intros]: "keeps (app_inv P) (do_send m)"
  by (rule keepsI) (simp add: do_send_def)

lemma keeps_now [wf_intros]: "(\<And>t. keeps (app_inv P) (k t)) \<Longrightarrow> keeps (app_inv P) (with_now env k)"
  by (rule keepsI) (simp add: with_now_def keepsD)

lemma keeps_id [wf_intros]: "(\<And>t. keeps (app_inv P) (k t)) \<Longrightarrow> keeps (app_inv P) (with_id env k)"
  by (rule keepsI) (simp add: with_id_def keepsD)

lemma app_inv_new:
  assumes "app_inv P s"
  shows "app_inv (insert (app_next s) P)
    (s\<lparr>app_heap := (app_heap s)(app_next s \<mapsto> n), app_next := app_next s + 1\<rparr>)"
proof -
  have fresh: "app_heap s (app_next s) = None" using assms by (simp add: app_inv_def)
  have "doc_ok ((app_heap s)(app_next s \<mapsto> n)) (app_document s)"
    using assms same_idents_new[of "app_heap s" "app_next s" n, OF fresh]
    unfolding app_inv_def by (blast intro: doc_ok_idents)
  then show ?thesis using assms by (auto simp: app_inv_def)
qed

lemma app_inv_mono: "app_inv P s \<Longrightarrow> Q \<subseteq> P \<Longrightarrow> app_inv Q s"
  by (auto simp: app_inv_def)

lemma keeps_new [wf_intros]:
  assumes "\<And>p. keeps (app_inv (insert p P)) (k p)"
  shows "keeps (app_inv P) (with_new n k)"
proof (rule keepsI)
  fix s assume I: "app_inv P s"
  have "app_inv (insert (app_next s) P) (snd (with_new n k s))"
    unfolding with_new_def by (rule keepsD[OF assms app_inv_new[OF I]])
  then show "app_inv P (snd (with_new n k s))" by (rule app_inv_mono) auto
qed

lemma regenMesh_ok [wf_intros]: "keeps (app_inv P) regenMesh"
  by (rule keepsI) (auto simp: regenMesh_def app_inv_def split: option.splits sum.splits)

lemma run_job_ok [wf_intros]: "keeps (app_inv P) (run_job k)"
  by (rule keepsI) (auto simp: run_job_def app_inv_def split: option.splits)

section \<open>The interactors\<close>

lemma op_keeps:
  assumes "engine_ok (sql env)"
  shows "keeps (app_inv P) (do_db (\<lambda>d. apply_op (sql env) d p))"
  using assms by (intro keeps_db) (rule apply_op_tables_wf)

lemmas create_keeps = op_keeps[where p = "Create u ty d t" for u ty d t, simplified]
lemmas remove_keeps = op_keeps[where p = "Remove u d t" for u d t, simplified]
lemmas upsert_radius_keeps = op_keeps[where p = "UpsertRadius u r t" for u r t, simplified]
lemmas retract_radius_keeps = op_keeps[where p = "RetractRadius u r t" for u r t, simplified]
lemmas upsert_coord_keeps = op_keeps[where p = "UpsertCoord u c t" for u c t, simplified]
lemmas retract_coord_keeps = op_keeps[where p = "RetractCoord u c t" for u c t, simplified]
lemmas upsert_setop_keeps = op_keeps[where p = "UpsertSetOp u p t" for u p t, simplified]
lemmas retract_setop_keeps = op_keeps[where p = "RetractSetOp u p t" for u p t, simplified]
lemmas upsert_name_keeps = op_keeps[where p = "UpsertName u n t" for u n t, simplified]
lemmas connect_keeps = op_keeps[where p = "Connect i j t" for i j t, simplified]
lemmas disconnect_keeps = op_keeps[where p = "Disconnect i j t" for i j t, simplified]

lemmas op_keeps_rules = create_keeps remove_keeps upsert_radius_keeps retract_radius_keeps
  upsert_coord_keeps retract_coord_keeps upsert_setop_keeps retract_setop_keeps upsert_name_keeps
  connect_keeps disconnect_keeps

lemma db_interactor_keeps:
  assumes E: "engine_ok (sql env)"
  shows "keeps (app_inv P) (db_on_create env p doc t)"
    and "keeps (app_inv P) (db_on_connect env i j t)"
    and "keeps (app_inv P) (db_on_upsert env i a t)"
    and "keeps (app_inv P) (db_on_remove env p doc t)"
    and "keeps (app_inv P) (db_on_disconnect env i j t)"
proof -
  have node: "keeps (app_inv P) (\<lambda>s. case app_heap s p of Some (Sphere u c r) \<Rightarrow> a u c r s
      | Some (SetOp u o') \<Rightarrow> b u o' s | None \<Rightarrow> (e, s))"
    if "\<And>u c r. keeps (app_inv P) (a u c r)" "\<And>u o'. keeps (app_inv P) (b u o')" for a b e
    using keepsD[OF that(1)] keepsD[OF that(2)] by (intro keepsI) (auto split: option.splits node.splits)
  show "keeps (app_inv P) (db_on_create env p doc t)" "keeps (app_inv P) (db_on_remove env p doc t)"
    unfolding db_on_create_def db_on_remove_def
    by (intro node keeps_steps; simp add: op_keeps_rules E)+
  show "keeps (app_inv P) (db_on_connect env i j t)" "keeps (app_inv P) (db_on_disconnect env i j t)"
    unfolding db_on_connect_def db_on_disconnect_def by (intro op_keeps_rules E)+
  show "keeps (app_inv P) (db_on_upsert env i a t)"
    using E by (cases a) (simp_all add: db_on_upsert_def op_keeps_rules)
qed

lemma sent_keeps: "keeps (app_inv P) (\<lambda>s. case app_heap s p of Some n \<Rightarrow> do_send (m n) s | None \<Rightarrow> (None, s))"
  by (rule keepsI) (auto split: option.splits dest: keepsD[OF keeps_send])

lemma local_interactor_keeps:
  assumes E: "engine_ok (sql env)"
  shows "keeps (app_inv P) (local_on_create env p doc t)"
    and "keeps (app_inv P) (local_on_connect env i j t)"
    and "keeps (app_inv P) (local_on_upsert env i a t)"
    and "keeps (app_inv P) (local_on_remove env p doc t)"
    and "keeps (app_inv P) (local_on_disconnect env i j t)"
  unfolding local_on_create_def local_on_connect_def local_on_upsert_def local_on_remove_def
    local_on_disconnect_def
  by (intro keeps_steps;
      auto intro: db_interactor_keeps[OF E] sent_keeps keeps_send keeps_skip split: attribute.splits)+

section \<open>Assignments through a pointer\<close>

lemma set_idents:
  "set_coord c h q = Inr h1 \<Longrightarrow> same_idents h h1 \<and> (\<forall>p. h p = None \<longrightarrow> h1 p = None)"
  "set_radius r h q = Inr h2 \<Longrightarrow> same_idents h h2 \<and> (\<forall>p. h p = None \<longrightarrow> h2 p = None)"
  "set_type t h q = Inr h3 \<Longrightarrow> same_idents h h3 \<and> (\<forall>p. h p = None \<longrightarrow> h3 p = None)"
  by (auto split: option.splits node.splits intro: same_idents_set)

lemma assign_idents:
  "assign_coord p h q = Inr h1 \<Longrightarrow> same_idents h h1 \<and> (\<forall>p. h p = None \<longrightarrow> h1 p = None)"
  "assign_radius p h q = Inr h2 \<Longrightarrow> same_idents h h2 \<and> (\<forall>p. h p = None \<longrightarrow> h2 p = None)"
  unfolding assign_coord_def assign_radius_def
  by (cases "h p"; auto dest: set_idents simp del: set_coord.simps set_radius.simps split: node.splits)+

lemma copy_sphere_idents:
  "copy_sphere p h q = Inr h' \<Longrightarrow> same_idents h h' \<and> (\<forall>p. h p = None \<longrightarrow> h' p = None)"
proof -
  assume "copy_sphere p h q = Inr h'"
  then obtain h1 where "assign_coord p h q = Inr h1" "assign_radius p h1 q = Inr h'"
    by (auto simp: copy_sphere_def bindE_Inr_iff)
  with assign_idents(1)[of p h q h1] assign_idents(2)[of p h1 q h'] show ?thesis
    using same_idents_trans by blast
qed

lemma graph_access_keeps:
  assumes "\<And>h p h'. act h p = Inr h' \<Longrightarrow> same_idents h h' \<and> (\<forall>p. h p = None \<longrightarrow> h' p = None)"
    and "graph_access h g uid act = Inr h'"
  shows "same_idents h h' \<and> (\<forall>p. h p = None \<longrightarrow> h' p = None)"
  using assms(2) unfolding graph_access_def
  by (rule foldE_invariant[where I = "\<lambda>k. same_idents h k \<and> (\<forall>p. h p = None \<longrightarrow> k p = None)", rotated 2])
    (auto simp: bindE_Inr_iff split: if_splits dest: assms(1) intro: same_idents_trans)

lemma keeps_access:
  assumes "\<And>h p h'. act h p = Inr h' \<Longrightarrow> same_idents h h' \<and> (\<forall>p. h p = None \<longrightarrow> h' p = None)"
  shows "keeps (app_inv P) (do_access uid act)"
proof (rule keepsI)
  fix s assume I: "app_inv P s"
  have "keeps (app_inv P) (do_heap (\<lambda>h. graph_access h g uid act))" for g
    by (rule keeps_heap) (rule graph_access_keeps[OF assms])
  from keepsD[OF this I] I show "app_inv P (snd (do_access uid act s))"
    by (auto simp: do_access_def split: option.splits)
qed

section \<open>The document and the network\<close>

lemma keeps_with_document: "(\<And>d. keeps I (k d)) \<Longrightarrow> keeps I (with_document k)"
  by (rule keepsI) (auto simp: with_document_def split: option.splits dest: keepsD)

lemma keeps_ends_of: "(\<And>i j. keeps I (k i j)) \<Longrightarrow> keeps I (ends_of e k)"
  unfolding ends_of_def by (intro keeps_bindA)

lemma document_interactor_eq:
  "on_create (makeDocumentInteractor env) = local_on_create env"
  "on_connect (makeDocumentInteractor env) = local_on_connect env"
  "on_upsert (makeDocumentInteractor env) = local_on_upsert env"
  "on_remove (makeDocumentInteractor env) = local_on_remove env"
  "on_disconnect (makeDocumentInteractor env) = local_on_disconnect env"
  by (simp_all add: interactor_defs)

lemma document_keeps:
  assumes E: "engine_ok (sql env)"
  shows "p \<in> P \<Longrightarrow> keeps (app_inv P) (document_create env (makeDocumentInteractor env) p)"
    and "keeps (app_inv P) (document_remove env (makeDocumentInteractor env) p)"
    and "keeps (app_inv P) (document_connect env (makeDocumentInteractor env) e)"
    and "keeps (app_inv P) (document_disconnect env (makeDocumentInteractor env) e)"
  unfolding document_create_def document_remove_def document_connect_def document_disconnect_def
    document_interactor_eq
  by (intro keeps_with_document keeps_now keeps_ends_of keeps_steps;
      auto intro!: local_interactor_keeps[OF E] keeps_graph keeps_id regenMesh_ok
        intro: graph_create_ok graph_remove_ok graph_connect_ok graph_disconnect_ok)+

lemma document_update_keeps:
  assumes E: "engine_ok (sql env)"
  shows "keeps (app_inv P) (document_update env (makeDocumentInteractor env) p)"
proof -
  have s: "keeps (app_inv P) (steps [local_on_upsert env u (ARadius r) t, local_on_upsert env u (ACoord c) t,
      do_access u (copy_sphere p)])" for u r c t
    by (intro keeps_steps) (auto intro!: local_interactor_keeps[OF E] keeps_access dest: copy_sphere_idents)
  have o: "keeps (app_inv P) (steps [local_on_upsert env u (ASetOp o') t, fail NullDeref])" for u o' t
    by (intro keeps_steps) (auto intro!: local_interactor_keeps[OF E] keeps_fail)
  have "keeps (app_inv P) (\<lambda>s. case app_heap s p of
        Some (Sphere u c r) \<Rightarrow> steps [local_on_upsert env u (ARadius r) t, local_on_upsert env u (ACoord c) t,
           do_access u (copy_sphere p)] s
      | Some (SetOp u o') \<Rightarrow> steps [local_on_upsert env u (ASetOp o') t, fail NullDeref] s
      | None \<Rightarrow> (None, s))" for t
    using keepsD[OF s] keepsD[OF o]
    by (intro keepsI) (auto simp del: steps.simps split: option.splits node.splits)
  then show ?thesis unfolding document_update_def document_interactor_eq
    by (intro keeps_with_document keeps_now keeps_steps) (auto intro: regenMesh_ok)
qed

lemma remote_keeps:
  assumes E: "engine_ok (sql env)"
  shows "p \<in> P \<Longrightarrow> keeps (app_inv P) (remote_on_create env p doc t)"
    and "keeps (app_inv P) (remote_on_connect env i j t)"
    and "keeps (app_inv P) (remote_on_upsert env i a t)"
    and "keeps (app_inv P) (remote_on_remove env p doc t)"
    and "keeps (app_inv P) (remote_on_disconnect env i j t)"
proof -
  show "keeps (app_inv P) (remote_on_create env p doc t)" if "p \<in> P"
  proof -
    have "keeps (app_inv P) (do_graph (\<lambda>h g. Inr (graph_create g p)))"
      using that by (auto intro!: keeps_graph intro: graph_create_ok)
    then have "keeps (app_inv P) (\<lambda>s. case app_document s of
        Some d \<Rightarrow> if doc_id d = doc then do_graph (\<lambda>h g. Inr (graph_create g p)) s else (None, s)
      | None \<Rightarrow> (None, s))"
      by (intro keepsI) (auto split: option.splits dest: keepsD)
    then show ?thesis unfolding remote_on_create_def
      by (intro keeps_steps) (auto intro: db_interactor_keeps[OF E])
  qed
  show "keeps (app_inv P) (remote_on_upsert env i a t)"
    unfolding remote_on_upsert_def
    by (intro keeps_steps) (auto intro!: db_interactor_keeps[OF E] keeps_skip keeps_access
        dest: set_idents simp del: set_coord.simps set_radius.simps set_type.simps split: attribute.splits)
  show "keeps (app_inv P) (remote_on_connect env i j t)"
    unfolding remote_on_connect_def
    by (intro keeps_steps) (auto intro!: db_interactor_keeps[OF E] keeps_graph keeps_id intro: graph_connect_ok)
  show "keeps (app_inv P) (remote_on_remove env p doc t)"
    unfolding remote_on_remove_def
    by (intro keeps_steps) (auto intro!: db_interactor_keeps[OF E] document_keeps[OF E])
  show "keeps (app_inv P) (remote_on_disconnect env i j t)"
    unfolding remote_on_disconnect_def
    by (intro keeps_steps) (auto intro!: db_interactor_keeps[OF E] keeps_graph intro: graph_disconnect_ok)
qed

section \<open>Opening\<close>

lemma allocate_inv:
  "app_inv P s \<Longrightarrow> allocate ns s = (ps, s') \<Longrightarrow> app_inv (P \<union> set ps) s'"
proof (induction ns arbitrary: P s ps)
  case (Cons n ns)
  let ?s = "s\<lparr>app_heap := (app_heap s)(app_next s \<mapsto> n), app_next := app_next s + 1\<rparr>"
  obtain qs where qs: "allocate ns ?s = (qs, s')" "ps = app_next s # qs"
    using Cons.prems(2) by (auto simp: Let_def split: prod.splits)
  have "app_inv (insert (app_next s) P \<union> set qs) s'"
    by (rule Cons.IH[OF app_inv_new[OF Cons.prems(1)] qs(1)])
  then show ?case by (simp add: qs(2))
qed simp

text \<open>The state the loops of \<open>open\<close> carry: edges between the loaded nodes, and the draws of the
  identifier generator.\<close>

definition loading :: "app \<Rightarrow> addr list \<Rightarrow> edge list \<times> app \<Rightarrow> bool" where
  "loading s0 ps = (\<lambda>(es, s). (\<exists>n. s = s0\<lparr>app_draws := n\<rparr>)
     \<and> (\<forall>e \<in> set es. edge_from e \<in> set ps \<and> edge_to e \<in> set ps
          \<and> ident (app_heap s0) (edge_from e) \<noteq> ident (app_heap s0) (edge_to e)))"

lemma id_at_Inr: "id_at h p = Inr i \<longleftrightarrow> h p \<noteq> None \<and> i = ident h p"
  by (auto simp: id_at_def ident_def split: option.splits)

lemma Edge_Inr: "Edge h u p q = Inr e \<longleftrightarrow> h p \<noteq> None \<and> h q \<noteq> None \<and> ident h p \<noteq> ident h q
    \<and> e = \<lparr>edge_uid = u, edge_from = p, edge_to = q\<rparr>"
  by (auto simp: Edge_def bindE_Inr_iff id_at_Inr split: if_splits)

lemma loading_edge:
  assumes "loading s0 ps (es, s)" "p \<in> set ps" "q \<in> set ps"
    and "bindE (id_at (app_heap s) q) (\<lambda>j. if j = to then
        bindE (Edge (app_heap s) (random_id env (app_draws s)) p q) (\<lambda>e.
          Inr (es @ [e], s\<lparr>app_draws := app_draws s + 1\<rparr>))
      else Inr (es, s)) = Inr r"
  shows "loading s0 ps r"
  using assms by (auto simp: loading_def bindE_Inr_iff Edge_Inr split: if_splits)

lemma load_edges_loading:
  assumes "load_edges env s0 ps = Inr r"
  shows "loading s0 ps r"
proof -
  have inner: "loading s0 ps r" if "loading s0 ps x" "p \<in> set ps"
    "foldE (\<lambda>(es, s) q. bindE (id_at (app_heap s) q) (\<lambda>j. if j = to then
        bindE (Edge (app_heap s) (random_id env (app_draws s)) p q) (\<lambda>e.
          Inr (es @ [e], s\<lparr>app_draws := app_draws s + 1\<rparr>))
      else Inr (es, s))) x ps = Inr r" for x p to r
    by (rule foldE_invariant[where I = "loading s0 ps", OF _ that(1,3)])
      (auto split: prod.splits intro: loading_edge[OF _ that(2)])
  have middle: "loading s0 ps r" if "loading s0 ps x" "p \<in> set ps"
    "foldE (\<lambda>(es, s) to. foldE (\<lambda>(es, s) q. bindE (id_at (app_heap s) q) (\<lambda>j. if j = to then
        bindE (Edge (app_heap s) (random_id env (app_draws s)) p q) (\<lambda>e.
          Inr (es @ [e], s\<lparr>app_draws := app_draws s + 1\<rparr>))
      else Inr (es, s))) (es, s) ps) x tos = Inr r" for x p tos r
    by (rule foldE_invariant[where I = "loading s0 ps", OF _ that(1,3)])
      (auto split: prod.splits intro: inner[OF _ that(2)])
  have "loading s0 ps ([], s0)" unfolding loading_def by (simp, intro exI[of _ "app_draws s0"]) simp
  then show ?thesis
    by (rule foldE_invariant[where I = "loading s0 ps", OF _ _ assms[unfolded load_edges_def], rotated])
      (auto simp: bindE_Inr_iff split: prod.splits intro: middle)
qed

lemma open_keeps: "keeps (app_inv P) (openDocument env doc)"
  unfolding openDocument_def
proof (intro keeps_bindA keepsI)
  fix ents loaded s assume I: "app_inv P s"
  obtain ps s1 where a: "allocate (collect loaded) s = (ps, s1)" by (cases "allocate (collect loaded) s")
  have I1: "app_inv (P \<union> set ps) s1" by (rule allocate_inv[OF I a])
  show "app_inv P (snd (let (ps, s1) = allocate (collect loaded) s
       in bindA (\<lambda>s1. load_edges env s1 ps) (\<lambda>(es, s2) _.
            (None, s2\<lparr>app_document := Some \<lparr>doc_id = doc, doc_graph = Graph es ps,
               doc_mesh = None, doc_jobs = []\<rparr>\<rparr>)) s1))"
  proof (cases "load_edges env s1 ps")
    case (Inl e)
    then show ?thesis using I1 by (simp add: a app_inv_mono)
  next
    case (Inr r)
    obtain es s2 where r: "r = (es, s2)" by (cases r)
    from load_edges_loading[OF Inr] obtain n where s2: "s2 = s1\<lparr>app_draws := n\<rparr>"
      and es: "\<forall>e \<in> set es. edge_from e \<in> set ps \<and> edge_to e \<in> set ps
          \<and> ident (app_heap s1) (edge_from e) \<noteq> ident (app_heap s1) (edge_to e)"
      by (auto simp: loading_def r)
    have "graph_ok (app_heap s1) (Graph es ps)"
      using I1 es by (simp add: graph_ok_def Graph_def app_inv_def)
    then show ?thesis using I1 Inr r s2 by (simp add: a app_inv_def)
  qed
qed

lemma create_document_keeps:
  assumes "engine_ok (sql env)"
  shows "keeps (app_inv P) (createDocument env n)"
proof -
  have "keeps (app_inv P) (\<lambda>s. (None, s\<lparr>app_documents := app_documents s @ [x]\<rparr>))" for x
    by (rule keepsI) simp
  then show ?thesis unfolding createDocument_def
    by (intro keeps_id keeps_now keeps_steps) (auto intro: upsert_name_keeps open_keeps assms)
qed

section \<open>Events\<close>

lemma network_interactor_eq:
  "on_create (makeNetworkInteractor env) = remote_on_create env"
  "on_connect (makeNetworkInteractor env) = remote_on_connect env"
  "on_upsert (makeNetworkInteractor env) = remote_on_upsert env"
  "on_remove (makeNetworkInteractor env) = remote_on_remove env"
  "on_disconnect (makeNetworkInteractor env) = remote_on_disconnect env"
  by (simp_all add: interactor_defs)

lemma receive_keeps:
  assumes E: "engine_ok (sql env)"
  shows "keeps (app_inv P) (client_receive (makeNetworkInteractor env) m)"
proof -
  obtain pl t where m: "m = \<lparr>msg_payload = pl, msg_time = t\<rparr>" by (cases m)
  have cr: "keeps (app_inv P) (process_create (makeNetworkInteractor env) d n c t)" for d n c
    by (cases c) (auto simp: network_interactor_eq intro!: keeps_new remote_keeps[OF E])
  show ?thesis
  proof (cases pl)
    case (ConnectDisconnect i j c)
    then show ?thesis using remote_keeps[OF E]
      by (cases c) (simp_all add: client_receive_def process_def m network_interactor_eq)
  next
    case (Update i a)
    then show ?thesis using remote_keeps(3)[OF E]
      by (simp add: client_receive_def process_def m network_interactor_eq)
  qed (use cr keeps_skip in \<open>simp_all add: client_receive_def process_def m\<close>)
qed

lemma handle_keeps:
  assumes E: "engine_ok (sql env)"
  shows "keeps (app_inv P) (handle env ev)"
proof (cases ev)
  case (LocalCreate n)
  show ?thesis unfolding LocalCreate handle.simps
    by (intro keeps_new document_keeps(1)[OF E]) simp
qed (use assms open_keeps create_document_keeps[OF E] document_keeps[OF E] document_update_keeps[OF E]
    receive_keeps[OF E] in \<open>simp_all\<close>)

end
