(* ===== verification/AppProps.thy ===== *)
theory AppProps
  imports AppInvariant
begin

text \<open>
  Properties of the running application: its invariant over all events and background jobs, the
  agreement between the writes a local edit performs, the messages it sends and the writes those
  messages cause elsewhere, and the edits for which that agreement breaks.
\<close>

section \<open>Running\<close>

text \<open>A step is any event, or any pending mesh job that gets to run. The step is taken whether or not
  its handler faults.\<close>

inductive app_step :: "env \<Rightarrow> app \<Rightarrow> app \<Rightarrow> bool" for env where
  step_event: "handle env ev s = (f, s') \<Longrightarrow> app_step env s s'"
| step_job: "run_job k s = (f, s') \<Longrightarrow> app_step env s s'"

lemma app_step_ok [wf_intros]:
  assumes "engine_ok (sql env)" "app_step env s s'" "app_ok s"
  shows "app_ok s'"
  using assms(2,3)
proof (induction rule: app_step.induct)
  case (step_event ev s f s')
  then show ?case using handle_keeps[OF assms(1), of "{}" ev] unfolding keeps_def app_ok_def by blast
next
  case (step_job k s f s')
  then show ?case using run_job_ok[of "{}" k] unfolding keeps_def app_ok_def by blast
qed

lemma initial_ok [wf_intros]: "tables_wf db \<Longrightarrow> ViewModelImpl env db = Inr s \<Longrightarrow> app_ok s"
  by (auto simp: ViewModelImpl_def bindE_Inr_iff app_ok_def app_inv_def)

lemma running_ok [wf_intros]:
  "(app_step env)\<^sup>*\<^sup>* s s' \<Longrightarrow> engine_ok (sql env) \<Longrightarrow> app_ok s \<Longrightarrow> app_ok s'"
  by (induction rule: rtranclp_induct) (auto intro: app_step_ok)

section \<open>What an action writes and sends\<close>

fun payload_ops :: "payload \<Rightarrow> timestamp \<Rightarrow> db_op list" where
  "payload_ops (ConnectDisconnect i j Assert) t = [Connect i j t]"
| "payload_ops (ConnectDisconnect i j Retract) t = [Disconnect i j t]"
| "payload_ops (Update i (ACoord c)) t = [UpsertCoord i c t]"
| "payload_ops (Update i (ARadius r)) t = [UpsertRadius i r t]"
| "payload_ops (Update i (ASetOp p)) t = [UpsertSetOp i p t]"
| "payload_ops (Update i (AName n)) t = [UpsertName i n t]"
| "payload_ops (CreateDelete d (Sphere u c r) Assert) t =
     [Create u Sphere_type d t, UpsertRadius u r t, UpsertCoord u c t]"
| "payload_ops (CreateDelete d (SetOp u p) Assert) t =
     [Create u SetOperation_type d t, UpsertSetOp u p t]"
| "payload_ops (CreateDelete d (Sphere u c r) Retract) t =
     [Remove u d t, RetractRadius u r t, RetractCoord u c t]"
| "payload_ops (CreateDelete d (SetOp u p) Retract) t = [Remove u d t, RetractSetOp u p t]"
| "payload_ops (Confirm i) t = []"

definition message_ops :: "message \<Rightarrow> db_op list" where
  "message_ops m = payload_ops (msg_payload m) (msg_time m)"

text \<open>An action that, when it succeeds, has written what the messages it sent say.\<close>

definition reports :: "env \<Rightarrow> app action \<Rightarrow> bool" where
  "reports env a \<longleftrightarrow> (\<forall>s s'. a s = (None, s') \<longrightarrow>
     (\<exists>ms. app_sent s' = app_sent s @ ms
        \<and> run_ops (sql env) (app_db s) (concat (map message_ops ms)) = Inr (app_db s')))"

text \<open>An action that neither writes nor sends.\<close>

definition silent :: "app action \<Rightarrow> bool" where
  "silent a \<longleftrightarrow> (\<forall>s. app_db (snd (a s)) = app_db s \<and> app_sent (snd (a s)) = app_sent s)"

lemma steps_Cons_None: "steps (a # as) s = (None, s') \<longleftrightarrow> (\<exists>s1. a s = (None, s1) \<and> steps as s1 = (None, s'))"
  by (auto simp: andThen_def split: prod.splits option.splits)

lemma reports_Nil [simp]: "reports env (steps [])"
  by (auto simp: reports_def run_ops_def)

lemma reports_Cons: "reports env a \<Longrightarrow> reports env (steps as) \<Longrightarrow> reports env (steps (a # as))"
  unfolding reports_def steps_Cons_None
proof (intro allI impI, elim exE conjE)
  fix s s' s1
  assume "\<forall>s s'. a s = (None, s') \<longrightarrow> (\<exists>ms. app_sent s' = app_sent s @ ms
        \<and> run_ops (sql env) (app_db s) (concat (map message_ops ms)) = Inr (app_db s'))"
    and "\<forall>s s'. steps as s = (None, s') \<longrightarrow> (\<exists>ms. app_sent s' = app_sent s @ ms
        \<and> run_ops (sql env) (app_db s) (concat (map message_ops ms)) = Inr (app_db s'))"
    and "a s = (None, s1)" "steps as s1 = (None, s')"
  then obtain ms ns where "app_sent s1 = app_sent s @ ms" "app_sent s' = app_sent s1 @ ns"
    "run_ops (sql env) (app_db s) (concat (map message_ops ms)) = Inr (app_db s1)"
    "run_ops (sql env) (app_db s1) (concat (map message_ops ns)) = Inr (app_db s')" by blast
  then show "\<exists>ms. app_sent s' = app_sent s @ ms
        \<and> run_ops (sql env) (app_db s) (concat (map message_ops ms)) = Inr (app_db s')"
    by (intro exI[of _ "ms @ ns"]) (simp add: run_ops_append)
qed

lemma silent_reports: "silent a \<Longrightarrow> reports env a"
  unfolding silent_def reports_def by (metis append_Nil2 concat.simps(1) foldE.simps(1) list.simps(8) run_ops_def snd_conv)

lemma silent_steps:
  "silent (do_graph f)" "silent (do_heap k)" "silent (do_access u act)" "silent regenMesh" "silent skip"
  "silent (fail e)"
  by (auto simp: silent_def action_defs regenMesh_def split: option.splits sum.splits)

lemma reports_now: "(\<And>x. reports env (k x)) \<Longrightarrow> reports env (with_now env k)"
  and reports_id: "(\<And>x. reports env (k2 x)) \<Longrightarrow> reports env (with_id env k2)"
  and reports_new: "(\<And>x. reports env (k3 x)) \<Longrightarrow> reports env (with_new n k3)"
  unfolding reports_def with_now_def with_id_def with_new_def by fastforce+

lemma reports_with_document: "(\<And>d. reports env (k d)) \<Longrightarrow> reports env (with_document k)"
  unfolding reports_def with_document_def by (auto split: option.splits)

lemma reports_ends_of: "(\<And>i j. reports env (k i j)) \<Longrightarrow> reports env (ends_of e k)"
  unfolding reports_def ends_of_def bindA_def by (auto split: sum.splits)

lemma do_db_None: "do_db f s = (None, s') \<longleftrightarrow> (\<exists>d. f (app_db s) = Inr d \<and> s' = s\<lparr>app_db := d\<rparr>)"
  by (auto simp: do_db_def split: sum.splits)

text \<open>The writes of the database interactor, as a list of operations.\<close>

definition write_ops :: "env \<Rightarrow> db_op list \<Rightarrow> app action" where
  "write_ops env ops = steps (map (\<lambda>p. do_db (\<lambda>d. apply_op (sql env) d p)) ops)"

lemma write_ops_None:
  "write_ops env ops s = (None, s') \<longleftrightarrow>
   (\<exists>d. run_ops (sql env) (app_db s) ops = Inr d \<and> s' = s\<lparr>app_db := d\<rparr>)"
proof (induction ops arbitrary: s)
  case Nil
  show ?case by (auto simp: write_ops_def run_ops_def)
next
  case (Cons p ops)
  have "write_ops env (p # ops) s = (None, s')
      \<longleftrightarrow> (\<exists>d. apply_op (sql env) (app_db s) p = Inr d \<and> write_ops env ops (s\<lparr>app_db := d\<rparr>) = (None, s'))"
    unfolding write_ops_def list.map steps_Cons_None do_db_None by auto
  also have "\<dots> \<longleftrightarrow> (\<exists>d. run_ops (sql env) (app_db s) (p # ops) = Inr d \<and> s' = s\<lparr>app_db := d\<rparr>)"
    unfolding Cons.IH by (auto simp: run_ops_def bindE_Inr_iff)
  finally show ?case .
qed

lemma db_interactor_ops:
  "db_on_create env p doc t s = (case app_heap s p of None \<Rightarrow> (None, s)
     | Some n \<Rightarrow> write_ops env (payload_ops (CreateDelete doc n Assert) t) s)"
  "db_on_remove env p doc t s = (case app_heap s p of None \<Rightarrow> (Some NullDeref, s)
     | Some n \<Rightarrow> write_ops env (payload_ops (CreateDelete doc n Retract) t) s)"
  by (simp_all add: db_on_create_def db_on_remove_def write_ops_def split: option.splits node.splits)

lemma steps_single: "steps [a] s = a s"
  by (auto simp: andThen_def split: prod.splits option.splits)

lemma db_interactor_ops1:
  "db_on_connect env i j t s = write_ops env (payload_ops (ConnectDisconnect i j Assert) t) s"
  "db_on_disconnect env i j t s = write_ops env (payload_ops (ConnectDisconnect i j Retract) t) s"
  "db_on_upsert env i a t s = write_ops env (payload_ops (Update i a) t) s"
proof -
  show "db_on_connect env i j t s = write_ops env (payload_ops (ConnectDisconnect i j Assert) t) s"
    "db_on_disconnect env i j t s = write_ops env (payload_ops (ConnectDisconnect i j Retract) t) s"
    unfolding write_ops_def payload_ops.simps list.map steps_single
    by (simp_all add: db_on_connect_def db_on_disconnect_def)
  show "db_on_upsert env i a t s = write_ops env (payload_ops (Update i a) t) s"
    unfolding write_ops_def
    by (cases a) (simp_all only: payload_ops.simps list.map steps_single db_on_upsert_def attribute.case apply_op.simps)
qed

lemma reports_send:
  assumes "\<And>s. a s = write_ops env (payload_ops pl t) s"
  shows "reports env (steps [a, do_send (message pl t)])"
  unfolding reports_def steps_Cons_None assms write_ops_None
  by (auto simp: do_send_def message_ops_def message_def)

lemma local_reports:
  "reports env (local_on_create env p doc t)"
  "reports env (local_on_connect env i j t)"
  "\<forall>n. a \<noteq> AName n \<Longrightarrow> reports env (local_on_upsert env i a t)"
  "reports env (local_on_remove env p doc t)"
proof -
  have node: "reports env (steps [a, \<lambda>s. case app_heap s p of Some n \<Rightarrow>
      do_send (message (CreateDelete doc n c) t) s | None \<Rightarrow> (None, s)])"
    if a: "\<And>s. a s = (case app_heap s p of None \<Rightarrow> (e, s)
      | Some n \<Rightarrow> write_ops env (payload_ops (CreateDelete doc n c) t) s)" for a e c
    unfolding reports_def steps_Cons_None
  proof (intro allI impI, elim exE conjE)
    fix s s' s1 s2
    assume s1: "a s = (None, s1)"
      and s2: "(case app_heap s1 p of Some n \<Rightarrow> do_send (message (CreateDelete doc n c) t) s1
        | None \<Rightarrow> (None, s1)) = (None, s2)" and s': "steps [] s2 = (None, s')"
    show "\<exists>ms. app_sent s' = app_sent s @ ms
        \<and> run_ops (sql env) (app_db s) (concat (map message_ops ms)) = Inr (app_db s')"
    proof (cases "app_heap s p")
      case None
      with a[of s] s1 have "s1 = s" by simp
      with s2 s' None show ?thesis by (intro exI[of _ "[]"]) (simp add: run_ops_def)
    next
      case (Some n)
      have "write_ops env (payload_ops (CreateDelete doc n c) t) s = (None, s1)"
        using a[of s] s1 Some by simp
      then obtain d where d: "run_ops (sql env) (app_db s) (payload_ops (CreateDelete doc n c) t) = Inr d"
        "s1 = s\<lparr>app_db := d\<rparr>" by (auto simp: write_ops_None)
      with s2 s' Some show ?thesis
        by (intro exI[of _ "[message (CreateDelete doc n c) t]"])
          (auto simp: do_send_def message_ops_def message_def)
    qed
  qed
  show "reports env (local_on_create env p doc t)" "reports env (local_on_remove env p doc t)"
    unfolding local_on_create_def local_on_remove_def
    by (rule node, rule db_interactor_ops)+
  show "reports env (local_on_connect env i j t)"
    unfolding local_on_connect_def by (rule reports_send, rule db_interactor_ops1)
  have "reports env (steps [db_on_upsert env i a t, do_send (message (Update i a) t)])"
    by (rule reports_send, rule db_interactor_ops1)
  then show "reports env (local_on_upsert env i a t)" if "\<forall>n. a \<noteq> AName n"
    using that unfolding local_on_upsert_def by (cases a) (auto simp del: steps.simps(2))
qed

lemma local_edit_reports:
  assumes "\<forall>e. ev \<noteq> LocalDisconnect e" "\<forall>m. ev \<noteq> Received m" "\<forall>n. ev \<noteq> CreateDocument n" "\<forall>i. ev \<noteq> Open i"
  shows "reports env (handle env ev)"
proof -
  have up: "reports env (document_update env (makeDocumentInteractor env) p)" for p
  proof -
    have s: "reports env (steps [local_on_upsert env u (ARadius r) t, local_on_upsert env u (ACoord c) t,
        do_access u (copy_sphere p)])" and o: "reports env (steps [local_on_upsert env u (ASetOp o') t, fail NullDeref])"
      for u r c t o'
      by (intro reports_Cons reports_Nil local_reports silent_reports silent_steps; simp)+
    have "reports env (\<lambda>s. case app_heap s p of
        Some (Sphere u c r) \<Rightarrow> steps [local_on_upsert env u (ARadius r) t, local_on_upsert env u (ACoord c) t,
           do_access u (copy_sphere p)] s
      | Some (SetOp u o') \<Rightarrow> steps [local_on_upsert env u (ASetOp o') t, fail NullDeref] s
      | None \<Rightarrow> (None, s))" for t
      using s o reports_Nil unfolding reports_def
      by (auto simp del: steps.simps(2) split: option.splits node.splits)
    then show ?thesis unfolding document_update_def document_interactor_eq
      by (intro reports_with_document reports_now reports_Cons reports_Nil silent_reports[OF silent_steps(4)])
  qed
  note graph = silent_reports[OF silent_steps(1)] and regen = silent_reports[OF silent_steps(4)]
  have cr: "reports env (document_create env (makeDocumentInteractor env) p)" for p
    unfolding document_create_def document_interactor_eq
    by (intro reports_with_document reports_now reports_Cons reports_Nil local_reports graph regen)
  have re: "reports env (document_remove env (makeDocumentInteractor env) p)" for p
    unfolding document_remove_def document_interactor_eq
    by (intro reports_with_document reports_now reports_Cons reports_Nil local_reports graph regen)
  have co: "reports env (document_connect env (makeDocumentInteractor env) e)" for e
    unfolding document_connect_def document_interactor_eq
    by (intro reports_with_document reports_now reports_ends_of reports_id reports_Cons reports_Nil
        local_reports graph regen)
  show ?thesis using assms cr re co up reports_new[of env "document_create env (makeDocumentInteractor env)"]
    by (cases ev) simp_all
qed

section \<open>Properties\<close>

text \<open>C5: Whatever the user edits, creates or opens, whatever messages are received (with any
  identifiers, attributes and names: nothing checks them) and whichever mesh jobs finish, in
  whatever order and whether or not a handler faulted: the columns of the tables stay readable, so
  listing any document's entities never faults, and the open document's graph refers to existing
  nodes only and joins different identifiers, so collecting its roots never throws. (The names in
  the tables are left out: they are as good as those received.)\<close>

theorem application_invariant:
  assumes "engine_ok (sql env)" "ViewModelImpl env db = Inr s0" "tables_wf db" "(app_step env)\<^sup>*\<^sup>* s0 s"
  shows "tables_wf (app_db s) \<and> (\<exists>es. entities (sql env) (app_db s) i = Inr es)
    \<and> (\<forall>d. app_document s = Some d \<longrightarrow>
         graph_ok (app_heap s) (doc_graph d) \<and> (\<exists>rs. roots (doc_graph d) = Inr rs))"
proof -
  have "app_ok s" using running_ok[OF assms(4,1)] initial_ok[OF assms(3,2)] by blast
  then have "tables_wf (app_db s)" "doc_ok (app_heap s) (app_document s)" by (simp_all add: app_ok_def app_inv_def)
  then show ?thesis using entities_spec[OF assms(1), of "app_db s" i] roots_total
    by (auto simp: doc_ok_def)
qed

definition sample_env :: env where
  "sample_env = \<lparr>sql = plain_engine, clock = of_nat, random_id = of_nat\<rparr>"

lemma sample_env_simps [simp]:
  "sql sample_env = plain_engine" "clock sample_env n = of_nat n" "random_id sample_env n = of_nat n"
  by (simp_all add: sample_env_def)

lemma single_root_trees:
  "trees (Suc n) h (Graph [] [p]) = Inr [Tree p []]"
  by (simp add: trees_def roots_def edges_in_def Graph_def subTreeOf.simps(2))

text \<open>A run: a document is created, a node is added to it, its mesh is made, and a message gives the
  document a name that \<open>Name\<close> would refuse.\<close>

lemma sample_session:
  "\<exists>s0 s d. ViewModelImpl sample_env empty_database = Inr s0 \<and> (app_step sample_env)\<^sup>*\<^sup>* s0 s
    \<and> app_document s = Some d \<and> doc_graph d = Graph [] [1] \<and> doc_jobs d = []
    \<and> doc_mesh d = Some ([Tree 1 []], app_heap s) \<and> app_heap s = [1 \<mapsto> SetOp 1 Union_op]
    \<and> \<not> names_wf (app_db s)"
proof -
  define s0 where "s0 = \<lparr>app_db = empty_database, app_heap = (\<lambda>_. None), app_next = 1, app_document = None,
    app_documents = [], app_sent = [], app_ticks = 0, app_draws = 0\<rparr>"
  have "ViewModelImpl sample_env empty_database = Inr s0"
    by (simp add: ViewModelImpl_def documents_def plain_engine_def s0_def)
  moreover obtain s1 where s1: "handle sample_env (CreateDocument \<lparr>name_value = ''a''\<rparr>) s0 = (None, s1)"
    "app_heap s1 = (\<lambda>_. None)" "app_next s1 = 1"
    "app_document s1 = Some \<lparr>doc_id = 0, doc_graph = Graph [] [], doc_mesh = None, doc_jobs = []\<rparr>"
    by (simp add: createDocument_def with_id_def with_now_def s0_def andThen_def do_db_def write_defs Let_def
        openDocument_def bindA_def entities_def plain_engine_def load_edges_def)
  moreover obtain s2 where s2: "handle sample_env (LocalCreate (SetOp 1 Union_op)) s1 = (None, s2)"
    "app_document s2 = Some \<lparr>doc_id = 0, doc_graph = Graph [] [1], doc_mesh = None, doc_jobs = [[Tree 1 []]]\<rparr>"
    "app_heap s2 = [1 \<mapsto> SetOp 1 Union_op]"
    using single_root_trees[of 0 "[1 \<mapsto> SetOp 1 Union_op]" 1] s1(2-4)
    by (simp add: document_defs with_new_def with_now_def document_interactor_eq
        local_on_create_def db_on_create_def andThen_def do_db_def write_defs Let_def from_operationType_def
        do_send_def do_graph_def graph_create_def Graph_def regenMesh_def fun_upd_def)
  moreover obtain s3 where s3: "run_job 0 s2 = (None, s3)" "app_heap s3 = [1 \<mapsto> SetOp 1 Union_op]"
    "app_document s3 = Some \<lparr>doc_id = 0, doc_graph = Graph [] [1],
       doc_mesh = Some ([Tree 1 []], app_heap s3), doc_jobs = []\<rparr>"
    using s2 by (simp add: run_job_def)
  moreover obtain s4 where "handle sample_env (Received (message (Update 0 (AName \<lparr>name_value = []\<rparr>)) 7)) s3 = (None, s4)"
    "app_heap s4 = app_heap s3" "app_document s4 = app_document s3" "\<not> names_wf (app_db s4)"
    using s3 by (simp add: client_receive_def process_def message_def network_interactor_eq
        remote_on_upsert_def db_on_upsert_def andThen_def do_db_def write_defs Let_def skip_def names_wf_def
        valid_name_def Name_def write_row_def insert_into_def)
  ultimately have run: "ViewModelImpl sample_env empty_database = Inr s0" "app_step sample_env s0 s1"
    "app_step sample_env s1 s2" "app_step sample_env s2 s3" "app_step sample_env s3 s4"
    and s4: "app_heap s4 = app_heap s3" "app_document s4 = app_document s3" "\<not> names_wf (app_db s4)"
    by (blast intro: step_event step_job)+
  have "(app_step sample_env)\<^sup>*\<^sup>* s0 s4"
    using run(2-5) by (meson r_into_rtranclp rtranclp_trans)
  with run(1) s3(2,3) s4 show ?thesis by (intro exI[of _ s0] exI[of _ s4]) simp
qed

theorem application_invariant_witness:
  "\<exists>(s :: app) d. app_document s = Some d \<and> graph_nodes (doc_graph d) = [1] \<and> doc_mesh d \<noteq> None
    \<and> tables_wf (app_db s) \<and> \<not> names_wf (app_db s) \<and> (\<exists>es. entities plain_engine (app_db s) 0 = Inr es)
    \<and> graph_ok (app_heap s) (doc_graph d) \<and> (\<exists>rs. roots (doc_graph d) = Inr rs)"
proof -
  obtain s0 s d where run: "ViewModelImpl sample_env empty_database = Inr s0" "(app_step sample_env)\<^sup>*\<^sup>* s0 s"
    and s: "app_document s = Some d" "doc_graph d = Graph [] [1]" "doc_mesh d \<noteq> None" "\<not> names_wf (app_db s)"
    using sample_session by blast
  have "tables_wf (app_db s) \<and> (\<exists>es. entities (sql sample_env) (app_db s) 0 = Inr es)
    \<and> (\<forall>d. app_document s = Some d \<longrightarrow>
         graph_ok (app_heap s) (doc_graph d) \<and> (\<exists>rs. roots (doc_graph d) = Inr rs))"
    by (rule application_invariant[OF _ run(1) db_wf_tables[OF empty_database_wf] run(2)]) simp
  moreover have "graph_nodes (doc_graph d) = [1]" using s(2) by (simp add: Graph_def)
  ultimately show ?thesis using s(1,3,4) unfolding sample_env_simps by blast
qed

text \<open>C8: A successful local edit other than a disconnection writes to the database exactly what the
  messages it sends say: executing the operations of those messages on the old database gives the
  new one.\<close>

theorem local_edit_is_its_messages:
  assumes "handle env ev s = (None, s')"
    and "\<forall>e. ev \<noteq> LocalDisconnect e" "\<forall>m. ev \<noteq> Received m" "\<forall>n. ev \<noteq> CreateDocument n" "\<forall>i. ev \<noteq> Open i"
  shows "\<exists>ms. app_sent s' = app_sent s @ ms
    \<and> run_ops (sql env) (app_db s) (concat (map message_ops ms)) = Inr (app_db s')"
  using local_edit_reports[OF assms(2-5), of env] assms(1) unfolding reports_def by blast

text \<open>The application with an empty document open.\<close>

definition fresh_app :: app where
  "fresh_app = \<lparr>app_db = empty_database, app_heap = (\<lambda>_. None), app_next = 1,
     app_document = Some \<lparr>doc_id = 9, doc_graph = Graph [] [], doc_mesh = None, doc_jobs = []\<rparr>,
     app_documents = [], app_sent = [], app_ticks = 0, app_draws = 0\<rparr>"

lemma steps_run:
  "a s = (None, s1) \<Longrightarrow> steps (a # as) s = steps as s1"
  "a s = (Some e, s1) \<Longrightarrow> steps (a # as) s = (Some e, s1)"
  by (simp_all add: andThen_def)

lemma fresh_app_create:
  "\<exists>s. handle sample_env (LocalCreate (SetOp 1 Union_op)) fresh_app = (None, s)
     \<and> app_sent s = [message (CreateDelete 9 (SetOp 1 Union_op) Assert) 0]
     \<and> app_document s = Some \<lparr>doc_id = 9, doc_graph = Graph [] [1], doc_mesh = None, doc_jobs = [[Tree 1 []]]\<rparr>
     \<and> app_heap s = [1 \<mapsto> SetOp 1 Union_op]"
  using single_root_trees[of 0 "[1 \<mapsto> SetOp 1 Union_op]" 1]
  by (simp add: fresh_app_def document_defs with_new_def with_now_def document_interactor_eq
      local_on_create_def db_on_create_def andThen_def do_db_def write_defs Let_def from_operationType_def
      do_send_def do_graph_def graph_create_def Graph_def regenMesh_def fun_upd_def)

theorem local_edit_is_its_messages_witness:
  "\<exists>s. handle sample_env (LocalCreate (SetOp 1 Union_op)) fresh_app = (None, s)
    \<and> run_ops plain_engine empty_database
        (message_ops (message (CreateDelete 9 (SetOp 1 Union_op) Assert) 0)) = Inr (app_db s)"
proof -
  obtain s where s: "handle sample_env (LocalCreate (SetOp 1 Union_op)) fresh_app = (None, s)"
    "app_sent s = [message (CreateDelete 9 (SetOp 1 Union_op) Assert) 0]"
    using fresh_app_create by blast
  have "\<exists>ms. app_sent s = app_sent fresh_app @ ms
      \<and> run_ops (sql sample_env) (app_db fresh_app) (concat (map message_ops ms)) = Inr (app_db s)"
    by (rule local_edit_is_its_messages[OF s(1)]) simp_all
  then show ?thesis using s by (auto simp: fresh_app_def)
qed

section \<open>Received messages\<close>

lemma write_ops_then:
  assumes "run_ops (sql env) (app_db s) ops = Inr d" "\<And>s. a s = write_ops env ops s" "silent b"
  shows "app_db (snd (steps [a, b] s)) = d \<and> app_sent (snd (steps [a, b] s)) = app_sent s"
proof -
  have "a s = (None, s\<lparr>app_db := d\<rparr>)" using assms(1,2) by (simp add: write_ops_None)
  then show ?thesis using assms(3) by (simp add: steps_run steps_single silent_def del: steps.simps(2))
qed

lemma silent_more:
  "(\<And>x. silent (k x)) \<Longrightarrow> silent (with_id env k)"
  "silent (\<lambda>s. case app_document s of Some d \<Rightarrow> if doc_id d = doc
     then do_graph f s else (None, s) | None \<Rightarrow> (None, s))"
  "silent (case att of ACoord c \<Rightarrow> do_access u (set_coord c) | ARadius r \<Rightarrow> do_access u (set_radius r)
     | ASetOp t \<Rightarrow> do_access u (set_type t) | AName n \<Rightarrow> skip)"
  using silent_steps(1)[of f]
  by (auto simp: silent_def with_id_def silent_steps(3,5)[unfolded silent_def] split: option.splits attribute.splits)

lemma receive_create:
  assumes "run_ops (sql env) (app_db s) (payload_ops (CreateDelete doc n Assert) t) = Inr d"
  shows "app_db (snd (with_new n (\<lambda>p. remote_on_create env p doc t) s)) = d
    \<and> app_sent (snd (with_new n (\<lambda>p. remote_on_create env p doc t) s)) = app_sent s"
proof -
  define s1 where "s1 = s\<lparr>app_heap := (app_heap s)(app_next s \<mapsto> n), app_next := app_next s + 1\<rparr>"
  have h: "app_heap s1 (app_next s) = Some n" "app_db s1 = app_db s" "app_sent s1 = app_sent s"
    by (simp_all add: s1_def)
  define update_graph where "update_graph = (\<lambda>z. case app_document z of Some d \<Rightarrow>
      if doc_id d = doc then do_graph (\<lambda>h g. Inr (graph_create g (app_next s))) z else (None, z)
      | None \<Rightarrow> (None, z))"
  have "db_on_create env (app_next s) doc t s1 = (None, s1\<lparr>app_db := d\<rparr>)"
    using assms h by (simp add: db_interactor_ops write_ops_None del: payload_ops.simps)
  then have "remote_on_create env (app_next s) doc t s1 = update_graph (s1\<lparr>app_db := d\<rparr>)"
    by (simp add: remote_on_create_def steps_run steps_single update_graph_def del: steps.simps(2))
  moreover have "with_new n (\<lambda>p. remote_on_create env p doc t) s =
      remote_on_create env (app_next s) doc t s1"
    unfolding with_new_def s1_def ..
  moreover have "silent update_graph"
    unfolding update_graph_def by (rule silent_more(2))
  ultimately show ?thesis using h by (simp add: silent_def)
qed

text \<open>C9: A received message other than a removal performs on the database exactly the operations the
  message stands for, and sends nothing. So a replica that receives the messages of a local edit
  executes the writes the edit executed, whatever happens to its open document.\<close>

theorem received_message_is_its_writes:
  assumes "run_ops (sql env) (app_db s) (message_ops m) = Inr d"
    and "\<forall>doc n. msg_payload m \<noteq> CreateDelete doc n Retract"
  shows "app_db (snd (handle env (Received m) s)) = d
    \<and> app_sent (snd (handle env (Received m) s)) = app_sent s"
proof -
  obtain pl t where m: "m = \<lparr>msg_payload = pl, msg_time = t\<rparr>" by (cases m)
  have run: "run_ops (sql env) (app_db s) (payload_ops pl t) = Inr d"
    using assms(1) by (simp add: m message_ops_def)
  have h: "handle env (Received m) s = process_payload (makeNetworkInteractor env) pl t s"
    by (simp add: client_receive_def process_def m)
  show ?thesis
  proof (cases pl)
    case (ConnectDisconnect i j c)
    then show ?thesis using run unfolding h
      by (cases c; simp only: process_payload.simps network_interactor_eq remote_on_connect_def
            remote_on_disconnect_def;
          intro write_ops_then silent_more silent_steps; simp add: db_interactor_ops1)
  next
    case (Update i a)
    show ?thesis unfolding h Update process_payload.simps network_interactor_eq remote_on_upsert_def
      by (rule write_ops_then[OF run[unfolded Update] db_interactor_ops1(3) silent_more(3)])
  next
    case (CreateDelete doc n c)
    then have "c = Assert" using assms(2) by (cases c) (auto simp: m)
    then show ?thesis using receive_create[of env s doc n t d] run unfolding h CreateDelete
      by (simp add: network_interactor_eq del: payload_ops.simps)
  next
    case (Confirm i)
    then show ?thesis using run unfolding h by (simp add: skip_def run_ops_def)
  qed
qed

theorem received_message_is_its_writes_witness:
  "\<exists>d. run_ops plain_engine empty_database [Connect 1 2 5] = Inr d
    \<and> app_db (snd (handle sample_env (Received (message (ConnectDisconnect 1 2 Assert) 5)) fresh_app)) = d"
proof -
  obtain d where d: "run_ops plain_engine empty_database [Connect 1 2 5] = Inr d"
    by (simp add: run_ops_def write_defs Let_def)
  have "app_db (snd (handle sample_env (Received (message (ConnectDisconnect 1 2 Assert) 5)) fresh_app)) = d
    \<and> app_sent (snd (handle sample_env (Received (message (ConnectDisconnect 1 2 Assert) 5)) fresh_app))
      = app_sent fresh_app"
    by (rule received_message_is_its_writes)
      (simp_all add: message_ops_def message_def fresh_app_def d)
  with d show ?thesis by blast
qed

text \<open>A local disconnection is announced as a connection: the database of the replica that made it
  loses the edge, and the one message it sends stands for connecting the same two nodes at the
  same time.\<close>

theorem disconnection_announced_as_connection:
  assumes "handle env (LocalDisconnect e) s = (None, s')"
  shows "\<exists>i j t m. id_at (app_heap s) (edge_from e) = Inr i \<and> id_at (app_heap s) (edge_to e) = Inr j
    \<and> run_ops (sql env) (app_db s) [Disconnect i j t] = Inr (app_db s')
    \<and> app_sent s' = app_sent s @ [m] \<and> message_ops m = [Connect i j t]"
proof -
  let ?s = "s\<lparr>app_ticks := app_ticks s + 1\<rparr>" and ?t = "clock env (app_ticks s)"
  obtain d where doc: "app_document s = Some d"
    using assms by (auto simp: document_disconnect_def with_document_def split: option.splits)
  obtain i where i: "id_at (app_heap s) (edge_from e) = Inr i"
    using assms by (cases "id_at (app_heap s) (edge_from e)")
      (auto simp: document_disconnect_def with_document_def with_now_def ends_of_def doc)
  obtain j where j: "id_at (app_heap s) (edge_to e) = Inr j"
    using assms by (cases "id_at (app_heap s) (edge_to e)")
      (auto simp: document_disconnect_def with_document_def with_now_def ends_of_def doc i)
  have "steps [local_on_disconnect env i j ?t, do_graph (\<lambda>h g. graph_disconnect h g i j), regenMesh] ?s
      = (None, s')"
    using assms by (simp add: document_disconnect_def with_document_def with_now_def ends_of_def doc i j
        document_interactor_eq del: steps.simps(2))
  then obtain s1 s2 where s1: "local_on_disconnect env i j ?t ?s = (None, s1)"
    and s2: "do_graph (\<lambda>h g. graph_disconnect h g i j) s1 = (None, s2)" and s3: "regenMesh s2 = (None, s')"
    unfolding steps_Cons_None by auto
  have same: "app_db s' = app_db s1" "app_sent s' = app_sent s1"
    using silent_steps(1)[unfolded silent_def, rule_format, of "\<lambda>h g. graph_disconnect h g i j" s1]
      silent_steps(4)[unfolded silent_def, rule_format, of s2] s2 s3 by simp_all
  from s1 obtain db where "run_ops (sql env) (app_db s) [Disconnect i j ?t] = Inr db"
    "s1 = ?s\<lparr>app_db := db, app_sent := app_sent s @ [message (ConnectDisconnect i j Assert) ?t]\<rparr>"
    unfolding local_on_disconnect_def steps_Cons_None db_interactor_ops1 payload_ops.simps write_ops_None
    by (auto simp: do_send_def)
  with same i j show ?thesis
    by (intro exI[of _ i] exI[of _ j] exI[of _ ?t] exI[of _ "message (ConnectDisconnect i j Assert) ?t"])
      (simp add: message_ops_def message_def)
qed

definition pair_app :: app where
  "pair_app = fresh_app\<lparr>app_heap := [1 \<mapsto> SetOp 1 Union_op, 2 \<mapsto> SetOp 2 Union_op], app_next := 3,
     app_document := Some \<lparr>doc_id = 9, doc_graph = Graph [] [1], doc_mesh = None, doc_jobs = []\<rparr>\<rparr>"

theorem disconnection_announced_as_connection_witness:
  "\<exists>s'. handle sample_env (LocalDisconnect \<lparr>edge_uid = 0, edge_from = 1, edge_to = 2\<rparr>) pair_app = (None, s')
    \<and> (\<exists>i j t m. app_sent s' = app_sent pair_app @ [m] \<and> message_ops m = [Connect i j t])"
proof -
  obtain s' where s': "handle sample_env (LocalDisconnect \<lparr>edge_uid = 0, edge_from = 1, edge_to = 2\<rparr>) pair_app = (None, s')"
    using single_root_trees[of 0 "[1 \<mapsto> SetOp 1 Union_op, 2 \<mapsto> SetOp 2 Union_op]" 1]
    by (simp add: pair_app_def fresh_app_def document_defs with_now_def id_at_def document_interactor_eq
        local_on_disconnect_def db_on_disconnect_def andThen_def do_db_def write_defs Let_def do_send_def
        do_graph_def graph_disconnect_def Graph_def regenMesh_def)
  from disconnection_announced_as_connection[OF s'] s' show ?thesis by blast
qed

section \<open>Where a message or an edit goes wrong\<close>

text \<open>A removal is sent back: handling a received removal while a document is open sends a removal
  of the same node again, with a new timestamp and for the open document. Every other message is
  handled in silence, so two replicas with open documents answer each other's removals forever.\<close>

theorem removal_is_echoed:
  assumes "msg_payload m = CreateDelete doc n Retract" "app_document s = Some d"
    and "handle env (Received m) s = (None, s')"
  shows "app_sent s' = app_sent s @ [message (CreateDelete (doc_id d) n Retract) (clock env (app_ticks s))]"
proof -
  define p where "p = app_next s"
  define s1 where "s1 = s\<lparr>app_heap := (app_heap s)(p \<mapsto> n), app_next := p + 1\<rparr>"
  let ?t = "clock env (app_ticks s)"
  have h1: "app_heap s1 p = Some n" "app_document s1 = Some d" "app_sent s1 = app_sent s"
    "app_ticks s1 = app_ticks s" using assms(2) by (simp_all add: s1_def)
  have "remote_on_remove env p doc (msg_time m) s1 = (None, s')"
    using assms(1,3) by (simp add: client_receive_def process_def with_new_def network_interactor_eq s1_def p_def)
  then obtain s2 where s2: "db_on_remove env p doc (msg_time m) s1 = (None, s2)"
    and s': "document_remove env (makeDocumentInteractor env) p s2 = (None, s')"
    unfolding remote_on_remove_def steps_Cons_None by auto
  from s2 obtain db where "s2 = s1\<lparr>app_db := db\<rparr>" unfolding db_interactor_ops h1 option.case write_ops_None by blast
  then have h2: "app_heap s2 p = Some n" "app_document s2 = Some d" "app_sent s2 = app_sent s"
    "app_ticks s2 = app_ticks s" using h1 by simp_all
  define s3 where "s3 = s2\<lparr>app_ticks := app_ticks s2 + 1\<rparr>"
  from s' have "steps [local_on_remove env p (doc_id d) ?t, do_graph (\<lambda>h g. graph_remove h g p), regenMesh] s3
      = (None, s')"
    by (simp add: document_remove_def with_document_def with_now_def h2 document_interactor_eq s3_def
        del: steps.simps(2))
  then obtain s4 s5 where s4: "local_on_remove env p (doc_id d) ?t s3 = (None, s4)"
    and s5: "do_graph (\<lambda>h g. graph_remove h g p) s4 = (None, s5)" and s6: "regenMesh s5 = (None, s')"
    unfolding steps_Cons_None by auto
  have "app_sent s' = app_sent s4"
    using silent_steps(1)[unfolded silent_def, rule_format, of "\<lambda>h g. graph_remove h g p" s4]
      silent_steps(4)[unfolded silent_def, rule_format, of s5] s5 s6 by simp
  moreover have h3: "app_heap s3 p = Some n" "app_sent s3 = app_sent s" using h2 by (simp_all add: s3_def)
  then have "app_sent s4 = app_sent s @ [message (CreateDelete (doc_id d) n Retract) ?t]"
    using s4 unfolding local_on_remove_def steps_Cons_None db_interactor_ops h3 option.case write_ops_None
    by (auto simp: do_send_def h3)
  ultimately show ?thesis by simp
qed

theorem removal_is_echoed_witness:
  "\<exists>s'. handle sample_env (Received (message (CreateDelete 9 (SetOp 1 Union_op) Retract) 5)) pair_app = (None, s')
    \<and> app_sent s' = [message (CreateDelete 9 (SetOp 1 Union_op) Retract) 0]"
proof -
  have tr: "trees 0 h (Graph [] []) = Inr []" for h
    by (simp add: trees_def roots_def edges_in_def Graph_def)
  obtain s' where s': "handle sample_env (Received (message (CreateDelete 9 (SetOp 1 Union_op) Retract) 5)) pair_app
      = (None, s')"
    using tr by (simp add: pair_app_def fresh_app_def client_receive_def process_def message_def with_new_def
        network_interactor_eq remote_on_remove_def db_on_remove_def andThen_def do_db_def write_defs Let_def
        from_operationType_def document_remove_def with_document_def with_now_def document_interactor_eq
        local_on_remove_def do_send_def do_graph_def graph_remove_def Graph_def same_id_def id_at_def
        regenMesh_def)
  have "app_sent s' = app_sent pair_app @ [message (CreateDelete 9 (SetOp 1 Union_op) Retract) 0]"
    using removal_is_echoed[OF _ _ s', of 9 "SetOp 1 Union_op"]
    by (simp add: message_def pair_app_def fresh_app_def)
  with s' show ?thesis by (simp add: pair_app_def fresh_app_def)
qed

text \<open>With no document open, a received connection, disconnection or removal is written to the
  database and then dereferences the missing document.\<close>

theorem message_without_document_faults:
  assumes "app_document s = None" "run_ops (sql env) (app_db s) (message_ops m) = Inr d"
    and "(\<exists>i j c. msg_payload m = ConnectDisconnect i j c) \<or> (\<exists>doc n. msg_payload m = CreateDelete doc n Retract)"
  shows "\<exists>s'. handle env (Received m) s = (Some NullDeref, s') \<and> app_db s' = d"
proof -
  obtain pl t where m: "m = \<lparr>msg_payload = pl, msg_time = t\<rparr>" by (cases m)
  have run: "run_ops (sql env) (app_db s) (payload_ops pl t) = Inr d"
    using assms(2) by (simp add: m message_ops_def)
  have h: "handle env (Received m) s = process_payload (makeNetworkInteractor env) pl t s"
    by (simp add: client_receive_def process_def m)
  show ?thesis
  proof (cases pl)
    case (ConnectDisconnect i j c)
    show ?thesis
      using run assms(1) steps_run(1)[of "\<lambda>s. write_ops env (payload_ops pl t) s" s]
      unfolding h ConnectDisconnect
      by (cases c) (auto simp: network_interactor_eq remote_on_connect_def remote_on_disconnect_def andThen_def
          db_interactor_ops1 write_ops_None[THEN iffD2] with_id_def do_graph_def)
  next
    case (CreateDelete doc n c)
    then have c: "c = Retract" using assms(3) by (auto simp: m)
    let ?s = "s\<lparr>app_heap := (app_heap s)(app_next s \<mapsto> n), app_next := app_next s + 1\<rparr>"
    have "db_on_remove env (app_next s) doc t ?s = (None, ?s\<lparr>app_db := d\<rparr>)"
      using run unfolding db_interactor_ops CreateDelete c by (simp add: write_ops_None del: payload_ops.simps)
    then show ?thesis using assms(1) unfolding h CreateDelete c
      by (simp add: with_new_def network_interactor_eq remote_on_remove_def andThen_def document_remove_def
          with_document_def)
  qed (use assms(3) in \<open>auto simp: m\<close>)
qed

theorem message_without_document_faults_witness:
  "\<exists>s' d. run_ops plain_engine empty_database [Connect 1 2 5] = Inr d
    \<and> handle sample_env (Received (message (ConnectDisconnect 1 2 Assert) 5)) (fresh_app\<lparr>app_document := None\<rparr>)
      = (Some NullDeref, s') \<and> app_db s' = d"
proof -
  obtain d where d: "run_ops plain_engine empty_database [Connect 1 2 5] = Inr d"
    by (simp add: run_ops_def write_defs Let_def)
  have "\<exists>s'. handle sample_env (Received (message (ConnectDisconnect 1 2 Assert) 5))
      (fresh_app\<lparr>app_document := None\<rparr>) = (Some NullDeref, s') \<and> app_db s' = d"
    by (rule message_without_document_faults) (simp_all add: message_ops_def message_def fresh_app_def d)
  with d show ?thesis by blast
qed

text \<open>Updating a set operation always ends in a fault: when its type has been stored and sent, the
  handler asks the null sphere pointer for its identifier, and the graph keeps the old type.\<close>

theorem setop_update_faults:
  assumes "app_document s = Some d" "app_heap s p = Some (SetOp u o')"
    and "apply_op (sql env) (app_db s) (UpsertSetOp u o' (clock env (app_ticks s))) = Inr db"
  shows "handle env (LocalUpdate p) s = (Some NullDeref, s\<lparr>app_ticks := app_ticks s + 1, app_db := db,
    app_sent := app_sent s @ [message (Update u (ASetOp o')) (clock env (app_ticks s))]\<rparr>)"
  using assms
  by (simp add: document_update_def with_document_def with_now_def document_interactor_eq andThen_def
      local_on_upsert_def db_on_upsert_def do_db_def do_send_def fail_def)

theorem setop_update_faults_witness:
  "fst (handle sample_env (LocalUpdate 1) pair_app) = Some NullDeref"
proof -
  obtain db where "apply_op (sql sample_env) (app_db pair_app)
      (UpsertSetOp 1 Union_op (clock sample_env (app_ticks pair_app))) = Inr db"
    by (simp add: write_defs Let_def from_operationType_def)
  from setop_update_faults[OF _ _ this, of _ 1] show ?thesis by (simp add: pair_app_def)
qed

text \<open>A name is not checked when it is received, but it is when the documents are listed: an
  update that gives a document of the database a name \<open>Name\<close> refuses (the empty one, say) and that
  no newer name outdates is handled without a fault, and from then on the application cannot be
  started on that database.\<close>

theorem refused_name_stops_startup:
  assumes "engine_ok (sql env)" "tables_wf (app_db s)" "Name (name_value n) = Inl e"
    and "document_rows (app_db s) i \<noteq> []"
    and "\<forall>r \<in> set (name_table (app_db s)). live r \<and> entity r = to_string i \<longrightarrow> timestamp r \<le> t"
  shows "\<exists>s'. handle env (Received (message (Update i (AName n)) t)) s = (None, s')
    \<and> ViewModelImpl env (app_db s') = Inl AssertFailed"
proof -
  obtain db where db: "apply_op (sql env) (app_db s) (UpsertName i n t) = Inr db"
    by (simp add: write_defs Let_def)
  let ?q = "name_row_for i n t False"
  note tables = apply_op_tables[OF db]
  have q: "?q \<in> set (latest_rows (name_table db) (to_string i))"
    using assms(5) by (auto simp: tables add_row_def write_row_def insert_into_def set_latest_rows
        CRDTCollectGarbage_def remove_from_def row_for_defs)
  have "document_rows db i \<noteq> []"
    using assms(4) tables(6) by (simp add: document_rows_def add_row_def)
  moreover have "\<not> valid_name \<lparr>name_value = row_name ?q\<rparr>"
    using assms(3) by (simp add: row_for_defs valid_name_def)
  ultimately have "documents (sql env) db = Inl AssertFailed"
    using documents_refused[OF assms(1) apply_op_tables_wf[OF assms(1,2) db] _ q] by blast
  moreover have "handle env (Received (message (Update i (AName n)) t)) s = (None, s\<lparr>app_db := db\<rparr>)"
    using db by (simp add: client_receive_def process_def message_def network_interactor_eq
        remote_on_upsert_def db_on_upsert_def andThen_def do_db_def skip_def)
  ultimately show ?thesis by (simp add: ViewModelImpl_def)
qed

theorem refused_name_stops_startup_witness:
  "\<exists>db s'. run_ops plain_engine empty_database [Create 1 SetOperation_type 9 5] = Inr db
    \<and> handle sample_env (Received (message (Update 9 (AName \<lparr>name_value = []\<rparr>)) 6)) (fresh_app\<lparr>app_db := db\<rparr>) = (None, s')
    \<and> ViewModelImpl sample_env (app_db s') = Inl AssertFailed"
proof -
  obtain db where db: "run_ops plain_engine empty_database [Create 1 SetOperation_type 9 5] = Inr db"
    "document_rows db 9 \<noteq> []" "name_table db = []"
    by (simp add: run_ops_def write_defs Let_def document_rows_def write_document_def insert_into_def)
  have "db_wf db" by (rule run_ops_wf[OF _ empty_database_wf _ db(1)]) simp_all
  then have "\<exists>s'. handle sample_env (Received (message (Update 9 (AName \<lparr>name_value = []\<rparr>)) 6)) (fresh_app\<lparr>app_db := db\<rparr>)
      = (None, s') \<and> ViewModelImpl sample_env (app_db s') = Inl AssertFailed"
    by (intro refused_name_stops_startup) (auto simp: db db_wf_def Name_def fresh_app_def)
  with db(1) show ?thesis by blast
qed

text \<open>A received connection of a node to itself makes its document impossible to open: the edge is
  stored before the graph is asked, and loading it later fails the assertion of the edge's
  constructor.\<close>

theorem self_loop_locks_document:
  "\<exists>s1 s2 s3. handle sample_env (LocalCreate (SetOp 1 Union_op)) fresh_app = (None, s1)
    \<and> handle sample_env (Received (message (ConnectDisconnect 1 1 Assert) 7)) s1 = (Some NullDeref, s2)
    \<and> handle sample_env (Open 9) s2 = (Some AssertFailed, s3)"
proof -
  obtain s1 where s1: "handle sample_env (LocalCreate (SetOp 1 Union_op)) fresh_app = (None, s1)"
    "app_sent s1 = [message (CreateDelete 9 (SetOp 1 Union_op) Assert) 0]"
    "app_document s1 = Some \<lparr>doc_id = 9, doc_graph = Graph [] [1], doc_mesh = None, doc_jobs = [[Tree 1 []]]\<rparr>"
    "app_heap s1 = [1 \<mapsto> SetOp 1 Union_op]"
    using fresh_app_create by blast
  have "\<exists>ms. app_sent s1 = app_sent fresh_app @ ms
      \<and> run_ops (sql sample_env) (app_db fresh_app) (concat (map message_ops ms)) = Inr (app_db s1)"
    using local_edit_reports[of "LocalCreate (SetOp 1 Union_op)" sample_env] s1(1)
    unfolding reports_def by fastforce
  then have "run_ops plain_engine empty_database [Create 1 SetOperation_type 9 0, UpsertSetOp 1 Union_op 0]
      = Inr (app_db s1)"
    using s1(2) by (simp add: fresh_app_def message_ops_def message_def)
  then have db1: "app_db s1 = empty_database
      \<lparr>document_table := [\<lparr>deleted = 0, timestamp = 0, entity = to_string 1, doc_type = 1, document = to_string 9\<rparr>],
       setop_table := [\<lparr>deleted = 0, timestamp = 0, entity = to_string 1, row_type = 0\<rparr>]\<rparr>"
    by (simp add: run_ops_def write_defs Let_def empty_database_def insert_into_def remove_from_def
        CRDTCollectGarbage_def from_operationType_def to_integral_def)
  define s2 where "s2 = snd (handle sample_env (Received (message (ConnectDisconnect 1 1 Assert) 7)) s1)"
  have h2: "handle sample_env (Received (message (ConnectDisconnect 1 1 Assert) 7)) s1 = (Some NullDeref, s2)"
    "app_db s2 = (app_db s1)\<lparr>edge_table := [\<lparr>deleted = 0, timestamp = 7, entity = to_string 1,
       entityTo = to_string 1\<rparr>]\<rparr>"
    using s1(3,4) by (simp_all add: s2_def client_receive_def process_def message_def network_interactor_eq
        remote_on_connect_def db_on_connect_def andThen_def do_db_def write_defs Let_def with_id_def
        do_graph_def graph_connect_def find_ends_def Graph_def id_at_def Edge_def db1 empty_database_def
        insert_into_def remove_from_def)
  have "entities plain_engine (app_db s2) 9 = Inr [\<lparr>ent_uid = 1, ent_type = SetOperation_type\<rparr>]"
    by (simp add: entities_def Let_def h2(2) db1 plain_engine_def empty_database_def size_of_int_def
        from_integral_def)
  moreover have "setop plain_engine (app_db s2) 1 = Some (SetOp 1 Union_op)"
    by (simp add: setop_def Let_def h2(2) db1 plain_engine_def empty_database_def size_of_int_def
        to_operationType_def)
  moreover have "edges plain_engine (app_db s2) 1 = Inr [1]"
    by (simp add: edges_def Let_def h2(2) db1 plain_engine_def empty_database_def edge_alive_def max_timestamp_def)
  ultimately have "\<exists>s3. handle sample_env (Open 9) s2 = (Some AssertFailed, s3)"
    by (simp add: openDocument_def load_entity_def Let_def load_edges_def id_at_def Edge_def)
  with s1(1) h2(1) show ?thesis by blast
qed

end
