(* ===== verification/Bitsery.thy ===== *)
theory Bitsery
  imports Attributes
begin

text \<open>
  The binary form of attributes. \<open>include/utils/Serializator.h\<close> and
  \<open>include/utils/attribute_serialization.h\<close> describe it by the primitives of the bitsery library
  (\<open>thirdparty/bitsery\<close>): a writer that fills a growing buffer, a reader that checks every read
  against the end of the data, values of fixed width in little-endian order, sizes of variable
  width and texts. Each kind of value has a \<open>put\<close> and a \<open>get\<close>; the locale \<open>codec\<close> states what the
  pair promises and proves the round trip from it once.
\<close>

unbundle bit_operations_syntax

type_synonym bytes = "8 word list"

section \<open>Little-endian values\<close>

fun le_bytes :: "nat \<Rightarrow> nat \<Rightarrow> bytes" where
  "le_bytes 0 v = []"
| "le_bytes (Suc n) v = of_nat (v mod 256) # le_bytes n (v div 256)"

fun le_value :: "bytes \<Rightarrow> nat" where
  "le_value [] = 0"
| "le_value (b # bs) = unat b + 256 * le_value bs"

lemma length_le_bytes [simp]: "length (le_bytes n v) = n"
  by (induction n v rule: le_bytes.induct) simp_all

lemma unat_of_nat_byte [simp]: "unat (of_nat (v mod 256) :: 8 word) = v mod 256"
  by (simp add: unat_of_nat)

lemma le_value_le_bytes: "le_value (le_bytes n v) = v mod 256 ^ n"
proof (induction n v rule: le_bytes.induct)
  case (2 n v)
  have "v mod (256 * 256 ^ n) = 256 * (v div 256 mod 256 ^ n) + v mod 256"
    by (rule mod_mult2_eq)
  with 2 show ?case by simp
qed simp

section \<open>The output adapter\<close>

text \<open>The growth of the buffer also depends on the capacity the vector happens to have, which is
  a field of the writer.\<close>

record writer =
  w_buffer :: bytes
  w_off :: nat
  w_capacity :: "nat \<Rightarrow> nat"

definition increaseBufferSize :: "(nat \<Rightarrow> nat) \<Rightarrow> bytes \<Rightarrow> bytes" where
  "increaseBufferSize capacity container =
     (let sz = length container;
          newSize = sz * 3 div 2 + 128;
          newSize = newSize - newSize mod 64;
          target = max newSize (capacity sz)
      in container @ replicate (target - sz) 0)"

lemma increaseBufferSize_grows: "length (increaseBufferSize c buf) > length buf"
proof -
  let ?n = "length buf * 3 div 2 + 128"
  have "?n mod 64 < 64" by simp
  then have "?n - ?n mod 64 > length buf" by linarith
  then show ?thesis by (simp add: increaseBufferSize_def Let_def)
qed

function (sequential) writeInternal :: "bytes \<Rightarrow> writer \<Rightarrow> writer" where
  "writeInternal data w =
     (let newOffset = w_off w + length data in
      if newOffset \<le> length (w_buffer w)
      then w\<lparr>w_buffer := take (w_off w) (w_buffer w) @ data @ drop newOffset (w_buffer w),
             w_off := newOffset\<rparr>
      else writeInternal data (w\<lparr>w_buffer := increaseBufferSize (w_capacity w) (w_buffer w)\<rparr>))"
  by pat_completeness auto

termination
proof (relation "measure (\<lambda>(data, w). w_off w + length data - length (w_buffer w))")
  fix data :: bytes and w x
  assume "x = w_off w + length data" "\<not> x \<le> length (w_buffer w)"
  then show "((data, w\<lparr>w_buffer := increaseBufferSize (w_capacity w) (w_buffer w)\<rparr>), (data, w))
      \<in> measure (\<lambda>(data, w). w_off w + length data - length (w_buffer w))"
    using increaseBufferSize_grows[of "w_buffer w" "w_capacity w"] by simp
qed simp

declare writeInternal.simps [simp del]

text \<open>What has been written, and the writers whose offset is inside their buffer.\<close>

definition written :: "writer \<Rightarrow> bytes" where
  "written w = take (w_off w) (w_buffer w)"

definition writer_ok :: "writer \<Rightarrow> bool" where
  "writer_ok w \<longleftrightarrow> w_off w \<le> length (w_buffer w)"

lemma written_increase: "writer_ok w \<Longrightarrow>
    written (w\<lparr>w_buffer := increaseBufferSize c (w_buffer w)\<rparr>) = written w
    \<and> writer_ok (w\<lparr>w_buffer := increaseBufferSize c (w_buffer w)\<rparr>)"
  using increaseBufferSize_grows[of "w_buffer w" c]
  by (simp add: written_def writer_ok_def) (simp add: increaseBufferSize_def Let_def)

lemma writeInternal_written:
  "writer_ok w \<Longrightarrow> written (writeInternal data w) = written w @ data \<and> writer_ok (writeInternal data w)"
proof (induction data w rule: writeInternal.induct)
  case (1 data w)
  show ?case
  proof (cases "w_off w + length data \<le> length (w_buffer w)")
    case True
    moreover have "w_off w \<le> length (w_buffer w)" using 1 by (simp add: writer_ok_def)
    ultimately show ?thesis
      by (subst (1 2) writeInternal.simps) (simp add: written_def writer_ok_def Let_def min_absorb2)
  next
    case False
    with 1 written_increase[of w "w_capacity w"] show ?thesis
      by (subst (1 2) writeInternal.simps) (simp add: Let_def)
  qed
qed

section \<open>The input adapter\<close>

datatype ReaderError = NoError | ReadingError | DataOverflow | InvalidData | InvalidPointer

definition error_code :: "ReaderError \<Rightarrow> nat" where
  "error_code e = (case e of NoError \<Rightarrow> 0 | ReadingError \<Rightarrow> 1 | DataOverflow \<Rightarrow> 2
     | InvalidData \<Rightarrow> 3 | InvalidPointer \<Rightarrow> 4)"

record reader =
  r_buffer :: bytes
  r_off :: nat
  r_end :: nat
  r_size :: nat

text \<open>After an error the offset lies behind the end by the code of the error.\<close>

definition reader_error :: "reader \<Rightarrow> nat" where
  "reader_error r = (if r_off r \<le> r_end r then error_code NoError else r_off r - r_end r)"

definition set_error :: "ReaderError \<Rightarrow> reader \<Rightarrow> reader" where
  "set_error e r = (if r_off r \<le> r_end r
     then r\<lparr>r_end := 0, r_size := 0, r_off := error_code e\<rparr> else r)"

definition isCompletedSuccessfully :: "reader \<Rightarrow> bool" where
  "isCompletedSuccessfully r \<longleftrightarrow> r_off r = r_size r"

definition readInternal :: "nat \<Rightarrow> reader \<Rightarrow> bytes \<times> reader" where
  "readInternal n r =
     (let newOffset = r_off r + n in
      if newOffset \<le> r_end r
      then (take n (drop (r_off r) (r_buffer r)), r\<lparr>r_off := newOffset\<rparr>)
      else (replicate n 0, set_error DataOverflow r))"

definition remaining :: "reader \<Rightarrow> bytes" where
  "remaining r = take (r_end r - r_off r) (drop (r_off r) (r_buffer r))"

definition reader_ok :: "reader \<Rightarrow> bool" where
  "reader_ok r \<longleftrightarrow> r_off r \<le> r_end r \<and> r_end r = r_size r \<and> r_end r \<le> length (r_buffer r)"

lemma readInternal_ok:
  assumes "reader_ok r" "remaining r = bs @ rest" "length bs = n"
  shows "\<exists>r'. readInternal n r = (bs, r') \<and> reader_ok r' \<and> remaining r' = rest"
proof -
  have len: "length (remaining r) = r_end r - r_off r"
    using assms(1) by (auto simp: remaining_def reader_ok_def min_def)
  then have le: "r_off r + n \<le> r_end r" using assms by (auto simp: reader_ok_def)
  have "take n (drop (r_off r) (r_buffer r)) = take n (remaining r)"
    using le by (simp add: remaining_def)
  then have bs: "take n (drop (r_off r) (r_buffer r)) = bs" using assms(2,3) by simp
  have "remaining (r\<lparr>r_off := r_off r + n\<rparr>) = drop n (remaining r)"
    using le by (simp add: remaining_def drop_take add.commute)
  then have "remaining (r\<lparr>r_off := r_off r + n\<rparr>) = rest" using assms(2,3) by simp
  with bs le assms(1) show ?thesis by (simp add: readInternal_def reader_ok_def)
qed

section \<open>Sizes\<close>

definition put_word :: "nat \<Rightarrow> nat \<Rightarrow> writer \<Rightarrow> writer" where
  "put_word n v = writeInternal (le_bytes n v)"

definition get_word :: "nat \<Rightarrow> reader \<Rightarrow> nat \<times> reader" where
  "get_word n r = (let (bs, r') = readInternal n r in (le_value bs, r'))"

definition writeSize :: "nat \<Rightarrow> writer \<Rightarrow> fault + writer" where
  "writeSize sz w =
     (if sz < 0x80 then Inr (put_word 1 sz w)
      else if sz < 0x4000 then
        Inr (put_word 1 (sz mod 256) (put_word 1 (drop_bit 8 sz OR 0x80) w))
      else if sz < 0x40000000 then
        Inr (put_word 2 (sz mod 65536)
          (put_word 1 (drop_bit 16 sz mod 256) (put_word 1 (drop_bit 24 sz OR 0xC0) w)))
      else Inl AssertFailed)"

definition handleReadMaxSize :: "nat \<Rightarrow> nat \<Rightarrow> reader \<Rightarrow> nat \<times> reader" where
  "handleReadMaxSize sz maxSize r =
     (if maxSize < sz then (0, set_error InvalidData r) else (sz, r))"

definition readSize :: "nat \<Rightarrow> reader \<Rightarrow> nat \<times> reader" where
  "readSize maxSize r =
     (let (hb, r1) = get_word 1 r in
      if hb < 0x80 then handleReadMaxSize hb maxSize r1
      else
        let (lb, r2) = get_word 1 r1 in
        if hb AND 0x40 \<noteq> 0 then
          let (lw, r3) = get_word 2 r2 in
          handleReadMaxSize (push_bit 16 (push_bit 8 (hb AND 0x3F) OR lb) OR lw) maxSize r3
        else handleReadMaxSize (push_bit 8 (hb AND 0x7F) OR lb) maxSize r2)"

text \<open>The bytes of a size.\<close>

definition size_bytes :: "nat \<Rightarrow> bytes" where
  "size_bytes sz =
     (if sz < 0x80 then le_bytes 1 sz
      else if sz < 0x4000 then le_bytes 1 (drop_bit 8 sz OR 0x80) @ le_bytes 1 (sz mod 256)
      else le_bytes 1 (drop_bit 24 sz OR 0xC0) @ le_bytes 1 (drop_bit 16 sz mod 256)
        @ le_bytes 2 (sz mod 65536))"

lemma put_word_written:
  "writer_ok w \<Longrightarrow> written (put_word n v w) = written w @ le_bytes n v \<and> writer_ok (put_word n v w)"
  by (simp add: put_word_def writeInternal_written)

lemma get_word_ok:
  assumes "reader_ok r" "remaining r = le_bytes n v @ rest" "v < 256 ^ n"
  shows "\<exists>r'. get_word n r = (v, r') \<and> reader_ok r' \<and> remaining r' = rest"
  using readInternal_ok[OF assms(1,2), of n] assms(3)
  by (auto simp: get_word_def le_value_le_bytes)

lemma writeSize_written:
  assumes "writer_ok w" "sz < 0x40000000"
  shows "\<exists>w'. writeSize sz w = Inr w' \<and> written w' = written w @ size_bytes sz \<and> writer_ok w'"
  using assms put_word_written by (auto simp: writeSize_def size_bytes_def)

lemma push_bit_or: "b < 2 ^ n \<Longrightarrow> push_bit n a OR b = a * 2 ^ n + b" for a b :: nat
proof -
  assume b: "b < 2 ^ n"
  have "push_bit n a AND b = 0"
  proof (rule bit_eqI)
    fix m
    have "bit b m \<Longrightarrow> m < n" using b by (metis bit_take_bit_iff take_bit_nat_eq_self)
    then show "bit (push_bit n a AND b) m \<longleftrightarrow> bit (0 :: nat) m"
      by (auto simp: bit_and_iff bit_push_bit_iff)
  qed
  then have "push_bit n a + b = push_bit n a OR b" by (simp add: disjunctive_add_eq_or)
  then show ?thesis by (simp add: push_bit_eq_mult)
qed

lemma high_byte:
  assumes "k < (64 :: nat)"
  shows "k OR 0x80 = k + 128" "k OR 0xC0 = k + 192" "(k + 128) AND 0x40 = 0"
    "(k + 128) AND 0x7F = k" "(k + 192) AND 0x40 \<noteq> 0" "(k + 192) AND 0x3F = k"
proof -
  show "k OR 0x80 = k + 128" using push_bit_or[of k 7 1] assms by (simp add: or.commute)
  show "k OR 0xC0 = k + 192" using push_bit_or[of k 6 3] assms by (simp add: or.commute)
  show "(k + 128) AND 0x7F = k" 
    using take_bit_eq_mask[of 7 "k + 128"] assms by (simp add: mask_eq_exp_minus_1 take_bit_eq_mod)
  show "(k + 192) AND 0x3F = k" 
    using take_bit_eq_mask[of 6 "k + 192"] mod_mult_self1[of k 3 64] assms by (simp add: mask_eq_exp_minus_1 take_bit_eq_mod)
  show "(k + 128) AND 0x40 = 0"
    using and_exp_eq_0_iff_not_bit[of "k + 128" 6] assms by (simp add: bit_iff_odd div_add1_eq)
  show "(k + 192) AND 0x40 \<noteq> 0"
    using and_exp_eq_0_iff_not_bit[of "k + 192" 6] assms by (simp add: bit_iff_odd div_add1_eq)
qed

lemma size_div:
  "(sz::nat) < 0x4000 \<Longrightarrow> drop_bit 8 sz < 64" "(sz::nat) < 0x40000000 \<Longrightarrow> drop_bit 24 sz < 64"
  by (simp_all add: drop_bit_eq_div)

lemma readSize_ok:
  assumes "reader_ok r" "remaining r = size_bytes sz @ rest" "sz < 0x40000000" "sz \<le> maxSize"
  shows "\<exists>r'. readSize maxSize r = (sz, r') \<and> reader_ok r' \<and> remaining r' = rest"
proof -
  consider (one) "sz < 0x80" | (two) "\<not> sz < 0x80" "sz < 0x4000"
    | (four) "\<not> sz < 0x80" "\<not> sz < 0x4000" by blast
  then show ?thesis
  proof cases
    case one
    with get_word_ok[OF assms(1), of 1 sz rest] assms(2,4) show ?thesis
      by (auto simp: readSize_def size_bytes_def handleReadMaxSize_def)
  next
    case two
    let ?h = "drop_bit 8 sz OR 0x80"
    note k = size_div(1)[OF two(2)]
    note h = high_byte[OF k]
    have rem: "remaining r = le_bytes 1 ?h @ le_bytes 1 (sz mod 256) @ rest"
      using assms(2) two by (simp add: size_bytes_def)
    obtain r1 where r1: "get_word 1 r = (?h, r1)" "reader_ok r1"
      "remaining r1 = le_bytes 1 (sz mod 256) @ rest"
      using get_word_ok[OF assms(1) rem] k by (auto simp: h(1))
    obtain r2 where r2: "get_word 1 r1 = (sz mod 256, r2)" "reader_ok r2" "remaining r2 = rest"
      using get_word_ok[OF r1(2,3)] by auto
    have "push_bit 8 (drop_bit 8 sz) OR (sz mod 256) = sz"
      using push_bit_or[of "sz mod 256" 8 "drop_bit 8 sz"] by (simp add: drop_bit_eq_div)
    moreover have "readSize maxSize r
        = handleReadMaxSize (push_bit 8 (?h AND 0x7F) OR (sz mod 256)) maxSize r2"
      unfolding readSize_def r1(1) Let_def prod.case r2(1) by (simp add: h(1,3))
    ultimately show ?thesis using r2(2,3) assms(4) by (simp add: h(1,4)) (simp add: handleReadMaxSize_def)
  next
    case four
    let ?h = "drop_bit 24 sz OR 0xC0"
    note k = size_div(2)[OF assms(3)]
    note h = high_byte[OF k]
    have rem: "remaining r = le_bytes 1 ?h @ le_bytes 1 (drop_bit 16 sz mod 256)
        @ le_bytes 2 (sz mod 65536) @ rest"
      using assms(2) four by (simp add: size_bytes_def)
    obtain r1 where r1: "get_word 1 r = (?h, r1)" "reader_ok r1"
      "remaining r1 = le_bytes 1 (drop_bit 16 sz mod 256) @ le_bytes 2 (sz mod 65536) @ rest"
      using get_word_ok[OF assms(1) rem] k by (auto simp: h(2))
    obtain r2 where r2: "get_word 1 r1 = (drop_bit 16 sz mod 256, r2)" "reader_ok r2"
      "remaining r2 = le_bytes 2 (sz mod 65536) @ rest"
      using get_word_ok[OF r1(2,3)] by auto
    obtain r3 where r3: "get_word 2 r2 = (sz mod 65536, r3)" "reader_ok r3" "remaining r3 = rest"
      using get_word_ok[OF r2(2,3)] by auto
    have "push_bit 8 (drop_bit 24 sz) OR (drop_bit 16 sz mod 256) = drop_bit 16 sz"
      using push_bit_or[of "drop_bit 16 sz mod 256" 8 "drop_bit 24 sz"]
      by (simp add: drop_bit_eq_div div_mult2_eq[of sz 65536 256, simplified])
    moreover have "push_bit 16 (drop_bit 16 sz) OR (sz mod 65536) = sz"
      using push_bit_or[of "sz mod 65536" 16 "drop_bit 16 sz"] by (simp add: drop_bit_eq_div)
    moreover have "readSize maxSize r = handleReadMaxSize
        (push_bit 16 (push_bit 8 (?h AND 0x3F) OR (drop_bit 16 sz mod 256)) OR (sz mod 65536)) maxSize r3"
      unfolding readSize_def r1(1) Let_def prod.case r2(1) r3(1)
      by (simp add: h(2,5))
    ultimately have "readSize maxSize r = handleReadMaxSize sz maxSize r3" unfolding h(2,6) by metis
    then show ?thesis using r3(2,3) assms(4) by (simp add: handleReadMaxSize_def)
  qed
qed

section \<open>Encoders and decoders\<close>

text \<open>A \<open>get\<close> is given the object it fills, as \<open>deserialize\<close> is. The locale is the contract of a
  pair: the encoder appends the bytes of the value, the decoder reads them and nothing else.\<close>

locale codec =
  fixes put :: "'a \<Rightarrow> writer \<Rightarrow> fault + writer"
    and get :: "'a \<Rightarrow> reader \<Rightarrow> fault + ('a \<times> reader)"
    and enc :: "'a \<Rightarrow> bytes"
    and ok :: "'a \<Rightarrow> bool"
  assumes put_ok: "ok x \<Longrightarrow> writer_ok w \<Longrightarrow>
      \<exists>w'. put x w = Inr w' \<and> written w' = written w @ enc x \<and> writer_ok w'"
    and get_ok: "ok x \<Longrightarrow> reader_ok r \<Longrightarrow> remaining r = enc x @ rest \<Longrightarrow>
      \<exists>r'. get old r = Inr (x, r') \<and> reader_ok r' \<and> remaining r' = rest"

text \<open>\<open>Serializator::serialize\<close>: the buffer and the number of bytes written into it. The reader of
  \<open>deserialize\<close> must not be given more bytes than the buffer has.\<close>

definition serialize ::
    "(nat \<Rightarrow> nat) \<Rightarrow> ('a \<Rightarrow> writer \<Rightarrow> fault + writer) \<Rightarrow> bytes \<Rightarrow> 'a \<Rightarrow> fault + (bytes \<times> nat)" where
  "serialize capacity put buffer thing =
     (let start = (if buffer = [] then increaseBufferSize capacity buffer else buffer)
      in bindE (put thing \<lparr>w_buffer = start, w_off = 0, w_capacity = capacity\<rparr>)
           (\<lambda>w. Inr (w_buffer w, w_off w)))"

definition deserialize ::
    "('a \<Rightarrow> reader \<Rightarrow> fault + ('a \<times> reader)) \<Rightarrow> bytes \<Rightarrow> 'a \<Rightarrow> nat \<Rightarrow> fault + (bool \<times> 'a)" where
  "deserialize get buffer to sz =
     (if length buffer < sz then Inl OutOfRange
      else bindE (get to \<lparr>r_buffer = buffer, r_off = 0, r_end = sz, r_size = sz\<rparr>)
             (\<lambda>(thing, r). Inr (reader_error r = error_code NoError \<and> isCompletedSuccessfully r, thing)))"

context codec
begin

lemma serialize_enc:
  assumes "ok x"
  shows "\<exists>buf sz. serialize cap put buffer x = Inr (buf, sz)
    \<and> sz \<le> length buf \<and> take sz buf = enc x"
proof -
  let ?w = "\<lparr>w_buffer = (if buffer = [] then increaseBufferSize cap buffer else buffer),
    w_off = 0, w_capacity = cap\<rparr>"
  have "writer_ok ?w" "written ?w = []" by (simp_all add: writer_ok_def written_def)
  then obtain w' where "put x ?w = Inr w'" "written w' = enc x" "writer_ok w'"
    using put_ok[OF assms] by fastforce
  then show ?thesis by (auto simp: serialize_def Let_def written_def writer_ok_def)
qed

lemma deserialize_enc:
  assumes "ok x" "sz \<le> length buf" "take sz buf = enc x"
  shows "deserialize get buf old sz = Inr (True, x)"
proof -
  let ?r = "\<lparr>r_buffer = buf, r_off = 0, r_end = sz, r_size = sz\<rparr>"
  have "reader_ok ?r" "remaining ?r = enc x @ []"
    using assms by (simp_all add: reader_ok_def remaining_def)
  then obtain r' where r': "get old ?r = Inr (x, r')" "reader_ok r'" "remaining r' = []"
    using get_ok[OF assms(1)] by blast
  then have "r_off r' = r_size r'" by (auto simp: reader_ok_def remaining_def)
  with r' assms(2) show ?thesis
    by (simp add: deserialize_def reader_error_def isCompletedSuccessfully_def reader_ok_def error_code_def)
qed

lemma round_trip:
  assumes "ok x"
  shows "\<exists>buf sz. serialize cap put buffer x = Inr (buf, sz)
    \<and> deserialize get buf old sz = Inr (True, x)"
  using serialize_enc[OF assms] deserialize_enc[OF assms] by blast

end

end
