(* ===== verification/Serialization.thy ===== *)
theory Serialization
  imports Bitsery
begin

text \<open>
  The \<open>serialize\<close> functions of \<open>include/utils/attribute_serialization.h\<close>, each read once as an
  encoder and once as a decoder, and the round trip of every kind of attribute. Identifiers have
  an encoder and a decoder too, but the decoder reads into a copy.
\<close>

section \<open>Values of fixed width\<close>

definition put_value :: "nat \<Rightarrow> 'a::len word \<Rightarrow> writer \<Rightarrow> fault + writer" where
  "put_value n x w = Inr (put_word n (unat x) w)"

definition get_value :: "nat \<Rightarrow> 'a::len word \<Rightarrow> reader \<Rightarrow> fault + ('a word \<times> reader)" where
  "get_value n old r = (let (v, r') = get_word n r in Inr (of_nat v, r'))"

lemma codec_value:
  assumes "LENGTH('a::len) = 8 * n"
  shows "codec (put_value n :: 'a word \<Rightarrow> _) (get_value n) (\<lambda>x. le_bytes n (unat x)) (\<lambda>_. True)"
proof
  fix x :: "'a word" and w assume "writer_ok w"
  then show "\<exists>w'. put_value n x w = Inr w' \<and> written w' = written w @ le_bytes n (unat x) \<and> writer_ok w'"
    by (simp add: put_value_def put_word_written)
next
  fix x old :: "'a word" and r rest
  assume r: "reader_ok r" "remaining r = le_bytes n (unat x) @ rest"
  have "unat x < 2 ^ (8 * n)" using unsigned_less[of x] assms by simp
  then have "unat x < 256 ^ n" by (simp add: power_mult)
  from get_word_ok[OF r this]
  show "\<exists>r'. get_value n old r = Inr (x, r') \<and> reader_ok r' \<and> remaining r' = rest"
    by (auto simp: get_value_def)
qed

interpretation float_codec: codec "put_value 4 :: f32 \<Rightarrow> _" "get_value 4" "\<lambda>x. le_bytes 4 (unat x)" "\<lambda>_. True"
  by (rule codec_value) simp

section \<open>Coordinates and radii\<close>

definition put_coord :: "coord \<Rightarrow> writer \<Rightarrow> fault + writer" where
  "put_coord c w = bindE (put_value 4 (cx c) w) (\<lambda>w. bindE (put_value 4 (cy c) w) (put_value 4 (cz c)))"

definition get_coord :: "coord \<Rightarrow> reader \<Rightarrow> fault + (coord \<times> reader)" where
  "get_coord old r = bindE (get_value 4 (cx old) r) (\<lambda>(x, r). bindE (get_value 4 (cy old) r) (\<lambda>(y, r).
     bindE (get_value 4 (cz old) r) (\<lambda>(z, r). Inr (\<lparr>cx = x, cy = y, cz = z\<rparr>, r))))"

definition coord_bytes :: "coord \<Rightarrow> bytes" where
  "coord_bytes c = le_bytes 4 (unat (cx c)) @ le_bytes 4 (unat (cy c)) @ le_bytes 4 (unat (cz c))"

interpretation coord_codec: codec put_coord get_coord coord_bytes "\<lambda>_. True"
proof
  fix c :: coord and w assume "writer_ok w"
  then show "\<exists>w'. put_coord c w = Inr w' \<and> written w' = written w @ coord_bytes c \<and> writer_ok w'"
    by (simp add: put_coord_def put_value_def put_word_written coord_bytes_def)
next
  fix c old :: coord and r rest assume r: "reader_ok r" "remaining r = coord_bytes c @ rest"
  have rem: "remaining r = le_bytes 4 (unat (cx c)) @ le_bytes 4 (unat (cy c)) @ le_bytes 4 (unat (cz c)) @ rest"
    using r(2) by (simp add: coord_bytes_def)
  obtain r1 where r1: "get_value 4 (cx old) r = Inr (cx c, r1)" "reader_ok r1"
    "remaining r1 = le_bytes 4 (unat (cy c)) @ le_bytes 4 (unat (cz c)) @ rest"
    using float_codec.get_ok[OF TrueI r(1) rem] by blast
  obtain r2 where r2: "get_value 4 (cy old) r1 = Inr (cy c, r2)" "reader_ok r2"
    "remaining r2 = le_bytes 4 (unat (cz c)) @ rest"
    using float_codec.get_ok[OF TrueI r1(2,3)] by blast
  obtain r3 where r3: "get_value 4 (cz old) r2 = Inr (cz c, r3)" "reader_ok r3" "remaining r3 = rest"
    using float_codec.get_ok[OF TrueI r2(2,3)] by blast
  show "\<exists>r'. get_coord old r = Inr (c, r') \<and> reader_ok r' \<and> remaining r' = rest"
    by (simp add: get_coord_def r1 r2 r3)
qed

text \<open>The radius is read through the reference \<open>magnitude()\<close> returns: its sign is not checked.\<close>

definition put_radius :: "radius \<Rightarrow> writer \<Rightarrow> fault + writer" where
  "put_radius r = put_value 4 (magnitude r)"

definition get_radius :: "radius \<Rightarrow> reader \<Rightarrow> fault + (radius \<times> reader)" where
  "get_radius old r = bindE (get_value 4 (magnitude old) r) (\<lambda>(m, r). Inr (old\<lparr>magnitude := m\<rparr>, r))"

interpretation radius_codec: codec put_radius get_radius "\<lambda>r. le_bytes 4 (unat (magnitude r))" "\<lambda>_. True"
proof
  fix x old :: radius and r rest
  assume "reader_ok r" "remaining r = le_bytes 4 (unat (magnitude x)) @ rest"
  then obtain r' where "get_value 4 (magnitude old) r = Inr (magnitude x, r')" "reader_ok r'" "remaining r' = rest"
    using float_codec.get_ok[OF TrueI] by blast
  then show "\<exists>r'. get_radius old r = Inr (x, r') \<and> reader_ok r' \<and> remaining r' = rest"
    by (simp add: get_radius_def)
qed (simp add: put_radius_def float_codec.put_ok)

section \<open>Set operations\<close>

text \<open>The enumeration has the underlying type \<open>int\<close>. A number without an enumerator would give an
  object that is neither operation; the model stops there.\<close>

definition setop_number :: "SetOperationType \<Rightarrow> 32 word" where
  "setop_number t = (case t of Union_op \<Rightarrow> 0 | Intersection_op \<Rightarrow> 1)"

definition put_setop :: "SetOperationType \<Rightarrow> writer \<Rightarrow> fault + writer" where
  "put_setop t = put_value 4 (setop_number t)"

definition get_setop :: "SetOperationType \<Rightarrow> reader \<Rightarrow> fault + (SetOperationType \<times> reader)" where
  "get_setop old r = bindE (get_value 4 (0 :: 32 word) r) (\<lambda>(v, r).
     if v = 0 then Inr (Union_op, r) else if v = 1 then Inr (Intersection_op, r) else Inl Unassigned)"

interpretation setop_codec: codec put_setop get_setop "\<lambda>t. le_bytes 4 (unat (setop_number t))" "\<lambda>_. True"
proof
  fix t old r rest
  assume "reader_ok r" "remaining r = le_bytes 4 (unat (setop_number t)) @ rest"
  then obtain r' where "get_value 4 (0 :: 32 word) r = Inr (setop_number t, r')" "reader_ok r'" "remaining r' = rest"
    using float_codec.get_ok[OF TrueI] by blast
  then show "\<exists>r'. get_setop old r = Inr (t, r') \<and> reader_ok r' \<and> remaining r' = rest"
    by (cases t) (simp_all add: get_setop_def setop_number_def)
qed (simp add: put_setop_def float_codec.put_ok)

section \<open>Texts and names\<close>

definition byte_of_char :: "char \<Rightarrow> 8 word" where
  "byte_of_char c = of_nat (of_char c)"

definition char_of_byte :: "8 word \<Rightarrow> char" where
  "char_of_byte b = char_of (unat b)"

lemma char_of_byte_of_char [simp]: "char_of_byte (byte_of_char c) = c"
  using nat_of_char_less_256[of c] by (simp add: char_of_byte_def byte_of_char_def unat_of_nat)

definition put_text :: "nat \<Rightarrow> string \<Rightarrow> writer \<Rightarrow> fault + writer" where
  "put_text maxSize str w =
     (if maxSize < length str then Inl AssertFailed
      else bindE (writeSize (length str) w) (\<lambda>w. Inr (writeInternal (map byte_of_char str) w)))"

definition get_text :: "nat \<Rightarrow> string \<Rightarrow> reader \<Rightarrow> fault + (string \<times> reader)" where
  "get_text maxSize old r =
     (let (len, r1) = readSize maxSize r in
      if len = 0 then Inr ([], r1)
      else let (bs, r2) = readInternal len r1 in Inr (map char_of_byte bs, r2))"

definition text_bytes :: "string \<Rightarrow> bytes" where
  "text_bytes str = size_bytes (length str) @ map byte_of_char str"

lemma codec_text:
  assumes "maxSize < 0x40000000"
  shows "codec (put_text maxSize) (get_text maxSize) text_bytes (\<lambda>str. length str \<le> maxSize)"
proof
  fix str :: string and w assume "length str \<le> maxSize" "writer_ok w"
  then show "\<exists>w'. put_text maxSize str w = Inr w' \<and> written w' = written w @ text_bytes str \<and> writer_ok w'"
    using writeSize_written[of w "length str"] writeInternal_written assms
    by (fastforce simp: put_text_def text_bytes_def)
next
  fix str old :: string and r rest
  assume str: "length str \<le> maxSize" and r: "reader_ok r" "remaining r = text_bytes str @ rest"
  have rem: "remaining r = size_bytes (length str) @ map byte_of_char str @ rest"
    using r(2) by (simp add: text_bytes_def)
  obtain r1 where r1: "readSize maxSize r = (length str, r1)" "reader_ok r1"
    "remaining r1 = map byte_of_char str @ rest"
    using readSize_ok[OF r(1) rem] str assms by auto
  obtain r2 where "readInternal (length str) r1 = (map byte_of_char str, r2)" "reader_ok r2" "remaining r2 = rest"
    using readInternal_ok[OF r1(2,3)] by auto
  with r1 show "\<exists>r'. get_text maxSize old r = Inr (str, r') \<and> reader_ok r' \<and> remaining r' = rest"
    by (auto simp: get_text_def comp_def)
qed

definition put_name :: "name \<Rightarrow> writer \<Rightarrow> fault + writer" where
  "put_name n = put_text 1000 (name_value n)"

definition get_name :: "name \<Rightarrow> reader \<Rightarrow> fault + (name \<times> reader)" where
  "get_name old r = bindE (get_text 1000 (name_value old) r) (\<lambda>(str, r). Inr (\<lparr>name_value = str\<rparr>, r))"

interpretation name_text_codec: codec "put_text 1000" "get_text 1000" text_bytes "\<lambda>str. length str \<le> 1000"
  by (rule codec_text) simp

interpretation name_codec: codec put_name get_name "\<lambda>n. text_bytes (name_value n)" "\<lambda>n. length (name_value n) \<le> 1000"
proof
  fix x old :: name and r rest
  assume "length (name_value x) \<le> 1000" "reader_ok r" "remaining r = text_bytes (name_value x) @ rest"
  then obtain r' where "get_text 1000 (name_value old) r = Inr (name_value x, r')" "reader_ok r'" "remaining r' = rest"
    using name_text_codec.get_ok by blast
  then show "\<exists>r'. get_name old r = Inr (x, r') \<and> reader_ok r' \<and> remaining r' = rest"
    by (simp add: get_name_def)
qed (simp add: put_name_def name_text_codec.put_ok)

section \<open>Identifiers\<close>

text \<open>The loop over \<open>uid.data\<close> passes each byte by value, so that what is read never reaches the
  identifier.\<close>

definition put_id :: "ID \<Rightarrow> writer \<Rightarrow> fault + writer" where
  "put_id uid w = foldE (\<lambda>w byte. Inr (put_word 1 (nat byte) w)) w (uuid_data uid)"

definition get_id :: "ID \<Rightarrow> reader \<Rightarrow> fault + (ID \<times> reader)" where
  "get_id uid r = bindE (foldE (\<lambda>r byte. Inr (snd (get_word 1 r))) r (uuid_data uid)) (\<lambda>r. Inr (uid, r))"

lemma put_bytes_written:
  "writer_ok w \<Longrightarrow> \<forall>b \<in> set bs. 0 \<le> b \<and> b < 256 \<Longrightarrow>
   \<exists>w'. foldE (\<lambda>w byte. Inr (put_word 1 (nat byte) w) :: fault + writer) w bs = Inr w'
     \<and> written w' = written w @ map (of_nat \<circ> nat) bs \<and> writer_ok w'"
proof (induction bs arbitrary: w)
  case (Cons b bs)
  have "nat b mod 256 = nat b" using Cons.prems(2) by (intro mod_less) auto
  then have "written (put_word 1 (nat b) w) = written w @ [of_nat (nat b)]" "writer_ok (put_word 1 (nat b) w)"
    using put_word_written[OF Cons.prems(1), of 1 "nat b"] by simp_all
  with Cons.IH[of "put_word 1 (nat b) w"] Cons.prems(2) show ?case by auto
qed simp

lemma skip_bytes:
  "reader_ok r \<Longrightarrow> remaining r = bs @ rest \<Longrightarrow> length bs = length xs \<Longrightarrow>
   \<exists>r'. foldE (\<lambda>r x. Inr (snd (get_word 1 r)) :: fault + reader) r xs = Inr r' \<and> reader_ok r' \<and> remaining r' = rest"
proof (induction xs arbitrary: r bs)
  case (Cons x xs)
  then obtain b bs' where bs: "bs = b # bs'" by (cases bs) auto
  obtain r1 where "readInternal 1 r = ([b], r1)" "reader_ok r1" "remaining r1 = bs' @ rest"
    using readInternal_ok[OF Cons.prems(1), of "[b]" "bs' @ rest" 1] Cons.prems(2) by (auto simp: bs)
  with Cons.IH[of r1 bs'] Cons.prems(3) show ?case by (auto simp: get_word_def bs)
qed simp

lemma serialize_id:
  "\<exists>buf sz. serialize cap put_id buffer uid = Inr (buf, sz) \<and> sz \<le> length buf
     \<and> take sz buf = map (of_nat \<circ> nat) (uuid_data uid)"
proof -
  let ?w = "\<lparr>w_buffer = (if buffer = [] then increaseBufferSize cap buffer else buffer),
    w_off = 0, w_capacity = cap\<rparr>"
  have "writer_ok ?w" "written ?w = []" by (simp_all add: writer_ok_def written_def)
  then obtain w' where "put_id uid ?w = Inr w'" "written w' = map (of_nat \<circ> nat) (uuid_data uid)" "writer_ok w'"
    using put_bytes_written[of ?w "uuid_data uid"] uuid_data_range[of _ uid] by (auto simp: put_id_def)
  then show ?thesis by (auto simp: serialize_def Let_def written_def writer_ok_def)
qed

lemma deserialize_id:
  assumes "sz \<le> length buf" "length (take sz buf) = 16"
  shows "deserialize get_id buf old sz = Inr (True, old)"
proof -
  let ?r = "\<lparr>r_buffer = buf, r_off = 0, r_end = sz, r_size = sz\<rparr>"
  have "reader_ok ?r" "remaining ?r = take sz buf @ []"
    using assms(1) by (simp_all add: reader_ok_def remaining_def)
  then obtain r' where r': "foldE (\<lambda>r x. Inr (snd (get_word 1 r)) :: fault + reader) ?r (uuid_data old) = Inr r'"
    "reader_ok r'" "remaining r' = []"
    using skip_bytes[of ?r "take sz buf" "[]" "uuid_data old"] assms(2) by auto
  then have "r_off r' = r_size r'" by (auto simp: reader_ok_def remaining_def)
  moreover have "get_id old ?r = Inr (old, r')" unfolding get_id_def r'(1) by simp
  ultimately show ?thesis using r'(2) assms(1)
    by (simp add: deserialize_def reader_error_def isCompletedSuccessfully_def reader_ok_def error_code_def)
qed

section \<open>Properties\<close>

text \<open>C13: Every attribute survives being written and read back, whatever buffer it is written into
  and whatever object it is read into: coordinates, radii and set operations always, names up to
  the 1000 characters the format allows.\<close>

theorem attributes_round_trip:
  fixes capacity :: "nat \<Rightarrow> nat" and buffer :: bytes
  shows "(\<exists>buf n. serialize capacity put_coord buffer c = Inr (buf, n) \<and> deserialize get_coord buf c' n = Inr (True, c))
    \<and> (\<exists>buf n. serialize capacity put_radius buffer r = Inr (buf, n) \<and> deserialize get_radius buf r' n = Inr (True, r))
    \<and> (\<exists>buf n. serialize capacity put_setop buffer t = Inr (buf, n) \<and> deserialize get_setop buf t' n = Inr (True, t))
    \<and> (if length (name_value m) \<le> 1000
       then \<exists>buf n. serialize capacity put_name buffer m = Inr (buf, n) \<and> deserialize get_name buf m' n = Inr (True, m)
       else serialize capacity put_name buffer m = Inl AssertFailed)"
proof -
  have "serialize capacity put_name buffer m = Inl AssertFailed" if "\<not> length (name_value m) \<le> 1000"
    using that by (simp add: serialize_def put_name_def put_text_def)
  then show ?thesis
    using coord_codec.round_trip[OF TrueI] radius_codec.round_trip[OF TrueI] setop_codec.round_trip[OF TrueI]
      name_codec.round_trip by auto
qed

text \<open>C31: An identifier does not survive: its sixteen bytes are written, and reading them back
  reports success but leaves the identifier that was there before.\<close>

theorem identifiers_are_not_read:
  "\<exists>buf n. serialize capacity put_id buffer uid = Inr (buf, n)
    \<and> take n buf = map (of_nat \<circ> nat) (uuid_data uid)
    \<and> deserialize get_id buf old n = Inr (True, old)"
proof -
  obtain buf n where s: "serialize capacity put_id buffer uid = Inr (buf, n)" "n \<le> length buf"
    "take n buf = map (of_nat \<circ> nat) (uuid_data uid)"
    using serialize_id by blast
  have "length (take n buf) = 16" unfolding s(3) by simp
  from deserialize_id[OF s(2) this] s show ?thesis by blast
qed

end
