(* ===== verification/ColumnDb.thy ===== *)
theory ColumnDb
  imports Replication Serialization
begin

text \<open>
  The column store (\<open>include/db/ColumnDB.h\<close>, \<open>include/db/column\<close>,
  \<open>include/db/utils/crdt_utils.h\<close>): one table for all attributes, a row holding the number of its
  column, the serialized value in a blob and the number of bytes that count. A column is a template
  over the value type; here it is the record of what the template is instantiated with.
\<close>

section \<open>The attribute table\<close>

record attribute_row = row +
  colid :: nat
  attrib :: bytes
  attrib_size :: nat

datatype ColumnAttribute = Coordinate_column | Radius_column | Name_column | SetOperationType_column

definition to_underlying :: "ColumnAttribute \<Rightarrow> nat" where
  "to_underlying a = (case a of Coordinate_column \<Rightarrow> 0 | Radius_column \<Rightarrow> 1 | Name_column \<Rightarrow> 2
     | SetOperationType_column \<Rightarrow> 3)"

text \<open>The two statement templates of \<open>crdt_utils.h\<close>: those of the document database restricted
  to one column.\<close>

definition Column_CollectGarbage ::
    "ColumnAttribute \<Rightarrow> string \<Rightarrow> timestamp \<Rightarrow> attribute_row list \<Rightarrow> attribute_row list" where
  "Column_CollectGarbage a entity_id ts tbl =
     remove_from (\<lambda>r. colid r = to_underlying a \<and> timestamp r < ts
        \<and> (entity r = entity_id \<or> deleted r = is_deleted True)) tbl"

definition Column_LastWriterWinsTimestamp ::
    "ColumnAttribute \<Rightarrow> attribute_row list \<Rightarrow> string \<Rightarrow> timestamp option" where
  "Column_LastWriterWinsTimestamp a tbl entity_id =
     max_timestamp (filter (\<lambda>r. deleted r = is_deleted False \<and> colid r = to_underlying a
        \<and> entity r = entity_id) tbl)"

section \<open>Columns\<close>

record 'v column =
  col_attribute :: ColumnAttribute
  col_put :: "'v \<Rightarrow> writer \<Rightarrow> fault + writer"
  col_get :: "'v \<Rightarrow> reader \<Rightarrow> fault + ('v \<times> reader)"
  col_default :: 'v
  col_preferred :: "'v \<Rightarrow> 'v \<Rightarrow> 'v"

definition coordinate :: "coord column" where
  "coordinate = \<lparr>col_attribute = Coordinate_column, col_put = put_coord, col_get = get_coord,
     col_default = Coord_default, col_preferred = preferred_coord\<rparr>"

definition radius_column :: "radius column" where
  "radius_column = \<lparr>col_attribute = Radius_column, col_put = put_radius, col_get = get_radius,
     col_default = Radius_default, col_preferred = preferred_radius\<rparr>"

definition name_column :: "name column" where
  "name_column = \<lparr>col_attribute = Name_column, col_put = put_name, col_get = get_name,
     col_default = Name_default, col_preferred = preferred_name\<rparr>"

definition setOperationType :: "SetOperationType column" where
  "setOperationType = \<lparr>col_attribute = SetOperationType_column, col_put = put_setop,
     col_get = get_setop, col_default = Union_op, col_preferred = preferred_setop\<rparr>"

lemmas column_defs = coordinate_def radius_column_def name_column_def setOperationType_def

definition column_row ::
    "(nat \<Rightarrow> nat) \<Rightarrow> 'v column \<Rightarrow> ID \<Rightarrow> 'v \<Rightarrow> timestamp \<Rightarrow> bool \<Rightarrow> fault + attribute_row" where
  "column_row capacity C ent thing ts del =
     bindE (serialize capacity (col_put C) [] thing) (\<lambda>(buffer, sz). Inr
       \<lparr>deleted = is_deleted del, timestamp = ts, entity = to_string ent,
        colid = to_underlying (col_attribute C), attrib = buffer, attrib_size = sz\<rparr>)"

definition Column_upsert ::
    "(nat \<Rightarrow> nat) \<Rightarrow> 'v column \<Rightarrow> attribute_row list \<Rightarrow> ID \<Rightarrow> 'v \<Rightarrow> timestamp
      \<Rightarrow> fault + attribute_row list" where
  "Column_upsert capacity C tbl ent thing ts =
     bindE (column_row capacity C ent thing ts False) (\<lambda>r.
       Inr (insert_into r (Column_CollectGarbage (col_attribute C) (to_string ent) ts tbl)))"

definition Column_retract ::
    "(nat \<Rightarrow> nat) \<Rightarrow> 'v column \<Rightarrow> attribute_row list \<Rightarrow> ID \<Rightarrow> 'v \<Rightarrow> timestamp
      \<Rightarrow> fault + attribute_row list" where
  "Column_retract capacity C tbl ent thing ts =
     bindE (column_row capacity C ent thing ts True) (\<lambda>r.
       Inr (insert_into r (Column_CollectGarbage (col_attribute C) (to_string ent) ts tbl)))"

text \<open>A row is read into a fresh object; whether \<open>deserialize\<close> succeeded is not looked at.\<close>

definition read_row :: "'v column \<Rightarrow> attribute_row \<Rightarrow> fault + 'v" where
  "read_row C r = bindE (deserialize (col_get C) (attrib r) (col_default C) (attrib_size r))
     (\<lambda>(success, v). Inr v)"

text \<open>The order of the result set and the way \<open>std::reduce\<close> groups its operands are parameters.\<close>

definition Column_latest ::
    "(attribute_row list \<Rightarrow> attribute_row list) \<Rightarrow> (('v \<Rightarrow> 'v \<Rightarrow> 'v) \<Rightarrow> 'v list \<Rightarrow> 'v) \<Rightarrow> 'v column
      \<Rightarrow> attribute_row list \<Rightarrow> ID \<Rightarrow> fault + 'v option" where
  "Column_latest ord reduce C tbl ent =
     (let eid = to_string ent;
          result = ord (filter (\<lambda>r. deleted r = is_deleted False
            \<and> colid r = to_underlying (col_attribute C) \<and> entity r = eid
            \<and> Some (timestamp r) = Column_LastWriterWinsTimestamp (col_attribute C) tbl eid) tbl)
      in if result = [] then Inr None
         else bindE (mapE (read_row C) result) (\<lambda>results.
           Inr (Some (reduce (col_preferred C) (hd results # results)))))"

definition Column_newer_than ::
    "(attribute_row list \<Rightarrow> attribute_row list) \<Rightarrow> 'v column \<Rightarrow> attribute_row list \<Rightarrow> ID
      \<Rightarrow> timestamp \<Rightarrow> fault + 'v list" where
  "Column_newer_than ord C tbl ent ts =
     mapE (read_row C) (ord (filter (\<lambda>r. deleted r = is_deleted False
       \<and> colid r = to_underlying (col_attribute C) \<and> entity r = to_string ent \<and> ts < timestamp r) tbl))"

text \<open>The constructor: \<open>CREATE INDEX\<close> throws on an existing index.\<close>

definition ColumnDB :: "catalog \<Rightarrow> fault + catalog" where
  "ColumnDB cat = bindE (create_table cat ''attribute'') (\<lambda>c.
     foldE create_index c [''attribute_entity_index'', ''attribute_timestamp_index'', ''attribute_colid_index''])"

section \<open>Writes to a column and the rows of the column\<close>

definition rows_of :: "ColumnAttribute \<Rightarrow> attribute_row list \<Rightarrow> attribute_row list" where
  "rows_of a tbl = filter (\<lambda>r. colid r = to_underlying a) tbl"

lemma to_underlying_inj [simp]: "to_underlying a = to_underlying b \<longleftrightarrow> a = b"
  by (cases a; cases b) (simp_all add: to_underlying_def)

lemma column_row_fields:
  "column_row cap C ent v ts del = Inr r \<Longrightarrow> deleted r = is_deleted del \<and> timestamp r = ts
     \<and> entity r = to_string ent \<and> colid r = to_underlying (col_attribute C)"
  by (auto simp: column_row_def bindE_Inr_iff)

text \<open>On its own column a write is the garbage-collected write of the document database, on the
  other columns it is nothing.\<close>

lemma rows_of_write:
  assumes "column_row cap C ent v ts del = Inr r"
  shows "rows_of a (insert_into r (Column_CollectGarbage (col_attribute C) (to_string ent) ts tbl))
    = (if a = col_attribute C then write_row (rows_of a tbl) r else rows_of a tbl)"
proof -
  have "filter (\<lambda>q. colid q = to_underlying a) (Column_CollectGarbage b e ts tbl)
      = (if a = b then CRDTCollectGarbage e ts (rows_of a tbl) else rows_of a tbl)" for b e
    by (auto simp: Column_CollectGarbage_def CRDTCollectGarbage_def remove_from_def rows_of_def
        intro!: filter_cong)
  then show ?thesis using column_row_fields[OF assms]
    by (auto simp: rows_of_def insert_into_def write_row_def)
qed

lemma latest_rows_of_column:
  "filter (\<lambda>r. deleted r = is_deleted False \<and> colid r = to_underlying a \<and> entity r = eid
      \<and> Some (timestamp r) = Column_LastWriterWinsTimestamp a tbl eid) tbl
   = latest_rows (rows_of a tbl) eid"
proof -
  have "Column_LastWriterWinsTimestamp a tbl eid = LastWriterWinsTimestamp (rows_of a tbl) eid"
    by (simp add: Column_LastWriterWinsTimestamp_def LastWriterWinsTimestamp_def rows_of_def conj_ac)
  then show ?thesis by (auto simp: latest_rows_def rows_of_def intro!: filter_cong)
qed

section \<open>Histories\<close>

datatype column_op =
    UpsertCoordinate ID coord timestamp | RetractCoordinate ID coord timestamp
  | UpsertRadiusColumn ID radius timestamp | RetractRadiusColumn ID radius timestamp
  | UpsertNameColumn ID name timestamp | RetractNameColumn ID name timestamp
  | UpsertSetOperation ID SetOperationType timestamp | RetractSetOperation ID SetOperationType timestamp

fun apply_column_op ::
    "(nat \<Rightarrow> nat) \<Rightarrow> attribute_row list \<Rightarrow> column_op \<Rightarrow> fault + attribute_row list" where
  "apply_column_op cap tbl (UpsertCoordinate i v t) = Column_upsert cap coordinate tbl i v t"
| "apply_column_op cap tbl (RetractCoordinate i v t) = Column_retract cap coordinate tbl i v t"
| "apply_column_op cap tbl (UpsertRadiusColumn i v t) = Column_upsert cap radius_column tbl i v t"
| "apply_column_op cap tbl (RetractRadiusColumn i v t) = Column_retract cap radius_column tbl i v t"
| "apply_column_op cap tbl (UpsertNameColumn i v t) = Column_upsert cap name_column tbl i v t"
| "apply_column_op cap tbl (RetractNameColumn i v t) = Column_retract cap name_column tbl i v t"
| "apply_column_op cap tbl (UpsertSetOperation i v t) = Column_upsert cap setOperationType tbl i v t"
| "apply_column_op cap tbl (RetractSetOperation i v t) = Column_retract cap setOperationType tbl i v t"

definition run_column_ops ::
    "(nat \<Rightarrow> nat) \<Rightarrow> attribute_row list \<Rightarrow> column_op list \<Rightarrow> fault + attribute_row list" where
  "run_column_ops cap = foldE (apply_column_op cap)"

text \<open>The row an operation adds.\<close>

fun op_row :: "(nat \<Rightarrow> nat) \<Rightarrow> column_op \<Rightarrow> fault + attribute_row" where
  "op_row cap (UpsertCoordinate i v t) = column_row cap coordinate i v t False"
| "op_row cap (RetractCoordinate i v t) = column_row cap coordinate i v t True"
| "op_row cap (UpsertRadiusColumn i v t) = column_row cap radius_column i v t False"
| "op_row cap (RetractRadiusColumn i v t) = column_row cap radius_column i v t True"
| "op_row cap (UpsertNameColumn i v t) = column_row cap name_column i v t False"
| "op_row cap (RetractNameColumn i v t) = column_row cap name_column i v t True"
| "op_row cap (UpsertSetOperation i v t) = column_row cap setOperationType i v t False"
| "op_row cap (RetractSetOperation i v t) = column_row cap setOperationType i v t True"

lemma apply_column_op_row:
  assumes "apply_column_op cap tbl p = Inr tbl'"
  shows "\<exists>r. op_row cap p = Inr r \<and>
    rows_of a tbl' = (if colid r = to_underlying a then write_row (rows_of a tbl) r else rows_of a tbl)"
proof -
  have up: "\<exists>r. column_row cap C i v t False = Inr r \<and> rows_of a tbl'
      = (if colid r = to_underlying a then write_row (rows_of a tbl) r else rows_of a tbl)"
    if "Column_upsert cap C tbl i v t = Inr tbl'" for C :: "'v column" and i v t
    using that rows_of_write[of cap C i v t False _ a tbl] column_row_fields[of cap C i v t False]
    by (auto simp: Column_upsert_def bindE_Inr_iff)
  have re: "\<exists>r. column_row cap C i v t True = Inr r \<and> rows_of a tbl'
      = (if colid r = to_underlying a then write_row (rows_of a tbl) r else rows_of a tbl)"
    if "Column_retract cap C tbl i v t = Inr tbl'" for C :: "'w column" and i v t
    using that rows_of_write[of cap C i v t True _ a tbl] column_row_fields[of cap C i v t True]
    by (auto simp: Column_retract_def bindE_Inr_iff)
  show ?thesis using assms by (cases p) (simp_all add: up re)
qed

lemma run_column_rows:
  "run_column_ops cap tbl h = Inr tbl' \<Longrightarrow>
   \<exists>rs. mapE (op_row cap) h = Inr rs \<and> rows_of a tbl' = foldl write_row (rows_of a tbl) (rows_of a rs)"
proof (induction h arbitrary: tbl)
  case (Cons p h)
  then obtain t1 where t1: "apply_column_op cap tbl p = Inr t1" "run_column_ops cap t1 h = Inr tbl'"
    by (auto simp: run_column_ops_def bindE_Inr_iff)
  obtain rs where "mapE (op_row cap) h = Inr rs" "rows_of a tbl' = foldl write_row (rows_of a t1) (rows_of a rs)"
    using Cons.IH[OF t1(2)] by blast
  with apply_column_op_row[OF t1(1), of a] show ?case by (auto simp: rows_of_def)
qed (simp add: run_column_ops_def rows_of_def)

lemma mapE_Inr_set: "mapE f xs = Inr ys \<Longrightarrow> set ys = {y. \<exists>x \<in> set xs. f x = Inr y}"
  by (induction xs arbitrary: ys) (auto simp: bindE_Inr_iff)

section \<open>What a lookup returns\<close>

text \<open>A column whose values survive serialization and whose preference picks one of its arguments.
  A row of the column is written by one value and read back as that value.\<close>

definition reduces :: "('a \<Rightarrow> 'a \<Rightarrow> 'a) \<Rightarrow> (('a \<Rightarrow> 'a \<Rightarrow> 'a) \<Rightarrow> 'a list \<Rightarrow> 'a) \<Rightarrow> bool" where
  "reduces f reduce \<longleftrightarrow> (\<forall>xs. xs \<noteq> [] \<longrightarrow> gsum f xs (reduce f xs))"

locale column_laws =
  fixes C :: "'v column"
    and enc :: "'v \<Rightarrow> bytes"
    and ok :: "'v \<Rightarrow> bool"
  assumes column_codec: "codec (col_put C) (col_get C) enc ok"
    and put_checks: "col_put C v w = Inr w' \<Longrightarrow> ok v"
begin

lemma read_written:
  assumes "column_row cap C i v t d = Inr r"
  shows "read_row C r = Inr v"
proof -
  from assms obtain buf n where s: "serialize cap (col_put C) [] v = Inr (buf, n)"
    and r: "attrib r = buf" "attrib_size r = n"
    by (auto simp: column_row_def bindE_Inr_iff)
  have "ok v" using s put_checks by (auto simp: serialize_def bindE_Inr_iff)
  from codec.round_trip[OF column_codec this, of cap "[]" "col_default C"] s
  show ?thesis by (auto simp: read_row_def r)
qed

lemma written_row:
  "column_row cap C i v t d = Inr r \<Longrightarrow> read_row C r = Inr v \<and> deleted r = is_deleted d
     \<and> timestamp r = t \<and> entity r = to_string i \<and> colid r = to_underlying (col_attribute C)"
  using read_written[of cap i v t d r] column_row_fields[of cap C i v t d r] by simp

lemma latest_gsum:
  assumes "reorders ord" "reduces (col_preferred C) reduce"
    and val: "\<And>r. r \<in> set (rows_of (col_attribute C) tbl) \<Longrightarrow> read_row C r = Inr (val r)"
  shows "Column_latest ord reduce C tbl e =
      Inr (if latest_rows (rows_of (col_attribute C) tbl) (to_string e) = [] then None
           else Some (reduce (col_preferred C)
             (let vs = map val (ord (latest_rows (rows_of (col_attribute C) tbl) (to_string e))) in hd vs # vs)))"
proof -
  let ?rows = "latest_rows (rows_of (col_attribute C) tbl) (to_string e)"
  have "set (ord ?rows) \<subseteq> set (rows_of (col_attribute C) tbl)"
    unfolding reorders_set[OF assms(1)] by (auto simp: latest_rows_def)
  then have "mapE (read_row C) (ord ?rows) = Inr (map val (ord ?rows))"
    by (intro mapE_Inr val) blast
  then show ?thesis
    unfolding Column_latest_def Let_def latest_rows_of_column
    by (simp add: reorders_Nil_iff[OF assms(1)])
qed

end

definition row_value :: "'v column \<Rightarrow> attribute_row \<Rightarrow> 'v" where
  "row_value C r = (case read_row C r of Inr v \<Rightarrow> v | Inl _ \<Rightarrow> col_default C)"

lemma row_value_Inr [simp]: "read_row C r = Inr v \<Longrightarrow> row_value C r = v"
  by (simp add: row_value_def)

lemma column_histories:
  assumes "run_column_ops cap [] h1 = Inr t1" "run_column_ops cap [] h2 = Inr t2" "set h1 = set h2"
  shows "\<exists>rs1 rs2. rows_of a t1 = foldl write_row [] rs1 \<and> rows_of a t2 = foldl write_row [] rs2
    \<and> set rs1 = set rs2 \<and> (\<forall>r \<in> set rs1. \<exists>p \<in> set h1. op_row cap p = Inr r \<and> colid r = to_underlying a)"
proof -
  obtain rs1 where 1: "mapE (op_row cap) h1 = Inr rs1" "rows_of a t1 = foldl write_row [] (rows_of a rs1)"
    using run_column_rows[OF assms(1), of a] by (auto simp: rows_of_def)
  obtain rs2 where 2: "mapE (op_row cap) h2 = Inr rs2" "rows_of a t2 = foldl write_row [] (rows_of a rs2)"
    using run_column_rows[OF assms(2), of a] by (auto simp: rows_of_def)
  have "set (rows_of a rs1) = set (rows_of a rs2)"
    using mapE_Inr_set[OF 1(1)] mapE_Inr_set[OF 2(1)] assms(3) by (auto simp: rows_of_def)
  moreover have "\<forall>r \<in> set (rows_of a rs1). \<exists>p \<in> set h1. op_row cap p = Inr r \<and> colid r = to_underlying a"
    using mapE_Inr_set[OF 1(1)] by (auto simp: rows_of_def)
  ultimately show ?thesis using 1(2) 2(2) by blast
qed

text \<open>With a preference that is a strict order on the values, two stores that received the same
  writes, none of them a retraction, answer alike.\<close>

locale preferred_column = column_laws + preference "col_preferred C" rank valid
  for rank :: "'v \<Rightarrow> 'k::linorder" and valid
begin

lemma latest_agrees:
  assumes "rows_of (col_attribute C) tbl1 = foldl write_row [] rs1" "rows_of (col_attribute C) tbl2 = foldl write_row [] rs2"
    and "set rs1 = set rs2"
    and written: "\<And>r. r \<in> set rs1 \<Longrightarrow> entity r = to_string e \<Longrightarrow> live r \<and> valid (val r)"
    and val: "\<And>r. r \<in> set rs1 \<Longrightarrow> read_row C r = Inr (val r)"
    and ords: "reorders ord1" "reorders ord2" "reduces (col_preferred C) red1" "reduces (col_preferred C) red2"
  shows "Column_latest ord1 red1 C tbl1 e = Column_latest ord2 red2 C tbl2 e"
proof -
  define L1 where "L1 = latest_rows (rows_of (col_attribute C) tbl1) (to_string e)"
  define L2 where "L2 = latest_rows (rows_of (col_attribute C) tbl2) (to_string e)"
  have same: "set L1 = set L2"
    unfolding L1_def L2_def assms(1,2) by (rule latest_rows_order) (use written assms(3) in auto)
  have sub1: "set (rows_of (col_attribute C) tbl1) \<subseteq> set rs1"
    and sub2: "set (rows_of (col_attribute C) tbl2) \<subseteq> set rs1"
    using set_run_subset[of "[]" rs1] set_run_subset[of "[]" rs2] assms(1-3) by auto
  have l1: "Column_latest ord1 red1 C tbl1 e = Inr (if L1 = [] then None
      else Some (red1 (col_preferred C) (let vs = map val (ord1 L1) in hd vs # vs)))"
    unfolding L1_def by (rule latest_gsum[OF ords(1,3)]) (use val sub1 in blast)
  have l2: "Column_latest ord2 red2 C tbl2 e = Inr (if L2 = [] then None
      else Some (red2 (col_preferred C) (let vs = map val (ord2 L2) in hd vs # vs)))"
    unfolding L2_def by (rule latest_gsum[OF ords(2,4)]) (use val sub2 in blast)
  show ?thesis
  proof (cases "L1 = []")
    case True
    with same show ?thesis by (simp add: l1 l2)
  next
    case False
    let ?v1 = "map val (ord1 L1)" and ?v2 = "map val (ord2 L2)"
    have ne: "?v1 \<noteq> []" "?v2 \<noteq> []" "L2 \<noteq> []"
      using False same reorders_Nil_iff[OF ords(1), of L1] reorders_Nil_iff[OF ords(2), of L2] by auto
    have sets: "set (hd ?v1 # ?v1) = val ` set L1" "set (hd ?v2 # ?v2) = val ` set L2"
      using ne(1,2) hd_in_set[OF ne(1)] hd_in_set[OF ne(2)]
      by (auto simp: reorders_set[OF ords(1)] reorders_set[OF ords(2)] insert_absorb)
    have "\<forall>x \<in> val ` set L1. valid x"
      using written sub1 by (auto simp: L1_def set_latest_rows)
    then have "red1 (col_preferred C) (hd ?v1 # ?v1) = red2 (col_preferred C) (hd ?v2 # ?v2)"
      using ords(3,4) sets same by (intro gsum_unique[of "hd ?v1 # ?v1" _ "hd ?v2 # ?v2"]) (auto simp: reduces_def)
    then show ?thesis using False ne(3) by (simp add: l1 l2 Let_def)
  qed
qed

lemma histories_agree:
  assumes run: "run_column_ops cap [] h1 = Inr t1" "run_column_ops cap [] h2 = Inr t2" "set h1 = set h2"
    and writes: "\<And>p r. p \<in> set h1 \<Longrightarrow> op_row cap p = Inr r \<Longrightarrow> colid r = to_underlying (col_attribute C)
      \<Longrightarrow> \<exists>v. read_row C r = Inr v \<and> (entity r = to_string e \<longrightarrow> live r \<and> valid v)"
    and ords: "reorders ord1" "reorders ord2" "reduces (col_preferred C) red1" "reduces (col_preferred C) red2"
  shows "Column_latest ord1 red1 C t1 e = Column_latest ord2 red2 C t2 e"
proof -
  obtain rs1 rs2 where rs: "rows_of (col_attribute C) t1 = foldl write_row [] rs1"
    "rows_of (col_attribute C) t2 = foldl write_row [] rs2" "set rs1 = set rs2"
    and from_op: "\<forall>r \<in> set rs1. \<exists>p \<in> set h1. op_row cap p = Inr r \<and> colid r = to_underlying (col_attribute C)"
    using column_histories[OF run, of "col_attribute C"] by blast
  have row: "read_row C r = Inr (row_value C r)
      \<and> (entity r = to_string e \<longrightarrow> live r \<and> valid (row_value C r))" if r: "r \<in> set rs1" for r
  proof -
    obtain p where "p \<in> set h1" "op_row cap p = Inr r" "colid r = to_underlying (col_attribute C)"
      using from_op r by blast
    from writes[OF this] show ?thesis by auto
  qed
  show ?thesis
  proof (rule latest_agrees[OF rs _ _ ords])
    show "live r \<and> valid (row_value C r)" if "r \<in> set rs1" "entity r = to_string e" for r
      using row[OF that(1)] that(2) by blast
    show "read_row C r = Inr (row_value C r)" if "r \<in> set rs1" for r
      using row[OF that] by blast
  qed
qed

end

end
