(* ===== verification/ColumnProps.thy ===== *)
theory ColumnProps
  imports ColumnDb DatabaseProps
begin

text \<open>
  Properties of the column store: replicas that received the same writes answer alike, a
  retraction that overtakes an older write is forgotten, and the two stores of the program resolve
  ties differently.
\<close>

section \<open>A write and a newer retraction\<close>

text \<open>One write and one retraction of an entity, in both orders, and what a lookup returns after each.\<close>

definition after_both ::
    "(nat \<Rightarrow> nat) \<Rightarrow> (attribute_row list \<Rightarrow> attribute_row list) \<Rightarrow> (('v \<Rightarrow> 'v \<Rightarrow> 'v) \<Rightarrow> 'v list \<Rightarrow> 'v) \<Rightarrow> 'v column
      \<Rightarrow> attribute_row list \<Rightarrow> ID \<Rightarrow> 'v \<times> timestamp \<Rightarrow> 'v \<times> timestamp
      \<Rightarrow> (fault + 'v option) \<times> (fault + 'v option)" where
  "after_both cap ord reduce C tbl i = (\<lambda>(v, t) (w, t').
     (bindE (bindE (Column_upsert cap C tbl i v t) (\<lambda>tbl1. Column_retract cap C tbl1 i w t'))
        (\<lambda>tbl1. Column_latest ord reduce C tbl1 i),
      bindE (bindE (Column_retract cap C tbl i w t') (\<lambda>tbl1. Column_upsert cap C tbl1 i v t))
        (\<lambda>tbl1. Column_latest ord reduce C tbl1 i)))"

lemma gsum_same: "gsum f xs r \<Longrightarrow> f v v = v \<Longrightarrow> set xs \<subseteq> {v} \<Longrightarrow> r = v"
proof (induction rule: gsum.induct)
  case (gsum_split ys a zs b xs)
  have "set xs = set ys \<union> set zs" using gsum_split.hyps(3) by (metis set_mset_mset set_mset_union)
  with gsum_split show ?case by simp
qed simp

lemma latest_rows_snoc:
  assumes "\<forall>r \<in> set xs. \<not> (live r \<and> entity r = e)" "live q" "entity q = e"
  shows "latest_rows (xs @ [q]) e = [q]"
proof -
  have "LastWriterWinsTimestamp (xs @ [q]) e = Some (timestamp q)"
    using assms by (auto simp: LWW_Some_iff)
  moreover have "filter (\<lambda>r. live r \<and> entity r = e \<and> P r) xs = []" for P
    using assms(1) by (auto simp: filter_empty_conv)
  ultimately show ?thesis using assms(2,3) by (simp add: latest_rows_def)
qed

context column_laws
begin

lemma row_exists: "ok v \<Longrightarrow> \<exists>r. column_row cap C i v t d = Inr r"
  using codec.serialize_enc[OF column_codec, of v cap "[]"] by (auto simp: column_row_def)

lemma retraction_order:
  assumes "t < t'" "ok v" "ok w" "reorders ord" "reduces (col_preferred C) reduce" "col_preferred C v v = v"
    and old: "\<forall>r \<in> set (rows_of (col_attribute C) tbl). live r \<and> entity r = to_string i \<longrightarrow> timestamp r < t'"
  shows "after_both cap ord reduce C tbl i (v, t) (w, t') = (Inr None, Inr (Some v))"
proof -
  obtain q where q: "column_row cap C i v t False = Inr q" using row_exists[OF assms(2)] by blast
  obtain d where d: "column_row cap C i w t' True = Inr d" using row_exists[OF assms(3)] by blast
  note qf = written_row[OF q] and df = written_row[OF d]
  let ?a = "col_attribute C"
  let ?put = "\<lambda>r tbl. insert_into r (Column_CollectGarbage ?a (to_string i) (timestamp r) tbl)"
  have rows1: "rows_of ?a (?put d (?put q tbl)) = write_row (write_row (rows_of ?a tbl) q) d"
    and rows2: "rows_of ?a (?put q (?put d tbl)) = write_row (write_row (rows_of ?a tbl) d) q"
    using rows_of_write[OF q] rows_of_write[OF d] qf df by simp_all
  have none: "latest_rows (rows_of ?a (?put d (?put q tbl))) (to_string i) = []"
    using old assms(1) qf df unfolding rows1 latest_rows_Nil_iff
    by (auto simp: write_row_def insert_into_def CRDTCollectGarbage_def remove_from_def)
  have one: "latest_rows (rows_of ?a (?put q (?put d tbl))) (to_string i) = [q]"
  proof -
    define xs where "xs = CRDTCollectGarbage (entity q) (timestamp q) (write_row (rows_of ?a tbl) d)"
    have "\<not> (live r \<and> entity r = to_string i)" if "r \<in> set xs" for r
      using that old qf df
      by (auto simp: xs_def write_row_def insert_into_def CRDTCollectGarbage_def remove_from_def
          split: if_splits)
    then have "latest_rows (xs @ [q]) (to_string i) = [q]"
      using qf by (intro latest_rows_snoc) auto
    then show ?thesis unfolding rows2 by (simp add: write_row_def[of _ q] insert_into_def xs_def)
  qed
  have "reduce (col_preferred C) [v, v] = v"
    using assms(5,6) gsum_same[of "col_preferred C" "[v, v]" "reduce (col_preferred C) [v, v]" v]
    by (simp add: reduces_def)
  moreover have "Column_latest ord reduce C T i = (let result = ord (latest_rows (rows_of ?a T) (to_string i))
      in if result = [] then Inr None else bindE (mapE (read_row C) result) (\<lambda>results.
        Inr (Some (reduce (col_preferred C) (hd results # results)))))" for T
    unfolding Column_latest_def Let_def latest_rows_of_column ..
  ultimately show ?thesis using none one qf df q d assms(4)
    by (simp add: after_both_def Column_upsert_def Column_retract_def
        reorders_singleton reorders_Nil_iff)
qed

end

section \<open>The columns\<close>

interpretation coordinate_col: column_laws coordinate coord_bytes "\<lambda>_. True"
  by unfold_locales (simp_all add: coordinate_def coord_codec.put_ok coord_codec.get_ok)

interpretation radius_col: preferred_column radius_column "\<lambda>r. le_bytes 4 (unat (magnitude r))" "\<lambda>_. True"
    "\<lambda>r. f32_key (magnitude r)" radius_number
proof (intro preferred_column.intro column_laws.intro)
  show "codec (col_put radius_column) (col_get radius_column) (\<lambda>r. le_bytes 4 (unat (magnitude r))) (\<lambda>_. True)"
    by (simp add: radius_column_def radius_codec.codec_axioms)
  show "preference (col_preferred radius_column) (\<lambda>r. f32_key (magnitude r)) radius_number"
    by (simp add: radius_column_def radius_pref.preference_axioms)
qed simp

interpretation name_col: preferred_column name_column "\<lambda>n. text_bytes (name_value n)"
    "\<lambda>n. length (name_value n) \<le> 1000" name_value "\<lambda>_. True"
proof (intro preferred_column.intro column_laws.intro)
  show "codec (col_put name_column) (col_get name_column) (\<lambda>n. text_bytes (name_value n)) (\<lambda>n. length (name_value n) \<le> 1000)"
    by (simp add: name_column_def name_codec.codec_axioms)
  show "preference (col_preferred name_column) name_value (\<lambda>_. True)"
    by (simp add: name_column_def name_pref.preference_axioms)
qed (auto simp: name_column_def put_name_def put_text_def split: if_splits)

interpretation setop_col: preferred_column setOperationType "\<lambda>t. le_bytes 4 (unat (setop_number t))" "\<lambda>_. True"
    from_operationType "\<lambda>_. True"
proof (intro preferred_column.intro column_laws.intro)
  show "codec (col_put setOperationType) (col_get setOperationType) (\<lambda>t. le_bytes 4 (unat (setop_number t))) (\<lambda>_. True)"
    by (simp add: setOperationType_def setop_codec.codec_axioms)
  show "preference (col_preferred setOperationType) from_operationType (\<lambda>_. True)"
    by (simp add: setOperationType_def setop_pref.preference_axioms)
qed simp

lemma col_attribute_simps [simp]:
  "col_attribute coordinate = Coordinate_column" "col_attribute radius_column = Radius_column"
  "col_attribute name_column = Name_column" "col_attribute setOperationType = SetOperationType_column"
  by (simp_all add: column_defs)

lemma col_preferred_simps [simp]:
  "col_preferred radius_column = preferred_radius" "col_preferred name_column = preferred_name"
  "col_preferred setOperationType = preferred_setop"
  by (simp_all add: column_defs)

lemma preferred_same: "preferred_coord c c = c" "preferred_radius r r = r" "preferred_name n n = n"
  "preferred_setop p p = p"
  by (auto simp: preferred_coord_def preferred_radius_def preferred_name_def preferred_setop_def)

section \<open>Rows and the operations they come from\<close>

text \<open>The operations that keep the convergence of an entity: no retraction, no radius that is not
  a number.\<close>

fun only_writes :: "ID \<Rightarrow> column_op \<Rightarrow> bool" where
  "only_writes i (UpsertRadiusColumn j v t) = (i = j \<longrightarrow> radius_number v)"
| "only_writes i (RetractRadiusColumn j v t) = (i \<noteq> j)"
| "only_writes i (RetractNameColumn j v t) = (i \<noteq> j)"
| "only_writes i (RetractSetOperation j v t) = (i \<noteq> j)"
| "only_writes i p = True"

lemma op_row_radius:
  assumes "op_row cap p = Inr r" "colid r = to_underlying Radius_column"
  shows "\<exists>v. read_row radius_column r = Inr v
    \<and> (only_writes i p \<longrightarrow> entity r = to_string i \<longrightarrow> live r \<and> radius_number v)"
  using assms by (cases p) (auto dest!: radius_col.written_row name_col.written_row setop_col.written_row
      coordinate_col.written_row)

lemma op_row_name:
  assumes "op_row cap p = Inr r" "colid r = to_underlying Name_column"
  shows "\<exists>v. read_row name_column r = Inr v
    \<and> (only_writes i p \<longrightarrow> entity r = to_string i \<longrightarrow> live r)"
  using assms by (cases p) (auto dest!: radius_col.written_row name_col.written_row setop_col.written_row
      coordinate_col.written_row)

lemma op_row_setop:
  assumes "op_row cap p = Inr r" "colid r = to_underlying SetOperationType_column"
  shows "\<exists>v. read_row setOperationType r = Inr v
    \<and> (only_writes i p \<longrightarrow> entity r = to_string i \<longrightarrow> live r)"
  using assms by (cases p) (auto dest!: radius_col.written_row name_col.written_row setop_col.written_row
      coordinate_col.written_row)

section \<open>Properties\<close>

text \<open>C21: Two column stores that executed the same successful operations, in whatever order and
  however often, answer every lookup of a radius, a name and a set operation of an entity alike,
  however their engines order result sets and however \<open>std::reduce\<close> groups the values, if none of
  the operations retracts a value of the entity and its radii are numbers other than minus zero.\<close>

theorem columns_converge:
  assumes "run_column_ops cap [] h1 = Inr t1" "run_column_ops cap [] h2 = Inr t2" "set h1 = set h2"
    and "\<forall>p \<in> set h1. only_writes i p" "reorders ord1" "reorders ord2"
    and "reduces preferred_radius r1" "reduces preferred_radius r2" "reduces preferred_name n1"
    and "reduces preferred_name n2" "reduces preferred_setop s1" "reduces preferred_setop s2"
  shows "Column_latest ord1 r1 radius_column t1 i = Column_latest ord2 r2 radius_column t2 i
    \<and> Column_latest ord1 n1 name_column t1 i = Column_latest ord2 n2 name_column t2 i
    \<and> Column_latest ord1 s1 setOperationType t1 i = Column_latest ord2 s2 setOperationType t2 i"
proof (intro conjI)
  show "Column_latest ord1 r1 radius_column t1 i = Column_latest ord2 r2 radius_column t2 i"
  proof (rule radius_col.histories_agree[OF assms(1-3) _ assms(5,6)])
    show "\<exists>v. read_row radius_column r = Inr v \<and> (entity r = to_string i \<longrightarrow> live r \<and> radius_number v)"
      if "p \<in> set h1" "op_row cap p = Inr r" "colid r = to_underlying (col_attribute radius_column)" for p r
      using op_row_radius[OF that(2), of i] that(1,3) assms(4) by simp
  qed (use assms(7,8) in simp_all)
  show "Column_latest ord1 n1 name_column t1 i = Column_latest ord2 n2 name_column t2 i"
  proof (rule name_col.histories_agree[OF assms(1-3) _ assms(5,6)])
    show "\<exists>v. read_row name_column r = Inr v \<and> (entity r = to_string i \<longrightarrow> live r \<and> True)"
      if "p \<in> set h1" "op_row cap p = Inr r" "colid r = to_underlying (col_attribute name_column)" for p r
      using op_row_name[OF that(2), of i] that(1,3) assms(4) by simp
  qed (use assms(9,10) in simp_all)
  show "Column_latest ord1 s1 setOperationType t1 i = Column_latest ord2 s2 setOperationType t2 i"
  proof (rule setop_col.histories_agree[OF assms(1-3) _ assms(5,6)])
    show "\<exists>v. read_row setOperationType r = Inr v \<and> (entity r = to_string i \<longrightarrow> live r \<and> True)"
      if "p \<in> set h1" "op_row cap p = Inr r" "colid r = to_underlying (col_attribute setOperationType)" for p r
      using op_row_setop[OF that(2), of i] that(1,3) assms(4) by simp
  qed (use assms(11,12) in simp_all)
qed

text \<open>A left fold is one way to reduce.\<close>

definition left_fold :: "('v \<Rightarrow> 'v \<Rightarrow> 'v) \<Rightarrow> 'v list \<Rightarrow> 'v" where
  "left_fold f xs = foldl f (hd xs) (tl xs)"

lemma reduces_left_fold [simp]: "reduces f left_fold"
  by (simp add: reduces_def left_fold_def gsum_foldl)

lemma radius_row_exists:
  "\<exists>r. column_row cap radius_column i v t d = Inr r"
  using radius_codec.serialize_enc[OF TrueI, of cap "[]" v]
  by (auto simp: column_row_def radius_column_def)

lemma run_radius_upserts:
  "\<exists>tbl'. run_column_ops cap tbl [UpsertRadiusColumn i v t, UpsertRadiusColumn j w s] = Inr tbl'"
  using radius_row_exists[of cap i v t False] radius_row_exists[of cap j w s False]
  by (auto simp: run_column_ops_def Column_upsert_def)

theorem columns_converge_witness:
  "\<exists>t1 t2. run_column_ops (\<lambda>n. n) [] [UpsertRadiusColumn 1 \<lparr>magnitude = 0x3F800000\<rparr> 5,
        UpsertRadiusColumn 1 \<lparr>magnitude = 0x40000000\<rparr> 5] = Inr t1
    \<and> run_column_ops (\<lambda>n. n) [] [UpsertRadiusColumn 1 \<lparr>magnitude = 0x40000000\<rparr> 5,
        UpsertRadiusColumn 1 \<lparr>magnitude = 0x3F800000\<rparr> 5] = Inr t2
    \<and> Column_latest rev left_fold radius_column t1 1 = Column_latest (\<lambda>xs. xs) left_fold radius_column t2 1"
proof -
  obtain t1 where 1: "run_column_ops (\<lambda>n. n) [] [UpsertRadiusColumn 1 \<lparr>magnitude = 0x3F800000\<rparr> 5,
      UpsertRadiusColumn 1 \<lparr>magnitude = 0x40000000\<rparr> 5] = Inr t1" using run_radius_upserts by blast
  obtain t2 where 2: "run_column_ops (\<lambda>n. n) [] [UpsertRadiusColumn 1 \<lparr>magnitude = 0x40000000\<rparr> 5,
      UpsertRadiusColumn 1 \<lparr>magnitude = 0x3F800000\<rparr> 5] = Inr t2" using run_radius_upserts by blast
  have n: "radius_number \<lparr>magnitude = 0x3F800000\<rparr>" "radius_number \<lparr>magnitude = 0x40000000\<rparr>"
    by code_simp+
  have "Column_latest rev left_fold radius_column t1 1 = Column_latest (\<lambda>xs. xs) left_fold radius_column t2 1
    \<and> Column_latest rev left_fold name_column t1 1 = Column_latest (\<lambda>xs. xs) left_fold name_column t2 1
    \<and> Column_latest rev left_fold setOperationType t1 1 = Column_latest (\<lambda>xs. xs) left_fold setOperationType t2 1"
    by (rule columns_converge[OF 1 2]) (auto simp: n)
  with 1 2 show ?thesis by blast
qed

text \<open>C32: Retractions are forgotten as soon as they are overtaken, in every column: when a write and a
  newer retraction of the same entity are executed in the order of their timestamps, a lookup
  finds nothing; when the retraction comes first, the lookup returns the value that was retracted.
  This holds on every table whose live values of the entity are older than the retraction, for
  timestamps below \<open>2 ^ 63\<close> (where the signed column agrees with the unsigned type), and for names
  short enough to be serialized.\<close>

theorem column_retraction_order:
  assumes "t < t'" "t' < 2 ^ 63" "reorders ord"
    and "\<forall>r \<in> set tbl. live r \<and> entity r = to_string i \<longrightarrow> timestamp r < t'"
    and "reduces preferred_coord sum_c" "reduces preferred_radius sum_r" "reduces preferred_name sum_n"
    and "reduces preferred_setop sum_o"
    and "length (name_value n) \<le> 1000" "length (name_value n') \<le> 1000"
  shows "after_both cap ord sum_c coordinate tbl i (c, t) (c', t') = (Inr None, Inr (Some c))
    \<and> after_both cap ord sum_r radius_column tbl i (r, t) (r', t') = (Inr None, Inr (Some r))
    \<and> after_both cap ord sum_n name_column tbl i (n, t) (n', t') = (Inr None, Inr (Some n))
    \<and> after_both cap ord sum_o setOperationType tbl i (p, t) (p', t') = (Inr None, Inr (Some p))"
proof -
  have old: "\<forall>r \<in> set (rows_of a tbl). live r \<and> entity r = to_string i \<longrightarrow> timestamp r < t'" for a
    using assms(4) by (simp add: rows_of_def)
  show ?thesis
    using assms(1,3,5-10) old coordinate_col.retraction_order[where t = t and t' = t' and v = c and w = c' and ord = ord and reduce = sum_c
        and tbl = tbl and i = i and cap = cap]
      radius_col.retraction_order[where t = t and t' = t' and v = r and w = r' and ord = ord and reduce = sum_r
        and tbl = tbl and i = i and cap = cap]
      name_col.retraction_order[where t = t and t' = t' and v = n and w = n' and ord = ord and reduce = sum_n
        and tbl = tbl and i = i and cap = cap]
      setop_col.retraction_order[where t = t and t' = t' and v = p and w = p' and ord = ord and reduce = sum_o
        and tbl = tbl and i = i and cap = cap]
    by (simp add: preferred_same coordinate_def)
qed

theorem column_retraction_order_witness:
  "after_both (\<lambda>n. n) rev left_fold radius_column [] 1 (\<lparr>magnitude = 0x3F800000\<rparr>, 5) (\<lparr>magnitude = 0\<rparr>, 6)
    = (Inr None, Inr (Some \<lparr>magnitude = 0x3F800000\<rparr>))
   \<and> after_both (\<lambda>n. n) rev left_fold name_column [] 1 (\<lparr>name_value = ''a''\<rparr>, 5) (\<lparr>name_value = ''a''\<rparr>, 6)
    = (Inr None, Inr (Some \<lparr>name_value = ''a''\<rparr>))"
proof -
  have "(5 :: timestamp) < 6" "(6 :: timestamp) < 2 ^ 63" by (simp_all add: word_less_nat_alt)
  from column_retraction_order[OF this, of rev "[]" 1 left_fold left_fold left_fold left_fold
      "\<lparr>name_value = ''a''\<rparr>" "\<lparr>name_value = ''a''\<rparr>" "\<lambda>n. n" Coord_default Coord_default
      "\<lparr>magnitude = 0x3F800000\<rparr>" "\<lparr>magnitude = 0\<rparr>" Union_op Union_op]
  show ?thesis by simp
qed

definition small :: radius where
  "small = \<lparr>magnitude = 0x3F800000\<rparr>"

definition large :: radius where
  "large = \<lparr>magnitude = 0x40000000\<rparr>"

lemma larger_radius:
  "f32_of_f64 0 = 0" "f32_of_f64 0x3FF0000000000000 = 0x3F800000" "f32_of_f64 0x4000000000000000 = 0x40000000"
  "f64_lt (f64_of_f32 0x3F800000) 0x4000000000000000" "\<not> f64_lt (f64_of_f32 0x3F800000) 0x3FF0000000000000"
  "f32_le 0 0x40000000"
  by code_simp+

lemma plain_orders: "order_radius plain_engine rs = rs" "order_coord plain_engine cs = cs"
  by (simp_all add: plain_engine_def)

text \<open>The two stores disagree on concurrent radii: of two radii written with one timestamp the
  document database reads the larger, the column store the smaller.\<close>

theorem stores_break_ties_differently:
  "\<exists>tbl db. run_column_ops (\<lambda>n. n) [] [UpsertRadiusColumn 1 small 5, UpsertRadiusColumn 1 large 5] = Inr tbl
    \<and> Column_latest (\<lambda>xs. xs) left_fold radius_column tbl 1 = Inr (Some small)
    \<and> run_ops plain_engine empty_database [Create 1 Sphere_type 9 5, UpsertCoord 1 (Coord 0 0 0) 5,
        UpsertRadius 1 small 5, UpsertRadius 1 large 5] = Inr db
    \<and> sphere plain_engine db 1 = Inr (Some (Sphere 1 (Coord 0 0 0) large))"
proof -
  obtain q where q: "column_row (\<lambda>n. n) radius_column 1 small 5 False = Inr q" using radius_row_exists by blast
  obtain p where p: "column_row (\<lambda>n. n) radius_column 1 large 5 False = Inr p" using radius_row_exists by blast
  obtain tbl where tbl: "run_column_ops (\<lambda>n. n) []
      [UpsertRadiusColumn 1 small 5, UpsertRadiusColumn 1 large 5] = Inr tbl"
    using run_radius_upserts by blast
  note qf = radius_col.written_row[OF q] and pf = radius_col.written_row[OF p]
  have rows: "rows_of Radius_column tbl = [q, p]"
    using run_column_rows[OF tbl, of Radius_column] q p qf pf
    by (auto simp: rows_of_def write_row_def CRDTCollectGarbage_def remove_from_def insert_into_def)
  have pick: "preferred_radius small small = small" "preferred_radius small large = small"
    unfolding small_def large_def by code_simp+
  have "read_row radius_column r = Inr (row_value radius_column r)"
    if "r \<in> set (rows_of (col_attribute radius_column) tbl)" for r
    using that qf pf by (auto simp: rows)
  note radius_col.latest_gsum[of "\<lambda>xs. xs" left_fold tbl "row_value radius_column" 1, OF reorders_id reduces_left_fold this]
  then have "Column_latest (\<lambda>xs. xs) left_fold radius_column tbl 1 = Inr (Some small)"
    using qf pf pick by (auto simp: rows latest_rows_def LastWriterWinsTimestamp_def max_timestamp_def left_fold_def)
  moreover have "\<exists>db. run_ops plain_engine empty_database [Create 1 Sphere_type 9 5, UpsertCoord 1 (Coord 0 0 0) 5,
        UpsertRadius 1 small 5, UpsertRadius 1 large 5] = Inr db
      \<and> sphere plain_engine db 1 = Inr (Some (Sphere 1 (Coord 0 0 0) large))"
    by (simp add: history_simps small_def large_def sphere_def plain_orders latest_rows_def Radius_def
        LastWriterWinsTimestamp_def max_timestamp_def farthest_coord_def row_coord_def max_radius_def larger_radius)
  ultimately show ?thesis using tbl by blast
qed

end
