(* ===== verification/Opcode.thy ===== *)
theory Opcode
  imports Attributes
begin

text \<open>
  The operations of the implicit-function kernel (\<open>thirdparty/libfive/tree/opcode.hpp\<close>,
  \<open>src/five/tree/opcode.cpp\<close>): their numbers, which saved files and the C interface use, their
  arity, their names, and the calls of \<open>src/five/libfive.cpp\<close> that look opcodes up.
\<close>

section \<open>The enumeration\<close>

datatype opcode =
    INVALID | CONSTANT | VAR_X | VAR_Y | VAR_Z | VAR_FREE | CONST_VAR
  | OP_SQUARE | OP_SQRT | OP_NEG | OP_SIN | OP_COS | OP_TAN | OP_ASIN | OP_ACOS | OP_ATAN | OP_EXP
  | OP_ADD | OP_MUL | OP_MIN | OP_MAX | OP_SUB | OP_DIV | OP_ATAN2 | OP_POW | OP_NTH_ROOT | OP_MOD
  | OP_NANFILL | OP_ABS | OP_RECIP | OP_LOG | OP_COMPARE | ORACLE | LAST_OP

text \<open>The constructors stand in the order of their numbers, so \<open>all_opcodes ! i\<close> is the cast
  \<open>Opcode(i)\<close>.\<close>

definition all_opcodes :: "opcode list" where
  "all_opcodes =
     [INVALID, CONSTANT, VAR_X, VAR_Y, VAR_Z, VAR_FREE, CONST_VAR,
      OP_SQUARE, OP_SQRT, OP_NEG, OP_SIN, OP_COS, OP_TAN, OP_ASIN, OP_ACOS, OP_ATAN, OP_EXP,
      OP_ADD, OP_MUL, OP_MIN, OP_MAX, OP_SUB, OP_DIV, OP_ATAN2, OP_POW, OP_NTH_ROOT, OP_MOD,
      OP_NANFILL, OP_ABS, OP_RECIP, OP_LOG, OP_COMPARE, ORACLE, LAST_OP]"

definition opcode_of :: "nat \<Rightarrow> opcode" where
  "opcode_of i = all_opcodes ! i"

fun index_of :: "'a \<Rightarrow> 'a list \<Rightarrow> nat" where
  "index_of x [] = 0"
| "index_of x (y # ys) = (if x = y then 0 else Suc (index_of x ys))"

definition opcode_number :: "opcode \<Rightarrow> nat" where
  "opcode_number op = index_of op all_opcodes"

lemma opcode_number_of [simp]: "opcode_of (opcode_number op) = op"
  by (cases op) (simp_all add: opcode_of_def opcode_number_def all_opcodes_def)

lemma opcode_number_less: "opcode_number op < 34"
  by (cases op) (simp_all add: opcode_number_def all_opcodes_def)

lemma opcode_number_valid: "op \<noteq> LAST_OP \<Longrightarrow> opcode_number op < 33"
  by (cases op) (simp_all add: opcode_number_def all_opcodes_def)

lemma in_all_opcodes [simp]: "op \<in> set all_opcodes"
  by (cases op) (simp_all add: all_opcodes_def)

section \<open>Arity\<close>

text \<open>The result type is \<open>size_t\<close>: the -1 of an invalid opcode is its largest value.\<close>

definition args :: "opcode \<Rightarrow> 64 word" where
  "args op = (case op of
     CONSTANT \<Rightarrow> 0 | VAR_X \<Rightarrow> 0 | VAR_Y \<Rightarrow> 0 | VAR_Z \<Rightarrow> 0 | VAR_FREE \<Rightarrow> 0 | ORACLE \<Rightarrow> 0
   | OP_SQUARE \<Rightarrow> 1 | OP_SQRT \<Rightarrow> 1 | OP_NEG \<Rightarrow> 1 | OP_SIN \<Rightarrow> 1 | OP_COS \<Rightarrow> 1 | OP_TAN \<Rightarrow> 1
   | OP_ASIN \<Rightarrow> 1 | OP_ACOS \<Rightarrow> 1 | OP_ATAN \<Rightarrow> 1 | OP_EXP \<Rightarrow> 1 | OP_ABS \<Rightarrow> 1 | OP_LOG \<Rightarrow> 1
   | OP_RECIP \<Rightarrow> 1 | CONST_VAR \<Rightarrow> 1
   | OP_ADD \<Rightarrow> 2 | OP_MUL \<Rightarrow> 2 | OP_MIN \<Rightarrow> 2 | OP_MAX \<Rightarrow> 2 | OP_SUB \<Rightarrow> 2 | OP_DIV \<Rightarrow> 2
   | OP_ATAN2 \<Rightarrow> 2 | OP_POW \<Rightarrow> 2 | OP_NTH_ROOT \<Rightarrow> 2 | OP_MOD \<Rightarrow> 2 | OP_NANFILL \<Rightarrow> 2
   | OP_COMPARE \<Rightarrow> 2
   | INVALID \<Rightarrow> - 1 | LAST_OP \<Rightarrow> - 1)"

section \<open>Names\<close>

text \<open>\<open>#s\<close> of the macro: the name of the enumerator as it is spelled.\<close>

definition opcode_spelling :: "opcode \<Rightarrow> string" where
  "opcode_spelling op = (case op of
     INVALID \<Rightarrow> ''INVALID'' | CONSTANT \<Rightarrow> ''CONSTANT'' | VAR_X \<Rightarrow> ''VAR_X'' | VAR_Y \<Rightarrow> ''VAR_Y''
   | VAR_Z \<Rightarrow> ''VAR_Z'' | VAR_FREE \<Rightarrow> ''VAR_FREE'' | CONST_VAR \<Rightarrow> ''CONST_VAR''
   | OP_SQUARE \<Rightarrow> ''OP_SQUARE'' | OP_SQRT \<Rightarrow> ''OP_SQRT'' | OP_NEG \<Rightarrow> ''OP_NEG'' | OP_SIN \<Rightarrow> ''OP_SIN''
   | OP_COS \<Rightarrow> ''OP_COS'' | OP_TAN \<Rightarrow> ''OP_TAN'' | OP_ASIN \<Rightarrow> ''OP_ASIN'' | OP_ACOS \<Rightarrow> ''OP_ACOS''
   | OP_ATAN \<Rightarrow> ''OP_ATAN'' | OP_EXP \<Rightarrow> ''OP_EXP'' | OP_ADD \<Rightarrow> ''OP_ADD'' | OP_MUL \<Rightarrow> ''OP_MUL''
   | OP_MIN \<Rightarrow> ''OP_MIN'' | OP_MAX \<Rightarrow> ''OP_MAX'' | OP_SUB \<Rightarrow> ''OP_SUB'' | OP_DIV \<Rightarrow> ''OP_DIV''
   | OP_ATAN2 \<Rightarrow> ''OP_ATAN2'' | OP_POW \<Rightarrow> ''OP_POW'' | OP_NTH_ROOT \<Rightarrow> ''OP_NTH_ROOT''
   | OP_MOD \<Rightarrow> ''OP_MOD'' | OP_NANFILL \<Rightarrow> ''OP_NANFILL'' | OP_ABS \<Rightarrow> ''OP_ABS''
   | OP_RECIP \<Rightarrow> ''OP_RECIP'' | OP_LOG \<Rightarrow> ''OP_LOG'' | OP_COMPARE \<Rightarrow> ''OP_COMPARE''
   | ORACLE \<Rightarrow> ''ORACLE'' | LAST_OP \<Rightarrow> ''LAST_OP'')"

definition starts_with :: "string \<Rightarrow> string \<Rightarrow> bool" where
  "starts_with input test \<longleftrightarrow> take (length test) input = test"

text \<open>The entry of \<open>opcode_names\<close> that \<open>buildNames\<close> fills in for an opcode of the table.\<close>

definition buildNames :: "opcode \<Rightarrow> string" where
  "buildNames op =
     (if starts_with (opcode_spelling op) ''OP_'' then drop 3 (opcode_spelling op)
      else opcode_spelling op)"

definition toString :: "opcode \<Rightarrow> string" where
  "toString op = (if op = LAST_OP then '''' else buildNames op)"

text \<open>\<open>to_lower\<close> in the C locale changes the ASCII capitals.\<close>

definition char_to_lower :: "char \<Rightarrow> char" where
  "char_to_lower ch =
     (let n = of_char ch :: nat in if 65 \<le> n \<and> n \<le> 90 then char_of (n + 32) else ch)"

definition toScmString :: "opcode \<Rightarrow> string" where
  "toScmString op =
     (if op = LAST_OP then ''''
      else map char_to_lower (map (\<lambda>ch. if ch = CHR ''_'' then CHR ''-'' else ch) (buildNames op)))"

definition scm_inverse :: "string \<Rightarrow> opcode option" where
  "scm_inverse = foldl (\<lambda>inverse i. inverse(toScmString (opcode_of i) \<mapsto> opcode_of i)) Map.empty [0..<33]"

definition fromScmString :: "string \<Rightarrow> opcode" where
  "fromScmString s =
     (case scm_inverse (map char_to_lower s) of Some op \<Rightarrow> op | None \<Rightarrow> INVALID)"

definition toOpString :: "opcode \<Rightarrow> string" where
  "toOpString op = (case op of
     VAR_X \<Rightarrow> ''x'' | VAR_Y \<Rightarrow> ''y'' | VAR_Z \<Rightarrow> ''z''
   | OP_ADD \<Rightarrow> ''+'' | OP_MUL \<Rightarrow> ''*'' | OP_NEG \<Rightarrow> ''-'' | OP_SUB \<Rightarrow> ''-''
   | OP_RECIP \<Rightarrow> ''/'' | OP_DIV \<Rightarrow> ''/''
   | INVALID \<Rightarrow> '''' | CONSTANT \<Rightarrow> '''' | ORACLE \<Rightarrow> '''' | LAST_OP \<Rightarrow> ''''
   | _ \<Rightarrow> toScmString op)"

definition isCommutative :: "opcode \<Rightarrow> bool" where
  "isCommutative op = (case op of OP_ADD \<Rightarrow> True | OP_MUL \<Rightarrow> True | OP_MIN \<Rightarrow> True | OP_MAX \<Rightarrow> True
     | _ \<Rightarrow> False)"

section \<open>The C interface\<close>

definition libfive_opcode_enum :: "string \<Rightarrow> int" where
  "libfive_opcode_enum op =
     (let opc = fromScmString op
      in if opc = INVALID \<or> opc = LAST_OP then - 1 else int (opcode_number opc))"

text \<open>The result is an \<open>int\<close>: the conversion of the \<open>size_t\<close> keeps the low 32 bits.\<close>

definition libfive_opcode_args :: "int \<Rightarrow> int" where
  "libfive_opcode_args op =
     (if 0 \<le> op \<and> op < 33 then sint (ucast (args (opcode_of (nat op))) :: 32 word) else - 1)"

definition opcode_is_valid :: "int \<Rightarrow> 64 word \<Rightarrow> bool" where
  "opcode_is_valid op expected_args \<longleftrightarrow>
     0 \<le> op \<and> op < 33 \<and> args (opcode_of (nat op)) = expected_args"

section \<open>The names are read back\<close>

definition scm_name :: "opcode \<Rightarrow> string" where
  "scm_name op = (case op of
     INVALID \<Rightarrow> ''invalid'' | CONSTANT \<Rightarrow> ''constant'' | VAR_X \<Rightarrow> ''var-x'' | VAR_Y \<Rightarrow> ''var-y''
   | VAR_Z \<Rightarrow> ''var-z'' | VAR_FREE \<Rightarrow> ''var-free'' | CONST_VAR \<Rightarrow> ''const-var''
   | OP_SQUARE \<Rightarrow> ''square'' | OP_SQRT \<Rightarrow> ''sqrt'' | OP_NEG \<Rightarrow> ''neg'' | OP_SIN \<Rightarrow> ''sin''
   | OP_COS \<Rightarrow> ''cos'' | OP_TAN \<Rightarrow> ''tan'' | OP_ASIN \<Rightarrow> ''asin'' | OP_ACOS \<Rightarrow> ''acos''
   | OP_ATAN \<Rightarrow> ''atan'' | OP_EXP \<Rightarrow> ''exp'' | OP_ADD \<Rightarrow> ''add'' | OP_MUL \<Rightarrow> ''mul''
   | OP_MIN \<Rightarrow> ''min'' | OP_MAX \<Rightarrow> ''max'' | OP_SUB \<Rightarrow> ''sub'' | OP_DIV \<Rightarrow> ''div''
   | OP_ATAN2 \<Rightarrow> ''atan2'' | OP_POW \<Rightarrow> ''pow'' | OP_NTH_ROOT \<Rightarrow> ''nth-root''
   | OP_MOD \<Rightarrow> ''mod'' | OP_NANFILL \<Rightarrow> ''nanfill'' | OP_ABS \<Rightarrow> ''abs''
   | OP_RECIP \<Rightarrow> ''recip'' | OP_LOG \<Rightarrow> ''log'' | OP_COMPARE \<Rightarrow> ''compare''
   | ORACLE \<Rightarrow> ''oracle'' | LAST_OP \<Rightarrow> '''')"



lemma char_to_lower_simps [simp]:
  "char_to_lower (CHR ''A'') = CHR ''a''"
  "char_to_lower (CHR ''B'') = CHR ''b''"
  "char_to_lower (CHR ''C'') = CHR ''c''"
  "char_to_lower (CHR ''D'') = CHR ''d''"
  "char_to_lower (CHR ''E'') = CHR ''e''"
  "char_to_lower (CHR ''F'') = CHR ''f''"
  "char_to_lower (CHR ''G'') = CHR ''g''"
  "char_to_lower (CHR ''H'') = CHR ''h''"
  "char_to_lower (CHR ''I'') = CHR ''i''"
  "char_to_lower (CHR ''J'') = CHR ''j''"
  "char_to_lower (CHR ''K'') = CHR ''k''"
  "char_to_lower (CHR ''L'') = CHR ''l''"
  "char_to_lower (CHR ''M'') = CHR ''m''"
  "char_to_lower (CHR ''N'') = CHR ''n''"
  "char_to_lower (CHR ''O'') = CHR ''o''"
  "char_to_lower (CHR ''P'') = CHR ''p''"
  "char_to_lower (CHR ''Q'') = CHR ''q''"
  "char_to_lower (CHR ''R'') = CHR ''r''"
  "char_to_lower (CHR ''S'') = CHR ''s''"
  "char_to_lower (CHR ''T'') = CHR ''t''"
  "char_to_lower (CHR ''U'') = CHR ''u''"
  "char_to_lower (CHR ''V'') = CHR ''v''"
  "char_to_lower (CHR ''W'') = CHR ''w''"
  "char_to_lower (CHR ''X'') = CHR ''x''"
  "char_to_lower (CHR ''Y'') = CHR ''y''"
  "char_to_lower (CHR ''Z'') = CHR ''z''"
  "char_to_lower (CHR ''a'') = CHR ''a''"
  "char_to_lower (CHR ''b'') = CHR ''b''"
  "char_to_lower (CHR ''c'') = CHR ''c''"
  "char_to_lower (CHR ''d'') = CHR ''d''"
  "char_to_lower (CHR ''e'') = CHR ''e''"
  "char_to_lower (CHR ''f'') = CHR ''f''"
  "char_to_lower (CHR ''g'') = CHR ''g''"
  "char_to_lower (CHR ''h'') = CHR ''h''"
  "char_to_lower (CHR ''i'') = CHR ''i''"
  "char_to_lower (CHR ''j'') = CHR ''j''"
  "char_to_lower (CHR ''k'') = CHR ''k''"
  "char_to_lower (CHR ''l'') = CHR ''l''"
  "char_to_lower (CHR ''m'') = CHR ''m''"
  "char_to_lower (CHR ''n'') = CHR ''n''"
  "char_to_lower (CHR ''o'') = CHR ''o''"
  "char_to_lower (CHR ''p'') = CHR ''p''"
  "char_to_lower (CHR ''q'') = CHR ''q''"
  "char_to_lower (CHR ''r'') = CHR ''r''"
  "char_to_lower (CHR ''s'') = CHR ''s''"
  "char_to_lower (CHR ''t'') = CHR ''t''"
  "char_to_lower (CHR ''u'') = CHR ''u''"
  "char_to_lower (CHR ''v'') = CHR ''v''"
  "char_to_lower (CHR ''w'') = CHR ''w''"
  "char_to_lower (CHR ''x'') = CHR ''x''"
  "char_to_lower (CHR ''y'') = CHR ''y''"
  "char_to_lower (CHR ''z'') = CHR ''z''"
  "char_to_lower (CHR ''-'') = CHR ''-''"
  "char_to_lower (CHR ''2'') = CHR ''2''"
  by code_simp+

lemma toScmString_name: "toScmString op = scm_name op"
  by (cases op) (simp_all add: toScmString_def scm_name_def buildNames_def opcode_spelling_def
      starts_with_def)

lemma scm_name_lower: "map char_to_lower (scm_name op) = scm_name op"
  by (cases op) (simp_all add: scm_name_def)

lemma scm_name_distinct: "distinct (map scm_name all_opcodes)"
  by code_simp

lemma toScmString_inj: "toScmString op = toScmString op' \<longleftrightarrow> op = op'"
  using scm_name_distinct in_all_opcodes unfolding toScmString_name distinct_map inj_on_def by blast

lemma toScmString_lower: "map char_to_lower (toScmString op) = toScmString op"
  unfolding toScmString_name by (rule scm_name_lower)

text \<open>A map filled by assignments whose keys are an injective function of the values.\<close>

lemma foldl_updates:
  assumes "inj f"
  shows "foldl (\<lambda>m i. m(f (g i) \<mapsto> g i)) m is (f x) = (if x \<in> g ` set is then Some x else m (f x))"
proof (induction "is" arbitrary: m)
  case (Cons i "is")
  then show ?case using assms by (simp add: inj_eq)
qed simp

lemma foldl_updates_other:
  "k \<notin> (\<lambda>i. f (g i)) ` set is \<Longrightarrow> foldl (\<lambda>m i. m(f (g i) \<mapsto> g i)) m is k = m k"
  by (induction "is" arbitrary: m) auto

lemma opcodes_below_33: "opcode_of ` set [0..<33] = UNIV - {LAST_OP}"
proof
  show "UNIV - {LAST_OP} \<subseteq> opcode_of ` set [0..<33]"
  proof
    fix op assume "op \<in> UNIV - {LAST_OP}"
    then have "opcode_number op < 33" by (simp add: opcode_number_valid)
    then show "op \<in> opcode_of ` set [0..<33]" by (intro image_eqI[of _ _ "opcode_number op"]) simp_all
  qed
  have "distinct all_opcodes" "length all_opcodes = 34" "opcode_of 33 = LAST_OP"
    by (simp_all add: all_opcodes_def opcode_of_def)
  then have "opcode_of i \<noteq> LAST_OP" if "i < 33" for i
    using that nth_eq_iff_index_eq[of all_opcodes i 33] by (auto simp: opcode_of_def)
  then show "opcode_of ` set [0..<33] \<subseteq> UNIV - {LAST_OP}" by auto
qed

lemma inj_toScmString: "inj toScmString"
  by (rule injI) (simp add: toScmString_inj)

lemma scm_inverse_name: "op \<noteq> LAST_OP \<Longrightarrow> scm_inverse (toScmString op) = Some op"
  unfolding scm_inverse_def foldl_updates[OF inj_toScmString] opcodes_below_33 by simp

lemma scm_inverse_other:
  assumes "\<forall>op. op \<noteq> LAST_OP \<longrightarrow> toScmString op \<noteq> s"
  shows "scm_inverse s = None"
proof -
  have "s \<notin> (\<lambda>i. toScmString (opcode_of i)) ` set [0..<33]"
    using assms opcodes_below_33 by auto
  from foldl_updates_other[where f = toScmString and g = opcode_of, OF this] show ?thesis
    unfolding scm_inverse_def by simp
qed

lemma opcode_number_of_nat: "i < 34 \<Longrightarrow> opcode_number (opcode_of i) = i"
proof -
  have d: "distinct xs \<Longrightarrow> i < length xs \<Longrightarrow> index_of (xs ! i) xs = i" for xs :: "opcode list" and i
  proof (induction xs arbitrary: i)
    case (Cons x xs)
    then show ?case by (cases i) auto
  qed simp
  have "distinct all_opcodes" "length all_opcodes = 34" by (simp_all add: all_opcodes_def)
  then show "i < 34 \<Longrightarrow> ?thesis" using d by (simp add: opcode_number_def opcode_of_def)
qed

text \<open>C33: The Scheme names are read back as the opcodes they were printed from, and exactly they are:
  a text is read as an operation if and only if it is the operation's name when its letters are put
  into lower case, whatever case they had; every other text is read as \<open>INVALID\<close>.
  Through the C interface each operation is therefore found by its name, under the number that
  saved files use for it, and that number is accepted together with the operation's arity.\<close>

theorem scheme_names_round_trip:
  "fromScmString (toScmString op) = (if op = LAST_OP then INVALID else op)
   \<and> (fromScmString s = op \<and> op \<noteq> INVALID)
       = (map char_to_lower s = toScmString op \<and> op \<noteq> INVALID \<and> op \<noteq> LAST_OP)
   \<and> libfive_opcode_enum (toScmString op)
       = (if op = INVALID \<or> op = LAST_OP then - 1 else int (opcode_number op))
   \<and> (libfive_opcode_enum s = - 1 \<or> opcode_is_valid (libfive_opcode_enum s) (args (fromScmString s)))"
proof -
  have lower: "fromScmString (toScmString op) = (if op = LAST_OP then INVALID else op)" for op
  proof (cases "op = LAST_OP")
    case True
    then have "scm_inverse (toScmString op) = None"
      by (intro scm_inverse_other) (simp add: toScmString_inj)
    with True show ?thesis by (simp add: fromScmString_def toScmString_lower)
  qed (simp add: fromScmString_def toScmString_lower scm_inverse_name)
  have name: "fromScmString s = INVALID \<or> toScmString (fromScmString s) = map char_to_lower s \<and> fromScmString s \<noteq> LAST_OP"
  proof (cases "\<exists>op. op \<noteq> LAST_OP \<and> toScmString op = map char_to_lower s")
    case True
    then obtain op where op: "op \<noteq> LAST_OP" "toScmString op = map char_to_lower s" by blast
    with scm_inverse_name[OF op(1)] show ?thesis by (simp add: fromScmString_def)
  next
    case False
    then have "scm_inverse (map char_to_lower s) = None" by (intro scm_inverse_other) blast
    then show ?thesis by (simp add: fromScmString_def)
  qed
  then have "libfive_opcode_enum s = - 1 \<or> opcode_is_valid (libfive_opcode_enum s) (args (fromScmString s))"
    using opcode_number_valid[of "fromScmString s"]
    by (auto simp: libfive_opcode_enum_def opcode_is_valid_def Let_def)
  moreover have "fromScmString s = op" if "map char_to_lower s = toScmString op" "op \<noteq> LAST_OP"
    using that scm_inverse_name[of op] by (simp add: fromScmString_def)
  ultimately show ?thesis using lower name by (auto simp: libfive_opcode_enum_def Let_def)
qed

end
