(* ===== verification/Clause.thy ===== *)
theory Clause
  imports Opcode
begin

text \<open>
  What one clause computes (\<open>ArrayEvaluator::operator()\<close> of \<open>src/five/eval/eval_array.cpp\<close>), for
  one point. The basic operations of IEEE arithmetic are computed; the functions of the C library
  and of Eigen whose results are not fixed by the standard are fields of the record \<open>libm\<close>.
\<close>

section \<open>Division and rounding to integers\<close>

text \<open>The quotient of the significands has at least 36 bits; a sticky bit stands for the rest.\<close>

definition f32_div :: "f32 \<Rightarrow> f32 \<Rightarrow> f32" where
  "f32_div a b =
     (let s = (f32_neg a \<noteq> f32_neg b) in
      if f32_isnan a \<or> f32_isnan b then f32_nan
      else if f32_isinf a then (if f32_isinf b then f32_nan else f32_inf s)
      else if f32_isinf b then f32_pack s 0 0
      else if f32_mag b = 0 then (if f32_mag a = 0 then f32_nan else f32_inf s)
      else
        let n = f32_man a * 2 ^ 60; d = f32_man b;
            q = 2 * (n div d) + (if n mod d = 0 then 0 else 1)
        in f32_pack s q (f32_exp a - f32_exp b - 61))"

definition f32_floor :: "f32 \<Rightarrow> f32" where
  "f32_floor x =
     (if f32_isnan x \<or> f32_isinf x \<or> 0 \<le> f32_exp x then x
      else let k = nat (- f32_exp x); m = f32_man x in
        if f32_neg x then f32_pack True (- ((- m) div 2 ^ k)) 0 else f32_pack False (m div 2 ^ k) 0)"

definition f32_ceil :: "f32 \<Rightarrow> f32" where
  "f32_ceil x = f32_uminus (f32_floor (f32_uminus x))"

definition f32_one :: f32 where "f32_one = 0x3F800000"

section \<open>The clauses\<close>

text \<open>The functions of the C library on floats. Where the code calls one on doubles (\<open>::atan2\<close>, in the
  array evaluator and in the interval class alike) its arguments are floats that are widened and its
  result is narrowed when it is stored: the field is that composition, a function of floats again.\<close>

record libm =
  m_min :: "f32 \<Rightarrow> f32 \<Rightarrow> f32"
  m_max :: "f32 \<Rightarrow> f32 \<Rightarrow> f32"
  m_atan2 :: "f32 \<Rightarrow> f32 \<Rightarrow> f32"
  m_array_pow :: "f32 \<Rightarrow> f32 \<Rightarrow> f32"
  m_pow :: "f32 \<Rightarrow> f32 \<Rightarrow> f32"
  m_interval_root :: "f32 \<Rightarrow> f32 \<Rightarrow> f32"
  m_sin :: "f32 \<Rightarrow> f32"
  m_cos :: "f32 \<Rightarrow> f32"
  m_tan :: "f32 \<Rightarrow> f32"
  m_asin :: "f32 \<Rightarrow> f32"
  m_acos :: "f32 \<Rightarrow> f32"
  m_atan :: "f32 \<Rightarrow> f32"
  m_exp :: "f32 \<Rightarrow> f32"
  m_log :: "f32 \<Rightarrow> f32"

definition clause_nth_root :: "libm \<Rightarrow> f32 \<Rightarrow> f32 \<Rightarrow> f32" where
  "clause_nth_root lib a b =
     (if f32_lt a 0 then m_interval_root lib a b else m_pow lib a (f32_div f32_one b))"

definition clause_mod :: "f32 \<Rightarrow> f32 \<Rightarrow> f32" where
  "clause_mod a b =
     (let d = f32_abs (f32_div a b);
          d = (if f32_lt a 0 \<noteq> f32_lt b 0 then f32_uminus (f32_ceil d) else f32_floor d);
          res = f32_sub a (f32_mul b d);
          res = (if f32_lt 0 b \<and> f32_lt b res \<or> f32_lt b 0 \<and> f32_lt res b then b else res)
      in if f32_lt 0 b \<and> f32_lt res 0 \<or> f32_lt b 0 \<and> f32_lt 0 res then 0 else res)"

definition clause_compare :: "f32 \<Rightarrow> f32 \<Rightarrow> f32" where
  "clause_compare a b =
     (if f32_lt a b then f32_uminus f32_one else if f32_lt b a then f32_one else 0)"

text \<open>The opcodes that have no clause trip an assertion. \<open>ORACLE\<close> is answered by the oracle the
  clause names, which the evaluators ask themselves.\<close>

definition clause_value :: "libm \<Rightarrow> opcode \<Rightarrow> f32 \<Rightarrow> f32 \<Rightarrow> fault + f32" where
  "clause_value lib op a b = (case op of
     OP_ADD \<Rightarrow> Inr (f32_add a b)
   | OP_MUL \<Rightarrow> Inr (f32_mul a b)
   | OP_MIN \<Rightarrow> Inr (m_min lib a b)
   | OP_MAX \<Rightarrow> Inr (m_max lib a b)
   | OP_SUB \<Rightarrow> Inr (f32_sub a b)
   | OP_DIV \<Rightarrow> Inr (f32_div a b)
   | OP_ATAN2 \<Rightarrow> Inr (m_atan2 lib a b)
   | OP_POW \<Rightarrow> Inr (m_array_pow lib a b)
   | OP_NTH_ROOT \<Rightarrow> Inr (clause_nth_root lib a b)
   | OP_MOD \<Rightarrow> Inr (clause_mod a b)
   | OP_NANFILL \<Rightarrow> Inr (if f32_isnan a then b else a)
   | OP_COMPARE \<Rightarrow> Inr (clause_compare a b)
   | OP_SQUARE \<Rightarrow> Inr (f32_mul a a)
   | OP_SQRT \<Rightarrow> Inr (f32_sqrt a)
   | OP_NEG \<Rightarrow> Inr (f32_uminus a)
   | OP_SIN \<Rightarrow> Inr (m_sin lib a)
   | OP_COS \<Rightarrow> Inr (m_cos lib a)
   | OP_TAN \<Rightarrow> Inr (m_tan lib a)
   | OP_ASIN \<Rightarrow> Inr (m_asin lib a)
   | OP_ACOS \<Rightarrow> Inr (m_acos lib a)
   | OP_ATAN \<Rightarrow> Inr (m_atan lib a)
   | OP_LOG \<Rightarrow> Inr (m_log lib a)
   | OP_EXP \<Rightarrow> Inr (m_exp lib a)
   | OP_ABS \<Rightarrow> Inr (f32_abs a)
   | OP_RECIP \<Rightarrow> Inr (f32_div f32_one a)
   | CONST_VAR \<Rightarrow> Inr a
   | _ \<Rightarrow> Inl AssertFailed)"

end
