(* ===== verification/ExprCache.thy ===== *)
theory ExprCache
  imports Clause
begin

text \<open>
  The expression store of the implicit-function kernel (\<open>src/five/tree/cache.cpp\<close>, the nodes of
  \<open>thirdparty/libfive/tree/tree.hpp\<close>). Nodes are objects in a heap, found by address; address 0
  is the null pointer. The store keeps one node for each constant and each application of an
  operation to nodes, so that equal expressions are the same object, and it rewrites an expression
  while it is being built.

  The map of constants is ordered by \<open><\<close> on floats, so a key is the place of a number in that
  order (\<open>f32_key\<close>), one for both zeros. Addresses come from the allocator, a parameter that sees
  the heap; shared pointers are the addresses themselves, and \<open>tree_destructor\<close> is the destructor
  that runs when the last one is gone. A null pointer that is used is the fault \<open>NullDeref\<close>.
\<close>

section \<open>Nodes and the store\<close>

record tnode =
  t_op :: opcode
  t_flags :: "8 word"
  t_rank :: nat
  t_value :: f32
  t_oracle :: nat
  t_lhs :: nat
  t_rhs :: nat

type_synonym nodes = "(nat \<times> tnode) list"

record cache =
  c_nodes :: nodes
  c_ops :: "opcode \<times> nat \<times> nat \<Rightarrow> nat option"
  c_constants :: "int \<Rightarrow> nat option"
  c_nan :: nat

type_synonym allocator = "nodes \<Rightarrow> nat"

definition fresh_addresses :: "allocator \<Rightarrow> bool" where
  "fresh_addresses alloc \<longleftrightarrow> (\<forall>h. alloc h \<notin> fst ` set h \<and> alloc h \<noteq> 0)"

abbreviation node_at :: "cache \<Rightarrow> nat \<Rightarrow> tnode option" where
  "node_at c p \<equiv> map_of (c_nodes c) p"

definition deref :: "cache \<Rightarrow> nat \<Rightarrow> fault + tnode" where
  "deref c p = (case node_at c p of None \<Rightarrow> Inl NullDeref | Some n \<Rightarrow> Inr n)"

definition FLAG_LOCATION_AGNOSTIC :: "8 word" where
  "FLAG_LOCATION_AGNOSTIC = 2"

definition is_agnostic :: "tnode \<Rightarrow> bool" where
  "is_agnostic n \<longleftrightarrow> t_flags n AND FLAG_LOCATION_AGNOSTIC \<noteq> 0"

definition new_node :: "allocator \<Rightarrow> tnode \<Rightarrow> cache \<Rightarrow> nat \<times> cache" where
  "new_node alloc n c = (let p = alloc (c_nodes c) in (p, c\<lparr>c_nodes := (p, n) # c_nodes c\<rparr>))"

definition leaf_node :: "opcode \<Rightarrow> 8 word \<Rightarrow> f32 \<Rightarrow> nat \<Rightarrow> tnode" where
  "leaf_node op flags v oracle =
     \<lparr>t_op = op, t_flags = flags, t_rank = 0, t_value = v, t_oracle = oracle, t_lhs = 0, t_rhs = 0\<rparr>"

section \<open>Constants, variables and destruction\<close>

definition constant_node :: "allocator \<Rightarrow> f32 \<Rightarrow> cache \<Rightarrow> nat \<times> cache" where
  "constant_node alloc v c =
     (if f32_isnan v then
        (if c_nan c = 0 then
           let (out, c) = new_node alloc (leaf_node CONSTANT FLAG_LOCATION_AGNOSTIC v 0) c
           in (out, c\<lparr>c_nan := out\<rparr>)
         else (c_nan c, c))
      else (case c_constants c (f32_key v) of
          None \<Rightarrow>
            let (out, c) = new_node alloc (leaf_node CONSTANT FLAG_LOCATION_AGNOSTIC v 0) c
            in (out, c\<lparr>c_constants := (c_constants c)(f32_key v \<mapsto> out)\<rparr>)
        | Some p \<Rightarrow> (p, c)))"

definition var :: "allocator \<Rightarrow> cache \<Rightarrow> nat \<times> cache" where
  "var alloc c = new_node alloc (leaf_node VAR_FREE FLAG_LOCATION_AGNOSTIC f32_nan 0) c"

definition del_constant :: "f32 \<Rightarrow> cache \<Rightarrow> fault + cache" where
  "del_constant v c =
     (if f32_isnan v then Inr (c\<lparr>c_nan := 0\<rparr>)
      else if c_constants c (f32_key v) = None then Inl AssertFailed
      else Inr (c\<lparr>c_constants := (c_constants c)(f32_key v := None)\<rparr>))"

definition del_operation :: "opcode \<Rightarrow> nat \<Rightarrow> nat \<Rightarrow> cache \<Rightarrow> fault + cache" where
  "del_operation op lhs rhs c =
     (if c_ops c (op, lhs, rhs) = None then Inl AssertFailed
      else Inr (c\<lparr>c_ops := (c_ops c)((op, lhs, rhs) := None)\<rparr>))"

definition tree_destructor :: "nat \<Rightarrow> cache \<Rightarrow> fault + cache" where
  "tree_destructor p c =
     bindE (deref c p) (\<lambda>n.
       let c' = c\<lparr>c_nodes := filter (\<lambda>(q, _). q \<noteq> p) (c_nodes c)\<rparr> in
       if t_op n = CONSTANT then del_constant (t_value n) c'
       else if t_op n \<noteq> VAR_FREE \<and> t_op n \<noteq> ORACLE then del_operation (t_op n) (t_lhs n) (t_rhs n) c'
       else Inr c')"

section \<open>Looking an operation up\<close>

definition operation_flags :: "opcode \<Rightarrow> tnode option \<Rightarrow> tnode option \<Rightarrow> 8 word" where
  "operation_flags op lhs rhs =
     (if (case lhs of None \<Rightarrow> True | Some n \<Rightarrow> is_agnostic n)
       \<and> (case rhs of None \<Rightarrow> True | Some n \<Rightarrow> is_agnostic n)
       \<and> op \<noteq> VAR_X \<and> op \<noteq> VAR_Y \<and> op \<noteq> VAR_Z \<and> op \<noteq> ORACLE
      then FLAG_LOCATION_AGNOSTIC else 0)"

definition operation_rank :: "tnode option \<Rightarrow> tnode option \<Rightarrow> nat" where
  "operation_rank lhs rhs =
     max (case lhs of None \<Rightarrow> 0 | Some n \<Rightarrow> t_rank n + 1) (case rhs of None \<Rightarrow> 0 | Some n \<Rightarrow> t_rank n + 1)"

text \<open>An argument that may be null.\<close>

definition deref_opt :: "cache \<Rightarrow> nat \<Rightarrow> fault + tnode option" where
  "deref_opt c p = (if p = 0 then Inr None else bindE (deref c p) (\<lambda>n. Inr (Some n)))"

text \<open>The last part of \<open>operation\<close>. When all arguments are constants the new node is only the
  argument of a temporary evaluator: its value replaces it and it is destroyed on return. The
  evaluator's clause for a missing argument reads row 0 of its result array, which is zero.\<close>

definition constant_argument :: "tnode option \<Rightarrow> bool" where
  "constant_argument n = (case n of None \<Rightarrow> True | Some n \<Rightarrow> t_op n = CONSTANT)"

definition constant_row :: "tnode option \<Rightarrow> f32" where
  "constant_row n = (case n of None \<Rightarrow> 0 | Some n \<Rightarrow> t_value n)"

definition find_or_make ::
    "libm \<Rightarrow> allocator \<Rightarrow> opcode \<Rightarrow> nat \<Rightarrow> nat \<Rightarrow> cache \<Rightarrow> fault + nat \<times> cache" where
  "find_or_make lib alloc op lhs rhs c =
     (case c_ops c (op, lhs, rhs) of
        Some p \<Rightarrow> if node_at c p = None then Inl AssertFailed else Inr (p, c)
      | None \<Rightarrow>
          bindE (deref_opt c lhs) (\<lambda>l.
          bindE (deref_opt c rhs) (\<lambda>r.
            let (out, c) = new_node alloc
                  \<lparr>t_op = op, t_flags = operation_flags op l r, t_rank = operation_rank l r,
                   t_value = f32_nan, t_oracle = 0, t_lhs = lhs, t_rhs = rhs\<rparr> c;
                c = c\<lparr>c_ops := (c_ops c)((op, lhs, rhs) \<mapsto> out)\<rparr>
            in if (lhs \<noteq> 0 \<or> rhs \<noteq> 0) \<and> constant_argument l \<and> constant_argument r
               then bindE (clause_value lib op (constant_row l) (constant_row r)) (\<lambda>result.
                      let (k, c) = constant_node alloc result c
                      in bindE (tree_destructor out c) (\<lambda>c. Inr (k, c)))
               else Inr (out, c))))"

section \<open>Affine forms\<close>

text \<open>A map from nodes to coefficients is a list in the order of the addresses.\<close>

type_synonym affine = "(nat \<times> f32) list"

fun affine_set :: "nat \<Rightarrow> f32 \<Rightarrow> affine \<Rightarrow> affine" where
  "affine_set k v [] = [(k, v)]"
| "affine_set k v ((k', v') # m) =
     (if k = k' then (k, v) # m else if k < k' then (k, v) # (k', v') # m
      else (k', v') # affine_set k v m)"

definition affine_insert :: "nat \<Rightarrow> f32 \<Rightarrow> affine \<Rightarrow> affine" where
  "affine_insert k v m = (if map_of m k = None then affine_set k v m else m)"

text \<open>The loop body of the sums: insert the term \<open>new i\<close>, or combine it with what is there.\<close>

definition affine_merge :: "(f32 \<Rightarrow> f32 \<Rightarrow> f32) \<Rightarrow> (f32 \<Rightarrow> f32) \<Rightarrow> affine \<Rightarrow> affine \<Rightarrow> affine" where
  "affine_merge combine new out terms =
     foldl (\<lambda>out (k, v). case map_of out k of
               None \<Rightarrow> affine_insert k (new v) out
             | Some old \<Rightarrow> affine_set k (combine old v) out) out terms"

definition affine_scale :: "(f32 \<Rightarrow> f32) \<Rightarrow> affine \<Rightarrow> affine" where
  "affine_scale f terms = foldl (\<lambda>out (k, v). affine_insert k (f v) out) [] terms"

fun asAffine :: "allocator \<Rightarrow> nat \<Rightarrow> nat \<Rightarrow> cache \<Rightarrow> fault + affine \<times> cache" where
  "asAffine alloc 0 n c = Inl OutOfFuel"
| "asAffine alloc (Suc fuel) n c =
     bindE (deref c n) (\<lambda>nd.
       if t_op nd = OP_ADD then
         bindE (asAffine alloc fuel (t_lhs nd) c) (\<lambda>(out, c).
         bindE (asAffine alloc fuel (t_rhs nd) c) (\<lambda>(terms, c).
           Inr (affine_merge f32_add id out terms, c)))
       else if t_op nd = OP_SUB then
         bindE (asAffine alloc fuel (t_lhs nd) c) (\<lambda>(out, c).
         bindE (asAffine alloc fuel (t_rhs nd) c) (\<lambda>(terms, c).
           Inr (affine_merge f32_sub f32_uminus out terms, c)))
       else if t_op nd = OP_NEG then
         bindE (asAffine alloc fuel (t_lhs nd) c) (\<lambda>(terms, c).
           Inr (affine_scale f32_uminus terms, c))
       else if t_op nd = OP_MUL then
         bindE (deref c (t_lhs nd)) (\<lambda>l.
           if t_op l = CONSTANT then
             bindE (asAffine alloc fuel (t_rhs nd) c) (\<lambda>(terms, c).
               Inr (affine_scale (\<lambda>v. f32_mul v (t_value l)) terms, c))
           else bindE (deref c (t_rhs nd)) (\<lambda>r.
             if t_op r = CONSTANT then
               bindE (asAffine alloc fuel (t_lhs nd) c) (\<lambda>(terms, c).
                 Inr (affine_scale (\<lambda>v. f32_mul v (t_value r)) terms, c))
             else Inr ([(n, f32_one)], c)))
       else if t_op nd = OP_DIV then
         bindE (deref c (t_rhs nd)) (\<lambda>r.
           if t_op r = CONSTANT then
             bindE (asAffine alloc fuel (t_lhs nd) c) (\<lambda>(terms, c).
               Inr (affine_scale (\<lambda>v. f32_div v (t_value r)) terms, c))
           else Inr ([(n, f32_one)], c))
       else if t_op nd = CONSTANT then
         (let (one, c) = constant_node alloc f32_one c in Inr ([(one, t_value nd)], c))
       else Inr ([(n, f32_one)], c))"

text \<open>The groups of \<open>fromAffine\<close> are keyed by coefficient, in the order of \<open><\<close>. \<open>group_add\<close> is the
  search of that map (the first key that is not below, if it is not above either) followed by the
  insertion. A NaN is neither above nor below anything, and so joins the first group.\<close>

type_synonym groups = "(f32 \<times> nat list) list"

fun group_add :: "f32 \<Rightarrow> nat \<Rightarrow> groups \<Rightarrow> groups" where
  "group_add v n [] = [(v, [n])]"
| "group_add v n ((k, ns) # cs) =
     (if f32_lt k v then (k, ns) # group_add v n cs
      else if f32_lt v k then (v, [n]) # (k, ns) # cs
      else (k, ns @ [n]) # cs)"

definition affine_groups :: "affine \<Rightarrow> groups" where
  "affine_groups ns = foldl (\<lambda>cs (n, v). group_add v n cs) [] ns"

type_synonym build = "opcode \<Rightarrow> nat \<Rightarrow> nat \<Rightarrow> cache \<Rightarrow> fault + nat \<times> cache"

definition accumulate_group :: "allocator \<Rightarrow> build \<Rightarrow> nat \<times> cache \<Rightarrow> f32 \<times> nat list \<Rightarrow> fault + nat \<times> cache" where
  "accumulate_group alloc opn = (\<lambda>(out, c) (v, ns).
     bindE (foldE (\<lambda>(cur, c) n. opn OP_ADD cur n c) (constant_node alloc 0 c) ns) (\<lambda>(cur, c).
       let (k, c) = constant_node alloc v c
       in bindE (opn OP_MUL cur k c) (\<lambda>(term, c). opn OP_ADD out term c)))"

definition accumulate :: "allocator \<Rightarrow> build \<Rightarrow> groups \<Rightarrow> cache \<Rightarrow> fault + nat \<times> cache" where
  "accumulate alloc opn vs c = foldE (accumulate_group alloc opn) (constant_node alloc 0 c) vs"

definition fromAffine :: "allocator \<Rightarrow> build \<Rightarrow> affine \<Rightarrow> cache \<Rightarrow> fault + nat \<times> cache" where
  "fromAffine alloc opn ns c =
     (let cs = affine_groups ns;
          pos = filter (\<lambda>(v, _). f32_lt 0 v) cs;
          neg = map (\<lambda>(v, l). (f32_uminus v, l)) (filter (\<lambda>(v, _). f32_lt v 0) cs)
      in bindE (accumulate alloc opn pos c) (\<lambda>(p, c).
         bindE (accumulate alloc opn neg c) (\<lambda>(n, c). opn OP_SUB p n c)))"

section \<open>Rewriting\<close>

text \<open>The three checks return the null pointer when they do not apply.\<close>

definition opcode_or_invalid :: "tnode option \<Rightarrow> opcode" where
  "opcode_or_invalid n = (case n of None \<Rightarrow> INVALID | Some n \<Rightarrow> t_op n)"

definition is_constant :: "tnode option \<Rightarrow> f32 \<Rightarrow> bool" where
  "is_constant n v \<longleftrightarrow> (case n of None \<Rightarrow> False | Some n \<Rightarrow> t_op n = CONSTANT \<and> f32_eq (t_value n) v)"

definition lhs_of :: "tnode option \<Rightarrow> nat" where
  "lhs_of n = (case n of None \<Rightarrow> 0 | Some n \<Rightarrow> t_lhs n)"

definition rhs_of :: "tnode option \<Rightarrow> nat" where
  "rhs_of n = (case n of None \<Rightarrow> 0 | Some n \<Rightarrow> t_rhs n)"

definition checkIdentity :: "build \<Rightarrow> opcode \<Rightarrow> nat \<Rightarrow> nat \<Rightarrow> cache \<Rightarrow> fault + nat \<times> cache" where
  "checkIdentity opn op a b c =
     bindE (deref_opt c a) (\<lambda>na.
     bindE (deref_opt c b) (\<lambda>nb.
       let op_a = opcode_or_invalid na; op_b = opcode_or_invalid nb in
       case op of
         OP_NEG \<Rightarrow> if op_a = OP_NEG then Inr (lhs_of na, c) else Inr (0, c)
       | OP_ABS \<Rightarrow> if op_a = OP_ABS then Inr (a, c) else Inr (0, c)
       | OP_ADD \<Rightarrow>
           if is_constant na 0 then Inr (b, c)
           else if is_constant nb 0 then Inr (a, c)
           else if op_b = OP_NEG then opn OP_SUB a (lhs_of nb) c
           else Inr (0, c)
       | OP_SUB \<Rightarrow>
           if is_constant na 0 then opn OP_NEG b 0 c
           else if is_constant nb 0 then Inr (a, c)
           else Inr (0, c)
       | OP_MUL \<Rightarrow>
           if is_constant na 0 then Inr (a, c)
           else if is_constant na f32_one then Inr (b, c)
           else if is_constant na (f32_uminus f32_one) then opn OP_NEG b 0 c
           else if op_b = CONSTANT then
             (if is_constant nb 0 then Inr (b, c)
              else if is_constant nb f32_one then Inr (a, c)
              else if is_constant nb (f32_uminus f32_one) then opn OP_NEG a 0 c
              else Inr (0, c))
           else if a = b then opn OP_SQUARE a 0 c
           else Inr (0, c)
       | OP_POW \<Rightarrow> if is_constant nb f32_one then Inr (a, c) else Inr (0, c)
       | OP_NTH_ROOT \<Rightarrow> if is_constant nb f32_one then Inr (a, c) else Inr (0, c)
       | OP_MIN \<Rightarrow> if a = b then Inr (a, c) else Inr (0, c)
       | OP_MAX \<Rightarrow> if a = b then Inr (a, c) else Inr (0, c)
       | _ \<Rightarrow> Inr (0, c)))"

definition rank_or_zero :: "cache \<Rightarrow> nat \<Rightarrow> fault + nat" where
  "rank_or_zero c p = bindE (deref_opt c p) (\<lambda>n. Inr (case n of None \<Rightarrow> 0 | Some n \<Rightarrow> t_rank n))"

definition checkCommutative :: "build \<Rightarrow> opcode \<Rightarrow> nat \<Rightarrow> nat \<Rightarrow> cache \<Rightarrow> fault + nat \<times> cache" where
  "checkCommutative opn op a b c =
     (if isCommutative op then
        bindE (deref c a) (\<lambda>na.
        bindE (deref c b) (\<lambda>nb.
        bindE (rank_or_zero c (t_lhs na)) (\<lambda>al.
        bindE (rank_or_zero c (t_rhs na)) (\<lambda>ar.
        bindE (rank_or_zero c (t_lhs nb)) (\<lambda>bl.
        bindE (rank_or_zero c (t_rhs nb)) (\<lambda>br.
          if t_op na = op then
            (if t_rank nb < al then
               bindE (opn op (t_rhs na) b c) (\<lambda>(r, c). opn op (t_lhs na) r c)
             else if t_rank nb < ar then
               bindE (opn op (t_lhs na) b c) (\<lambda>(r, c). opn op (t_rhs na) r c)
             else Inr (0, c))
          else if t_op nb = op then
            (if t_rank na < bl then
               bindE (opn op (t_rhs nb) a c) (\<lambda>(r, c). opn op (t_lhs nb) r c)
             else if t_rank na < br then
               bindE (opn op (t_lhs nb) a c) (\<lambda>(r, c). opn op (t_rhs nb) r c)
             else Inr (0, c))
          else Inr (0, c)))))))
      else Inr (0, c))"

text \<open>The recursion of \<open>asAffine\<close> goes down the tree, so one more than the rank is fuel enough.\<close>

definition affine_of :: "allocator \<Rightarrow> nat \<Rightarrow> cache \<Rightarrow> fault + affine \<times> cache" where
  "affine_of alloc n c = bindE (deref c n) (\<lambda>nd. asAffine alloc (Suc (t_rank nd)) n c)"

definition checkAffine ::
    "allocator \<Rightarrow> build \<Rightarrow> opcode \<Rightarrow> nat \<Rightarrow> nat \<Rightarrow> cache \<Rightarrow> fault + nat \<times> cache" where
  "checkAffine alloc opn op lhs rhs c =
     (if op \<noteq> OP_ADD \<and> op \<noteq> OP_SUB then Inr (0, c)
      else
        bindE (affine_of alloc lhs c) (\<lambda>(a, c).
        bindE (affine_of alloc rhs c) (\<lambda>(b, c).
          let overlap = (\<exists>k \<in> set b. map_of a (fst k) \<noteq> None);
              sum = (if op = OP_ADD then affine_merge f32_add id a b
                     else affine_merge f32_sub f32_uminus a b)
          in if overlap then fromAffine alloc opn sum c else Inr (0, c))))"

section \<open>Building an operation\<close>

text \<open>The checks call \<open>operation\<close> again, each time on smaller or better balanced arguments; the
  recursion is given fuel.\<close>

fun operation ::
    "libm \<Rightarrow> allocator \<Rightarrow> nat \<Rightarrow> bool \<Rightarrow> opcode \<Rightarrow> nat \<Rightarrow> nat \<Rightarrow> cache \<Rightarrow> fault + nat \<times> cache" where
  "operation lib alloc 0 simplify op lhs rhs c = Inl OutOfFuel"
| "operation lib alloc (Suc fuel) simplify op lhs rhs c =
     (if op = CONSTANT \<or> op = INVALID \<or> op = ORACLE \<or> op = LAST_OP then Inl AssertFailed
      else if simplify then
        let opn = operation lib alloc fuel True in
        bindE (checkIdentity opn op lhs rhs c) (\<lambda>(t, c).
          if t \<noteq> 0 then Inr (t, c) else
        bindE (checkCommutative opn op lhs rhs c) (\<lambda>(t, c).
          if t \<noteq> 0 then Inr (t, c) else
        bindE (checkAffine alloc opn op lhs rhs c) (\<lambda>(t, c).
          if t \<noteq> 0 then Inr (t, c) else find_or_make lib alloc op lhs rhs c)))
      else find_or_make lib alloc op lhs rhs c)"

end
