(* ===== verification/ExprStore.thy ===== *)
theory ExprStore
  imports ExprCache
begin

text \<open>
  The invariant of the expression store, and that every operation of it keeps the invariant, keeps
  the nodes that are there and faults on nothing. A client that builds expressions relies on a
  contract (the locale \<open>expr_builder\<close>); the rewriting steps are proved against it, and
  \<open>operation\<close> is shown to satisfy it for every amount of fuel.
\<close>

section \<open>Well-formed stores\<close>

definition live :: "cache \<Rightarrow> nat \<Rightarrow> bool" where
  "live c p \<longleftrightarrow> p \<noteq> 0 \<and> node_at c p \<noteq> None"

definition child :: "cache \<Rightarrow> nat \<Rightarrow> tnode option" where
  "child c p = (if p = 0 then None else node_at c p)"

definition arity_ok :: "opcode \<Rightarrow> nat \<Rightarrow> nat \<Rightarrow> bool" where
  "arity_ok op lhs rhs \<longleftrightarrow>
     args op = (if lhs = 0 then 0 else if rhs = 0 then 1 else 2) \<and> (lhs = 0 \<longrightarrow> rhs = 0)"

definition args_ok :: "cache \<Rightarrow> opcode \<Rightarrow> nat \<Rightarrow> nat \<Rightarrow> bool" where
  "args_ok c op lhs rhs \<longleftrightarrow> arity_ok op lhs rhs \<and> (lhs \<noteq> 0 \<longrightarrow> live c lhs) \<and> (rhs \<noteq> 0 \<longrightarrow> live c rhs)"

definition all_constant :: "cache \<Rightarrow> nat \<Rightarrow> nat \<Rightarrow> bool" where
  "all_constant c lhs rhs \<longleftrightarrow>
     (lhs \<noteq> 0 \<or> rhs \<noteq> 0) \<and> constant_argument (child c lhs) \<and> constant_argument (child c rhs)"

text \<open>How the store finds a node again.\<close>

definition registered :: "cache \<Rightarrow> nat \<Rightarrow> tnode \<Rightarrow> bool" where
  "registered c p n \<longleftrightarrow>
     (if t_op n = CONSTANT then
        (if f32_isnan (t_value n) then c_nan c = p else c_constants c (f32_key (t_value n)) = Some p)
      else if t_op n = VAR_FREE \<or> t_op n = ORACLE then True
      else c_ops c (t_op n, t_lhs n, t_rhs n) = Some p)"

definition node_ok :: "cache \<Rightarrow> nat \<Rightarrow> tnode \<Rightarrow> bool" where
  "node_ok c p n \<longleftrightarrow>
     p \<noteq> 0 \<and> args_ok c (t_op n) (t_lhs n) (t_rhs n)
     \<and> t_rank n = operation_rank (child c (t_lhs n)) (child c (t_rhs n))
     \<and> t_flags n = operation_flags (t_op n) (child c (t_lhs n)) (child c (t_rhs n))
     \<and> \<not> all_constant c (t_lhs n) (t_rhs n)
     \<and> (t_op n = ORACLE \<longrightarrow> t_oracle n \<noteq> 0)
     \<and> registered c p n"

definition ops_ok :: "cache \<Rightarrow> bool" where
  "ops_ok c \<longleftrightarrow> (\<forall>op lhs rhs p. c_ops c (op, lhs, rhs) = Some p \<longrightarrow>
     op \<noteq> CONSTANT \<and> op \<noteq> VAR_FREE \<and> op \<noteq> ORACLE
     \<and> (\<exists>n. node_at c p = Some n \<and> t_op n = op \<and> t_lhs n = lhs \<and> t_rhs n = rhs))"

definition constants_ok :: "cache \<Rightarrow> bool" where
  "constants_ok c \<longleftrightarrow>
     (\<forall>k p. c_constants c k = Some p \<longrightarrow>
        (\<exists>n. node_at c p = Some n \<and> t_op n = CONSTANT \<and> \<not> f32_isnan (t_value n) \<and> f32_key (t_value n) = k))
     \<and> (c_nan c \<noteq> 0 \<longrightarrow>
        (\<exists>n. node_at c (c_nan c) = Some n \<and> t_op n = CONSTANT \<and> f32_isnan (t_value n)))"

definition store_ok :: "cache \<Rightarrow> bool" where
  "store_ok c \<longleftrightarrow> (\<forall>p n. node_at c p = Some n \<longrightarrow> node_ok c p n) \<and> ops_ok c \<and> constants_ok c"

definition extends :: "cache \<Rightarrow> cache \<Rightarrow> bool" where
  "extends c c' \<longleftrightarrow> (\<forall>p n. node_at c p = Some n \<longrightarrow> node_at c' p = Some n)"

lemma extends_refl [simp, intro]: "extends c c"
  by (simp add: extends_def)

lemma extends_trans [trans]: "extends c c' \<Longrightarrow> extends c' c'' \<Longrightarrow> extends c c''"
  by (simp add: extends_def)

lemma extends_node: "extends c c' \<Longrightarrow> node_at c p = Some n \<Longrightarrow> node_at c' p = Some n"
  by (simp add: extends_def)

lemma live_extends: "extends c c' \<Longrightarrow> live c p \<Longrightarrow> live c' p"
  by (auto simp: live_def extends_def)

lemma args_ok_extends: "extends c c' \<Longrightarrow> args_ok c op l r \<Longrightarrow> args_ok c' op l r"
  by (auto simp: args_ok_def intro: live_extends)

lemma child_extends: "extends c c' \<Longrightarrow> p \<noteq> 0 \<longrightarrow> live c p \<Longrightarrow> child c' p = child c p"
  by (auto simp: child_def live_def extends_def)

lemma ops_ok_extends: "ops_ok c \<Longrightarrow> extends c c' \<Longrightarrow> c_ops c' = c_ops c \<Longrightarrow> ops_ok c'"
  unfolding ops_ok_def extends_def by metis

lemma constants_ok_extends:
  "constants_ok c \<Longrightarrow> extends c c' \<Longrightarrow> c_constants c' = c_constants c \<Longrightarrow> c_nan c' = c_nan c \<Longrightarrow> constants_ok c'"
  unfolding constants_ok_def extends_def by metis

lemma store_okD: "store_ok c \<Longrightarrow> node_at c p = Some n \<Longrightarrow> node_ok c p n"
  by (simp add: store_ok_def)

lemma live_node: "live c p \<Longrightarrow> \<exists>n. node_at c p = Some n"
  by (auto simp: live_def)

lemma deref_live: "live c p \<Longrightarrow> \<exists>n. node_at c p = Some n \<and> deref c p = Inr n"
  by (auto simp: live_def deref_def)

lemma deref_node [simp]: "node_at c p = Some n \<Longrightarrow> deref c p = Inr n"
  by (simp add: deref_def)

lemma deref_opt_child: "p \<noteq> 0 \<longrightarrow> live c p \<Longrightarrow> deref_opt c p = Inr (child c p)"
  by (auto simp: deref_opt_def child_def live_def deref_def)

lemma store_ok_live: "store_ok c \<Longrightarrow> node_at c p = Some n \<Longrightarrow> live c p"
  using store_okD[of c p n] by (simp add: live_def node_ok_def)

section \<open>Adding a node\<close>

text \<open>A fresh node with sound links extends the store; what is left is to register it.\<close>

lemma new_node_extends: "node_at c p = None \<Longrightarrow> extends c (c\<lparr>c_nodes := (p, n) # c_nodes c\<rparr>)"
  by (auto simp: extends_def)

lemma fresh_address:
  assumes "fresh_addresses alloc"
  shows "node_at c (alloc (c_nodes c)) = None" "alloc (c_nodes c) \<noteq> 0"
  using assms by (auto simp: fresh_addresses_def map_of_eq_None_iff)

lemma node_ok_extends:
  assumes "node_ok c p n" "extends c c'" "registered c p n \<Longrightarrow> registered c' p n"
  shows "node_ok c' p n"
proof -
  have "child c' (t_lhs n) = child c (t_lhs n)" "child c' (t_rhs n) = child c (t_rhs n)"
    using assms(1,2) by (auto intro!: child_extends simp: node_ok_def args_ok_def)
  with assms show ?thesis
    by (auto simp: node_ok_def all_constant_def intro: args_ok_extends)
qed

lemma args_leaf: "args_ok c op 0 0 \<longleftrightarrow> args op = 0"
  by (simp add: args_ok_def arity_ok_def)

lemma leaf_node_ok:
  assumes "p \<noteq> 0" "args op = 0" "flags = operation_flags op None None" "op = ORACLE \<longrightarrow> ora \<noteq> 0" "registered c p (leaf_node op flags v ora)"
  shows "node_ok c p (leaf_node op flags v ora)"
  using assms
  by (simp add: node_ok_def leaf_node_def args_leaf child_def operation_rank_def all_constant_def)

lemma constant_node_ok:
  assumes ok: "store_ok c" and fresh: "fresh_addresses alloc"
    and eq: "constant_node alloc v c = (p, c')"
  shows "store_ok c' \<and> extends c c' \<and>
    (\<exists>n. node_at c' p = Some n \<and> t_op n = CONSTANT \<and> f32_isnan (t_value n) = f32_isnan v
      \<and> (f32_isnan v \<or> f32_key (t_value n) = f32_key v))"
proof (cases "f32_isnan v \<and> c_nan c = 0 \<or> \<not> f32_isnan v \<and> c_constants c (f32_key v) = None")
  case False
  with eq have "c' = c" "p = (if f32_isnan v then c_nan c else the (c_constants c (f32_key v)))"
    by (auto simp: constant_node_def split: if_splits option.splits)
  with ok False show ?thesis by (fastforce simp: store_ok_def constants_ok_def)
next
  case True
  let ?p = "alloc (c_nodes c)" and ?n = "leaf_node CONSTANT FLAG_LOCATION_AGNOSTIC v 0"
  note [simp] = fresh_address[OF fresh]
  from True eq have p: "p = ?p" and nodes: "c_nodes c' = (?p, ?n) # c_nodes c" and ops: "c_ops c' = c_ops c"
    and nan: "c_nan c' = (if f32_isnan v then ?p else c_nan c)"
    and cst: "c_constants c' = (if f32_isnan v then c_constants c else (c_constants c)(f32_key v \<mapsto> ?p))"
    by (auto simp: constant_node_def new_node_def Let_def split: if_splits)
  have ext: "extends c c'" by (auto simp: extends_def nodes)
  have "node_ok c' ?p ?n"
    by (rule leaf_node_ok) (simp_all add: args_def operation_flags_def registered_def leaf_node_def nan cst)
  moreover have "node_ok c' q m" if q: "node_at c q = Some m" for q m
  proof (rule node_ok_extends[OF store_okD[OF ok q] ext])
    have "q \<noteq> 0" using store_okD[OF ok q] by (simp add: node_ok_def)
    then show "registered c q m \<Longrightarrow> registered c' q m"
      using True by (auto simp: registered_def ops nan cst split: if_splits)
  qed
  moreover have "ops_ok c'" using ok ext by (fastforce simp: store_ok_def ops_ok_def ops extends_def)
  moreover have "c_constants c k \<noteq> Some ?p" for k
    using ok fresh_address(1)[OF fresh, of c] by (fastforce simp: store_ok_def constants_ok_def)
  then have "constants_ok c'" using ok
    by (auto simp: store_ok_def constants_ok_def nan cst nodes leaf_node_def split: if_splits)
  ultimately have "store_ok c'" by (auto simp: store_ok_def nodes split: if_splits)
  with ext show ?thesis by (simp add: p nodes leaf_node_def)
qed

section \<open>Looking an operation up\<close>

text \<open>What the calls that return a node promise: no fault but the lack of fuel, a well-formed
  store, nothing lost, and a live node.\<close>

definition builds :: "cache \<Rightarrow> fault + nat \<times> cache \<Rightarrow> bool" where
  "builds c res \<longleftrightarrow> (case res of Inl e \<Rightarrow> e = OutOfFuel
     | Inr (p, c') \<Rightarrow> store_ok c' \<and> extends c c' \<and> live c' p)"

definition builds_or_null :: "cache \<Rightarrow> fault + nat \<times> cache \<Rightarrow> bool" where
  "builds_or_null c res \<longleftrightarrow> (case res of Inl e \<Rightarrow> e = OutOfFuel
     | Inr (p, c') \<Rightarrow> store_ok c' \<and> extends c c' \<and> (p \<noteq> 0 \<longrightarrow> live c' p))"

definition operates :: "opcode \<Rightarrow> bool" where
  "operates op \<longleftrightarrow> op \<noteq> CONSTANT \<and> op \<noteq> INVALID \<and> op \<noteq> ORACLE \<and> op \<noteq> LAST_OP \<and> op \<noteq> VAR_FREE"

lemma clause_value_operates: "operates op \<Longrightarrow> args op \<noteq> 0 \<Longrightarrow> \<exists>v. clause_value lib op a b = Inr v"
  by (cases op) (simp_all add: operates_def clause_value_def args_def)

lemma constant_folded:
  fixes c :: cache
  assumes "node_at c p = None" "c_ops c (op, lhs, rhs) = None" "operates op"
    and n: "t_op n = op" "t_lhs n = lhs" "t_rhs n = rhs"
    and alloc: "fresh_addresses alloc"
    and eq: "constant_node alloc v (c\<lparr>c_nodes := (p, n) # c_nodes c, c_ops := (c_ops c)((op, lhs, rhs) \<mapsto> p)\<rparr>) = (k, c1)"
  shows "\<exists>c2. tree_destructor p c1 = Inr c2 \<and> constant_node (\<lambda>h. alloc ((p, n) # h)) v c = (k, c2)"
proof -
  let ?q = "alloc ((p, n) # c_nodes c)"
  have gone: "filter (\<lambda>(q, _). q \<noteq> p) (c_nodes c) = c_nodes c"
    using assms(1) by (intro filter_True) (force simp: map_of_eq_None_iff)
  have "?q \<notin> fst ` set ((p, n) # c_nodes c)" using alloc unfolding fresh_addresses_def by blast
  then have q: "?q \<noteq> p" by simp
  show ?thesis
  proof (cases "f32_isnan v \<and> c_nan c = 0 \<or> \<not> f32_isnan v \<and> c_constants c (f32_key v) = None")
    case True
    with eq n q gone assms(2,3) show ?thesis
      by (auto simp: constant_node_def new_node_def Let_def tree_destructor_def deref_def
          del_operation_def operates_def fun_upd_idem split: if_splits)
  next
    case False
    with eq n gone assms(2,3) show ?thesis
      by (auto simp: constant_node_def tree_destructor_def deref_def
          del_operation_def operates_def fun_upd_idem split: if_splits option.splits)
  qed
qed


lemma fresh_addresses_after: "fresh_addresses alloc \<Longrightarrow> fresh_addresses (\<lambda>h. alloc ((p, n) # h))"
  by (fastforce simp: fresh_addresses_def)

lemma store_op: "store_ok c \<Longrightarrow> c_ops c (op, l, r) = Some p \<Longrightarrow>
   \<exists>n. node_at c p = Some n \<and> t_op n = op \<and> t_lhs n = l \<and> t_rhs n = r \<and> op \<noteq> CONSTANT \<and> op \<noteq> VAR_FREE \<and> op \<noteq> ORACLE"
  by (auto simp: store_ok_def ops_ok_def)

lemma make_operation_ok:
  assumes ok: "store_ok c" and new: "node_at c p = None" "p \<noteq> 0" and op: "operates op"
    and args: "args_ok c op lhs rhs" and fresh: "c_ops c (op, lhs, rhs) = None" and "\<not> all_constant c lhs rhs"
    and n: "n = \<lparr>t_op = op, t_flags = operation_flags op (child c lhs) (child c rhs),
      t_rank = operation_rank (child c lhs) (child c rhs), t_value = f32_nan, t_oracle = 0, t_lhs = lhs, t_rhs = rhs\<rparr>"
    and c': "c' = c\<lparr>c_nodes := (p, n) # c_nodes c, c_ops := (c_ops c)((op, lhs, rhs) \<mapsto> p)\<rparr>"
  shows "store_ok c' \<and> extends c c' \<and> live c' p"
proof -
  have ext: "extends c c'" using new by (auto simp: extends_def c')
  have chi: "child c' lhs = child c lhs" "child c' rhs = child c rhs"
    using args by (auto intro!: child_extends[OF ext] simp: args_ok_def)
  have "node_ok c' p n" using assms(7) args_ok_extends[OF ext args] new op
    by (simp add: node_ok_def n chi all_constant_def registered_def operates_def) (simp add: c')
  moreover have "node_ok c' q m" if q: "node_at c q = Some m" for q m
  proof (rule node_ok_extends[OF store_okD[OF ok q] ext])
    show "registered c q m \<Longrightarrow> registered c' q m"
      using fresh by (auto simp: registered_def c' split: if_splits)
  qed
  moreover have "ops_ok c'" using ok op new
    by (auto simp: store_ok_def ops_ok_def c' n operates_def) fastforce+
  moreover have "constants_ok c'" using ok new by (fastforce simp: store_ok_def constants_ok_def c' n)
  ultimately show ?thesis using ext new by (auto simp: store_ok_def c' live_def)
qed

lemma find_or_make_cases:
  assumes ok: "store_ok c" and alloc: "fresh_addresses alloc" and op: "operates op" and args: "args_ok c op lhs rhs"
  shows "(\<exists>p. c_ops c (op, lhs, rhs) = Some p \<and> find_or_make lib alloc op lhs rhs c = Inr (p, c))
    \<or> c_ops c (op, lhs, rhs) = None \<and> all_constant c lhs rhs \<and>
      (\<exists>n v. clause_value lib op (constant_row (child c lhs)) (constant_row (child c rhs)) = Inr v \<and>
        find_or_make lib alloc op lhs rhs c = Inr (constant_node (\<lambda>h. alloc ((alloc (c_nodes c), n) # h)) v c))
    \<or> c_ops c (op, lhs, rhs) = None \<and> \<not> all_constant c lhs rhs \<and>
      (\<exists>p c'. find_or_make lib alloc op lhs rhs c = Inr (p, c') \<and> store_ok c' \<and> extends c c' \<and> live c' p
        \<and> c_ops c' (op, lhs, rhs) = Some p)"
proof (cases "c_ops c (op, lhs, rhs)")
  case (Some p)
  then show ?thesis using store_op[OF ok Some] by (auto simp: find_or_make_def)
next
  case None
  have der: "deref_opt c lhs = Inr (child c lhs)" "deref_opt c rhs = Inr (child c rhs)"
    using args by (auto intro!: deref_opt_child simp: args_ok_def)
  let ?p = "alloc (c_nodes c)"
  let ?n = "\<lparr>t_op = op, t_flags = operation_flags op (child c lhs) (child c rhs),
      t_rank = operation_rank (child c lhs) (child c rhs), t_value = f32_nan, t_oracle = 0, t_lhs = lhs, t_rhs = rhs\<rparr>"
  let ?c = "c\<lparr>c_nodes := (?p, ?n) # c_nodes c, c_ops := (c_ops c)((op, lhs, rhs) \<mapsto> ?p)\<rparr>"
  note p = fresh_address[OF alloc, of c]
  show ?thesis
  proof (cases "all_constant c lhs rhs")
    case False
    then have "find_or_make lib alloc op lhs rhs c = Inr (?p, ?c)"
      by (auto simp: find_or_make_def None der new_node_def Let_def all_constant_def)
    with make_operation_ok[OF ok p op args None False refl refl] None False show ?thesis by simp
  next
    case True
    then have "args op \<noteq> 0" using args by (auto simp: args_ok_def arity_ok_def all_constant_def)
    with clause_value_operates[OF op]
    obtain v where v: "clause_value lib op (constant_row (child c lhs)) (constant_row (child c rhs)) = Inr v" by blast
    obtain k c1 where k: "constant_node alloc v ?c = (k, c1)" by force
    from constant_folded[OF p(1) None op _ _ _ alloc k]
    obtain c2 where "tree_destructor ?p c1 = Inr c2" "constant_node (\<lambda>h. alloc ((?p, ?n) # h)) v c = (k, c2)" by auto
    then have "find_or_make lib alloc op lhs rhs c = Inr (constant_node (\<lambda>h. alloc ((?p, ?n) # h)) v c)"
      using True k v by (auto simp: find_or_make_def None der new_node_def Let_def all_constant_def)
    with v None True show ?thesis by blast
  qed
qed

lemma find_or_make_builds:
  assumes "store_ok c" "fresh_addresses alloc" "operates op" "args_ok c op lhs rhs"
  shows "builds c (find_or_make lib alloc op lhs rhs c)"
proof -
  have known: "live c p" if "c_ops c (op, lhs, rhs) = Some p" for p
    using store_op[OF assms(1) that] store_ok_live[OF assms(1)] by blast
  have folded: "builds c (Inr (constant_node al v c))" if "fresh_addresses al" for al v
  proof -
    obtain k c' where "constant_node al v c = (k, c')" by force
    with constant_node_ok[OF assms(1) that this] show ?thesis
      by (auto simp: builds_def dest: store_ok_live)
  qed
  show ?thesis
    using find_or_make_cases[OF assms, of lib] known folded[OF fresh_addresses_after[OF assms(2)]] assms(1)
    by (auto simp: builds_def)
qed

section \<open>The contract of a builder and the rewriting steps\<close>

lemma args_unary: "args op = 1 \<Longrightarrow> args_ok c op l r \<longleftrightarrow> live c l \<and> r = 0"
  by (auto simp: args_ok_def arity_ok_def live_def)

lemma args_binary: "args op = 2 \<Longrightarrow> args_ok c op l r \<longleftrightarrow> live c l \<and> live c r"
  by (auto simp: args_ok_def arity_ok_def live_def)

lemma node_args: "store_ok c \<Longrightarrow> node_at c p = Some n \<Longrightarrow> args_ok c (t_op n) (t_lhs n) (t_rhs n)"
  using store_okD by (simp add: node_ok_def)

lemma node_lhs: "store_ok c \<Longrightarrow> node_at c p = Some n \<Longrightarrow> args (t_op n) = 1 \<or> args (t_op n) = 2 \<Longrightarrow> live c (t_lhs n)"
  using node_args[of c p n] by (auto simp: args_unary args_binary)

lemma node_rhs: "store_ok c \<Longrightarrow> node_at c p = Some n \<Longrightarrow> args (t_op n) = 2 \<Longrightarrow> live c (t_rhs n)"
  using node_args[of c p n] by (auto simp: args_binary)

lemma node_rank_lhs: "store_ok c \<Longrightarrow> node_at c p = Some n \<Longrightarrow> node_at c (t_lhs n) = Some l \<Longrightarrow> t_lhs n \<noteq> 0 \<Longrightarrow> t_rank l < t_rank n"
  using store_okD[of c p n] by (simp add: node_ok_def operation_rank_def child_def)

lemma node_rank_rhs: "store_ok c \<Longrightarrow> node_at c p = Some n \<Longrightarrow> node_at c (t_rhs n) = Some r \<Longrightarrow> t_rhs n \<noteq> 0 \<Longrightarrow> t_rank r < t_rank n"
  using store_okD[of c p n] by (simp add: node_ok_def operation_rank_def child_def)

lemma builds_bind:
  assumes "builds c m" "\<And>p c'. m = Inr (p, c') \<Longrightarrow> store_ok c' \<Longrightarrow> extends c c' \<Longrightarrow> live c' p \<Longrightarrow> builds c' (f p c')"
  shows "builds c (bindE m (\<lambda>(p, c). f p c))"
  using assms extends_trans
  by (cases m) (fastforce simp: builds_def split: sum.splits prod.splits)+

lemma builds_then: "builds c' m \<Longrightarrow> extends c c' \<Longrightarrow> builds c m"
  using extends_trans by (fastforce simp: builds_def split: sum.splits prod.splits)

lemma builds_or_null_then: "builds_or_null c' m \<Longrightarrow> extends c c' \<Longrightarrow> builds_or_null c m"
  using extends_trans by (fastforce simp: builds_or_null_def split: sum.splits prod.splits)

lemma builds_null: "builds c m \<Longrightarrow> builds_or_null c m"
  by (auto simp: builds_def builds_or_null_def split: sum.splits prod.splits)

lemma builds_or_null_Inr: "store_ok c \<Longrightarrow> p \<noteq> 0 \<longrightarrow> live c p \<Longrightarrow> builds_or_null c (Inr (p, c))"
  by (simp add: builds_or_null_def)

lemma is_constant_None [simp]: "\<not> is_constant None v"
  by (simp add: is_constant_def)

lemma child_None_iff: "p \<noteq> 0 \<longrightarrow> live c p \<Longrightarrow> child c p = None \<longleftrightarrow> p = 0"
  by (auto simp: child_def live_def)

text \<open>The keys of an affine form are live nodes.\<close>

definition affine_ok :: "cache \<Rightarrow> affine \<Rightarrow> bool" where
  "affine_ok c m \<longleftrightarrow> (\<forall>k \<in> fst ` set m. live c k)"

lemma affine_ok_simps [simp]:
  "affine_ok c []" "affine_ok c ((k, v) # m) \<longleftrightarrow> live c k \<and> affine_ok c m"
  by (simp_all add: affine_ok_def)

lemma affine_ok_extends: "extends c c' \<Longrightarrow> affine_ok c m \<Longrightarrow> affine_ok c' m"
  by (auto simp: affine_ok_def intro: live_extends)

lemma affine_ok_set: "affine_ok c m \<Longrightarrow> live c k \<Longrightarrow> affine_ok c (affine_set k v m)"
  by (induction k v m rule: affine_set.induct) auto

lemma affine_ok_insert: "affine_ok c m \<Longrightarrow> live c k \<Longrightarrow> affine_ok c (affine_insert k v m)"
  by (simp add: affine_insert_def affine_ok_set)

lemma affine_ok_merge: "affine_ok c m \<Longrightarrow> affine_ok c terms \<Longrightarrow> affine_ok c (affine_merge f g m terms)"
  unfolding affine_merge_def
  by (induction terms arbitrary: m) (auto simp: affine_ok_set affine_ok_insert split: option.splits)

lemma affine_ok_scale: "affine_ok c terms \<Longrightarrow> affine_ok c (affine_scale f terms)"
proof -
  have "affine_ok c m \<Longrightarrow> affine_ok c terms \<Longrightarrow>
    affine_ok c (foldl (\<lambda>out (k, v). affine_insert k (f v) out) m terms)" for m
    by (induction terms arbitrary: m) (auto simp: affine_ok_insert)
  then show "affine_ok c terms \<Longrightarrow> ?thesis" by (simp add: affine_scale_def)
qed

definition groups_ok :: "cache \<Rightarrow> groups \<Rightarrow> bool" where
  "groups_ok c cs \<longleftrightarrow> (\<forall>(v, ns) \<in> set cs. \<forall>n \<in> set ns. live c n)"

lemma groups_ok_simps [simp]:
  "groups_ok c []" "groups_ok c ((v, ns) # cs) \<longleftrightarrow> (\<forall>n \<in> set ns. live c n) \<and> groups_ok c cs"
  by (simp_all add: groups_ok_def)

lemma groups_ok_add: "groups_ok c cs \<Longrightarrow> live c n \<Longrightarrow> groups_ok c (group_add v n cs)"
  by (induction v n cs rule: group_add.induct) auto

lemma groups_ok_affine: "affine_ok c ns \<Longrightarrow> groups_ok c (affine_groups ns)"
proof -
  have "groups_ok c cs \<Longrightarrow> affine_ok c ns \<Longrightarrow> groups_ok c (foldl (\<lambda>cs (n, v). group_add v n cs) cs ns)" for cs
    by (induction ns arbitrary: cs) (auto simp: groups_ok_add)
  then show "affine_ok c ns \<Longrightarrow> ?thesis" by (simp add: affine_groups_def)
qed

lemma groups_ok_extends: "extends c c' \<Longrightarrow> groups_ok c cs \<Longrightarrow> groups_ok c' cs"
  by (fastforce simp: groups_ok_def intro: live_extends)

lemma rank_or_zero_child:
  "p \<noteq> 0 \<longrightarrow> live c p \<Longrightarrow> rank_or_zero c p = Inr (case child c p of None \<Rightarrow> 0 | Some n \<Rightarrow> t_rank n)"
  by (simp add: rank_or_zero_def deref_opt_child)

lemma builds_fold:
  assumes "builds c0 (Inr (out, c))"
    and "\<And>c out x. x \<in> set xs \<Longrightarrow> store_ok c \<Longrightarrow> extends c0 c \<Longrightarrow> live c out \<Longrightarrow> builds c (step (out, c) x)"
  shows "builds c0 (foldE step (out, c) xs)"
  using assms
proof (induction xs arbitrary: out c)
  case (Cons x xs)
  from Cons.prems(1) have c: "store_ok c" "extends c0 c" "live c out" by (simp_all add: builds_def)
  have step: "builds c (step (out, c) x)" using Cons.prems(2)[OF _ c] by simp
  show ?case
  proof (cases "step (out, c) x")
    case (Inl e)
    with step show ?thesis by (simp add: builds_def)
  next
    case (Inr res)
    then obtain p c' where res: "step (out, c) x = Inr (p, c')" by (cases res) simp
    with step have "builds c0 (Inr (p, c'))" using extends_trans[OF c(2)] by (auto simp: builds_def)
    then have "builds c0 (foldE step (p, c') xs)" using Cons.prems(2) by (intro Cons.IH) auto
    with res show ?thesis by simp
  qed
qed simp

locale expr_builder =
  fixes alloc :: allocator and opn :: build
  assumes alloc: "fresh_addresses alloc"
    and opn: "\<And>c op l r. store_ok c \<Longrightarrow> operates op \<Longrightarrow> args_ok c op l r \<Longrightarrow> builds c (opn op l r c)"
begin

lemma constant_builds: "store_ok c \<Longrightarrow> builds c (Inr (constant_node alloc v c))"
  using constant_node_ok[OF _ alloc, of c v] store_ok_live
  by (cases "constant_node alloc v c") (fastforce simp: builds_def)

lemma opn_unary: "store_ok c \<Longrightarrow> args op = 1 \<Longrightarrow> live c l \<Longrightarrow> builds c (opn op l 0 c)"
  by (rule opn) (auto simp: args_unary operates_def args_def)

lemma opn_binary: "store_ok c \<Longrightarrow> args op = 2 \<Longrightarrow> live c l \<Longrightarrow> live c r \<Longrightarrow> builds c (opn op l r c)"
  by (rule opn) (auto simp: args_binary operates_def args_def)

lemma checkIdentity_builds:
  assumes ok: "store_ok c" and args: "args_ok c op a b"
  shows "builds_or_null c (checkIdentity opn op a b c)"
proof -
  have ab: "a \<noteq> 0 \<longrightarrow> live c a" "b \<noteq> 0 \<longrightarrow> live c b" using args by (auto simp: args_ok_def)
  have neg: "live c (lhs_of (child c p))" if "opcode_or_invalid (child c p) = OP_NEG" for p
    using node_lhs[OF ok] that
    by (auto simp: opcode_or_invalid_def lhs_of_def child_def args_def split: option.splits if_splits)
  have un: "builds_or_null c (opn op' p 0 c)" if "args op' = 1" "live c p" for op' p
    using opn_unary[OF ok that] by (rule builds_null)
  have bin: "builds_or_null c (opn op' p q c)" if "args op' = 2" "live c p" "live c q" for op' p q
    using opn_binary[OF ok that] by (rule builds_null)
  have two: "live c a \<and> live c b" if "args op = 2" using args that by (simp add: args_binary)
  have one: "live c a" if "args op = 1" using args that by (simp add: args_unary)
  note ret = builds_or_null_Inr[OF ok]
  show ?thesis
    unfolding checkIdentity_def deref_opt_child[OF ab(1)] deref_opt_child[OF ab(2)] bindE_simps Let_def
    by (cases op) (use two one neg in \<open>auto simp: args_def intro!: ret un bin\<close>)
qed

lemma checkCommutative_builds:
  assumes ok: "store_ok c" and args: "args_ok c op a b"
  shows "builds_or_null c (checkCommutative opn op a b c)"
proof (cases "isCommutative op")
  case True
  then have two: "args op = 2" by (auto simp: isCommutative_def args_def split: opcode.splits)
  with args obtain na nb where n: "node_at c a = Some na" "node_at c b = Some nb" and l: "live c a" "live c b"
    by (auto simp: args_binary live_def)
  have sub: "(p \<noteq> 0 \<longrightarrow> live c p)" if "p \<in> {t_lhs na, t_rhs na, t_lhs nb, t_rhs nb}" for p
    using that node_args[OF ok n(1)] node_args[OF ok n(2)] by (auto simp: args_ok_def)
  have kids: "live c (t_lhs m) \<and> live c (t_rhs m)" if "node_at c p = Some m" "t_op m = op" for p m
    using node_lhs[OF ok that(1)] node_rhs[OF ok that(1)] that(2) two by simp
  have twice: "builds_or_null c (bindE (opn op x y c) (\<lambda>(r, c). opn op z r c))"
    if "live c x" "live c y" "live c z" for x y z
    using that by (intro builds_null builds_bind opn_binary ok two) (auto intro: live_extends)
  have eq: "checkCommutative opn op a b c =
    (let rk = \<lambda>p. case child c p of None \<Rightarrow> 0 | Some n \<Rightarrow> t_rank n in
     if t_op na = op then
       (if t_rank nb < rk (t_lhs na) then bindE (opn op (t_rhs na) b c) (\<lambda>(r, c). opn op (t_lhs na) r c)
        else if t_rank nb < rk (t_rhs na) then bindE (opn op (t_lhs na) b c) (\<lambda>(r, c). opn op (t_rhs na) r c)
        else Inr (0, c))
     else if t_op nb = op then
       (if t_rank na < rk (t_lhs nb) then bindE (opn op (t_rhs nb) a c) (\<lambda>(r, c). opn op (t_lhs nb) r c)
        else if t_rank na < rk (t_rhs nb) then bindE (opn op (t_lhs nb) a c) (\<lambda>(r, c). opn op (t_rhs nb) r c)
        else Inr (0, c))
     else Inr (0, c))"
    using True n sub by (simp add: checkCommutative_def rank_or_zero_child)
  have null: "builds_or_null c (Inr (0, c))" using ok by (simp add: builds_or_null_Inr)
  have na: "live c (t_lhs na)" "live c (t_rhs na)" if "t_op na = op" using kids[OF n(1) that] by simp_all
  have nb: "live c (t_lhs nb)" "live c (t_rhs nb)" if "t_op nb = op" using kids[OF n(2) that] by simp_all
  show ?thesis unfolding eq Let_def by (simp add: null twice na nb l)
qed (use ok in \<open>auto simp: checkCommutative_def intro: builds_or_null_Inr\<close>)

lemma asAffine_builds:
  assumes "store_ok c" "node_at c n = Some nd" "t_rank nd < fuel"
  shows "\<exists>m c'. asAffine alloc fuel n c = Inr (m, c') \<and> store_ok c' \<and> extends c c' \<and> affine_ok c' m"
  using assms
proof (induction fuel arbitrary: n nd c)
  case (Suc fuel)
  note ok = Suc.prems(1) and nd = Suc.prems(2)
  have live: "live c n" using store_ok_live[OF ok nd] .
  have sub: "\<exists>m c''. asAffine alloc fuel p c' = Inr (m, c'') \<and> store_ok c'' \<and> extends c' c'' \<and> affine_ok c'' m"
    if "p = t_lhs nd \<or> p = t_rhs nd" "live c p" "store_ok c'" "extends c c'" for p c'
  proof -
    from that(2) obtain m where m: "node_at c p = Some m" "p \<noteq> 0" by (auto simp: live_def)
    then have "t_rank m < t_rank nd" using that(1) node_rank_lhs[OF ok nd] node_rank_rhs[OF ok nd] by auto
    then show ?thesis using Suc.IH[OF that(3) extends_node[OF that(4) m(1)]] Suc.prems(3) by simp
  qed
  have lhs: "live c (t_lhs nd)" if "args (t_op nd) = 1 \<or> args (t_op nd) = 2" using node_lhs[OF ok nd that] .
  have rhs: "live c (t_rhs nd)" if "args (t_op nd) = 2" using node_rhs[OF ok nd that] .
  have self: ?case if "asAffine alloc (Suc fuel) n c = Inr ([(n, f32_one)], c)"
    using that ok live by auto
  have scaled: ?case if "p = t_lhs nd \<or> p = t_rhs nd" "live c p" "asAffine alloc (Suc fuel) n c
      = bindE (asAffine alloc fuel p c) (\<lambda>(terms, c). Inr (affine_scale f terms, c))" for p f
    using sub[OF that(1,2) ok extends_refl] that(3) by (auto intro: affine_ok_scale)
  have merged: ?case if "args (t_op nd) = 2" "asAffine alloc (Suc fuel) n c =
      bindE (asAffine alloc fuel (t_lhs nd) c) (\<lambda>(out, c).
      bindE (asAffine alloc fuel (t_rhs nd) c) (\<lambda>(terms, c). Inr (affine_merge f g out terms, c)))" for f g
  proof -
    from sub[OF disjI1[OF refl] lhs[OF disjI2[OF that(1)]] ok extends_refl] obtain m1 c1 where 1: "asAffine alloc fuel (t_lhs nd) c = Inr (m1, c1)"
      "store_ok c1" "extends c c1" "affine_ok c1 m1" by auto
    from sub[OF disjI2[OF refl] rhs[OF that(1)] 1(2,3)] obtain m2 c2 where 2: "asAffine alloc fuel (t_rhs nd) c1 = Inr (m2, c2)"
      "store_ok c2" "extends c1 c2" "affine_ok c2 m2" by auto
    have "affine_ok c2 (affine_merge f g m1 m2)" using affine_ok_merge affine_ok_extends[OF 2(3) 1(4)] 2(4) by blast
    with that 1 2 extends_trans[OF 1(3) 2(3)] show ?thesis by simp
  qed
  show ?case
  proof (cases "t_op nd")
    case CONSTANT
    obtain k c1 where k: "constant_node alloc f32_one c = (k, c1)" by force
    with constant_node_ok[OF ok alloc k] CONSTANT nd show ?thesis by (auto dest: store_ok_live)
  next
    case OP_ADD
    then show ?thesis using nd by (intro merged) (simp_all add: args_def)
  next
    case OP_SUB
    then show ?thesis using nd by (intro merged) (simp_all add: args_def)
  next
    case OP_NEG
    then show ?thesis using nd lhs by (intro scaled[of "t_lhs nd"]) (simp_all add: args_def)
  next
    case OP_MUL
    then obtain l r where lr: "node_at c (t_lhs nd) = Some l" "node_at c (t_rhs nd) = Some r"
      "live c (t_lhs nd)" "live c (t_rhs nd)"
      using lhs rhs by (auto simp: args_def live_def)
    then show ?thesis using nd OP_MUL self scaled[of "t_lhs nd" "\<lambda>v. f32_mul v (t_value r)"]
      scaled[of "t_rhs nd" "\<lambda>v. f32_mul v (t_value l)"] by (cases "t_op l = CONSTANT"; cases "t_op r = CONSTANT") simp_all
  next
    case OP_DIV
    then obtain r where lr: "node_at c (t_rhs nd) = Some r" "live c (t_lhs nd)"
      using lhs rhs by (auto simp: args_def live_def)
    then show ?thesis using nd OP_DIV self scaled[of "t_lhs nd" "\<lambda>v. f32_div v (t_value r)"]
      by (cases "t_op r = CONSTANT") simp_all
  qed (use self nd in simp_all)
qed simp

lemma affine_of_builds:
  assumes "store_ok c" "live c n"
  shows "\<exists>m c'. affine_of alloc n c = Inr (m, c') \<and> store_ok c' \<and> extends c c' \<and> affine_ok c' m"
proof -
  from assms(2) obtain nd where nd: "node_at c n = Some nd" by (auto simp: live_def)
  then show ?thesis using asAffine_builds[OF assms(1) nd, of "Suc (t_rank nd)"] by (simp add: affine_of_def)
qed

lemma constant_starts:
  assumes "store_ok c"
  shows "\<exists>k c'. constant_node alloc v c = (k, c') \<and> builds c (Inr (k, c')) \<and> store_ok c' \<and> extends c c' \<and> live c' k"
proof -
  obtain k c' where "constant_node alloc v c = (k, c')" by force
  with constant_builds[OF assms, of v] show ?thesis by (simp add: builds_def)
qed

lemma sum_builds:
  assumes "builds c0 (Inr (cur, c))" "\<forall>n \<in> set ns. live c0 n"
  shows "builds c0 (foldE (\<lambda>(cur, c) n. opn OP_ADD cur n c) (cur, c) ns)"
  using assms(2) by (intro builds_fold[OF assms(1)]) (auto simp: args_def intro!: opn_binary intro: live_extends)

lemma accumulate_group_builds:
  assumes "store_ok c" "live c out" "\<forall>n \<in> set ns. live c n"
  shows "builds c (accumulate_group alloc opn (out, c) (v, ns))"
proof -
  from constant_starts[OF assms(1)] obtain z c1 where z: "constant_node alloc 0 c = (z, c1)" "builds c (Inr (z, c1))" by blast
  have "builds c (bindE (foldE (\<lambda>(cur, c) n. opn OP_ADD cur n c) (z, c1) ns) (\<lambda>(cur, c).
       let (k, c) = constant_node alloc v c in bindE (opn OP_MUL cur k c) (\<lambda>(term, c). opn OP_ADD out term c)))"
  proof (rule builds_bind[OF sum_builds[OF z(2) assms(3)]])
    fix cur c2 assume c2: "store_ok c2" "extends c c2" "live c2 cur"
    from constant_starts[OF c2(1)] obtain k c3 where k: "constant_node alloc v c2 = (k, c3)" "store_ok c3"
      "extends c2 c3" "live c3 k" by blast
    have "live c3 out" "live c3 cur" using live_extends k(3) c2 assms(2) by blast+
    then have "builds c3 (bindE (opn OP_MUL cur k c3) (\<lambda>(term, c). opn OP_ADD out term c))"
      using k by (intro builds_bind opn_binary) (auto simp: args_def intro: live_extends)
    from builds_then[OF this k(3)] k(1)
    show "builds c2 (let (k, c) = constant_node alloc v c2 in bindE (opn OP_MUL cur k c) (\<lambda>(term, c). opn OP_ADD out term c))"
      by simp
  qed
  with z(1) show ?thesis by (simp add: accumulate_group_def)
qed

lemma accumulate_builds:
  assumes "store_ok c" "groups_ok c vs"
  shows "builds c (accumulate alloc opn vs c)"
proof -
  from constant_starts[OF assms(1)] obtain z c1 where z: "constant_node alloc 0 c = (z, c1)" "builds c (Inr (z, c1))" by blast
  have group: "live c' n" if "(v, ns) \<in> set vs" "n \<in> set ns" "extends c c'" for v ns n c'
    using that assms(2) by (fastforce simp: groups_ok_def intro: live_extends)
  have "builds c (foldE (accumulate_group alloc opn) (z, c1) vs)"
    by (intro builds_fold[OF z(2)]) (auto intro!: accumulate_group_builds group)
  with z(1) show ?thesis by (simp add: accumulate_def)
qed

lemma fromAffine_builds:
  assumes "store_ok c" "affine_ok c ns"
  shows "builds c (fromAffine alloc opn ns c)"
proof -
  let ?pos = "filter (\<lambda>(v, _). f32_lt 0 v) (affine_groups ns)"
  let ?neg = "map (\<lambda>(v, l). (f32_uminus v, l)) (filter (\<lambda>(v, _). f32_lt v 0) (affine_groups ns))"
  have g: "groups_ok c ?pos" "groups_ok c ?neg"
    using groups_ok_affine[OF assms(2)] by (fastforce simp: groups_ok_def)+
  show ?thesis unfolding fromAffine_def Let_def
  proof (rule builds_bind[OF accumulate_builds[OF assms(1) g(1)]])
    fix p c1 assume c1: "store_ok c1" "extends c c1" "live c1 p"
    show "builds c1 (bindE (accumulate alloc opn ?neg c1) (\<lambda>(n, c). opn OP_SUB p n c))"
      using c1 groups_ok_extends[OF c1(2) g(2)]
      by (intro builds_bind[OF accumulate_builds] opn_binary) (auto simp: args_def intro: live_extends)
  qed
qed

lemma checkAffine_builds:
  assumes ok: "store_ok c" and args: "args_ok c op a b"
  shows "builds_or_null c (checkAffine alloc opn op a b c)"
proof (cases "op = OP_ADD \<or> op = OP_SUB")
  case True
  then have two: "args op = 2" by (auto simp: args_def)
  with args have l: "live c a" "live c b" by (auto simp: args_binary)
  from affine_of_builds[OF ok l(1)] obtain m1 c1 where 1: "affine_of alloc a c = Inr (m1, c1)"
    "store_ok c1" "extends c c1" "affine_ok c1 m1" by auto
  from affine_of_builds[OF 1(2) live_extends[OF 1(3) l(2)]] obtain m2 c2 where 2: "affine_of alloc b c1 = Inr (m2, c2)"
    "store_ok c2" "extends c1 c2" "affine_ok c2 m2" by auto
  have ext: "extends c c2" using 1(3) 2(3) by (rule extends_trans)
  have "affine_ok c2 (affine_merge f g m1 m2)" for f g
    using affine_ok_merge affine_ok_extends[OF 2(3) 1(4)] 2(4) by blast
  then have "builds_or_null c2 (fromAffine alloc opn (affine_merge f g m1 m2) c2)" for f g
    by (intro builds_null fromAffine_builds 2(2))
  from builds_or_null_then[OF this ext] show ?thesis
    using True 1(1) 2(1,2) ext by (auto simp: checkAffine_def Let_def builds_or_null_def)
qed (use ok in \<open>auto simp: checkAffine_def builds_or_null_def\<close>)

end

section \<open>The store keeps its invariant\<close>

lemma operation_builds:
  assumes alloc: "fresh_addresses alloc"
  shows "store_ok c \<Longrightarrow> operates op \<Longrightarrow> args_ok c op l r \<Longrightarrow> builds c (operation lib alloc fuel simplify op l r c)"
proof (induction fuel arbitrary: c op l r simplify)
  case (Suc fuel)
  let ?opn = "operation lib alloc fuel True"
  have b: "expr_builder alloc ?opn"
    by unfold_locales (use alloc Suc.IH in simp_all)
  have op: "op \<noteq> CONSTANT" "op \<noteq> INVALID" "op \<noteq> ORACLE" "op \<noteq> LAST_OP"
    using Suc.prems(2) by (simp_all add: operates_def)
  have make: "builds c' (find_or_make lib alloc op l r c')" if "store_ok c'" "extends c c'" for c'
    using find_or_make_builds[OF that(1) alloc Suc.prems(2) args_ok_extends[OF that(2) Suc.prems(3)]] .
  have check: "builds c (bindE m (\<lambda>(t, c). if t \<noteq> 0 then Inr (t, c) else f c))"
    if "builds_or_null c m" "\<And>c'. store_ok c' \<Longrightarrow> extends c c' \<Longrightarrow> builds c' (f c')" for c m f
    using that(1) builds_then[OF that(2)]
    by (cases m) (auto simp: builds_or_null_def builds_def)
  have "builds c (bindE (checkIdentity ?opn op l r c) (\<lambda>(t, c). if t \<noteq> 0 then Inr (t, c) else
        bindE (checkCommutative ?opn op l r c) (\<lambda>(t, c). if t \<noteq> 0 then Inr (t, c) else
        bindE (checkAffine alloc ?opn op l r c) (\<lambda>(t, c). if t \<noteq> 0 then Inr (t, c) else
          find_or_make lib alloc op l r c))))"
  proof (intro check)
    show "builds_or_null c (checkIdentity ?opn op l r c)"
      using expr_builder.checkIdentity_builds[OF b Suc.prems(1,3)] .
  next
    fix c1 assume "store_ok c1" "extends c c1"
    then show "builds_or_null c1 (checkCommutative ?opn op l r c1)"
      using expr_builder.checkCommutative_builds[OF b] args_ok_extends Suc.prems(3) by blast
  next
    fix c1 c2 assume "store_ok c1" "extends c c1" "store_ok c2" "extends c1 c2"
    then show "builds_or_null c2 (checkAffine alloc ?opn op l r c2)"
      using expr_builder.checkAffine_builds[OF b] args_ok_extends[OF extends_trans] Suc.prems(3) by blast
  next
    fix c1 c2 c3 assume "extends c c1" "extends c1 c2" "store_ok c3" "extends c2 c3"
    then show "builds c3 (find_or_make lib alloc op l r c3)" using make extends_trans by blast
  qed
  then show ?case using op make[OF Suc.prems(1) extends_refl] by (simp add: Let_def)
qed (simp add: builds_def)

lemma expr_builder_operation: "fresh_addresses alloc \<Longrightarrow> expr_builder alloc (operation lib alloc fuel True)"
  by unfold_locales (simp_all add: operation_builds)

text \<open>An allocator that returns the address after the last one in use.\<close>

definition next_address :: allocator where
  "next_address h = Suc (foldr max (map fst h) 0)"

lemma fresh_next_address: "fresh_addresses next_address"
proof -
  have "p \<in> fst ` set h \<Longrightarrow> p \<le> foldr max (map fst h) 0" for p and h :: nodes
    by (induction h) (force simp: le_max_iff_disj)+
  then show ?thesis by (fastforce simp: fresh_addresses_def next_address_def)
qed

interpretation kernel: expr_builder next_address "operation lib next_address fuel True" for lib fuel
  by (rule expr_builder_operation[OF fresh_next_address])

lemma var_ok:
  assumes "store_ok c" "fresh_addresses alloc" "var alloc c = (p, c')"
  shows "store_ok c' \<and> extends c c' \<and> live c' p"
proof -
  let ?p = "alloc (c_nodes c)" and ?n = "leaf_node VAR_FREE FLAG_LOCATION_AGNOSTIC f32_nan 0"
  note fresh = fresh_address[OF assms(2), of c]
  from assms(3) have c': "p = ?p" "c' = c\<lparr>c_nodes := (?p, ?n) # c_nodes c\<rparr>"
    by (auto simp: var_def new_node_def Let_def)
  have ext: "extends c c'" using new_node_extends[OF fresh(1)] by (simp add: c')
  have "node_ok c' ?p ?n"
    by (rule leaf_node_ok) (simp_all add: fresh args_def operation_flags_def registered_def leaf_node_def)
  moreover have "node_ok c' q m" if q: "node_at c q = Some m" for q m
    by (rule node_ok_extends[OF store_okD[OF assms(1) q] ext]) (simp add: registered_def c')
  moreover have "ops_ok c'" "constants_ok c'"
    using ops_ok_extends[OF _ ext] constants_ok_extends[OF _ ext] assms(1) by (simp_all add: store_ok_def c'(2))
  ultimately show ?thesis using ext fresh by (auto simp: store_ok_def c' live_def)
qed

text \<open>A node is destroyed when nothing refers to it any more.\<close>

definition referenced :: "cache \<Rightarrow> nat \<Rightarrow> bool" where
  "referenced c p \<longleftrightarrow> (\<exists>q \<in> fst ` set (c_nodes c).
     case node_at c q of None \<Rightarrow> False | Some n \<Rightarrow> t_lhs n = p \<or> t_rhs n = p)"

lemma referenced_iff: "referenced c p \<longleftrightarrow> (\<exists>q n. node_at c q = Some n \<and> (t_lhs n = p \<or> t_rhs n = p))"
proof
  assume "referenced c p"
  then obtain q where "q \<in> fst ` set (c_nodes c)" "case node_at c q of None \<Rightarrow> False | Some n \<Rightarrow> t_lhs n = p \<or> t_rhs n = p"
    unfolding referenced_def by blast
  then show "\<exists>q n. node_at c q = Some n \<and> (t_lhs n = p \<or> t_rhs n = p)" by (cases "node_at c q") auto
next
  assume "\<exists>q n. node_at c q = Some n \<and> (t_lhs n = p \<or> t_rhs n = p)"
  then obtain q n where n: "node_at c q = Some n" "t_lhs n = p \<or> t_rhs n = p" by blast
  have "q \<in> fst ` set (c_nodes c)" using map_of_SomeD[OF n(1)] by (rule image_eqI[rotated]) simp
  with n show "referenced c p" unfolding referenced_def by (intro bexI[of _ q]) simp_all
qed

lemma tree_destructor_ok:
  assumes ok: "store_ok c" and p: "node_at c p = Some n" and unref: "\<not> referenced c p"
  shows "\<exists>c'. tree_destructor p c = Inr c' \<and> store_ok c' \<and> (\<forall>q. node_at c' q = (if q = p then None else node_at c q))"
proof -
  let ?c = "c\<lparr>c_nodes := filter (\<lambda>(q, _). q \<noteq> p) (c_nodes c)\<rparr>"
  have nodes: "map_of (filter (\<lambda>(q, _). q \<noteq> p) h) q = (if q = p then None else map_of h q)" for q and h :: nodes
    by (induction h) auto
  have n: "node_ok c p n" "registered c p n" using store_okD[OF ok p] by (simp_all add: node_ok_def)
  have kids: "t_lhs m \<noteq> p \<and> t_rhs m \<noteq> p" if "node_at c q = Some m" for q m
    using unref that by (auto simp: referenced_iff)
  have other: "node_ok c' q m" if c': "c_nodes c' = c_nodes ?c" and q: "node_at c q = Some m"
    and r: "registered c q m \<Longrightarrow> registered c' q m" for c' q m
  proof -
    note k = kids[OF q] and m = store_okD[OF ok q]
    then have ch: "child c' (t_lhs m) = child c (t_lhs m)" "child c' (t_rhs m) = child c (t_rhs m)"
      by (simp_all add: child_def c' nodes)
    have "args_ok c' (t_op m) (t_lhs m) (t_rhs m)" using m k by (auto simp: node_ok_def args_ok_def live_def c' nodes)
    with m r ch show ?thesis by (simp add: node_ok_def all_constant_def)
  qed
  obtain c' where c': "tree_destructor p c = Inr c'" "c_nodes c' = c_nodes ?c"
    "\<And>k. c_ops c' k = (if t_op n \<notin> {CONSTANT, VAR_FREE, ORACLE} \<and> k = (t_op n, t_lhs n, t_rhs n) then None else c_ops c k)"
    "\<And>k. c_constants c' k = (if t_op n = CONSTANT \<and> \<not> f32_isnan (t_value n) \<and> k = f32_key (t_value n) then None else c_constants c k)"
    "c_nan c' = (if t_op n = CONSTANT \<and> f32_isnan (t_value n) then 0 else c_nan c)"
    using p n(2) by (auto simp: tree_destructor_def del_constant_def del_operation_def registered_def split: if_splits)
  have reg: "registered c' q m" if "node_at c q = Some m" "q \<noteq> p" "registered c q m" for q m
    using that n(2) by (auto simp: registered_def c' split: if_splits)
  have "node_ok c' q m" if "node_at c' q = Some m" for q m
    using that reg[of q m] by (intro other) (auto simp: c' nodes split: if_splits)
  moreover have "ops_ok c'" using ok p unfolding store_ok_def ops_ok_def
    by (fastforce simp: c' nodes split: if_splits)
  moreover have "constants_ok c'" using ok p unfolding store_ok_def constants_ok_def
    by (fastforce simp: c' nodes split: if_splits)
  ultimately show ?thesis using c'(1) by (auto simp: store_ok_def c'(2) nodes)
qed

end
