(* ===== verification/ExprValue.thy ===== *)
theory ExprValue
  imports ExprStore
begin

text \<open>
  What a node of the expression store stands for: the expression below it, the value of that
  expression at a point, and the facts about both that the properties share. \<open>tree_of\<close> reads the
  tree off the store; \<open>eval_expr\<close> is the recursive evaluation that the tapes of the evaluators are
  compared with.
\<close>

section \<open>Expressions\<close>

datatype expr = Null | Constant f32 | Free nat | Oracle nat | Apply opcode expr expr

fun expr_of :: "cache \<Rightarrow> nat \<Rightarrow> nat \<Rightarrow> expr" where
  "expr_of c 0 p = Null"
| "expr_of c (Suc fuel) p =
     (case node_at c p of
        None \<Rightarrow> Null
      | Some n \<Rightarrow>
          if t_op n = CONSTANT then Constant (t_value n)
          else if t_op n = VAR_FREE then Free p
          else if t_op n = ORACLE then Oracle p
          else Apply (t_op n) (expr_of c fuel (t_lhs n)) (expr_of c fuel (t_rhs n)))"

definition tree_of :: "cache \<Rightarrow> nat \<Rightarrow> expr" where
  "tree_of c p = (case node_at c p of None \<Rightarrow> Null | Some n \<Rightarrow> expr_of c (Suc (t_rank n)) p)"

lemma store_ok_0: "store_ok c \<Longrightarrow> node_at c 0 = None"
  using store_okD[of c 0] by (cases "node_at c 0") (auto simp: node_ok_def)

lemma node_child:
  assumes "store_ok c" "node_at c p = Some n" "q = t_lhs n \<or> q = t_rhs n"
  shows "q = 0 \<or> (\<exists>m. node_at c q = Some m \<and> t_rank m < t_rank n)"
proof (cases "q = 0")
  case False
  then have "live c q" using node_args[OF assms(1,2)] assms(3) by (auto simp: args_ok_def)
  then obtain m where m: "node_at c q = Some m" by (auto simp: live_def)
  with False assms(3) have "t_rank m < t_rank n"
    using node_rank_lhs[OF assms(1,2)] node_rank_rhs[OF assms(1,2)] by auto
  with m show ?thesis by simp
qed simp

lemma expr_of_fuel:
  assumes "store_ok c"
  shows "node_at c p = Some n \<Longrightarrow> t_rank n < k \<Longrightarrow> t_rank n < k' \<Longrightarrow> expr_of c k p = expr_of c k' p"
proof (induction k arbitrary: p n k')
  case (Suc k)
  then obtain j where j: "k' = Suc j" by (cases k') auto
  have "expr_of c k q = expr_of c j q" if "q = t_lhs n \<or> q = t_rhs n" for q
    using node_child[OF assms Suc.prems(1) that]
  proof
    assume "q = 0"
    with store_ok_0[OF assms] show ?thesis by (cases k; cases j) simp_all
  next
    assume "\<exists>m. node_at c q = Some m \<and> t_rank m < t_rank n"
    then obtain m where m: "node_at c q = Some m" "t_rank m < t_rank n" by blast
    with Suc.prems(2,3) j show ?thesis by (intro Suc.IH[OF m(1)]) linarith+
  qed
  with j Suc.prems(1) show ?case by simp
qed simp

lemma tree_of_0: "store_ok c \<Longrightarrow> tree_of c 0 = Null"
  by (simp add: tree_of_def store_ok_0)

lemma tree_of_node:
  assumes "store_ok c" "node_at c p = Some n"
  shows "tree_of c p =
    (if t_op n = CONSTANT then Constant (t_value n)
     else if t_op n = VAR_FREE then Free p
     else if t_op n = ORACLE then Oracle p
     else Apply (t_op n) (tree_of c (t_lhs n)) (tree_of c (t_rhs n)))"
proof -
  have "expr_of c (t_rank n) q = tree_of c q" if "q = t_lhs n \<or> q = t_rhs n" for q
    using node_child[OF assms that]
  proof
    assume "q = 0"
    then show ?thesis using store_ok_0[OF assms(1)] by (cases "t_rank n") (simp_all add: tree_of_def)
  next
    assume "\<exists>m. node_at c q = Some m \<and> t_rank m < t_rank n"
    then obtain m where m: "node_at c q = Some m" "t_rank m < t_rank n" by blast
    then show ?thesis using expr_of_fuel[OF assms(1) m(1) m(2), of "Suc (t_rank m)"]
      by (simp add: tree_of_def del: expr_of.simps)
  qed
  then show ?thesis by (simp add: tree_of_def assms(2))
qed

lemma tree_of_extends:
  assumes "store_ok c" "store_ok c'" "extends c c'" "live c p"
  shows "tree_of c' p = tree_of c p"
proof -
  have "expr_of c' k p = expr_of c k p" if "p = 0 \<or> live c p" for k p
    using that
  proof (induction k arbitrary: p)
    case (Suc k)
    show ?case
    proof (cases "node_at c p")
      case None
      with Suc.prems store_ok_0[OF assms(2)] show ?thesis by (auto simp: live_def)
    next
      case (Some n)
      have "q = 0 \<or> live c q" if "q = t_lhs n \<or> q = t_rhs n" for q
        using node_args[OF assms(1) Some] that by (auto simp: args_ok_def)
      with Suc.IH extends_node[OF assms(3) Some] Some show ?thesis by simp
    qed
  qed simp
  with assms(3,4) show ?thesis by (auto simp: tree_of_def live_def extends_def simp del: expr_of.simps)
qed

lemma tree_of_not_Null: "store_ok c \<Longrightarrow> live c p \<Longrightarrow> tree_of c p \<noteq> Null"
  by (auto simp: live_def tree_of_node split: if_splits)

text \<open>Equal expressions are the same node.\<close>

lemma tree_of_inj:
  assumes "store_ok c"
  shows "live c p \<Longrightarrow> live c q \<Longrightarrow> tree_of c p = tree_of c q \<Longrightarrow> p = q"
proof (induction "tree_of c p" arbitrary: p q)
  case Null
  then show ?case using tree_of_not_Null[OF assms] by metis
next
  case (Apply op l r)
  obtain n m where n: "node_at c p = Some n" "node_at c q = Some m" using Apply.prems by (auto simp: live_def)
  have t: "tree_of c p = Apply op l r" "tree_of c q = Apply op l r" using Apply.hyps(3) Apply.prems(3) by simp_all
  have ops: "t_op n = op" "t_op m = op" "l = tree_of c (t_lhs n)" "l = tree_of c (t_lhs m)"
    "r = tree_of c (t_rhs n)" "r = tree_of c (t_rhs m)" "op \<notin> {CONSTANT, VAR_FREE, ORACLE}"
    using t by (auto simp: tree_of_node[OF assms n(1)] tree_of_node[OF assms n(2)] split: if_splits)
  have kid: "x = 0 \<or> live c x" if "x \<in> {t_lhs n, t_lhs m, t_rhs n, t_rhs m}" for x
    using node_args[OF assms n(1)] node_args[OF assms n(2)] that by (auto simp: args_ok_def)
  have eq: "x = y" if "x = 0 \<or> live c x" "y = 0 \<or> live c y" "tree_of c x = tree_of c y"
    "live c x \<Longrightarrow> live c y \<Longrightarrow> tree_of c x = tree_of c y \<Longrightarrow> x = y" for x y
    using that tree_of_not_Null[OF assms, of x] tree_of_not_Null[OF assms, of y] tree_of_0[OF assms] by auto
  have kids: "t_lhs n = 0 \<or> live c (t_lhs n)" "t_lhs m = 0 \<or> live c (t_lhs m)"
    "t_rhs n = 0 \<or> live c (t_rhs n)" "t_rhs m = 0 \<or> live c (t_rhs m)" using kid by simp_all
  have "t_lhs n = t_lhs m"
    by (rule eq[OF kids(1,2)]) (use ops(3,4) Apply.hyps(1)[OF ops(3)] in simp_all)
  moreover have "t_rhs n = t_rhs m"
    by (rule eq[OF kids(3,4)]) (use ops(5,6) Apply.hyps(2)[OF ops(5)] in simp_all)
  moreover have "registered c p n" "registered c q m" using store_okD[OF assms] n by (auto simp: node_ok_def)
  ultimately show ?case using ops by (auto simp: registered_def)
next
  case (Constant v)
  obtain n m where n: "node_at c p = Some n" "node_at c q = Some m" using Constant.prems by (auto simp: live_def)
  have "t_op n = CONSTANT" "t_op m = CONSTANT" "t_value n = t_value m"
    using Constant by (auto simp: tree_of_node[OF assms n(1)] tree_of_node[OF assms n(2)] split: if_splits)
  moreover have "registered c p n" "registered c q m" using store_okD[OF assms] n by (auto simp: node_ok_def)
  ultimately show ?case by (auto simp: registered_def split: if_splits)
qed (auto simp: live_def tree_of_node[OF assms] split: if_splits)

section \<open>Values\<close>

record env =
  e_x :: f32
  e_y :: f32
  e_z :: f32
  e_var :: "nat \<Rightarrow> f32"
  e_oracle :: "nat \<Rightarrow> f32"

definition apply_clause :: "libm \<Rightarrow> opcode \<Rightarrow> f32 \<Rightarrow> f32 \<Rightarrow> f32" where
  "apply_clause lib op a b = (case clause_value lib op a b of Inl _ \<Rightarrow> 0 | Inr v \<Rightarrow> v)"

fun eval_expr :: "libm \<Rightarrow> env \<Rightarrow> expr \<Rightarrow> f32" where
  "eval_expr lib env Null = 0"
| "eval_expr lib env (Constant v) = v"
| "eval_expr lib env (Free p) = e_var env p"
| "eval_expr lib env (Oracle p) = e_oracle env p"
| "eval_expr lib env (Apply op l r) =
     (if op = VAR_X then e_x env else if op = VAR_Y then e_y env else if op = VAR_Z then e_z env
      else apply_clause lib op (eval_expr lib env l) (eval_expr lib env r))"

definition same_float :: "f32 \<Rightarrow> f32 \<Rightarrow> bool" where
  "same_float a b \<longleftrightarrow> f32_isnan a \<and> f32_isnan b \<or> f32_eq a b"

lemma same_float_refl [simp]: "same_float a a"
  by (simp add: same_float_def f32_eq_def)

lemma same_float_iff: "same_float a b \<longleftrightarrow> f32_isnan a = f32_isnan b \<and> (f32_isnan a \<or> f32_key a = f32_key b)"
  by (auto simp: same_float_def f32_eq_def)

lemma uminus_uminus [simp]: "f32_uminus (f32_uminus v) = v"
  by (simp add: f32_uminus_def xor.assoc)

lemma abs_abs [simp]: "f32_abs (f32_abs v) = f32_abs v"
  by (simp add: f32_abs_def and.assoc)

end
