(* ===== verification/ExprRewrite.thy ===== *)
theory ExprRewrite
  imports ExprValue
begin

text \<open>
  What \<open>operation\<close> returns: the tree it builds when no rewriting applies, that the rewriting of
  products, minima and maxima comes to an end, and the value of the result.
\<close>

section \<open>The node of a lookup\<close>

definition rank_of :: "cache \<Rightarrow> nat \<Rightarrow> nat" where
  "rank_of c p = (case child c p of None \<Rightarrow> 0 | Some n \<Rightarrow> t_rank n)"

lemma rank_of_node: "p \<noteq> 0 \<Longrightarrow> node_at c p = Some n \<Longrightarrow> rank_of c p = t_rank n"
  by (simp add: rank_of_def child_def)

lemma rank_of_extends: "extends c c' \<Longrightarrow> live c p \<Longrightarrow> rank_of c' p = rank_of c p"
  by (simp add: rank_of_def child_extends)

lemma operation_rank_le: "operation_rank (child c l) (child c r) \<le> Suc (max (rank_of c l) (rank_of c r))"
  by (auto simp: operation_rank_def rank_of_def split: option.splits)

lemma constant_row_eval:
  assumes "store_ok c" "p \<noteq> 0 \<longrightarrow> live c p" "constant_argument (child c p)"
  shows "constant_row (child c p) = eval_expr lib env (tree_of c p)"
proof (cases "p = 0")
  case True
  with assms(1) show ?thesis by (simp add: constant_row_def child_def tree_of_0)
next
  case False
  with assms(2) obtain n where "node_at c p = Some n" by (auto simp: live_def)
  with assms False show ?thesis by (simp add: constant_row_def child_def tree_of_node constant_argument_def)
qed

lemma operates_axis: "operates op \<Longrightarrow> args_ok c op l r \<Longrightarrow> all_constant c l r \<Longrightarrow> op \<noteq> VAR_X \<and> op \<noteq> VAR_Y \<and> op \<noteq> VAR_Z"
  by (auto simp: args_ok_def arity_ok_def args_def all_constant_def split: if_splits)

lemma op_node_not_constant: "store_ok c \<Longrightarrow> c_ops c (op, l, r) = Some p \<Longrightarrow> \<not> all_constant c l r"
  using store_op[of c op l r p] store_okD[of c p] by (auto simp: node_ok_def)

text \<open>A lookup returns a node for the application of the operation, or for its value when the
  arguments are constants.\<close>

lemma find_or_make_tree:
  assumes ok: "store_ok c" and alloc: "fresh_addresses alloc" and op: "operates op" and args: "args_ok c op l r"
  shows "\<exists>p c'. find_or_make lib alloc op l r c = Inr (p, c') \<and> store_ok c' \<and> extends c c' \<and> live c' p \<and>
    (if all_constant c l r
     then rank_of c' p = 0 \<and> (\<exists>v. tree_of c' p = Constant v \<and>
       same_float v (apply_clause lib op (constant_row (child c l)) (constant_row (child c r))))
     else tree_of c' p = Apply op (tree_of c l) (tree_of c r)
       \<and> rank_of c' p = operation_rank (child c l) (child c r))"
proof -
  have tree: "tree_of c' p = Apply op (tree_of c l) (tree_of c r) \<and> rank_of c' p = operation_rank (child c l) (child c r)"
    if c': "store_ok c'" "extends c c'" and p: "c_ops c' (op, l, r) = Some p" for c' p
  proof -
    obtain n where n: "node_at c' p = Some n" "t_op n = op" "t_lhs n = l" "t_rhs n = r"
      using store_op[OF c'(1) p] by auto
    have lr: "l \<noteq> 0 \<longrightarrow> live c l" "r \<noteq> 0 \<longrightarrow> live c r" using args by (simp_all add: args_ok_def)
    have "tree_of c' x = tree_of c x" if "x \<noteq> 0 \<longrightarrow> live c x" for x
      using that tree_of_extends[OF ok c'] tree_of_0[OF ok] tree_of_0[OF c'(1)] by (cases "x = 0") auto
    moreover have "rank_of c' p = t_rank n" using store_ok_live[OF c'(1) n(1)] n(1) by (simp add: rank_of_node live_def)
    ultimately show ?thesis
      using n op lr store_okD[OF c'(1) n(1)] child_extends[OF c'(2)]
      by (simp add: tree_of_node[OF c'(1) n(1)] operates_def node_ok_def)
  qed
  show ?thesis using find_or_make_cases[OF assms, of lib]
  proof (elim disjE conjE exE)
    fix p assume "c_ops c (op, l, r) = Some p" "find_or_make lib alloc op l r c = Inr (p, c)"
    with tree[OF ok extends_refl] op_node_not_constant[OF ok] store_op[OF ok] store_ok_live[OF ok] ok
    show ?thesis by fastforce
  next
    fix p c' assume c': "store_ok c'" "extends c c'" "c_ops c' (op, l, r) = Some p" "live c' p"
      "find_or_make lib alloc op l r c = Inr (p, c')" "\<not> all_constant c l r"
    then show ?thesis using tree[OF c'(1,2,3)] by simp
  next
    fix n v assume v: "all_constant c l r"
      "clause_value lib op (constant_row (child c l)) (constant_row (child c r)) = Inr v"
      "find_or_make lib alloc op l r c = Inr (constant_node (\<lambda>h. alloc ((alloc (c_nodes c), n) # h)) v c)"
    obtain p c' where p: "constant_node (\<lambda>h. alloc ((alloc (c_nodes c), n) # h)) v c = (p, c')" by force
    obtain m where m: "node_at c' p = Some m" "t_op m = CONSTANT" "f32_isnan (t_value m) = f32_isnan v"
      "f32_isnan v \<or> f32_key (t_value m) = f32_key v" and c': "store_ok c'" "extends c c'"
      using constant_node_ok[OF ok fresh_addresses_after[OF alloc] p] by auto
    have "args_ok c' CONSTANT (t_lhs m) (t_rhs m)" "t_rank m = operation_rank (child c' (t_lhs m)) (child c' (t_rhs m))"
      using store_okD[OF c'(1) m(1)] m(2) by (simp_all add: node_ok_def)
    then have "t_rank m = 0" by (simp add: args_ok_def arity_ok_def args_def operation_rank_def child_def split: if_splits)
    then have "rank_of c' p = 0" using store_ok_live[OF c'(1) m(1)] m(1) by (simp add: rank_of_node live_def)
    with v p m c' show ?thesis
      by (auto simp: tree_of_node[OF c'(1) m(1)] apply_clause_def same_float_iff intro: store_ok_live)
  qed
qed

lemma find_or_make_value:
  assumes "store_ok c" "fresh_addresses alloc" "operates op" "args_ok c op l r"
  shows "\<exists>p c'. find_or_make lib alloc op l r c = Inr (p, c') \<and> store_ok c' \<and> extends c c' \<and> live c' p
    \<and> rank_of c' p \<le> Suc (max (rank_of c l) (rank_of c r))
    \<and> same_float (eval_expr lib env (tree_of c' p)) (eval_expr lib env (Apply op (tree_of c l) (tree_of c r)))"
proof -
  obtain p c' where p: "find_or_make lib alloc op l r c = Inr (p, c')" "store_ok c'" "extends c c'" "live c' p"
    "if all_constant c l r
     then rank_of c' p = 0 \<and> (\<exists>v. tree_of c' p = Constant v \<and>
       same_float v (apply_clause lib op (constant_row (child c l)) (constant_row (child c r))))
     else tree_of c' p = Apply op (tree_of c l) (tree_of c r) \<and> rank_of c' p = operation_rank (child c l) (child c r)"
    using find_or_make_tree[OF assms] by blast
  have lr: "l \<noteq> 0 \<longrightarrow> live c l" "r \<noteq> 0 \<longrightarrow> live c r" using assms(4) by (simp_all add: args_ok_def)
  show ?thesis
  proof (cases "all_constant c l r")
    case True
    then have "constant_row (child c l) = eval_expr lib env (tree_of c l)"
      "constant_row (child c r) = eval_expr lib env (tree_of c r)"
      using constant_row_eval[OF assms(1)] lr by (simp_all add: all_constant_def)
    with p True operates_axis[OF assms(3,4) True] show ?thesis by auto
  next
    case False
    with p operation_rank_le[of c l r] show ?thesis by (intro exI[of _ p] exI[of _ c']) (simp del: eval_expr.simps)
  qed
qed

section \<open>Operations that are not rearranged\<close>

lemma operation_without_rewriting:
  assumes "operates op" "\<not> isCommutative op" "op \<noteq> OP_SUB"
    and "checkIdentity (operation lib alloc fuel True) op l r c = Inr (t, c)"
  shows "operation lib alloc (Suc fuel) simplify op l r c =
    (if simplify \<and> t \<noteq> 0 then Inr (t, c) else find_or_make lib alloc op l r c)"
proof -
  have "op \<noteq> OP_ADD" using assms(2) by (auto simp: isCommutative_def)
  with assms show ?thesis
    by (auto simp: operates_def checkCommutative_def checkAffine_def)
qed

declare operation.simps [simp del]

lemma same_float_sym: "same_float a b \<Longrightarrow> same_float b a"
  by (auto simp: same_float_iff)

lemma same_float_trans [trans]: "same_float a b \<Longrightarrow> same_float b d \<Longrightarrow> same_float a d"
  by (auto simp: same_float_iff)

text \<open>The laws of the C library that the identities with exponent one use.\<close>

definition unit_power :: "libm \<Rightarrow> bool" where
  "unit_power lib \<longleftrightarrow> (\<forall>a b. f32_eq b f32_one \<longrightarrow>
     same_float (m_array_pow lib a b) a \<and> same_float (clause_nth_root lib a b) a)"

lemma identity_value:
  assumes ok: "store_ok c" and op: "operates op" "\<not> isCommutative op" "op \<noteq> OP_SUB" and args: "args_ok c op l r"
    and lib: "unit_power lib"
  shows "\<exists>t. checkIdentity opn op l r c = Inr (t, c) \<and> (t = 0 \<or> live c t \<and>
    same_float (eval_expr lib env (tree_of c t)) (eval_expr lib env (Apply op (tree_of c l) (tree_of c r))))"
proof -
  have lr: "l \<noteq> 0 \<longrightarrow> live c l" "r \<noteq> 0 \<longrightarrow> live c r" using args by (simp_all add: args_ok_def)
  note der = deref_opt_child[OF lr(1)] deref_opt_child[OF lr(2)]
  have none: ?thesis if "checkIdentity opn op l r c = Inr (0, c)" using that by simp
  have un: "\<exists>n. node_at c l = Some n \<and> child c l = Some n \<and> l \<noteq> 0 \<and> r = 0" if "args op = 1"
    using args that by (auto simp: args_unary live_def child_def)
  have con: "\<exists>v. tree_of c r = Constant v \<and> f32_eq v f32_one" if "is_constant (child c r) f32_one"
    using that by (auto simp: is_constant_def child_def tree_of_node[OF ok] split: if_splits option.splits)
  show ?thesis
  proof (cases "op \<in> {OP_NEG, OP_ABS, OP_POW, OP_NTH_ROOT}")
    case False
    then show ?thesis using op(2,3)
      by (intro none) (cases op; simp add: checkIdentity_def der isCommutative_def)
  next
    case True
    then consider "op = OP_NEG" | "op = OP_ABS" | "op = OP_POW \<or> op = OP_NTH_ROOT" by auto
    then show ?thesis
    proof cases
      case 1
      with un obtain n where n: "node_at c l = Some n" "child c l = Some n" by (auto simp: args_def)
      show ?thesis
      proof (cases "t_op n = OP_NEG")
        case True
        then have "live c (t_lhs n)" using node_lhs[OF ok n(1)] by (simp add: args_def)
        with 1 n True show ?thesis
          by (simp add: checkIdentity_def der opcode_or_invalid_def lhs_of_def tree_of_node[OF ok n(1)]
              apply_clause_def clause_value_def)
      qed (use 1 n in \<open>simp add: checkIdentity_def der opcode_or_invalid_def\<close>)
    next
      case 2
      with un obtain n where n: "node_at c l = Some n" "child c l = Some n" "l \<noteq> 0" by (auto simp: args_def)
      with 2 lr(1) show ?thesis
        by (auto simp: checkIdentity_def der opcode_or_invalid_def tree_of_node[OF ok n(1)]
              apply_clause_def clause_value_def)
    next
      case 3
      then have l: "live c l" using args by (auto simp: args_binary args_def)
      show ?thesis
      proof (cases "is_constant (child c r) f32_one")
        case True
        then obtain v where v: "tree_of c r = Constant v" "f32_eq v f32_one" using con by blast
        have "same_float (eval_expr lib env (tree_of c l)) (apply_clause lib op (eval_expr lib env (tree_of c l)) v)"
          using 3 lib v(2) by (auto simp: unit_power_def apply_clause_def clause_value_def intro: same_float_sym)
        moreover have "checkIdentity opn op l r c = Inr (l, c)"
          using 3 True by (auto simp: checkIdentity_def der)
        ultimately show ?thesis using 3 l v(1) by auto
      next
        case False
        then show ?thesis using 3 by (intro none) (auto simp: checkIdentity_def der)
      qed
    qed
  qed
qed

section \<open>Rearranged operations come to an end\<close>

lemma lex3_induct:
  assumes "\<And>n m k. (\<And>n' m' k'. n' < n \<or> n' = n \<and> m' < m \<or> n' = n \<and> m' = m \<and> k' < k \<Longrightarrow> P n' m' k') \<Longrightarrow> P n m k"
  shows "P (n::nat) (m::nat) (k::nat)"
proof -
  have "wf (less_than <*lex*> less_than <*lex*> less_than)" by blast
  then have "case (n, m, k) of (n, m, k) \<Rightarrow> P n m k"
    by (rule wf_induct_rule) (auto intro: assms)
  then show ?thesis by simp
qed

text \<open>The operands of a rearranged operation, seen through negations.\<close>

fun leaves :: "opcode \<Rightarrow> expr \<Rightarrow> nat" where
  "leaves op (Apply op' l r) =
     (if op' = op then leaves op l + leaves op r else if op' = OP_NEG then leaves op l else 1)"
| "leaves op _ = 1"

lemma leaves_pos [simp]: "0 < leaves op e"
  by (induction op e rule: leaves.induct) auto

definition returns :: "libm \<Rightarrow> allocator \<Rightarrow> cache \<Rightarrow> opcode \<Rightarrow> nat \<Rightarrow> nat \<Rightarrow> nat \<Rightarrow> cache \<Rightarrow> bool" where
  "returns lib alloc c op l r p c' \<longleftrightarrow>
     (\<exists>k. \<forall>fuel \<ge> k. operation lib alloc fuel True op l r c = Inr (p, c'))"

definition bounded :: "opcode \<Rightarrow> cache \<Rightarrow> nat \<Rightarrow> nat \<Rightarrow> nat \<Rightarrow> cache \<Rightarrow> bool" where
  "bounded op c l r p c' \<longleftrightarrow> store_ok c' \<and> extends c c' \<and> live c' p
     \<and> rank_of c' p \<le> Suc (max (rank_of c l) (rank_of c r))
     \<and> leaves op (tree_of c' p) \<le> leaves op (tree_of c l) + leaves op (tree_of c r)"

lemma checkIdentity_independent:
  "op \<notin> {OP_ADD, OP_SUB, OP_MUL} \<Longrightarrow> checkIdentity opn op l r c = checkIdentity opn' op l r c"
  by (cases op) (simp_all add: checkIdentity_def)

lemma identity_returns:
  assumes "store_ok c" "operates op" "\<not> isCommutative op" "op \<noteq> OP_SUB" "args_ok c op l r"
  shows "\<exists>t. (\<forall>opn. checkIdentity opn op l r c = Inr (t, c)) \<and> (t \<noteq> 0 \<longrightarrow> live c t)"
proof -
  define lib :: libm where "lib = \<lparr>m_min = \<lambda>a b. a, m_max = \<lambda>a b. a, m_atan2 = \<lambda>a b. a,
    m_array_pow = \<lambda>a b. a, m_pow = \<lambda>a b. a, m_interval_root = \<lambda>a b. a, m_sin = id, m_cos = id,
    m_tan = id, m_asin = id, m_acos = id, m_atan = id, m_exp = id, m_log = id\<rparr>"
  have "unit_power lib" by (simp add: unit_power_def lib_def clause_nth_root_def)
  from identity_value[OF assms this]
  obtain t where "checkIdentity undefined op l r c = Inr (t, c)" "t = 0 \<or> live c t" by blast
  moreover have "op \<notin> {OP_ADD, OP_SUB, OP_MUL}" using assms(3,4) by (auto simp: isCommutative_def)
  ultimately show ?thesis using checkIdentity_independent by metis
qed

lemma direct_returns:
  assumes ok: "store_ok c" and alloc: "fresh_addresses alloc"
    and op: "operates op" "\<not> isCommutative op" "op \<noteq> OP_SUB" and args: "args_ok c op l r"
  shows "\<exists>p c'. \<forall>fuel simplify. operation lib alloc (Suc fuel) simplify op l r c =
    (if simplify then Inr (p, c') else find_or_make lib alloc op l r c)"
proof -
  obtain t where t: "\<And>opn. checkIdentity opn op l r c = Inr (t, c)"
    using identity_returns[OF ok op args] by blast
  obtain p c' where p: "find_or_make lib alloc op l r c = Inr (p, c')"
    using find_or_make_tree[OF ok alloc op(1) args] by blast
  show ?thesis
    using operation_without_rewriting[OF op t] p by (cases "t = 0") auto
qed

lemma unary_bounded:
  assumes ok: "store_ok c" and alloc: "fresh_addresses alloc" and op: "op = OP_NEG \<or> op = OP_SQUARE"
    and l: "live c l" and op': "op' \<noteq> OP_NEG" "op' \<noteq> OP_SQUARE"
  shows "\<exists>p c'. returns lib alloc c op l 0 p c' \<and> store_ok c' \<and> extends c c' \<and> live c' p
    \<and> rank_of c' p \<le> Suc (rank_of c l) \<and> leaves op' (tree_of c' p) \<le> leaves op' (tree_of c l)"
proof -
  have o: "operates op" "\<not> isCommutative op" "op \<noteq> OP_SUB" "args op = 1"
    using op by (auto simp: operates_def isCommutative_def args_def)
  then have args: "args_ok c op l 0" using l by (simp add: args_unary)
  obtain n where n: "node_at c l = Some n" "child c l = Some n" "l \<noteq> 0" using l by (auto simp: live_def child_def)
  obtain t where t: "\<And>opn. checkIdentity opn op l 0 c = Inr (t, c)" "t \<noteq> 0 \<longrightarrow> live c t"
    using identity_returns[OF ok o(1-3) args] by blast
  note eq = operation_without_rewriting[OF o(1-3) t(1), of lib alloc _ True, simplified]
  have ret: "returns lib alloc c op l 0 p c'" if "\<And>fuel. operation lib alloc (Suc fuel) True op l 0 c = Inr (p, c')" for p c'
    unfolding returns_def by (intro exI[of _ 1]) (metis One_nat_def Suc_le_D that)
  show ?thesis
  proof (cases "t = 0")
    case False
    have "op = OP_NEG" "t_op n = OP_NEG" "t = t_lhs n"
      using op False t(1) n ok deref_opt_child[of 0 c] deref_opt_child[of l c] l
      by (auto simp: checkIdentity_def opcode_or_invalid_def lhs_of_def child_def split: if_splits)
    moreover from this have "rank_of c t < rank_of c l"
      using node_child[OF ok n(1), of t] t(2) False n by (auto simp: rank_of_def child_def live_def)
    moreover have "live c t" using t(2) False by simp
    moreover have "returns lib alloc c op l 0 t c" by (rule ret) (use eq False in simp)
    ultimately show ?thesis using ok op'(1)
      by (intro exI[of _ t] exI[of _ c]) (auto simp: tree_of_node[OF ok n(1)])
  next
    case True
    obtain p c' where p: "find_or_make lib alloc op l 0 c = Inr (p, c')" "store_ok c'" "extends c c'" "live c' p"
      "if all_constant c l 0 then rank_of c' p = 0 \<and> (\<exists>v. tree_of c' p = Constant v)
       else tree_of c' p = Apply op (tree_of c l) (tree_of c 0) \<and> rank_of c' p = operation_rank (child c l) (child c 0)"
      using find_or_make_tree[OF ok alloc o(1) args, of lib] by (auto split: if_splits)
    have "rank_of c' p \<le> Suc (rank_of c l)"
      using p(5) by (auto simp: operation_rank_def rank_of_def child_def split: if_splits option.splits)
    moreover have "leaves op' (tree_of c' p) \<le> leaves op' (tree_of c l)"
      using p(5) op op' leaves_pos[of op' "tree_of c l"] by (auto split: if_splits simp del: leaves_pos)
    ultimately show ?thesis using p(1-4) eq True
      by (intro exI[of _ p] exI[of _ c']) (auto intro!: ret)
  qed
qed

lemma rearranged_Suc:
  assumes "op = OP_MUL \<or> op = OP_MIN \<or> op = OP_MAX"
  shows "operation lib alloc (Suc fuel) True op a b c =
    bindE (checkIdentity (operation lib alloc fuel True) op a b c) (\<lambda>(t, c).
      if t \<noteq> 0 then Inr (t, c) else
    bindE (checkCommutative (operation lib alloc fuel True) op a b c) (\<lambda>(t, c).
      if t \<noteq> 0 then Inr (t, c) else find_or_make lib alloc op a b c))"
proof -
  have aff: "checkAffine alloc opn op a b c = Inr (0, c)" for opn c
    using assms by (auto simp: checkAffine_def)
  show ?thesis using assms unfolding operation.simps by (auto simp: Let_def aff cong: if_cong)
qed

text \<open>Either no rotation applies, or the operand with a deep branch is taken apart.\<close>

lemma checkCommutative_cases:
  assumes ok: "store_ok c" and l: "live c a" "live c b" and op: "isCommutative op"
  shows "(\<forall>opn. checkCommutative opn op a b c = Inr (0, c)) \<or>
    (\<exists>h low n h1 h2. (h = a \<and> low = b \<or> h = b \<and> low = a) \<and> node_at c h = Some n \<and> t_op n = op
      \<and> (h1 = t_lhs n \<and> h2 = t_rhs n \<or> h1 = t_rhs n \<and> h2 = t_lhs n) \<and> live c h1 \<and> live c h2
      \<and> rank_of c low < rank_of c h1
      \<and> (\<forall>opn. checkCommutative opn op a b c = bindE (opn op h2 low c) (\<lambda>(r, c). opn op h1 r c)))"
proof -
  obtain na nb where n: "node_at c a = Some na" "node_at c b = Some nb" "a \<noteq> 0" "b \<noteq> 0" using l by (auto simp: live_def)
  have two: "args op = 2" using op by (auto simp: isCommutative_def args_def split: opcode.splits)
  have sub: "(p \<noteq> 0 \<longrightarrow> live c p)" if "p \<in> {t_lhs na, t_rhs na, t_lhs nb, t_rhs nb}" for p
    using that node_args[OF ok n(1)] node_args[OF ok n(2)] by (auto simp: args_ok_def)
  have rk: "rank_or_zero c p = Inr (rank_of c p)" if "p \<in> {t_lhs na, t_rhs na, t_lhs nb, t_rhs nb}" for p
    using rank_or_zero_child[OF sub[OF that]] by (simp add: rank_of_def)
  have kids: "live c (t_lhs m) \<and> live c (t_rhs m)" if "node_at c p = Some m" "t_op m = op" for p m
    using node_lhs[OF ok that(1)] node_rhs[OF ok that(1)] that(2) two by simp
  have ab: "rank_of c a = t_rank na" "rank_of c b = t_rank nb" using n by (simp_all add: rank_of_node)
  have eq: "checkCommutative opn op a b c =
     (if t_op na = op then
       (if rank_of c b < rank_of c (t_lhs na) then bindE (opn op (t_rhs na) b c) (\<lambda>(r, c). opn op (t_lhs na) r c)
        else if rank_of c b < rank_of c (t_rhs na) then bindE (opn op (t_lhs na) b c) (\<lambda>(r, c). opn op (t_rhs na) r c)
        else Inr (0, c))
     else if t_op nb = op then
       (if rank_of c a < rank_of c (t_lhs nb) then bindE (opn op (t_rhs nb) a c) (\<lambda>(r, c). opn op (t_lhs nb) r c)
        else if rank_of c a < rank_of c (t_rhs nb) then bindE (opn op (t_lhs nb) a c) (\<lambda>(r, c). opn op (t_rhs nb) r c)
        else Inr (0, c))
     else Inr (0, c))" for opn
    using op n rk ab by (simp add: checkCommutative_def)
  consider "t_op na = op" "rank_of c b < rank_of c (t_lhs na)" | "t_op na = op" "rank_of c b < rank_of c (t_rhs na)" "\<not> rank_of c b < rank_of c (t_lhs na)"
    | "t_op na \<noteq> op" "t_op nb = op" "rank_of c a < rank_of c (t_lhs nb)"
    | "t_op na \<noteq> op" "t_op nb = op" "rank_of c a < rank_of c (t_rhs nb)" "\<not> rank_of c a < rank_of c (t_lhs nb)"
    | "t_op na = op \<longrightarrow> \<not> rank_of c b < rank_of c (t_lhs na) \<and> \<not> rank_of c b < rank_of c (t_rhs na)"
      "t_op na \<noteq> op \<longrightarrow> t_op nb = op \<longrightarrow> \<not> rank_of c a < rank_of c (t_lhs nb) \<and> \<not> rank_of c a < rank_of c (t_rhs nb)"
    by argo
  then show ?thesis
  proof cases
    case 1
    with kids[OF n(1)] n(1) show ?thesis unfolding eq
      by (intro disjI2 exI[of _ a] exI[of _ b] exI[of _ na] exI[of _ "t_lhs na"] exI[of _ "t_rhs na"]) simp
  next
    case 2
    with kids[OF n(1)] n(1) show ?thesis unfolding eq
      by (intro disjI2 exI[of _ a] exI[of _ b] exI[of _ na] exI[of _ "t_rhs na"] exI[of _ "t_lhs na"]) simp
  next
    case 3
    with kids[OF n(2)] n(2) show ?thesis unfolding eq
      by (intro disjI2 exI[of _ b] exI[of _ a] exI[of _ nb] exI[of _ "t_lhs nb"] exI[of _ "t_rhs nb"]) simp
  next
    case 4
    with kids[OF n(2)] n(2) show ?thesis unfolding eq
      by (intro disjI2 exI[of _ b] exI[of _ a] exI[of _ nb] exI[of _ "t_rhs nb"] exI[of _ "t_lhs nb"]) simp
  next
    case 5
    then show ?thesis unfolding eq by auto
  qed
qed

text \<open>The identities of the rearranged operations.\<close>

lemma rearranged_identity:
  assumes ok: "store_ok c" and alloc: "fresh_addresses alloc" and op: "op = OP_MUL \<or> op = OP_MIN \<or> op = OP_MAX"
    and l: "live c a" "live c b"
  shows "(\<forall>opn. checkIdentity opn op a b c = Inr (0, c)) \<or>
    (\<exists>t c'. (\<exists>k. \<forall>fuel \<ge> k. checkIdentity (operation lib alloc fuel True) op a b c = Inr (t, c')) \<and> bounded op c a b t c')"
proof -
  have der: "deref_opt c a = Inr (child c a)" "deref_opt c b = Inr (child c b)" using l by (simp_all add: deref_opt_child)
  have arg: "bounded op c a b x c" if "x = a \<or> x = b" for x
    using that ok l by (auto simp: bounded_def)
  have un: "\<exists>t c'. returns lib alloc c o1 x 0 t c' \<and> bounded op c a b t c'"
    if "x = a \<or> x = b" "o1 = OP_NEG \<or> o1 = OP_SQUARE" for o1 x
  proof -
    have o: "op \<noteq> OP_NEG" "op \<noteq> OP_SQUARE" using op by auto
    have x: "live c x" using l that(1) by blast
    from unary_bounded[OF ok alloc that(2) x o, of lib] obtain p c' where p: "returns lib alloc c o1 x 0 p c'" "store_ok c'" "extends c c'" "live c' p"
      "rank_of c' p \<le> Suc (rank_of c x)" "leaves op (tree_of c' p) \<le> leaves op (tree_of c x)"
      by blast
    with that(1) show ?thesis by (intro exI[of _ p] exI[of _ c']) (auto simp: bounded_def)
  qed
  let ?goal = "\<lambda>m. m = Inr (0, c) \<or> (\<exists>x. (x = a \<or> x = b) \<and> m = Inr (x, c))"
  have cases: "(\<forall>opn. checkIdentity opn op a b c = Inr (0, c)) \<or> (\<exists>x. (x = a \<or> x = b) \<and> (\<forall>opn. checkIdentity opn op a b c = Inr (x, c)))
     \<or> (\<exists>x o1. (x = a \<or> x = b) \<and> (o1 = OP_NEG \<or> o1 = OP_SQUARE) \<and> (\<forall>opn. checkIdentity opn op a b c = opn o1 x 0 c))"
    using op by (elim disjE) (auto simp: checkIdentity_def der Let_def)
  then show ?thesis
  proof (elim disjE exE conjE)
    fix x assume "\<forall>opn. checkIdentity opn op a b c = Inr (x, c)" "x = a"
    then show ?thesis using arg by blast
  next
    fix x assume "\<forall>opn. checkIdentity opn op a b c = Inr (x, c)" "x = b"
    then show ?thesis using arg by blast
  qed (use un in \<open>auto simp: returns_def\<close>)
qed

lemma bounded_make:
  assumes ok: "store_ok c" and alloc: "fresh_addresses alloc" and op: "op = OP_MUL \<or> op = OP_MIN \<or> op = OP_MAX"
    and l: "live c a" "live c b"
  shows "\<exists>p c'. find_or_make lib alloc op a b c = Inr (p, c') \<and> bounded op c a b p c'"
proof -
  have o: "operates op" "args_ok c op a b" using op l by (auto simp: operates_def args_binary args_def)
  from find_or_make_tree[OF ok alloc o, of lib] obtain p c' where
    p: "find_or_make lib alloc op a b c = Inr (p, c')" "store_ok c'" "extends c c'" "live c' p"
      "rank_of c' p \<le> Suc (max (rank_of c a) (rank_of c b))"
      "tree_of c' p = Apply op (tree_of c a) (tree_of c b) \<or> (\<exists>v. tree_of c' p = Constant v)"
    using operation_rank_le[of c a b] by (fastforce split: if_splits)
  then have "leaves op (tree_of c' p) \<le> leaves op (tree_of c a) + leaves op (tree_of c b)"
    using leaves_pos[of op "tree_of c a"] by (auto simp del: leaves_pos)
  with p show ?thesis by (auto simp: bounded_def)
qed

lemma rotation_measure:
  assumes "h = a \<and> low = b \<or> h = b \<and> low = a" "rank_of c low < rank_of c h1"
    "rank_of c h1 < rank_of c h" "rank_of c h2 < rank_of c h"
    "rank_of c' r \<le> Suc (max (rank_of c h2) (rank_of c low))"
  shows "max (rank_of c h1) (rank_of c' r) < max (rank_of c a) (rank_of c b) \<or>
    max (rank_of c h1) (rank_of c' r) = max (rank_of c a) (rank_of c b) \<and>
    max (rank_of c h1) (rank_of c' r) - min (rank_of c h1) (rank_of c' r) < max (rank_of c a) (rank_of c b) - min (rank_of c a) (rank_of c b)"
  using assms by (auto simp: max_def min_def split: if_splits)

definition operand_leaves :: "opcode \<Rightarrow> cache \<Rightarrow> nat \<Rightarrow> nat \<Rightarrow> nat" where
  "operand_leaves op c a b = leaves op (tree_of c a) + leaves op (tree_of c b)"

definition top_rank :: "cache \<Rightarrow> nat \<Rightarrow> nat \<Rightarrow> nat" where
  "top_rank c a b = max (rank_of c a) (rank_of c b)"

definition rank_gap :: "cache \<Rightarrow> nat \<Rightarrow> nat \<Rightarrow> nat" where
  "rank_gap c a b = top_rank c a b - min (rank_of c a) (rank_of c b)"

text \<open>One rotation: both calls it makes are smaller, and the second returns what is wanted.\<close>

lemma rotation_returns:
  assumes ok: "store_ok c" and l: "live c a" "live c b" and op: "op = OP_MUL \<or> op = OP_MIN \<or> op = OP_MAX"
    and hl: "h = a \<and> low = b \<or> h = b \<and> low = a" and h: "node_at c h = Some nd" "t_op nd = op"
    and h12: "h1 = t_lhs nd \<and> h2 = t_rhs nd \<or> h1 = t_rhs nd \<and> h2 = t_lhs nd" "live c h1" "live c h2"
    and low: "rank_of c low < rank_of c h1"
    and IH: "\<And>c' x y. store_ok c' \<Longrightarrow> live c' x \<Longrightarrow> live c' y \<Longrightarrow>
      operand_leaves op c' x y < operand_leaves op c a b \<or>
      operand_leaves op c' x y = operand_leaves op c a b \<and> top_rank c' x y < top_rank c a b \<or>
      operand_leaves op c' x y = operand_leaves op c a b \<and> top_rank c' x y = top_rank c a b \<and> rank_gap c' x y < rank_gap c a b \<Longrightarrow>
      \<exists>p c''. returns lib alloc c' op x y p c'' \<and> bounded op c' x y p c''"
  shows "\<exists>r c1 p c2. returns lib alloc c op h2 low r c1 \<and> returns lib alloc c1 op h1 r p c2 \<and> bounded op c a b p c2"
proof -
  have lowl: "live c low" "h \<noteq> 0" using hl l by (auto simp: live_def)
  have "tree_of c h = Apply op (tree_of c (t_lhs nd)) (tree_of c (t_rhs nd))"
    using op h by (auto simp: tree_of_node[OF ok h(1)])
  then have sum: "leaves op (tree_of c h1) + leaves op (tree_of c h2) + leaves op (tree_of c low) = operand_leaves op c a b"
    using hl h12(1) by (auto simp: operand_leaves_def)
  have rk: "rank_of c h1 < rank_of c h" "rank_of c h2 < rank_of c h"
    using node_child[OF ok h(1), of h1] node_child[OF ok h(1), of h2] h12 h(1) lowl(2)
    by (auto simp: live_def rank_of_def child_def)
  have "operand_leaves op c h2 low < operand_leaves op c a b"
    using sum leaves_pos[of op "tree_of c h1"] unfolding operand_leaves_def[of op c h2 low] by linarith
  then obtain r c1 where r: "returns lib alloc c op h2 low r c1" "bounded op c h2 low r c1"
    using IH[OF ok h12(3) lowl(1)] by blast
  then have c1: "store_ok c1" "extends c c1" "live c1 r" "rank_of c1 r \<le> Suc (max (rank_of c h2) (rank_of c low))"
    "leaves op (tree_of c1 r) \<le> leaves op (tree_of c h2) + leaves op (tree_of c low)"
    by (simp_all add: bounded_def)
  have h1': "tree_of c1 h1 = tree_of c h1" "rank_of c1 h1 = rank_of c h1" "live c1 h1"
    using tree_of_extends[OF ok c1(1,2) h12(2)] rank_of_extends[OF c1(2) h12(2)] live_extends[OF c1(2) h12(2)] by simp_all
  have n: "operand_leaves op c1 h1 r \<le> operand_leaves op c a b"
    using sum c1(5) unfolding operand_leaves_def[of op c1] h1'(1) by linarith
  moreover have "top_rank c1 h1 r < top_rank c a b \<or> top_rank c1 h1 r = top_rank c a b \<and> rank_gap c1 h1 r < rank_gap c a b"
    using rotation_measure[OF hl low rk c1(4)] h1'(2) by (simp add: rank_gap_def top_rank_def)
  ultimately obtain p c2 where p: "returns lib alloc c1 op h1 r p c2" "bounded op c1 h1 r p c2"
    using IH[OF c1(1) h1'(3) c1(3)] by (auto simp: le_less)
  have "rank_of c1 r \<le> rank_of c h" "rank_of c h \<le> max (rank_of c a) (rank_of c b)"
    using c1(4) rk low hl by auto
  then have "bounded op c a b p c2"
    using p(2) extends_trans[OF c1(2)] rk(1) h1'(1,2) n by (auto simp: bounded_def operand_leaves_def)
  with r(1) p(1) show ?thesis by blast
qed

lemma rearranged_returns_measure:
  assumes alloc: "fresh_addresses alloc" and op: "op = OP_MUL \<or> op = OP_MIN \<or> op = OP_MAX"
  shows "\<forall>c a b. store_ok c \<and> live c a \<and> live c b \<and> operand_leaves op c a b = n \<and> top_rank c a b = m \<and> rank_gap c a b = k
    \<longrightarrow> (\<exists>p c'. returns lib alloc c op a b p c' \<and> bounded op c a b p c')"
proof (induction n m k rule: lex3_induct)
  case (1 n m k)
  show ?case
  proof (intro allI impI, elim conjE)
    fix c a b
    assume ok: "store_ok c" and l: "live c a" "live c b"
      and nmk: "operand_leaves op c a b = n" "top_rank c a b = m" "rank_gap c a b = k"
    note Suc_eq = rearranged_Suc[OF op, of lib alloc _ a b c]
    have ret: "returns lib alloc c op a b p c'"
      if "\<forall>fuel \<ge> j. operation lib alloc (Suc fuel) True op a b c = Inr (p, c')" for j p c'
      unfolding returns_def using that by (intro exI[of _ "Suc j"]) (auto dest: Suc_le_D)
    have IH: "\<exists>p c''. returns lib alloc c' op x y p c'' \<and> bounded op c' x y p c''"
      if "store_ok c'" "live c' x" "live c' y"
        "operand_leaves op c' x y < operand_leaves op c a b \<or>
         operand_leaves op c' x y = operand_leaves op c a b \<and> top_rank c' x y < top_rank c a b \<or>
         operand_leaves op c' x y = operand_leaves op c a b \<and> top_rank c' x y = top_rank c a b \<and> rank_gap c' x y < rank_gap c a b"
      for c' x y
      using 1[of "operand_leaves op c' x y" "top_rank c' x y" "rank_gap c' x y"] that unfolding nmk by blast
    from rearranged_identity[OF ok alloc op l]
    show "\<exists>p c'. returns lib alloc c op a b p c' \<and> bounded op c a b p c'"
    proof
      assume "\<exists>t c'. (\<exists>k. \<forall>fuel \<ge> k. checkIdentity (operation lib alloc fuel True) op a b c = Inr (t, c')) \<and> bounded op c a b t c'"
      then obtain t c' j where t: "\<forall>fuel \<ge> j. checkIdentity (operation lib alloc fuel True) op a b c = Inr (t, c')"
        "bounded op c a b t c'" by blast
      then have "t \<noteq> 0" by (simp add: bounded_def live_def)
      with t show ?thesis by (intro exI[of _ t] exI[of _ c']) (auto simp: Suc_eq intro!: ret[of j])
    next
      assume id0: "\<forall>opn. checkIdentity opn op a b c = Inr (0, c)"
      have "isCommutative op" using op by (auto simp: isCommutative_def)
      from checkCommutative_cases[OF ok l this] show ?thesis
      proof
        assume "\<forall>opn. checkCommutative opn op a b c = Inr (0, c)"
        moreover obtain p c' where p: "find_or_make lib alloc op a b c = Inr (p, c')" "bounded op c a b p c'"
          using bounded_make[OF ok alloc op l] by blast
        ultimately show ?thesis using id0
          by (intro exI[of _ p] exI[of _ c']) (auto simp: Suc_eq intro!: ret[of 0])
      next
        assume "\<exists>h low n h1 h2. (h = a \<and> low = b \<or> h = b \<and> low = a) \<and> node_at c h = Some n \<and> t_op n = op
          \<and> (h1 = t_lhs n \<and> h2 = t_rhs n \<or> h1 = t_rhs n \<and> h2 = t_lhs n) \<and> live c h1 \<and> live c h2
          \<and> rank_of c low < rank_of c h1
          \<and> (\<forall>opn. checkCommutative opn op a b c = bindE (opn op h2 low c) (\<lambda>(r, c). opn op h1 r c))"
        then obtain h low nd h1 h2 where rot: "h = a \<and> low = b \<or> h = b \<and> low = a" "node_at c h = Some nd" "t_op nd = op"
          "h1 = t_lhs nd \<and> h2 = t_rhs nd \<or> h1 = t_rhs nd \<and> h2 = t_lhs nd" "live c h1" "live c h2"
          "rank_of c low < rank_of c h1"
          and eq: "\<forall>opn. checkCommutative opn op a b c = bindE (opn op h2 low c) (\<lambda>(r, c). opn op h1 r c)"
          by (elim exE conjE) (rule that)
        obtain r c1 p c2 where r: "returns lib alloc c op h2 low r c1" "returns lib alloc c1 op h1 r p c2" "bounded op c a b p c2"
          using rotation_returns[OF ok l op rot IH] by blast
        then obtain j1 j2 where j: "\<forall>fuel \<ge> j1. operation lib alloc fuel True op h2 low c = Inr (r, c1)"
          "\<forall>fuel \<ge> j2. operation lib alloc fuel True op h1 r c1 = Inr (p, c2)"
          by (auto simp: returns_def)
        have "p \<noteq> 0" using r(3) by (simp add: bounded_def live_def)
        then have "returns lib alloc c op a b p c2"
          using j by (intro ret[of "max j1 j2"]) (simp add: Suc_eq id0 eq)
        with r(3) show ?thesis by blast
      qed
    qed
  qed
qed

lemma rearranged_returns:
  assumes "fresh_addresses alloc" "op = OP_MUL \<or> op = OP_MIN \<or> op = OP_MAX" "store_ok c" "live c a" "live c b"
  shows "\<exists>p c'. returns lib alloc c op a b p c' \<and> bounded op c a b p c'"
  using rearranged_returns_measure[OF assms(1,2)] assms(3-) by blast

section \<open>The value of a minimum or maximum\<close>

fun numbers :: "libm \<Rightarrow> env \<Rightarrow> expr \<Rightarrow> bool" where
  "numbers lib env (Apply op l r) \<longleftrightarrow>
     \<not> f32_isnan (eval_expr lib env (Apply op l r)) \<and> numbers lib env l \<and> numbers lib env r"
| "numbers lib env e \<longleftrightarrow> \<not> f32_isnan (eval_expr lib env e)"

definition key_of :: "libm \<Rightarrow> env \<Rightarrow> cache \<Rightarrow> nat \<Rightarrow> int" where
  "key_of lib env c p = f32_key (eval_expr lib env (tree_of c p))"

definition numeric :: "libm \<Rightarrow> env \<Rightarrow> cache \<Rightarrow> nat \<Rightarrow> bool" where
  "numeric lib env c p \<longleftrightarrow> numbers lib env (tree_of c p)"

lemma numbers_value: "numbers lib env e \<Longrightarrow> \<not> f32_isnan (eval_expr lib env e)"
  by (cases e) simp_all

lemma numeric_extends: "store_ok c \<Longrightarrow> store_ok c' \<Longrightarrow> extends c c' \<Longrightarrow> live c p \<Longrightarrow>
    numeric lib env c' p = numeric lib env c p \<and> key_of lib env c' p = key_of lib env c p"
  using tree_of_extends[of c c' p] by (simp add: numeric_def key_of_def)

text \<open>The clause computes \<open>f\<close> on the order of the numbers; \<open>f\<close> is a semilattice operation.\<close>

definition lattice_clause :: "libm \<Rightarrow> opcode \<Rightarrow> (int \<Rightarrow> int \<Rightarrow> int) \<Rightarrow> bool" where
  "lattice_clause lib op f \<longleftrightarrow> (\<forall>a b. f32_isnan a \<or> f32_isnan b \<or>
     \<not> f32_isnan (apply_clause lib op a b) \<and> f32_key (apply_clause lib op a b) = f (f32_key a) (f32_key b))"

lemma lattice_apply:
  assumes "lattice_clause lib op f" "op = OP_MIN \<or> op = OP_MAX" "numbers lib env x" "numbers lib env y"
  shows "numbers lib env (Apply op x y)
    \<and> f32_key (eval_expr lib env (Apply op x y)) = f (f32_key (eval_expr lib env x)) (f32_key (eval_expr lib env y))"
proof -
  let ?a = "eval_expr lib env x" and ?b = "eval_expr lib env y"
  have "f32_isnan ?a \<or> f32_isnan ?b \<or>
     \<not> f32_isnan (apply_clause lib op ?a ?b) \<and> f32_key (apply_clause lib op ?a ?b) = f (f32_key ?a) (f32_key ?b)"
    using assms(1) unfolding lattice_clause_def by blast
  moreover have "eval_expr lib env (Apply op x y) = apply_clause lib op ?a ?b" using assms(2) by auto
  ultimately show ?thesis
    using assms(3,4) numbers_value[OF assms(3)] numbers_value[OF assms(4)] by (simp del: eval_expr.simps)
qed

lemma lattice_make:
  assumes ok: "store_ok c" and alloc: "fresh_addresses alloc" and op: "op = OP_MIN \<or> op = OP_MAX" and l: "live c a" "live c b"
    and lib: "lattice_clause lib op f" and num: "numeric lib env c a" "numeric lib env c b"
    and make: "find_or_make lib alloc op a b c = Inr (p, c')"
  shows "numeric lib env c' p \<and> key_of lib env c' p = f (key_of lib env c a) (key_of lib env c b)"
proof -
  have o: "operates op" "args_ok c op a b" using op l by (auto simp: operates_def args_binary args_def)
  let ?e = "Apply op (tree_of c a) (tree_of c b)"
  have e: "numbers lib env ?e" "f32_key (eval_expr lib env ?e) = f (key_of lib env c a) (key_of lib env c b)"
    using lattice_apply[OF lib op] num by (simp_all add: numeric_def key_of_def del: eval_expr.simps numbers.simps)
  have "same_float (eval_expr lib env (tree_of c' p)) (eval_expr lib env ?e)"
    using find_or_make_value[OF ok alloc o, of lib env] make by (auto simp del: eval_expr.simps)
  moreover have "tree_of c' p = ?e \<or> (\<exists>v. tree_of c' p = Constant v)"
    using find_or_make_tree[OF ok alloc o, of lib] make by (auto split: if_splits)
  ultimately show ?thesis using e numbers_value[OF e(1)]
    by (auto simp: numeric_def key_of_def same_float_iff simp del: eval_expr.simps(5) numbers.simps(1))
qed

lemma lattice_value:
  assumes alloc: "fresh_addresses alloc" and op: "op = OP_MIN \<or> op = OP_MAX" and lib: "lattice_clause lib op f"
    and f: "\<And>a b c. f (f a b) c = f a (f b c)" "\<And>a b. f a b = f b a" "\<And>a. f a a = a"
  shows "store_ok c \<Longrightarrow> live c a \<Longrightarrow> live c b \<Longrightarrow> numeric lib env c a \<Longrightarrow> numeric lib env c b \<Longrightarrow>
    operation lib alloc fuel True op a b c = Inr (p, c') \<Longrightarrow>
    numeric lib env c' p \<and> key_of lib env c' p = f (key_of lib env c a) (key_of lib env c b)"
proof (induction fuel arbitrary: c a b p c')
  case (Suc fuel)
  note ok = Suc.prems(1) and l = Suc.prems(2,3) and num = Suc.prems(4,5)
  have op': "op = OP_MUL \<or> op = OP_MIN \<or> op = OP_MAX" "isCommutative op" "operates op" "args op = 2"
    using op by (auto simp: isCommutative_def operates_def args_def)
  have der: "deref_opt c a = Inr (child c a)" "deref_opt c b = Inr (child c b)" using l by (simp_all add: deref_opt_child)
  note Suc_eq = Suc.prems(6)[unfolded rearranged_Suc[OF op'(1)]]
  show ?case
  proof (cases "a = b")
    case True
    have "checkIdentity opn op a b c = Inr (a, c)" for opn
      using op True by (auto simp: checkIdentity_def der)
    with Suc_eq l have "p = a" "c' = c" by (auto simp: live_def)
    with True num f(3) show ?thesis by simp
  next
    case False
    have id0: "checkIdentity opn op a b c = Inr (0, c)" for opn
      using op False by (auto simp: checkIdentity_def der)
    from checkCommutative_cases[OF ok l op'(2)] show ?thesis
    proof
      assume "\<forall>opn. checkCommutative opn op a b c = Inr (0, c)"
      with Suc_eq id0 have "find_or_make lib alloc op a b c = Inr (p, c')" by simp
      from lattice_make[OF ok alloc op l lib num this] show ?thesis .
    next
      assume "\<exists>h low n h1 h2. (h = a \<and> low = b \<or> h = b \<and> low = a) \<and> node_at c h = Some n \<and> t_op n = op
          \<and> (h1 = t_lhs n \<and> h2 = t_rhs n \<or> h1 = t_rhs n \<and> h2 = t_lhs n) \<and> live c h1 \<and> live c h2
          \<and> rank_of c low < rank_of c h1
          \<and> (\<forall>opn. checkCommutative opn op a b c = bindE (opn op h2 low c) (\<lambda>(r, c). opn op h1 r c))"
      then obtain h low n h1 h2 where hl: "h = a \<and> low = b \<or> h = b \<and> low = a" and h: "node_at c h = Some n" "t_op n = op"
        and h12: "h1 = t_lhs n \<and> h2 = t_rhs n \<or> h1 = t_rhs n \<and> h2 = t_lhs n" "live c h1" "live c h2"
        and eq: "\<forall>opn. checkCommutative opn op a b c = bindE (opn op h2 low c) (\<lambda>(r, c). opn op h1 r c)"
        by (elim exE conjE) (rule that)
      let ?opn = "operation lib alloc fuel True"
      obtain r c1 where r: "?opn op h2 low c = Inr (r, c1)"
        using Suc_eq id0 eq by (cases "?opn op h2 low c") auto
      have low: "live c low" "numeric lib env c low" using hl l num by auto
      have "builds c (?opn op h2 low c)"
        using operation_builds[OF alloc ok op'(3)] op'(4) h12(3) low(1) by (simp add: args_binary)
      with r have c1: "store_ok c1" "extends c c1" "live c1 r" by (simp_all add: builds_def)
      have h1: "live c1 h1" using live_extends[OF c1(2) h12(2)] .
      have "builds c1 (?opn op h1 r c1)"
        using operation_builds[OF alloc c1(1) op'(3)] op'(4) h1 c1(3) by (simp add: args_binary)
      with r Suc_eq id0 eq have p: "?opn op h1 r c1 = Inr (p, c')"
        by (cases "?opn op h1 r c1") (auto simp: builds_def live_def)
      have tree: "tree_of c h = Apply op (tree_of c (t_lhs n)) (tree_of c (t_rhs n))"
        using op h by (auto simp: tree_of_node[OF ok h(1)])
      have numh: "numeric lib env c h" using hl num by auto
      then have sub: "numeric lib env c h1" "numeric lib env c h2"
        using h12(1) tree by (auto simp: numeric_def)
      have keyh: "key_of lib env c h = f (key_of lib env c h1) (key_of lib env c h2)"
        using lattice_apply[OF lib op, of env "tree_of c (t_lhs n)" "tree_of c (t_rhs n)"] numh h12(1) f(2)
        by (auto simp: numeric_def key_of_def tree simp del: eval_expr.simps(5))
      have R: "numeric lib env c1 r" "key_of lib env c1 r = f (key_of lib env c h2) (key_of lib env c low)"
        using Suc.IH[OF ok h12(3) low(1) sub(2) low(2) r] by simp_all
      have H1: "numeric lib env c1 h1" "key_of lib env c1 h1 = key_of lib env c h1"
        using numeric_extends[OF ok c1(1,2) h12(2)] sub(1) by simp_all
      have "numeric lib env c' p \<and> key_of lib env c' p = f (key_of lib env c h) (key_of lib env c low)"
        using Suc.IH[OF c1(1) h1 c1(3) H1(1) R(1) p] by (simp add: R(2) H1(2) keyh f(1))
      then show ?thesis using hl f(2) by auto
    qed
  qed
qed (simp add: operation.simps)

end
