(* ===== verification/ExprTree.thy ===== *)
theory ExprTree
  imports ExprRewrite
begin

text \<open>
  The tree handle (\<open>src/five/tree/tree.cpp\<close>) and the calls of the C interface that build trees
  (\<open>src/five/libfive.cpp\<close>). A \<open>Tree\<close> is the address of its node, 0 for the invalid tree.
\<close>

section \<open>Constructors\<close>

definition Tree_oracle :: "allocator \<Rightarrow> nat \<Rightarrow> cache \<Rightarrow> nat \<times> cache" where
  "Tree_oracle alloc clause c = new_node alloc (leaf_node ORACLE 0 f32_nan clause) c"

definition Tree_constant :: "allocator \<Rightarrow> f32 \<Rightarrow> cache \<Rightarrow> nat \<times> cache" where
  "Tree_constant alloc v c = constant_node alloc v c"

text \<open>\<open>std::round\<close> of a float is the float itself exactly when the fraction is zero.\<close>

definition is_integral :: "f32 \<Rightarrow> bool" where
  "is_integral v \<longleftrightarrow> f32_eq v (f32_floor v)"

text \<open>The sanity checks come after the call that builds the node.\<close>

definition Tree_operation ::
    "libm \<Rightarrow> allocator \<Rightarrow> nat \<Rightarrow> opcode \<Rightarrow> nat \<Rightarrow> nat \<Rightarrow> cache \<Rightarrow> fault + nat \<times> cache" where
  "Tree_operation lib alloc fuel op a b c =
     bindE (operation lib alloc fuel True op a b c) (\<lambda>(p, c).
       if \<not> (args op = 0 \<and> a = 0 \<and> b = 0 \<or> args op = 1 \<and> a \<noteq> 0 \<and> b = 0 \<or> args op = 2 \<and> a \<noteq> 0 \<and> b \<noteq> 0)
       then Inl AssertFailed
       else if op = OP_POW then
         bindE (deref c b) (\<lambda>n. if t_op n = CONSTANT \<and> is_integral (t_value n) then Inr (p, c) else Inl AssertFailed)
       else if op = OP_NTH_ROOT then
         bindE (deref c b) (\<lambda>n. if t_op n = CONSTANT \<and> is_integral (t_value n) \<and> f32_lt 0 (t_value n)
           then Inr (p, c) else Inl AssertFailed)
       else Inr (p, c))"

definition Tree_var :: "allocator \<Rightarrow> cache \<Rightarrow> nat \<times> cache" where
  "Tree_var alloc c = var alloc c"

definition Tree_lhs :: "nat \<Rightarrow> cache \<Rightarrow> fault + nat" where
  "Tree_lhs p c = bindE (deref c p) (\<lambda>n. Inr (t_lhs n))"

definition Tree_rhs :: "nat \<Rightarrow> cache \<Rightarrow> fault + nat" where
  "Tree_rhs p c = bindE (deref c p) (\<lambda>n. Inr (t_rhs n))"

section \<open>Walking a tree in rank order\<close>

text \<open>The nodes of a rank, in the order they were found; ranks ascend.\<close>

fun rank_push :: "nat \<Rightarrow> nat \<Rightarrow> (nat \<times> nat list) list \<Rightarrow> (nat \<times> nat list) list" where
  "rank_push r p [] = [(r, [p])]"
| "rank_push r p ((r', ps) # rs) =
     (if r = r' then (r', ps @ [p]) # rs else if r < r' then (r, [p]) # (r', ps) # rs
      else (r', ps) # rank_push r p rs)"

function (sequential) ordered_loop ::
    "cache \<Rightarrow> nat list \<Rightarrow> nat list \<Rightarrow> (nat \<times> nat list) list \<Rightarrow> fault + (nat \<times> nat list) list" where
  "ordered_loop c found [] ranks = Inr ranks"
| "ordered_loop c found (t # todo) ranks =
     (if t \<in> set found then ordered_loop c found todo ranks
      else case node_at c t of
             None \<Rightarrow> Inl NullDeref
           | Some n \<Rightarrow> ordered_loop c (t # found) (todo @ [t_lhs n, t_rhs n]) (rank_push (t_rank n) t ranks))"
  by pat_completeness auto

lemma unfound_decreases:
  "t \<notin> set found \<Longrightarrow> node_at c t = Some n \<Longrightarrow>
   card (fst ` set (c_nodes c) - insert t (set found)) < card (fst ` set (c_nodes c) - set found)"
  by (rule psubset_card_mono) (force dest: map_of_SomeD)+

termination ordered_loop
  by (relation "measures [\<lambda>(c, found, todo, ranks). card (fst ` set (c_nodes c) - set found), \<lambda>(c, found, todo, ranks). length todo]")
    (simp_all add: unfound_decreases)

definition ordered :: "nat \<Rightarrow> cache \<Rightarrow> fault + nat list" where
  "ordered p c = bindE (ordered_loop c [0] [p] []) (\<lambda>ranks. Inr (concat (map snd ranks)))"

section \<open>Substitution\<close>

text \<open>The remapping of an oracle is a virtual call of its clause, a parameter.\<close>

type_synonym oracle_remap = "nat \<Rightarrow> nat \<Rightarrow> nat \<Rightarrow> nat \<Rightarrow> nat \<Rightarrow> cache \<Rightarrow> fault + nat \<times> cache"

definition map_insert :: "nat \<Rightarrow> nat \<Rightarrow> (nat \<Rightarrow> nat option) \<Rightarrow> nat \<Rightarrow> nat option" where
  "map_insert k v m = (if m k = None then m(k \<mapsto> v) else m)"

definition remapped :: "(nat \<Rightarrow> nat option) \<Rightarrow> nat \<Rightarrow> nat" where
  "remapped m p = (case m p of None \<Rightarrow> p | Some q \<Rightarrow> q)"

definition remap_node ::
    "build \<Rightarrow> oracle_remap \<Rightarrow> nat \<Rightarrow> nat \<Rightarrow> nat \<Rightarrow> (nat \<Rightarrow> nat option) \<times> cache \<Rightarrow> nat
     \<Rightarrow> fault + (nat \<Rightarrow> nat option) \<times> cache" where
  "remap_node opn orc x y z = (\<lambda>(m, c) t. bindE (deref c t) (\<lambda>n.
     if 1 \<le> args (t_op n) then
       bindE (opn (t_op n) (remapped m (t_lhs n)) (remapped m (t_rhs n)) c) (\<lambda>(q, c).
         Inr (map_insert t q m, c))
     else if t_op n = ORACLE then
       bindE (orc (t_oracle n) t x y z c) (\<lambda>(q, c). Inr (map_insert t q m, c))
     else Inr (m, c)))"

definition remap_tree ::
    "build \<Rightarrow> oracle_remap \<Rightarrow> nat \<Rightarrow> (nat \<Rightarrow> nat option) \<Rightarrow> cache \<Rightarrow> fault + nat \<times> cache" where
  "remap_tree opn orc p m c =
     bindE (opn VAR_X 0 0 c) (\<lambda>(x, c).
     bindE (opn VAR_Y 0 0 c) (\<lambda>(y, c).
     bindE (opn VAR_Z 0 0 c) (\<lambda>(z, c).
     bindE (ordered p c) (\<lambda>ts.
     bindE (foldE (remap_node opn orc (remapped m x) (remapped m y) (remapped m z)) (m, c) ts) (\<lambda>(m, c).
       Inr (remapped m p, c))))))"

definition remap_axes ::
    "build \<Rightarrow> oracle_remap \<Rightarrow> nat \<Rightarrow> nat \<Rightarrow> nat \<Rightarrow> nat \<Rightarrow> cache \<Rightarrow> fault + nat \<times> cache" where
  "remap_axes opn orc p x' y' z' c =
     bindE (opn VAR_X 0 0 c) (\<lambda>(x, c).
     bindE (opn VAR_Y 0 0 c) (\<lambda>(y, c).
     bindE (opn VAR_Z 0 0 c) (\<lambda>(z, c).
       remap_tree opn orc p (map_insert z z' (map_insert y y' (map_insert x x' Map.empty))) c)))"

definition makeVarsConstant :: "build \<Rightarrow> oracle_remap \<Rightarrow> nat \<Rightarrow> cache \<Rightarrow> fault + nat \<times> cache" where
  "makeVarsConstant opn orc p c =
     bindE (ordered p c) (\<lambda>ts.
     bindE (foldE (\<lambda>(m, c) t. bindE (deref c t) (\<lambda>n.
              if t_op n = VAR_FREE then bindE (opn CONST_VAR t 0 c) (\<lambda>(q, c). Inr (map_insert t q m, c))
              else Inr (m, c))) (Map.empty, c) ts) (\<lambda>(m, c).
       remap_tree opn orc p m c))"

section \<open>Printing\<close>

text \<open>\<open>value == int(value)\<close> is undefined when the number does not fit an \<open>int\<close>; the digits that a
  stream prints for another float are a parameter.\<close>

definition f32_to_int :: "f32 \<Rightarrow> int option" where
  "f32_to_int v =
     (if f32_isnan v \<or> f32_isinf v then None
      else let m = (if 0 \<le> f32_exp v then f32_man v * 2 ^ nat (f32_exp v) else f32_man v div 2 ^ nat (- f32_exp v));
               i = (if f32_neg v then - m else m)
           in if - (2 ^ 31) \<le> i \<and> i < 2 ^ 31 then Some i else None)"

fun digits_of :: "nat \<Rightarrow> string" where
  "digits_of n = (if n < 10 then [char_of (48 + n)] else digits_of (n div 10) @ [char_of (48 + n mod 10)])"

definition show_int :: "int \<Rightarrow> string" where
  "show_int i = (if i < 0 then ''-'' @ digits_of (nat (- i)) else digits_of (nat i))"

definition print_constant :: "(f32 \<Rightarrow> string) \<Rightarrow> f32 \<Rightarrow> fault + string" where
  "print_constant show_float v =
     (case f32_to_int v of
        None \<Rightarrow> Inl OutOfRange
      | Some i \<Rightarrow> if is_integral v then Inr (show_int i) else Inr (show_float v))"

definition wrapE :: "string \<Rightarrow> fault + string \<Rightarrow> string \<Rightarrow> fault + string" where
  "wrapE pre m post = bindE m (\<lambda>s. Inr (pre @ s @ post))"

definition wrap2E :: "string \<Rightarrow> fault + string \<Rightarrow> string \<Rightarrow> fault + string \<Rightarrow> string \<Rightarrow> fault + string" where
  "wrap2E pre m mid m' post = bindE m (\<lambda>s. bindE m' (\<lambda>t. Inr (pre @ s @ mid @ t @ post)))"

text \<open>The recursion goes down the tree, so one more than the rank is fuel enough.\<close>

fun printInfix :: "(f32 \<Rightarrow> string) \<Rightarrow> nat \<Rightarrow> cache \<Rightarrow> nat \<Rightarrow> fault + string" where
  "printInfix show_float 0 c p = Inl OutOfFuel"
| "printInfix show_float (Suc fuel) c p = bindE (deref c p) (\<lambda>n.
     let l = printInfix show_float fuel c (t_lhs n); r = printInfix show_float fuel c (t_rhs n) in
     case t_op n of
       CONSTANT \<Rightarrow> print_constant show_float (t_value n)
     | VAR_X \<Rightarrow> Inr ''X'' | VAR_Y \<Rightarrow> Inr ''Y'' | VAR_Z \<Rightarrow> Inr ''Z'' | VAR_FREE \<Rightarrow> Inr ''var''
     | CONST_VAR \<Rightarrow> wrapE ''const('' l '')''
     | OP_SQUARE \<Rightarrow> wrap2E ''('' l ''*'' l '')''
     | OP_NEG \<Rightarrow> wrapE ''(-'' l '')''
     | OP_SQRT \<Rightarrow> wrapE (toOpString OP_SQRT @ ''('') l '')''
     | OP_SIN \<Rightarrow> wrapE (toOpString OP_SIN @ ''('') l '')''
     | OP_COS \<Rightarrow> wrapE (toOpString OP_COS @ ''('') l '')''
     | OP_TAN \<Rightarrow> wrapE (toOpString OP_TAN @ ''('') l '')''
     | OP_ASIN \<Rightarrow> wrapE (toOpString OP_ASIN @ ''('') l '')''
     | OP_ACOS \<Rightarrow> wrapE (toOpString OP_ACOS @ ''('') l '')''
     | OP_ATAN \<Rightarrow> wrapE (toOpString OP_ATAN @ ''('') l '')''
     | OP_EXP \<Rightarrow> wrapE (toOpString OP_EXP @ ''('') l '')''
     | OP_ABS \<Rightarrow> wrapE (toOpString OP_ABS @ ''('') l '')''
     | OP_LOG \<Rightarrow> wrapE (toOpString OP_LOG @ ''('') l '')''
     | OP_RECIP \<Rightarrow> wrapE ''(1 / '' l '')''
     | OP_ADD \<Rightarrow> wrap2E ''('' l ('' '' @ toOpString OP_ADD @ '' '') r '')''
     | OP_SUB \<Rightarrow> wrap2E ''('' l ('' '' @ toOpString OP_SUB @ '' '') r '')''
     | OP_MUL \<Rightarrow> wrap2E ''('' l ('' '' @ toOpString OP_MUL @ '' '') r '')''
     | OP_DIV \<Rightarrow> wrap2E ''('' l ('' '' @ toOpString OP_DIV @ '' '') r '')''
     | OP_MIN \<Rightarrow> wrap2E (toOpString OP_MIN @ ''('') l '', '' r '')''
     | OP_MAX \<Rightarrow> wrap2E (toOpString OP_MAX @ ''('') l '', '' r '')''
     | OP_ATAN2 \<Rightarrow> wrap2E (toOpString OP_ATAN2 @ ''('') l '', '' r '')''
     | OP_POW \<Rightarrow> wrap2E (toOpString OP_POW @ ''('') l '', '' r '')''
     | OP_MOD \<Rightarrow> wrap2E ''('' l '' % '' r '')''
     | OP_NTH_ROOT \<Rightarrow> wrap2E ''pow('' l '', (1/'' r ''))''
     | _ \<Rightarrow> Inr '''')"

fun print_tree :: "(f32 \<Rightarrow> string) \<Rightarrow> (nat \<Rightarrow> string) \<Rightarrow> nat \<Rightarrow> cache \<Rightarrow> opcode \<Rightarrow> nat \<Rightarrow> fault + string" where
  "print_tree show_float oracle_name 0 c prev_op p = Inl OutOfFuel"
| "print_tree show_float oracle_name (Suc fuel) c prev_op p = bindE (deref c p) (\<lambda>n.
     let op = t_op n;
         commutative = (prev_op = op);
         op' = (if isCommutative op then op else INVALID);
         rec = print_tree show_float oracle_name fuel c op' in
     if args op = 0 then
       (if commutative then Inr ''''
        else if op = CONSTANT then print_constant show_float (t_value n)
        else if op = ORACLE then Inr (CHR 0x27 # oracle_name (t_oracle n))
        else Inr (toOpString op))
     else
       let pre = (if commutative then '''' else ''('' @ toOpString op @ '' '');
           post = (if commutative then '''' else '')'') in
       if args op = 1 then wrapE pre (rec (t_lhs n)) post
       else if args op = 2 then wrap2E pre (rec (t_lhs n)) '' '' (rec (t_rhs n)) post
       else Inl AssertFailed)"

end
