(* ===== verification/ExprOrder.thy ===== *)
theory ExprOrder
  imports ExprTree
begin

text \<open>
  The list that \<open>Tree::ordered\<close> returns for a node of a well-formed store: it comes to an end
  without a fault, holds every node below the root once, lists children before their parents and
  ends with the root. The tapes of the evaluators and the files of the serializer rest on this.
\<close>

section \<open>Nodes below a node\<close>

inductive below :: "cache \<Rightarrow> nat \<Rightarrow> nat \<Rightarrow> bool" for c :: cache and p :: nat where
  below_refl: "below c p p"
| below_child: "below c p q \<Longrightarrow> node_at c q = Some n \<Longrightarrow> r = t_lhs n \<or> r = t_rhs n \<Longrightarrow> r \<noteq> 0 \<Longrightarrow> below c p r"

lemma below_live:
  assumes "store_ok c" "below c p q" "live c p"
  shows "live c q"
  using assms(2,3)
proof induction
  case (below_child q n r)
  then show ?case using node_args[OF assms(1), of q n] by (auto simp: args_ok_def)
qed

lemma below_rank:
  assumes "store_ok c" "below c p q" "live c p"
  shows "rank_of c q \<le> rank_of c p \<and> (q \<noteq> p \<longrightarrow> rank_of c q < rank_of c p)"
  using assms(2,3)
proof induction
  case (below_child q n r)
  then have "live c q" using below_live[OF assms(1)] by blast
  then have "rank_of c r < rank_of c q"
    using node_child[OF assms(1) below_child(2,3)] below_child(2,4) by (auto simp: rank_of_def child_def live_def)
  with below_child show ?case by auto
qed simp

section \<open>Buckets\<close>

definition buckets_ok :: "cache \<Rightarrow> (nat \<times> nat list) list \<Rightarrow> bool" where
  "buckets_ok c ranks \<longleftrightarrow> sorted_wrt (<) (map fst ranks) \<and> (\<forall>(r, ps) \<in> set ranks. \<forall>q \<in> set ps. rank_of c q = r)
     \<and> distinct (concat (map snd ranks))"

lemma set_rank_push: "set (concat (map snd (rank_push r p ranks))) = insert p (set (concat (map snd ranks)))"
  by (induction r p ranks rule: rank_push.induct) auto

lemma keys_rank_push: "fst ` set (rank_push r p ranks) = insert r (fst ` set ranks)"
  by (induction r p ranks rule: rank_push.induct) auto

lemma sorted_rank_push: "sorted_wrt (<) (map fst ranks) \<Longrightarrow> sorted_wrt (<) (map fst (rank_push r p ranks))"
proof (induction r p ranks rule: rank_push.induct)
  case (2 r p r' ps rs)
  have "\<forall>k \<in> fst ` set (rank_push r p rs). r' < k" if "r' < r"
    using 2(2) that by (auto simp: keys_rank_push)
  with 2 show ?case by (auto simp: not_less)
qed simp

lemma bucket_rank_push: "rank_of c p = r \<Longrightarrow> \<forall>(k, ps) \<in> set ranks. \<forall>q \<in> set ps. rank_of c q = k \<Longrightarrow>
    \<forall>(k, ps) \<in> set (rank_push r p ranks). \<forall>q \<in> set ps. rank_of c q = k"
  by (induction r p ranks rule: rank_push.induct) auto

lemma distinct_rank_push:
  "p \<notin> set (concat (map snd ranks)) \<Longrightarrow> distinct (concat (map snd ranks)) \<Longrightarrow> distinct (concat (map snd (rank_push r p ranks)))"
proof (induction r p ranks rule: rank_push.induct)
  case (2 r p r' ps rs)
  then show ?case using set_rank_push[of r p rs] by auto
qed simp

lemma buckets_ok_push:
  "buckets_ok c ranks \<Longrightarrow> p \<notin> set (concat (map snd ranks)) \<Longrightarrow> rank_of c p = r \<Longrightarrow> buckets_ok c (rank_push r p ranks)"
  using sorted_rank_push[of ranks r p] bucket_rank_push[of c p r ranks] distinct_rank_push[of p ranks r]
  unfolding buckets_ok_def by blast

lemma buckets_sorted:
  assumes "buckets_ok c ranks"
  shows "sorted_wrt (\<lambda>p q. rank_of c p \<le> rank_of c q) (concat (map snd ranks))"
proof -
  have same: "sorted_wrt (\<lambda>p q. rank_of c p \<le> rank_of c q) ps" if "\<forall>q \<in> set ps. rank_of c q = r" for ps r
    using that by (induction ps) auto
  have "sorted_wrt (<) (map fst ranks) \<Longrightarrow> \<forall>(r, ps) \<in> set ranks. \<forall>q \<in> set ps. rank_of c q = r \<Longrightarrow> ?thesis"
  proof (induction ranks)
    case (Cons b ranks)
    obtain r ps where b: "b = (r, ps)" by (cases b)
    have "r \<le> rank_of c q" if "q \<in> set (concat (map snd ranks))" for q
      using that Cons.prems by (fastforce simp: b)
    with Cons same[of ps r] show ?case by (auto simp: b sorted_wrt_append)
  qed simp
  with assms show ?thesis by (simp add: buckets_ok_def)
qed

section \<open>The loop\<close>

definition walk_ok :: "cache \<Rightarrow> nat \<Rightarrow> nat list \<Rightarrow> nat list \<Rightarrow> (nat \<times> nat list) list \<Rightarrow> bool" where
  "walk_ok c p found todo ranks \<longleftrightarrow>
     0 \<in> set found \<and> set found - {0} = set (concat (map snd ranks)) \<and> 0 \<notin> set (concat (map snd ranks))
     \<and> buckets_ok c ranks \<and> p \<in> set found \<union> set todo
     \<and> (\<forall>q \<in> set found \<union> set todo. q = 0 \<or> below c p q)
     \<and> (\<forall>q \<in> set found. \<forall>n. q \<noteq> 0 \<longrightarrow> node_at c q = Some n \<longrightarrow> t_lhs n \<in> set found \<union> set todo \<and> t_rhs n \<in> set found \<union> set todo)"

lemma walk_step:
  assumes "walk_ok c p found (t # todo) ranks" "t \<notin> set found" "node_at c t = Some n" "live c t"
  shows "walk_ok c p (t # found) (todo @ [t_lhs n, t_rhs n]) (rank_push (t_rank n) t ranks)"
proof -
  have t: "t \<noteq> 0" "below c p t" "rank_of c t = t_rank n" "t \<notin> set (concat (map snd ranks))"
    using assms by (auto simp: walk_ok_def live_def rank_of_def child_def)
  have "below c p r" if "r = t_lhs n \<or> r = t_rhs n" "r \<noteq> 0" for r
    using below_child[OF t(2) assms(3) that] .
  moreover have "buckets_ok c (rank_push (t_rank n) t ranks)"
    using buckets_ok_push[OF _ t(4,3)] assms(1) by (simp add: walk_ok_def)
  ultimately show ?thesis
    using assms t(1) unfolding walk_ok_def set_rank_push by auto
qed

lemma walk_done:
  assumes "walk_ok c p found [] ranks" "live c p"
  shows "set (concat (map snd ranks)) = {q. below c p q}"
proof -
  have "q \<in> set found - {0}" if "below c p q" for q
    using that
  proof (induction rule: below.induct)
    case below_refl
    with assms show ?case by (auto simp: walk_ok_def live_def)
  next
    case (below_child q n r)
    with assms(1) have "t_lhs n \<in> set found \<and> t_rhs n \<in> set found"
      unfolding walk_ok_def by (metis Diff_iff Un_iff empty_set empty_iff singletonI)
    with below_child(3,4) show ?case by auto
  qed
  moreover have "below c p q" if "q \<in> set found - {0}" for q
    using assms(1) that by (auto simp: walk_ok_def)
  ultimately have "set found - {0} = {q. below c p q}" by blast
  with assms(1) show ?thesis by (simp add: walk_ok_def)
qed

lemma ordered_loop_result:
  "store_ok c \<Longrightarrow> live c p \<Longrightarrow> walk_ok c p found todo ranks \<Longrightarrow>
    \<exists>ranks'. ordered_loop c found todo ranks = Inr ranks' \<and> buckets_ok c ranks' \<and> set (concat (map snd ranks')) = {q. below c p q}"
proof (induction c found todo ranks rule: ordered_loop.induct[case_names Done Step])
  case (Done c found ranks)
  then show ?case using walk_done[OF Done(3,2)] by (simp add: walk_ok_def)
next
  case (Step c found t todo ranks)
  show ?case
  proof (cases "t \<in> set found")
    case True
    then have "walk_ok c p found todo ranks"
      using Step.prems(3) unfolding walk_ok_def by (simp add: insert_absorb)
    with Step.IH(1)[OF True Step.prems(1,2)] True show ?thesis by simp
  next
    case False
    then have "below c p t" using Step.prems(3) by (auto simp: walk_ok_def)
    then have live: "live c t" using below_live[OF Step.prems(1)] Step.prems(2) by blast
    then obtain n where n: "node_at c t = Some n" by (auto simp: live_def)
    from walk_step[OF Step.prems(3) False n live] Step.IH(2)[OF False n Step.prems(1,2)] False n
    show ?thesis by simp
  qed
qed

text \<open>The facts the evaluators and the serializer need.\<close>

definition child_first :: "cache \<Rightarrow> nat list \<Rightarrow> bool" where
  "child_first c ts \<longleftrightarrow> (\<forall>xs t ys n. ts = xs @ t # ys \<longrightarrow> node_at c t = Some n \<longrightarrow>
     (t_lhs n = 0 \<or> t_lhs n \<in> set xs) \<and> (t_rhs n = 0 \<or> t_rhs n \<in> set xs))"

lemma sorted_last:
  assumes "sorted_wrt (\<lambda>p q. f p \<le> (f q::nat)) ts" "p \<in> set ts" "\<forall>q \<in> set ts. q \<noteq> p \<longrightarrow> f q < f p" "distinct ts"
  shows "\<exists>xs. ts = xs @ [p]"
proof -
  from assms(2) obtain xs ys where ts: "ts = xs @ p # ys" by (auto dest: split_list)
  have "ys = []"
  proof (rule ccontr)
    assume "ys \<noteq> []"
    then obtain q zs where "ys = q # zs" by (cases ys) auto
    with ts assms show False by (fastforce simp: sorted_wrt_append)
  qed
  with ts show ?thesis by blast
qed

theorem ordered_result:
  assumes ok: "store_ok c" and p: "live c p"
  shows "\<exists>ts. ordered p c = Inr ts \<and> distinct ts \<and> set ts = {q. below c p q} \<and> child_first c ts \<and> (\<exists>xs. ts = xs @ [p])"
proof -
  have "walk_ok c p [0] [p] []" using below_refl by (auto simp: walk_ok_def buckets_ok_def)
  from ordered_loop_result[OF ok p this]
  obtain ranks where r: "ordered_loop c [0] [p] [] = Inr ranks" "buckets_ok c ranks" "set (concat (map snd ranks)) = {q. below c p q}" by blast
  define ts where "ts = concat (map snd ranks)"
  have ts: "ordered p c = Inr ts" "distinct ts" "set ts = {q. below c p q}" "sorted_wrt (\<lambda>p q. rank_of c p \<le> rank_of c q) ts"
    using r buckets_sorted[OF r(2)] by (simp_all add: ordered_def ts_def buckets_ok_def)
  have "child_first c ts" unfolding child_first_def
  proof (intro allI impI)
    fix xs t ys n assume split: "ts = xs @ t # ys" and n: "node_at c t = Some n"
    have t: "below c p t" using ts(3) split by auto
    have kid: "r = 0 \<or> r \<in> set xs" if r: "r = t_lhs n \<or> r = t_rhs n" for r
    proof (cases "r = 0")
      case False
      have b: "below c t r" "below c p r" using below_child[OF below_refl n r False] below_child[OF t n r False] by simp_all
      have lt: "live c t" using below_live[OF ok t p] .
      have "rank_of c r < rank_of c t"
        using node_child[OF ok n r] False n lt by (auto simp: rank_of_def child_def live_def)
      moreover have "\<forall>q \<in> set (t # ys). rank_of c t \<le> rank_of c q" using ts(4) split by (auto simp: sorted_wrt_append)
      moreover have "r \<in> set ts" using ts(3) b(2) by simp
      ultimately show ?thesis using split by fastforce
    qed simp
    then show "(t_lhs n = 0 \<or> t_lhs n \<in> set xs) \<and> (t_rhs n = 0 \<or> t_rhs n \<in> set xs)" by blast
  qed
  moreover have "\<exists>xs. ts = xs @ [p]"
    using below_rank[OF ok _ p] ts(2,3) below_refl by (intro sorted_last[OF ts(4)]) auto
  ultimately show ?thesis using ts by blast
qed

end
