(* ===== verification/Deck.thy ===== *)
theory Deck
  imports ExprOrder
begin

text \<open>
  From a tree to a tape (\<open>src/five/eval/deck.cpp\<close>), the specialisation of tapes
  (\<open>src/five/eval/tape.cpp\<close>) and the evaluator of points (\<open>src/five/eval/eval_array.cpp\<close>,
  \<open>thirdparty/libfive/eval/eval_array.hpp\<close>). A clause names the rows of the result array it reads
  and the row it writes; row 0 is a placeholder. The evaluator's array has a column for each point,
  and a clause works on each column by itself, so one column is modelled. Oracles are objects
  behind an interface: their values, and what they make of their contexts, are parameters.
\<close>

section \<open>Clauses, tapes and decks\<close>

datatype clause = Clause (k_op: opcode) (k_id: nat) (k_a: nat) (k_b: nat)

datatype tape_type = BASE | INTERVAL | SPECIALIZED | FEATURE

type_synonym bounds = "f32 \<times> f32"

datatype tape = Tape (tp_clauses: "clause list") (tp_root: nat) (tp_contexts: "nat list") (tp_type: tape_type)
  (tp_terminal: bool) (tp_parent: "tape option") (tp_X: bounds) (tp_Y: bounds) (tp_Z: bounds)

record deck =
  d_constants :: "(nat \<times> f32) list"
  d_vars :: "(nat \<times> nat) list"
  d_oracles :: "nat list"
  d_num_clauses :: nat
  d_X :: nat
  d_Y :: nat
  d_Z :: nat
  d_tape :: tape

section \<open>Flattening a tree\<close>

text \<open>The locals of the constructor: the row of each node so far, the next row, the tape under
  construction (the last clause first), the constants, the variables and the oracles.\<close>

record flat_state =
  f_clauses :: "(nat \<times> nat) list"
  f_id :: nat
  f_tape :: "clause list"
  f_constants :: "(nat \<times> f32) list"
  f_vars :: "(nat \<times> nat) list"
  f_oracles :: "nat list"

definition clause_at :: "flat_state \<Rightarrow> nat \<Rightarrow> fault + nat" where
  "clause_at s t = (case map_of (f_clauses s) t of None \<Rightarrow> Inl OutOfRange | Some i \<Rightarrow> Inr i)"

definition newClause :: "tnode \<Rightarrow> flat_state \<Rightarrow> fault + flat_state" where
  "newClause n s =
     bindE (clause_at s (t_lhs n)) (\<lambda>a.
     bindE (clause_at s (t_rhs n)) (\<lambda>b.
       Inr (s\<lparr>f_tape := Clause (t_op n) (f_id s) a b # f_tape s\<rparr>)))"

definition flatten_node :: "cache \<Rightarrow> flat_state \<Rightarrow> nat \<Rightarrow> fault + flat_state" where
  "flatten_node c s m = bindE (deref c m) (\<lambda>n.
     bindE (if 0 < t_rank n then newClause n s
            else if t_op n = CONSTANT then Inr (s\<lparr>f_constants := f_constants s @ [(f_id s, t_value n)]\<rparr>)
            else if t_op n = VAR_FREE then Inr (s\<lparr>f_vars := f_vars s @ [(f_id s, m)]\<rparr>)
            else if t_op n = ORACLE then
              (if t_oracle n = 0 then Inl AssertFailed
               else Inr (s\<lparr>f_tape := Clause ORACLE (f_id s) (length (f_oracles s)) 0 # f_tape s,
                           f_oracles := f_oracles s @ [t_oracle n]\<rparr>))
            else if t_op n = VAR_X \<or> t_op n = VAR_Y \<or> t_op n = VAR_Z then Inr s
            else Inl AssertFailed) (\<lambda>s.
       Inr (s\<lparr>f_clauses := (m, f_id s) # f_clauses s, f_id := f_id s - 1\<rparr>)))"

text \<open>The rows of the axes that do not occur in the tree.\<close>

definition axis_row :: "(nat \<times> nat) list \<Rightarrow> nat \<Rightarrow> (nat \<times> nat) list" where
  "axis_row clauses a = (if map_of clauses a = None then (a, length clauses) # clauses else clauses)"

definition Deck :: "build \<Rightarrow> nat \<Rightarrow> cache \<Rightarrow> fault + deck \<times> cache" where
  "Deck opn root c =
     bindE (ordered root c) (\<lambda>flat.
     bindE (foldE (flatten_node c) \<lparr>f_clauses = [(0, 0)], f_id = length flat, f_tape = [], f_constants = [],
              f_vars = [], f_oracles = []\<rparr> flat) (\<lambda>s.
     if f_id s \<noteq> 0 then Inl AssertFailed else
     bindE (opn VAR_X 0 0 c) (\<lambda>(x, c).
     bindE (opn VAR_Y 0 0 c) (\<lambda>(y, c).
     bindE (opn VAR_Z 0 0 c) (\<lambda>(z, c).
       let clauses = axis_row (axis_row (axis_row (f_clauses s) x) y) z in
       if map_of clauses root \<noteq> Some 1 then Inl AssertFailed
       else Inr (\<lparr>d_constants = f_constants s, d_vars = f_vars s, d_oracles = f_oracles s,
                  d_num_clauses = length clauses - 1,
                  d_X = the (map_of clauses x), d_Y = the (map_of clauses y), d_Z = the (map_of clauses z),
                  d_tape = Tape (f_tape s) 1 (replicate (length (f_oracles s)) 0) BASE False None (0, 0) (0, 0) (0, 0)\<rparr>,
                 c))))))"

section \<open>Evaluating a tape\<close>

type_synonym row_values = "f32 list"

text \<open>\<open>ArrayEvaluator::operator()\<close> for one column.\<close>

definition eval_clause :: "libm \<Rightarrow> (nat \<Rightarrow> f32) \<Rightarrow> row_values \<Rightarrow> clause \<Rightarrow> fault + row_values" where
  "eval_clause lib oracle v k =
     (if k_op k = ORACLE then Inr (v[k_id k := oracle (k_a k)])
      else bindE (clause_value lib (k_op k) (v ! k_a k) (v ! k_b k)) (\<lambda>out. Inr (v[k_id k := out])))"

definition eval_tape :: "libm \<Rightarrow> (nat \<Rightarrow> f32) \<Rightarrow> tape \<Rightarrow> row_values \<Rightarrow> fault + row_values" where
  "eval_tape lib oracle tp v = foldE (eval_clause lib oracle) v (rev (tp_clauses tp))"

text \<open>The constructor of the evaluator: zeros, the variables, the constants.\<close>

definition ArrayEvaluator :: "deck \<Rightarrow> (nat \<Rightarrow> f32 option) \<Rightarrow> row_values" where
  "ArrayEvaluator d vars =
     (let v = replicate (d_num_clauses d + 1) 0;
          v = foldl (\<lambda>v (i, t). v[i := (case vars t of Some x \<Rightarrow> x | None \<Rightarrow> 0)]) v (d_vars d)
      in foldl (\<lambda>v (i, x). v[i := x]) v (d_constants d))"

definition set_point :: "deck \<Rightarrow> f32 \<Rightarrow> f32 \<Rightarrow> f32 \<Rightarrow> row_values \<Rightarrow> row_values" where
  "set_point d x y z v = v[d_X d := x, d_Y d := y, d_Z d := z]"

definition array_value ::
    "libm \<Rightarrow> (nat \<Rightarrow> f32) \<Rightarrow> deck \<Rightarrow> tape \<Rightarrow> f32 \<Rightarrow> f32 \<Rightarrow> f32 \<Rightarrow> row_values \<Rightarrow> fault + f32 \<times> row_values" where
  "array_value lib oracle d tp x y z v =
     bindE (eval_tape lib oracle tp (set_point d x y z v)) (\<lambda>v. Inr (v ! tp_root tp, v))"

definition setVar :: "deck \<Rightarrow> nat \<Rightarrow> f32 \<Rightarrow> row_values \<Rightarrow> bool \<times> row_values" where
  "setVar d t x v =
     (case find (\<lambda>(_, t'). t' = t) (d_vars d) of
        None \<Rightarrow> (False, v)
      | Some (i, _) \<Rightarrow> (\<not> f32_eq (v ! i) x, v[i := x]))"

text \<open>\<open>getAmbiguous\<close> of one column: some minimum or maximum has equal branches.\<close>

definition getAmbiguous :: "(nat \<Rightarrow> bool) \<Rightarrow> tape \<Rightarrow> row_values \<Rightarrow> bool" where
  "getAmbiguous checkAmbiguous tp v =
     foldl (\<lambda>ambig k.
        if k_op k = ORACLE then ambig \<or> checkAmbiguous (k_a k)
        else if k_op k = OP_MIN \<or> k_op k = OP_MAX then ambig \<or> f32_eq (v ! k_a k) (v ! k_b k)
        else ambig) False (rev (tp_clauses tp))"

section \<open>Specialising a tape\<close>

datatype keep = KEEP_BOTH | KEEP_A | KEEP_B | KEEP_ALWAYS

record push_state =
  p_disabled :: "nat \<Rightarrow> bool"
  p_remap :: "nat \<Rightarrow> nat"
  p_contexts :: "nat list"
  p_terminal :: bool
  p_changed :: bool

text \<open>What the oracles do: the context an oracle makes of the one it was bound to, and whether a
  context is terminal.\<close>

record oracle_ops =
  o_push :: "tape_type \<Rightarrow> nat \<Rightarrow> nat \<Rightarrow> nat"
  o_isTerminal :: "nat \<Rightarrow> bool"

definition mark_clause ::
    "oracle_ops \<Rightarrow> (clause \<Rightarrow> keep) \<Rightarrow> tape_type \<Rightarrow> nat list \<Rightarrow> push_state \<Rightarrow> clause \<Rightarrow> fault + push_state" where
  "mark_clause orc fn ty contexts s k =
     (if p_disabled s (k_id k) then Inr s
      else
        let s = (case fn k of
            KEEP_A \<Rightarrow> s\<lparr>p_disabled := (p_disabled s)(k_a k := False), p_remap := (p_remap s)(k_id k := k_a k), p_changed := True\<rparr>
          | KEEP_B \<Rightarrow> s\<lparr>p_disabled := (p_disabled s)(k_b k := False), p_remap := (p_remap s)(k_id k := k_b k), p_changed := True\<rparr>
          | KEEP_BOTH \<Rightarrow> s\<lparr>p_terminal := False\<rparr>
          | KEEP_ALWAYS \<Rightarrow> s)
        in if p_remap s (k_id k) \<noteq> 0 then Inr (s\<lparr>p_disabled := (p_disabled s)(k_id k := True)\<rparr>)
           else if k_op k \<noteq> ORACLE then Inr (s\<lparr>p_disabled := (p_disabled s)(k_a k := False, k_b k := False)\<rparr>)
           else if length contexts \<le> k_a k then Inl AssertFailed
           else
             let prev = contexts ! k_a k; new = o_push orc ty (k_a k) prev
             in Inr (s\<lparr>p_contexts := (p_contexts s)[k_a k := new],
                       p_changed := (p_changed s \<or> new \<noteq> prev),
                       p_terminal := (p_terminal s \<and> (new = 0 \<or> o_isTerminal orc new))\<rparr>))"

text \<open>Following the remapping to its end. A row is remapped to a row with a larger number, so as
  many steps as there are rows are enough.\<close>

fun chase :: "nat \<Rightarrow> (nat \<Rightarrow> nat) \<Rightarrow> nat \<Rightarrow> fault + nat" where
  "chase 0 remap r = (if remap r = 0 then Inr r else Inl OutOfFuel)"
| "chase (Suc fuel) remap r = (if remap r = 0 then Inr r else chase fuel remap (remap r))"

definition keep_clause :: "nat \<Rightarrow> push_state \<Rightarrow> clause \<Rightarrow> fault + clause option" where
  "keep_clause fuel s k =
     (if p_disabled s (k_id k) then Inr None
      else if k_op k = ORACLE then Inr (Some k)
      else bindE (chase fuel (p_remap s) (k_a k)) (\<lambda>ra.
           bindE (chase fuel (p_remap s) (k_b k)) (\<lambda>rb.
             Inr (Some (Clause (k_op k) (k_id k) ra rb)))))"

definition push_tape ::
    "oracle_ops \<Rightarrow> deck \<Rightarrow> (clause \<Rightarrow> keep) \<Rightarrow> tape_type \<Rightarrow> bounds \<Rightarrow> bounds \<Rightarrow> bounds \<Rightarrow> tape \<Rightarrow> fault + tape" where
  "push_tape orc d fn ty bx by' bz tp =
     (if tp_terminal tp then Inr tp
      else if length (tp_contexts tp) \<noteq> length (d_oracles d) then Inl AssertFailed
      else
        bindE (foldE (mark_clause orc fn ty (tp_contexts tp))
                 \<lparr>p_disabled = (\<lambda>_. True)(tp_root tp := False), p_remap = (\<lambda>_. 0), p_contexts = tp_contexts tp,
                  p_terminal = True, p_changed = False\<rparr> (tp_clauses tp)) (\<lambda>s.
        if \<not> p_changed s then Inr tp
        else
          bindE (mapE (keep_clause (d_num_clauses d) s) (tp_clauses tp)) (\<lambda>ks.
          bindE (chase (d_num_clauses d) (p_remap s) (tp_root tp)) (\<lambda>root.
          if length (tp_clauses tp) < length (collect ks) then Inl AssertFailed
          else Inr (Tape (collect ks) root (p_contexts s) ty (p_terminal s) (Some tp) bx by' bz)))))"

text \<open>The choice of \<open>ArrayEvaluator::valueAndPush\<close>.\<close>

definition array_keep :: "row_values \<Rightarrow> clause \<Rightarrow> keep" where
  "array_keep v k =
     (let a = v ! k_a k; b = v ! k_b k in
      if k_op k = OP_MAX then
        (if f32_lt b a then KEEP_A else if f32_lt a b then KEEP_B else KEEP_BOTH)
      else if k_op k = OP_MIN then
        (if f32_lt b a then KEEP_B else if f32_lt a b then KEEP_A else KEEP_BOTH)
      else KEEP_ALWAYS)"

definition valueAndPush ::
    "libm \<Rightarrow> (nat \<Rightarrow> f32) \<Rightarrow> oracle_ops \<Rightarrow> deck \<Rightarrow> tape \<Rightarrow> f32 \<Rightarrow> f32 \<Rightarrow> f32 \<Rightarrow> row_values
     \<Rightarrow> fault + (f32 \<times> tape) \<times> row_values" where
  "valueAndPush lib oracle orc d tp x y z v =
     bindE (array_value lib oracle d tp x y z v) (\<lambda>(out, v).
     bindE (push_tape orc d (array_keep v) SPECIALIZED (0, 0) (0, 0) (0, 0) tp) (\<lambda>tp'.
       Inr ((out, tp'), v)))"

section \<open>Walking back to a larger tape\<close>

definition contains :: "bounds \<Rightarrow> f32 \<Rightarrow> f32 \<Rightarrow> bool" where
  "contains bd lo hi \<longleftrightarrow> f32_le (fst bd) lo \<and> f32_le hi (snd bd)"

fun getBase :: "bounds \<Rightarrow> bounds \<Rightarrow> bounds \<Rightarrow> tape \<Rightarrow> tape" where
  "getBase rx ry rz (Tape ks i ctx ty term parent bx by' bz) =
     (case parent of
        None \<Rightarrow> Tape ks i ctx ty term parent bx by' bz
      | Some p \<Rightarrow>
          if ty = INTERVAL \<and> contains bx (fst rx) (snd rx) \<and> contains by' (fst ry) (snd ry) \<and> contains bz (fst rz) (snd rz)
          then Tape ks i ctx ty term parent bx by' bz
          else getBase rx ry rz p)"

definition getBase_point :: "f32 \<Rightarrow> f32 \<Rightarrow> f32 \<Rightarrow> tape \<Rightarrow> tape" where
  "getBase_point x y z tp = getBase (x, x) (y, y) (z, z) tp"

end
