(* ===== verification/DeckValue.thy ===== *)
theory DeckValue
  imports Deck
begin

text \<open>
  The tape of a tree computes the tree: what the constructor of the deck leaves in its tape, and
  that walking the tape over the result array gives the recursive value of the tree.
\<close>

section \<open>Rows\<close>

definition row_of :: "nat list \<Rightarrow> nat \<Rightarrow> nat" where
  "row_of ts t = (if t = 0 then 0 else length ts - index_of t ts)"

lemma index_of_append: "t \<notin> set xs \<Longrightarrow> index_of t (xs @ t # ys) = length xs"
  by (induction xs) auto

lemma index_of_less: "t \<in> set ts \<Longrightarrow> index_of t ts < length ts"
  by (induction ts) auto

lemma index_of_nth: "t \<in> set ts \<Longrightarrow> ts ! index_of t ts = t"
  by (induction ts) auto

lemma index_of_inj: "t \<in> set ts \<Longrightarrow> u \<in> set ts \<Longrightarrow> index_of t ts = index_of u ts \<Longrightarrow> t = u"
  using index_of_nth by metis

lemma row_of_at: "distinct (xs @ t # ys) \<Longrightarrow> t \<noteq> 0 \<Longrightarrow> row_of (xs @ t # ys) t = Suc (length ys)"
  by (simp add: row_of_def index_of_append)

lemma row_of_pos: "t \<in> set ts \<Longrightarrow> t \<noteq> 0 \<Longrightarrow> 0 < row_of ts t \<and> row_of ts t \<le> length ts"
  using index_of_less[of t ts] by (simp add: row_of_def)

lemma row_of_inj:
  assumes "t \<in> set ts" "u \<in> set ts" "t \<noteq> 0" "u \<noteq> 0" "row_of ts t = row_of ts u"
  shows "t = u"
proof -
  have "index_of t ts = index_of u ts"
    using assms(3-5) index_of_less[OF assms(1)] index_of_less[OF assms(2)] unfolding row_of_def by (simp only: if_False)
  from index_of_inj[OF assms(1,2) this] show ?thesis .
qed

section \<open>The state of the constructor's loop\<close>

definition op_of :: "cache \<Rightarrow> nat \<Rightarrow> opcode" where
  "op_of c t = (case node_at c t of None \<Rightarrow> INVALID | Some n \<Rightarrow> t_op n)"

definition value_of :: "cache \<Rightarrow> nat \<Rightarrow> f32" where
  "value_of c t = (case node_at c t of None \<Rightarrow> 0 | Some n \<Rightarrow> t_value n)"

definition oracle_of :: "cache \<Rightarrow> nat \<Rightarrow> nat" where
  "oracle_of c t = (case node_at c t of None \<Rightarrow> 0 | Some n \<Rightarrow> t_oracle n)"

definition constant_rows :: "cache \<Rightarrow> nat list \<Rightarrow> nat list \<Rightarrow> (nat \<times> f32) list" where
  "constant_rows c ts xs = map (\<lambda>t. (row_of ts t, value_of c t)) (filter (\<lambda>t. op_of c t = CONSTANT) xs)"

definition var_rows :: "cache \<Rightarrow> nat list \<Rightarrow> nat list \<Rightarrow> (nat \<times> nat) list" where
  "var_rows c ts xs = map (\<lambda>t. (row_of ts t, t)) (filter (\<lambda>t. op_of c t = VAR_FREE) xs)"

definition oracle_list :: "cache \<Rightarrow> nat list \<Rightarrow> nat list" where
  "oracle_list c xs = map (oracle_of c) (filter (\<lambda>t. op_of c t = ORACLE) xs)"

text \<open>The clauses that compute a node from the nodes before it.\<close>

definition node_clauses :: "cache \<Rightarrow> nat list \<Rightarrow> nat list \<Rightarrow> nat \<Rightarrow> clause list" where
  "node_clauses c ts xs t = (case node_at c t of None \<Rightarrow> [] | Some n \<Rightarrow>
     if 0 < t_rank n then [Clause (t_op n) (row_of ts t) (row_of ts (t_lhs n)) (row_of ts (t_rhs n))]
     else if t_op n = ORACLE then [Clause ORACLE (row_of ts t) (length (oracle_list c xs)) 0]
     else [])"

definition flat_ok :: "cache \<Rightarrow> nat list \<Rightarrow> nat list \<Rightarrow> flat_state \<Rightarrow> bool" where
  "flat_ok c ts xs s \<longleftrightarrow>
     (\<forall>t. map_of (f_clauses s) t = (if t = 0 \<or> t \<in> set xs then Some (row_of ts t) else None))
     \<and> length (f_clauses s) = Suc (length xs) \<and> f_id s = length ts - length xs
     \<and> f_constants s = constant_rows c ts xs \<and> f_vars s = var_rows c ts xs \<and> f_oracles s = oracle_list c xs"

lemma rank_zero_leaf:
  assumes "store_ok c" "node_at c t = Some n"
  shows "t_rank n = 0 \<longleftrightarrow> t_lhs n = 0"
    and "t_rank n = 0 \<Longrightarrow> t_op n \<in> {CONSTANT, VAR_FREE, ORACLE, VAR_X, VAR_Y, VAR_Z}"
    and "0 < t_rank n \<Longrightarrow> operates (t_op n) \<and> t_op n \<notin> {CONSTANT, VAR_FREE, ORACLE, VAR_X, VAR_Y, VAR_Z} \<and> args (t_op n) \<noteq> 0"
proof -
  have n: "args_ok c (t_op n) (t_lhs n) (t_rhs n)" "t_rank n = operation_rank (child c (t_lhs n)) (child c (t_rhs n))"
    using store_okD[OF assms] by (simp_all add: node_ok_def)
  then show 0: "t_rank n = 0 \<longleftrightarrow> t_lhs n = 0"
    by (auto simp: operation_rank_def child_def args_ok_def arity_ok_def live_def split: if_splits option.splits)
  show "t_rank n = 0 \<Longrightarrow> t_op n \<in> {CONSTANT, VAR_FREE, ORACLE, VAR_X, VAR_Y, VAR_Z}"
    using n(1) 0 by (cases "t_op n") (auto simp: args_ok_def arity_ok_def args_def)
  show "0 < t_rank n \<Longrightarrow> operates (t_op n) \<and> t_op n \<notin> {CONSTANT, VAR_FREE, ORACLE, VAR_X, VAR_Y, VAR_Z} \<and> args (t_op n) \<noteq> 0"
    using n(1) 0 by (cases "t_op n") (auto simp: args_ok_def arity_ok_def args_def operates_def split: if_splits)
qed

lemma flatten_step:
  assumes ok: "store_ok c" and ts: "ts = xs @ m # ys" "distinct ts" "0 \<notin> set ts" "child_first c ts"
    and n: "node_at c m = Some n" and s: "flat_ok c ts xs s"
  shows "\<exists>s'. flatten_node c s m = Inr s' \<and> flat_ok c ts (xs @ [m]) s' \<and> f_tape s' = node_clauses c ts xs m @ f_tape s"
proof -
  have m: "m \<noteq> 0" "m \<notin> set xs" "row_of ts m = f_id s"
    using ts s row_of_at[of xs m ys] by (auto simp: flat_ok_def)
  have at: "clause_at s r = Inr (row_of ts r)" if "r = t_lhs n \<or> r = t_rhs n" for r
    using ts(1,4) n that s unfolding child_first_def clause_at_def flat_ok_def by fastforce
  have next_id: "f_id s - 1 = length ts - Suc (length xs)" using s by (simp add: flat_ok_def)
  note leaf = rank_zero_leaf[OF ok n]
  have ora: "t_op n = ORACLE \<Longrightarrow> t_oracle n \<noteq> 0" using store_okD[OF ok n] by (simp add: node_ok_def)
  note defs = flatten_node_def n flat_ok_def constant_rows_def var_rows_def oracle_list_def op_of_def value_of_def
    oracle_of_def node_clauses_def
  show ?thesis
  proof (cases "0 < t_rank n")
    case True
    have "t_op n \<notin> {CONSTANT, VAR_FREE, ORACLE}" using leaf(3)[OF True] by auto
    with True s m next_id at[of "t_lhs n"] at[of "t_rhs n"] show ?thesis
      by (auto simp: defs newClause_def)
  next
    case False
    with leaf(2) consider "t_op n = CONSTANT" | "t_op n = VAR_FREE" | "t_op n = ORACLE" | "t_op n \<in> {VAR_X, VAR_Y, VAR_Z}" by auto
    then show ?thesis using False s m next_id ora by cases (auto simp: defs)
  qed
qed

text \<open>The tape of a list of nodes, the last one first.\<close>

fun tape_of :: "cache \<Rightarrow> nat list \<Rightarrow> nat list \<Rightarrow> nat list \<Rightarrow> clause list" where
  "tape_of c ts xs [] = []"
| "tape_of c ts xs (m # ys) = tape_of c ts (xs @ [m]) ys @ node_clauses c ts xs m"

lemma flatten_all:
  assumes ok: "store_ok c" and ts: "distinct ts" "0 \<notin> set ts" "child_first c ts" "\<forall>t \<in> set ts. live c t"
  shows "ts = xs @ ys \<Longrightarrow> flat_ok c ts xs s \<Longrightarrow>
    \<exists>s'. foldE (flatten_node c) s ys = Inr s' \<and> flat_ok c ts ts s' \<and> f_tape s' = tape_of c ts xs ys @ f_tape s"
proof (induction ys arbitrary: xs s)
  case (Cons m ys)
  then obtain n where "node_at c m = Some n" using ts(4) by (auto simp: live_def)
  from flatten_step[OF ok Cons.prems(1) ts(1-3) this Cons.prems(2)]
  obtain s1 where s1: "flatten_node c s m = Inr s1" "flat_ok c ts (xs @ [m]) s1" "f_tape s1 = node_clauses c ts xs m @ f_tape s" by blast
  with Cons.IH[of "xs @ [m]" s1] Cons.prems(1) show ?case by auto
qed simp

section \<open>Machines that walk a tape\<close>

text \<open>
  The evaluators of points, intervals and derivatives walk a tape in the same way: a clause reads
  rows of an array, the result of its operation goes to the clause's own row, and an oracle's
  clause asks the oracle it names. A unary operation does not look at its second row. The results
  of the expressions below an operation determine its result.
\<close>

locale tape_machine =
  fixes exec :: "'a list \<Rightarrow> clause \<Rightarrow> fault + 'a list"
    and val :: "opcode \<Rightarrow> 'a \<Rightarrow> 'a \<Rightarrow> fault + 'a"
    and ask :: "nat \<Rightarrow> 'a"
  assumes exec: "exec v k = (if k_op k = ORACLE then Inr (v[k_id k := ask (k_a k)])
      else bindE (val (k_op k) (v ! k_a k) (v ! k_b k)) (\<lambda>x. Inr (v[k_id k := x])))"
    and unary: "args op = 1 \<Longrightarrow> val op a b = val op a b'"

locale tape_algebra = tape_machine exec val ask
  for exec :: "'a list \<Rightarrow> clause \<Rightarrow> fault + 'a list" and val ask +
  fixes result :: "expr \<Rightarrow> 'a"
  assumes result: "operates op \<Longrightarrow> args op \<noteq> 0 \<Longrightarrow> val op (result l) (result r) = Inr (result (Apply op l r))"

definition rows_ok :: "(expr \<Rightarrow> 'a) \<Rightarrow> cache \<Rightarrow> nat list \<Rightarrow> nat list \<Rightarrow> 'a list \<Rightarrow> bool" where
  "rows_ok result c ts xs v \<longleftrightarrow> length ts < length v \<and> (\<forall>t \<in> set xs. v ! row_of ts t = result (tree_of c t))"

definition leaves_ok :: "(expr \<Rightarrow> 'a) \<Rightarrow> cache \<Rightarrow> nat list \<Rightarrow> 'a list \<Rightarrow> bool" where
  "leaves_ok result c ts v \<longleftrightarrow>
     (\<forall>t \<in> set ts. \<forall>n. node_at c t = Some n \<and> t_rank n = 0 \<and> t_op n \<noteq> ORACLE \<longrightarrow>
        v ! row_of ts t = result (tree_of c t))"

context tape_algebra
begin

lemma eval_node:
  assumes ok: "store_ok c" and ts: "ts = xs @ m # ys" "distinct ts" "0 \<notin> set ts" "child_first c ts"
    and n: "node_at c m = Some n" and v: "rows_ok result c ts xs v" "leaves_ok result c ts v0"
    and rest: "\<forall>i \<le> length ts - length xs. v ! i = v0 ! i"
    and orc: "result (Oracle m) = ask (length (oracle_list c xs)) \<or> t_op n \<noteq> ORACLE"
  shows "\<exists>v'. foldE exec v (node_clauses c ts xs m) = Inr v' \<and> rows_ok result c ts (xs @ [m]) v'
    \<and> length v' = length v \<and> (\<forall>i \<le> length ts - Suc (length xs). v' ! i = v0 ! i)"
proof -
  have m: "m \<noteq> 0" "m \<notin> set xs" "row_of ts m = Suc (length ys)" "length ts - length xs = Suc (length ys)"
    using ts row_of_at[of xs m ys] by auto
  have row: "row_of ts m \<noteq> row_of ts t" if "t \<in> set xs" for t
    using row_of_inj[of m ts t] that ts m(1,2) by auto
  have upd: "rows_ok result c ts (xs @ [m]) (v[row_of ts m := x]) \<and> (\<forall>i \<le> length ts - Suc (length xs). v[row_of ts m := x] ! i = v0 ! i)"
    if "x = result (tree_of c m)" for x
    using that v(1) row rest m by (auto simp: rows_ok_def)
  note leaf = rank_zero_leaf[OF ok n]
  have kid: "v ! row_of ts r = result (tree_of c r)" if "r = t_lhs n \<or> r = t_rhs n" "r \<noteq> 0" for r
  proof -
    have "r \<in> set xs" using ts(4)[unfolded child_first_def, rule_format, OF ts(1) n] that by auto
    with v(1) show ?thesis by (simp add: rows_ok_def)
  qed
  consider (op) "0 < t_rank n" | (orc) "t_rank n = 0" "t_op n = ORACLE" | (leaf) "t_rank n = 0" "t_op n \<noteq> ORACLE" by auto
  then show ?thesis
  proof cases
    case op
    note o = leaf(3)[OF op] and args = node_args[OF ok n]
    have lhs: "t_lhs n \<noteq> 0" using op leaf(1) by simp
    have "val (t_op n) (v ! row_of ts (t_lhs n)) (v ! row_of ts (t_rhs n)) = Inr (result (tree_of c m))"
    proof (cases "t_rhs n = 0")
      case True
      with args lhs have "args (t_op n) = 1" by (simp add: args_ok_def arity_ok_def)
      from unary[OF this] have "val (t_op n) (v ! row_of ts (t_lhs n)) (v ! row_of ts (t_rhs n))
        = val (t_op n) (result (tree_of c (t_lhs n))) (result (tree_of c (t_rhs n)))"
        using kid[of "t_lhs n"] lhs by metis
      then show ?thesis using o result by (simp add: tree_of_node[OF ok n])
    next
      case False
      then show ?thesis using kid[of "t_lhs n"] kid[of "t_rhs n"] lhs o result by (simp add: tree_of_node[OF ok n])
    qed
    with upd[OF refl] op o n show ?thesis by (auto simp: node_clauses_def exec)
  next
    case orc
    then have "ask (length (oracle_list c xs)) = result (tree_of c m)"
      using assms(10) by (simp add: tree_of_node[OF ok n])
    from upd[OF this] orc n show ?thesis by (simp add: node_clauses_def exec)
  next
    case leaf
    have "v ! row_of ts m = v0 ! row_of ts m" using rest m by simp
    also have "\<dots> = result (tree_of c m)" using v(2) ts(1) n leaf by (simp add: leaves_ok_def)
    finally have "v[row_of ts m := result (tree_of c m)] = v" by (metis list_update_id)
    with upd[OF refl] leaf n show ?thesis by (simp add: node_clauses_def)
  qed
qed

lemma eval_all:
  assumes ok: "store_ok c" and ts: "distinct ts" "0 \<notin> set ts" "child_first c ts" "\<forall>t \<in> set ts. live c t"
    and v0: "leaves_ok result c ts v0"
    and orc: "\<And>xs m ys. ts = xs @ m # ys \<Longrightarrow> op_of c m = ORACLE \<Longrightarrow> result (Oracle m) = ask (length (oracle_list c xs))"
  shows "ts = xs @ ys \<Longrightarrow> rows_ok result c ts xs v \<Longrightarrow> \<forall>i \<le> length ts - length xs. v ! i = v0 ! i \<Longrightarrow>
    \<exists>v'. foldE exec v (rev (tape_of c ts xs ys)) = Inr v' \<and> rows_ok result c ts ts v' \<and> length v' = length v"
proof (induction ys arbitrary: xs v)
  case (Cons m ys)
  then obtain n where n: "node_at c m = Some n" using ts(4) by (auto simp: live_def)
  have "result (Oracle m) = ask (length (oracle_list c xs)) \<or> t_op n \<noteq> ORACLE"
    using orc[OF Cons.prems(1)] n by (auto simp: op_of_def)
  from eval_node[OF ok Cons.prems(1) ts(1-3) n Cons.prems(2) v0 Cons.prems(3) this]
  obtain v1 where v1: "foldE exec v (node_clauses c ts xs m) = Inr v1" "rows_ok result c ts (xs @ [m]) v1" "length v1 = length v"
    "\<forall>i \<le> length ts - Suc (length xs). v1 ! i = v0 ! i" by blast
  have "rev (node_clauses c ts xs m) = node_clauses c ts xs m"
    using n by (simp add: node_clauses_def)
  with Cons.IH[of "xs @ [m]" v1] v1 Cons.prems(1) show ?case by (auto simp: foldE_append)
qed simp

end

lemma clause_value_unary: "args op = 1 \<Longrightarrow> clause_value lib op a b = clause_value lib op a b'"
  by (cases op) (simp_all add: args_def clause_value_def)

lemma apply_clause_value: "operates op \<Longrightarrow> args op \<noteq> 0 \<Longrightarrow> clause_value lib op a b = Inr (apply_clause lib op a b)"
  using clause_value_operates[of op lib a b] by (auto simp: apply_clause_def)

interpretation point: tape_algebra "eval_clause lib oracle_value" "clause_value lib" oracle_value "eval_expr lib env"
  for lib oracle_value env
proof
  show "eval_clause lib oracle_value v k = (if k_op k = ORACLE then Inr (v[k_id k := oracle_value (k_a k)])
      else bindE (clause_value lib (k_op k) (v ! k_a k) (v ! k_b k)) (\<lambda>x. Inr (v[k_id k := x])))" for v k
    by (simp add: eval_clause_def)
  show "clause_value lib op (eval_expr lib env l) (eval_expr lib env r) = Inr (eval_expr lib env (Apply op l r))"
    if "operates op" "args op \<noteq> 0" for op l r
    using that by (auto simp: apply_clause_value args_def)
qed (rule clause_value_unary)

end
