(* ===== verification/DeckProps.thy ===== *)
theory DeckProps
  imports DeckValue
begin

text \<open>
  The deck of a tree, from its constructor to the value of a point: the array the evaluator starts
  from holds the leaves of the tree, so that the walk over the base tape computes it.
\<close>

section \<open>Filling the array\<close>

definition fill :: "('a \<Rightarrow> 'b) \<Rightarrow> 'b list \<Rightarrow> (nat \<times> 'a) list \<Rightarrow> 'b list" where
  "fill g v kvs = foldl (\<lambda>v (i, x). v[i := g x]) v kvs"

lemma length_fill [simp]: "length (fill g v kvs) = length v"
  unfolding fill_def by (induction kvs arbitrary: v) auto

lemma fill_other: "j \<notin> fst ` set kvs \<Longrightarrow> fill g v kvs ! j = v ! j"
  unfolding fill_def by (induction kvs arbitrary: v) auto

lemma fill_at: "distinct (map fst kvs) \<Longrightarrow> (j, x) \<in> set kvs \<Longrightarrow> j < length v \<Longrightarrow> fill g v kvs ! j = g x"
proof (induction kvs arbitrary: v)
  case (Cons kv kvs)
  show ?case
  proof (cases "(j, x) = kv")
    case True
    then have "j \<notin> fst ` set kvs" using Cons.prems(1) unfolding True[symmetric] by simp
    from fill_other[OF this, of g "v[j := g x]"] Cons.prems(3) show ?thesis
      unfolding True[symmetric] fill_def by simp
  next
    case False
    with Cons.prems have "(j, x) \<in> set kvs" by auto
    with Cons.IH[of "v[fst kv := g (snd kv)]"] Cons.prems show ?thesis by (simp add: fill_def split_beta)
  qed
qed simp

lemma ArrayEvaluator_fill:
  "ArrayEvaluator d vars =
     fill id (fill (\<lambda>t. case vars t of Some x \<Rightarrow> x | None \<Rightarrow> 0) (replicate (d_num_clauses d + 1) 0) (d_vars d)) (d_constants d)"
  by (simp add: ArrayEvaluator_def fill_def Let_def)

lemma distinct_rows:
  assumes "distinct ts" "0 \<notin> set ts"
  shows "distinct (map fst (map (\<lambda>t. (row_of ts t, f t)) (filter P ts)))"
proof -
  have "inj_on (row_of ts) (set ts)"
    using assms(2) row_of_inj by (intro inj_onI) metis
  then show ?thesis using assms(1) by (simp add: comp_def distinct_map inj_on_subset[of _ "set ts"])
qed

section \<open>The rows of the axes\<close>

lemma axis_row_keeps: "map_of clauses t = Some r \<Longrightarrow> map_of (axis_row clauses a) t = Some r"
  by (auto simp: axis_row_def)

lemma axis_row_new: "\<exists>r. map_of (axis_row clauses a) a = Some r \<and> (map_of clauses a = Some r \<or> r = length clauses \<and> map_of clauses a = None)
   \<and> length clauses \<le> length (axis_row clauses a)"
  by (cases "map_of clauses a") (auto simp: axis_row_def)

lemma axis_row_bounded:
  "\<forall>t r. map_of clauses t = Some r \<longrightarrow> r < length clauses \<Longrightarrow> map_of (axis_row clauses a) t = Some r \<Longrightarrow> r < length (axis_row clauses a)"
  by (fastforce simp: axis_row_def split: if_splits)

text \<open>Every row is in the array, and distinct nodes have distinct rows.\<close>

definition rows_distinct :: "(nat \<times> nat) list \<Rightarrow> bool" where
  "rows_distinct clauses \<longleftrightarrow> (\<forall>t r. map_of clauses t = Some r \<longrightarrow> r < length clauses)
     \<and> (\<forall>t u r. map_of clauses t = Some r \<longrightarrow> map_of clauses u = Some r \<longrightarrow> t = u)"

lemma rows_distinct_axis:
  assumes "rows_distinct clauses"
  shows "rows_distinct (axis_row clauses a)"
proof (cases "map_of clauses a")
  case (Some r)
  with assms show ?thesis by (simp add: axis_row_def)
next
  case None
  have below: "map_of clauses t = Some r \<Longrightarrow> r < length clauses" for t r
    using assms by (simp add: rows_distinct_def)
  have inj: "map_of clauses t = Some r \<Longrightarrow> map_of clauses u = Some r \<Longrightarrow> t = u" for t u r
    using assms unfolding rows_distinct_def by blast
  have eq: "map_of (axis_row clauses a) t = (if t = a then Some (length clauses) else map_of clauses t)"
    "length (axis_row clauses a) = Suc (length clauses)" for t
    by (auto simp: axis_row_def None)
  show ?thesis unfolding rows_distinct_def eq
  proof (intro conjI allI impI)
    fix t r assume "(if t = a then Some (length clauses) else map_of clauses t) = Some r"
    then show "r < Suc (length clauses)" using below[of t r] by (auto split: if_splits)
  next
    fix t u r
    assume "(if t = a then Some (length clauses) else map_of clauses t) = Some r"
      "(if u = a then Some (length clauses) else map_of clauses u) = Some r"
    then show "t = u" using inj[of t r u] below[of t r] below[of u r] by (auto split: if_splits)
  qed
qed

lemma flat_rows_distinct:
  assumes "flat_ok c ts ts s" "distinct ts" "0 \<notin> set ts"
  shows "rows_distinct (f_clauses s)"
proof -
  have m: "map_of (f_clauses s) t = (if t = 0 \<or> t \<in> set ts then Some (row_of ts t) else None)"
    "length (f_clauses s) = Suc (length ts)" for t
    using assms(1) by (simp_all add: flat_ok_def)
  have 0: "row_of ts 0 = 0" by (simp add: row_of_def)
  have pos: "t \<in> set ts \<Longrightarrow> 0 < row_of ts t \<and> row_of ts t \<le> length ts" for t
    using row_of_pos[of t ts] assms(3) by metis
  show ?thesis unfolding rows_distinct_def m
  proof (intro conjI allI impI)
    fix t r assume "(if t = 0 \<or> t \<in> set ts then Some (row_of ts t) else None) = Some r"
    then show "r < Suc (length ts)" using pos[of t] 0 by (auto split: if_splits)
  next
    fix t u r
    assume "(if t = 0 \<or> t \<in> set ts then Some (row_of ts t) else None) = Some r"
      "(if u = 0 \<or> u \<in> set ts then Some (row_of ts u) else None) = Some r"
    then have r: "t = 0 \<or> t \<in> set ts" "u = 0 \<or> u \<in> set ts" "row_of ts t = row_of ts u" by (auto split: if_splits)
    show "t = u"
    proof (cases "t = 0 \<or> u = 0")
      case True
      with r pos[of t] pos[of u] 0 show ?thesis by auto
    next
      case False
      with r row_of_inj[of t ts u] show ?thesis by simp
    qed
  qed
qed

definition makes_axes :: "build \<Rightarrow> bool" where
  "makes_axes opn \<longleftrightarrow> (\<forall>c op. op = VAR_X \<or> op = VAR_Y \<or> op = VAR_Z \<longrightarrow> store_ok c \<longrightarrow>
     (\<exists>p c'. opn op 0 0 c = Inr (p, c') \<and> store_ok c' \<and> extends c c' \<and> live c' p \<and> tree_of c' p = Apply op Null Null))"

lemma operation_makes_axes:
  assumes "fresh_addresses alloc"
  shows "makes_axes (operation lib alloc (Suc fuel) True)"
  unfolding makes_axes_def
proof (intro allI impI)
  fix c op assume op: "op = VAR_X \<or> op = VAR_Y \<or> op = VAR_Z" and ok: "store_ok c"
  have o: "operates op" "\<not> isCommutative op" "op \<noteq> OP_SUB" "args_ok c op 0 0" "\<not> all_constant c 0 0"
    using op by (auto simp: operates_def isCommutative_def args_def args_leaf all_constant_def)
  have id: "checkIdentity (operation lib alloc fuel True) op 0 0 c = Inr (0, c)"
    using op by (auto simp: checkIdentity_def deref_opt_def)
  have "operation lib alloc (Suc fuel) True op 0 0 c = find_or_make lib alloc op 0 0 c"
    using operation_without_rewriting[OF o(1-3) id] by simp
  with find_or_make_tree[OF ok assms o(1,4), of lib] o(5) tree_of_0[OF ok]
  show "\<exists>p c'. operation lib alloc (Suc fuel) True op 0 0 c = Inr (p, c') \<and> store_ok c' \<and> extends c c' \<and> live c' p
     \<and> tree_of c' p = Apply op Null Null" by auto
qed

section \<open>The deck\<close>

text \<open>What the constructor returns, with the list it was flattened from and the axes.\<close>

definition deck_made :: "cache \<Rightarrow> nat \<Rightarrow> nat list \<Rightarrow> deck \<Rightarrow> cache \<Rightarrow> (nat \<times> nat) list \<Rightarrow> nat \<Rightarrow> nat \<Rightarrow> nat \<Rightarrow> bool" where
  "deck_made c root ts d c' clauses x y z \<longleftrightarrow>
     distinct ts \<and> set ts = {q. below c root q} \<and> 0 \<notin> set ts \<and> child_first c ts \<and> (\<forall>t \<in> set ts. live c t)
     \<and> row_of ts root = 1 \<and> root \<in> set ts
     \<and> store_ok c' \<and> extends c c' \<and> live c' x \<and> live c' y \<and> live c' z
     \<and> tree_of c' x = Apply VAR_X Null Null \<and> tree_of c' y = Apply VAR_Y Null Null \<and> tree_of c' z = Apply VAR_Z Null Null
     \<and> rows_distinct clauses \<and> map_of clauses 0 = Some 0 \<and> (\<forall>t \<in> set ts. map_of clauses t = Some (row_of ts t))
     \<and> length ts < length clauses
     \<and> map_of clauses x = Some (d_X d) \<and> map_of clauses y = Some (d_Y d) \<and> map_of clauses z = Some (d_Z d)
     \<and> d_num_clauses d + 1 = length clauses
     \<and> d_constants d = constant_rows c ts ts \<and> d_vars d = var_rows c ts ts \<and> d_oracles d = oracle_list c ts
     \<and> tp_clauses (d_tape d) = tape_of c ts [] ts \<and> tp_root (d_tape d) = 1 \<and> tp_parent (d_tape d) = None
     \<and> \<not> tp_terminal (d_tape d) \<and> length (tp_contexts (d_tape d)) = length (d_oracles d)"

lemma Deck_made:
  assumes ok: "store_ok c" and root: "live c root" and opn: "makes_axes opn"
  shows "\<exists>d c' ts clauses x y z. Deck opn root c = Inr (d, c') \<and> deck_made c root ts d c' clauses x y z"
proof -
  obtain ts xs where o: "ordered root c = Inr ts" "distinct ts" "set ts = {q. below c root q}" "child_first c ts" "ts = xs @ [root]"
    using ordered_result[OF ok root] by blast
  have live: "\<forall>t \<in> set ts. live c t" using below_live[OF ok _ root] o(3) by blast
  then have 0: "0 \<notin> set ts" by (auto simp: live_def)
  let ?s0 = "\<lparr>f_clauses = [(0, 0)], f_id = length ts, f_tape = [], f_constants = [], f_vars = [], f_oracles = []\<rparr>"
  have "flat_ok c ts [] ?s0" by (simp add: flat_ok_def constant_rows_def var_rows_def oracle_list_def row_of_def)
  from flatten_all[OF ok o(2) 0 o(4) live _ this, of ts]
  obtain s where s: "foldE (flatten_node c) ?s0 ts = Inr s" "flat_ok c ts ts s" "f_tape s = tape_of c ts [] ts" by auto
  obtain x c1 where x: "opn VAR_X 0 0 c = Inr (x, c1)" "store_ok c1" "extends c c1" "live c1 x" "tree_of c1 x = Apply VAR_X Null Null"
    using opn ok unfolding makes_axes_def by blast
  obtain y c2 where y: "opn VAR_Y 0 0 c1 = Inr (y, c2)" "store_ok c2" "extends c1 c2" "live c2 y" "tree_of c2 y = Apply VAR_Y Null Null"
    using opn x(2) unfolding makes_axes_def by blast
  obtain z c3 where z: "opn VAR_Z 0 0 c2 = Inr (z, c3)" "store_ok c3" "extends c2 c3" "live c3 z" "tree_of c3 z = Apply VAR_Z Null Null"
    using opn y(2) unfolding makes_axes_def by blast
  have ext: "extends c1 c3" "extends c c3" using extends_trans x(3) y(3) z(3) by blast+
  have ax: "live c3 x" "live c3 y" "tree_of c3 x = Apply VAR_X Null Null" "tree_of c3 y = Apply VAR_Y Null Null"
    using live_extends[OF ext(1) x(4)] live_extends[OF z(3) y(4)] tree_of_extends[OF x(2) z(2) ext(1) x(4)]
      tree_of_extends[OF y(2) z(2,3) y(4)] x(5) y(5) by simp_all
  let ?c1 = "axis_row (f_clauses s) x" let ?c2 = "axis_row ?c1 y" let ?cl = "axis_row ?c2 z"
  have f: "map_of (f_clauses s) t = (if t = 0 \<or> t \<in> set ts then Some (row_of ts t) else None)"
    "length (f_clauses s) = Suc (length ts)" "f_id s = 0" for t
    using s(2) by (simp_all add: flat_ok_def)
  have keep: "map_of ?cl t = Some r" if "map_of (f_clauses s) t = Some r" for t r
    using that by (simp add: axis_row_keeps)
  have new: "map_of ?cl a \<noteq> None" if "a = x \<or> a = y \<or> a = z" for a
    using that axis_row_new[of "f_clauses s" x] axis_row_new[of ?c1 y] axis_row_new[of ?c2 z] axis_row_keeps by fastforce
  have len: "length ts < length ?cl"
    using f(2) axis_row_new[of "f_clauses s" x] axis_row_new[of ?c1 y] axis_row_new[of ?c2 z] by linarith
  have root1: "row_of ts root = 1" "root \<in> set ts"
    using row_of_at[of xs root "[]"] o(2,5) root by (auto simp: live_def)
  then have rootc: "map_of ?cl root = Some 1" using keep f(1) by simp
  let ?d = "\<lparr>d_constants = f_constants s, d_vars = f_vars s, d_oracles = f_oracles s, d_num_clauses = length ?cl - 1,
    d_X = the (map_of ?cl x), d_Y = the (map_of ?cl y), d_Z = the (map_of ?cl z),
    d_tape = Tape (f_tape s) 1 (replicate (length (f_oracles s)) 0) BASE False None (0, 0) (0, 0) (0, 0)\<rparr>"
  have "Deck opn root c = Inr (?d, c3)"
    using o(1) s(1) f(3) x(1) y(1) z(1) rootc by (simp add: Deck_def Let_def)
  moreover have "deck_made c root ts ?d c3 ?cl x y z"
    unfolding deck_made_def using o(2,3,4) 0 live root1 z ext(2) ax rows_distinct_axis flat_rows_distinct[OF s(2) o(2) 0]
      keep f new len s(2,3) by (auto simp: flat_ok_def row_of_def)
  ultimately show ?thesis by blast
qed

section \<open>The value of a point\<close>

definition env_of :: "cache \<Rightarrow> (nat \<Rightarrow> f32 option) \<Rightarrow> (nat \<Rightarrow> f32) \<Rightarrow> f32 \<Rightarrow> f32 \<Rightarrow> f32 \<Rightarrow> env" where
  "env_of c vars ov x y z =
     \<lparr>e_x = x, e_y = y, e_z = z, e_var = (\<lambda>t. case vars t of Some v \<Rightarrow> v | None \<Rightarrow> 0),
      e_oracle = (\<lambda>t. ov (oracle_of c t))\<rparr>"

lemma axis_rows_differ:
  assumes "deck_made c root ts d c' clauses x y z"
  shows "d_X d \<noteq> d_Y d \<and> d_X d \<noteq> d_Z d \<and> d_Y d \<noteq> d_Z d"
    "d_X d < length clauses \<and> d_Y d < length clauses \<and> d_Z d < length clauses"
    "0 < d_X d \<and> 0 < d_Y d \<and> 0 < d_Z d"
proof -
  have rd: "map_of clauses t = Some r \<Longrightarrow> map_of clauses u = Some r \<Longrightarrow> t = u"
    "map_of clauses t = Some r \<Longrightarrow> r < length clauses" for t u r
    using assms unfolding deck_made_def rows_distinct_def by blast+
  have m: "map_of clauses x = Some (d_X d)" "map_of clauses y = Some (d_Y d)" "map_of clauses z = Some (d_Z d)" "map_of clauses 0 = Some 0"
    using assms by (simp_all add: deck_made_def)
  have ne: "x \<noteq> y" "x \<noteq> z" "y \<noteq> z" "x \<noteq> 0" "y \<noteq> 0" "z \<noteq> 0"
    using assms by (auto simp: deck_made_def live_def)
  show "d_X d \<noteq> d_Y d \<and> d_X d \<noteq> d_Z d \<and> d_Y d \<noteq> d_Z d" using rd(1) m ne by metis
  show "d_X d < length clauses \<and> d_Y d < length clauses \<and> d_Z d < length clauses" using rd(2) m by blast
  show "0 < d_X d \<and> 0 < d_Y d \<and> 0 < d_Z d" using rd(1) m ne by (metis gr0I)
qed

lemma start_row:
  assumes ok: "store_ok c" and dm: "deck_made c root ts d c' clauses x y z"
    and t: "t \<in> set ts" "node_at c t = Some n" "t_rank n = 0" "t_op n \<noteq> ORACLE"
  shows "set_point d px py pz (ArrayEvaluator d vars) ! row_of ts t
    = eval_expr lib (env_of c vars ov px py pz) (tree_of c t)"
proof -
  let ?v1 = "fill (\<lambda>t. case vars t of Some x \<Rightarrow> x | None \<Rightarrow> 0) (replicate (d_num_clauses d + 1) 0) (d_vars d)"
  let ?r = "row_of ts t"
  note D = dm[unfolded deck_made_def] and ax = axis_rows_differ[OF dm]
  have dist: "distinct ts" "0 \<notin> set ts" using D by blast+
  have con: "d_constants d = map (\<lambda>t. (row_of ts t, value_of c t)) (filter (\<lambda>t. op_of c t = CONSTANT) ts)"
    and var: "d_vars d = map (\<lambda>t. (row_of ts t, t)) (filter (\<lambda>t. op_of c t = VAR_FREE) ts)"
    and len: "length clauses = d_num_clauses d + 1"
    using D by (simp_all add: constant_rows_def var_rows_def)
  have rt: "map_of clauses t = Some ?r" "?r < length clauses" using D t(1) unfolding rows_distinct_def by blast+
  have same: "t = a" if "map_of clauses a = Some ?r" for a
    using D rt(1) that unfolding rows_distinct_def by blast
  have row: "u = t" if "u \<in> set ts" "row_of ts u = ?r" for u
    using row_of_inj[OF that(1) t(1)] that t(1) dist(2) by metis
  have tree: "tree_of c' t = tree_of c t"
    using tree_of_extends[OF ok] D t(1) by blast
  have opt: "op_of c t = t_op n" using t(2) by (simp add: op_of_def)
  have off: "set_point d px py pz (ArrayEvaluator d vars) ! ?r = ArrayEvaluator d vars ! ?r"
    if "t_op n = CONSTANT \<or> t_op n = VAR_FREE"
  proof -
    have "tree_of c' t \<noteq> Apply op Null Null" for op
      using that tree_of_node[OF ok t(2)] tree by auto
    then have "t \<noteq> x" "t \<noteq> y" "t \<noteq> z" using D by metis+
    then have "?r \<noteq> d_X d" "?r \<noteq> d_Y d" "?r \<noteq> d_Z d" using same D by metis+
    then show ?thesis by (simp add: set_point_def)
  qed
  have axis: "a = t" if "live c' a" "tree_of c' a = tree_of c t" for a
    using tree_of_inj[of c' a t] that tree D t(1) live_extends by metis
  have arr: "length (ArrayEvaluator d vars) = length clauses" by (simp add: ArrayEvaluator_fill len)
  have leaf: "tree_of c t = Apply (t_op n) Null Null" if "t_op n \<in> {VAR_X, VAR_Y, VAR_Z}"
    using that t(3) rank_zero_leaf(1)[OF ok t(2)] node_args[OF ok t(2)] tree_of_0[OF ok]
    by (auto simp: tree_of_node[OF ok t(2)] args_ok_def arity_ok_def)
  consider "t_op n = CONSTANT" | "t_op n = VAR_FREE" | "t_op n = VAR_X" | "t_op n = VAR_Y" | "t_op n = VAR_Z"
    using rank_zero_leaf(2)[OF ok t(2,3)] t(4) by auto
  then show ?thesis
  proof cases
    case 1
    have "(?r, t_value n) \<in> set (d_constants d)" using 1 t(1,2) opt by (auto simp: con value_of_def intro!: image_eqI[of _ _ t])
    then have "fill id ?v1 (d_constants d) ! ?r = t_value n"
      using fill_at[of "d_constants d" ?r "t_value n" ?v1 id] distinct_rows[OF dist, of "value_of c"] rt(2) len by (simp add: con)
    with off 1 show ?thesis by (simp add: ArrayEvaluator_fill tree_of_node[OF ok t(2)])
  next
    case 2
    have "(?r, t) \<in> set (d_vars d)" using 2 t(1) opt by (auto simp: var)
    then have "?v1 ! ?r = (case vars t of Some x \<Rightarrow> x | None \<Rightarrow> 0)"
      using fill_at[of "d_vars d" ?r t "replicate (d_num_clauses d + 1) (0::f32)" "\<lambda>t. case vars t of Some x \<Rightarrow> x | None \<Rightarrow> 0"] distinct_rows[OF dist, of "\<lambda>t. t"] rt(2) len by (simp add: var)
    moreover have "?r \<notin> fst ` set (d_constants d)" using 2 opt row by (force simp: con)
    ultimately have "ArrayEvaluator d vars ! ?r = (case vars t of Some x \<Rightarrow> x | None \<Rightarrow> 0)"
      by (simp add: ArrayEvaluator_fill fill_other)
    with off 2 show ?thesis by (simp add: tree_of_node[OF ok t(2)] env_of_def)
  next
    case 3
    then have "x = t" using axis[of x] leaf D by auto
    with rt D have "?r = d_X d" by simp
    with ax arr 3 leaf show ?thesis by (simp add: set_point_def env_of_def)
  next
    case 4
    then have "y = t" using axis[of y] leaf D by auto
    with rt D have "?r = d_Y d" by simp
    with ax arr 4 leaf show ?thesis by (simp add: set_point_def env_of_def)
  next
    case 5
    then have "z = t" using axis[of z] leaf D by auto
    with rt D have "?r = d_Z d" by simp
    with ax arr 5 leaf show ?thesis by (simp add: set_point_def env_of_def)
  qed
qed

text \<open>The index an oracle's clause uses is that of the oracle in the deck.\<close>

lemma oracle_index:
  assumes "ts = xs @ m # ys" "op_of c m = ORACLE"
  shows "oracle_list c ts ! length (oracle_list c xs) = oracle_of c m"
  using assms by (simp add: oracle_list_def nth_append)

lemma deck_rows:
  assumes ok: "store_ok c" and dm: "deck_made c root ts d c' clauses x y z"
  shows "\<exists>v. foldE (eval_clause lib (\<lambda>j. ov (d_oracles d ! j))) (set_point d px py pz (ArrayEvaluator d vars))
      (rev (tp_clauses (d_tape d))) = Inr v \<and> rows_ok (eval_expr lib (env_of c vars ov px py pz)) c ts ts v"
proof -
  let ?v0 = "set_point d px py pz (ArrayEvaluator d vars)" and ?env = "env_of c vars ov px py pz"
  note D = dm[unfolded deck_made_def]
  have rows: "rows_ok (eval_expr lib ?env) c ts [] ?v0"
    using D by (simp add: rows_ok_def set_point_def ArrayEvaluator_fill)
  have leaves: "leaves_ok (eval_expr lib ?env) c ts ?v0"
    using start_row[OF ok dm] unfolding leaves_ok_def by blast
  have orc: "eval_expr lib ?env (Oracle m) = ov (d_oracles d ! length (oracle_list c xs))"
    if "ts = xs @ m # ys" "op_of c m = ORACLE" for xs m ys
    using oracle_index[OF that] D by (simp add: env_of_def)
  have ts: "distinct ts" "0 \<notin> set ts" "child_first c ts" "\<forall>t \<in> set ts. live c t" using D by blast+
  show ?thesis
    using point.eval_all[of c ts lib ?env ?v0 "\<lambda>j. ov (d_oracles d ! j)" "[]" ts ?v0] ok ts leaves orc rows D by auto
qed

lemma deck_value:
  assumes ok: "store_ok c" and dm: "deck_made c root ts d c' clauses x y z"
  shows "\<exists>v. array_value lib (\<lambda>j. ov (d_oracles d ! j)) d (d_tape d) px py pz (ArrayEvaluator d vars)
      = Inr (eval_expr lib (env_of c vars ov px py pz) (tree_of c root), v)"
proof -
  obtain v where v: "foldE (eval_clause lib (\<lambda>j. ov (d_oracles d ! j))) (set_point d px py pz (ArrayEvaluator d vars))
      (rev (tp_clauses (d_tape d))) = Inr v" "rows_ok (eval_expr lib (env_of c vars ov px py pz)) c ts ts v"
    using deck_rows[OF assms] by blast
  have "v ! 1 = eval_expr lib (env_of c vars ov px py pz) (tree_of c root)"
    using v(2) dm unfolding rows_ok_def deck_made_def by metis
  with v(1) dm show ?thesis by (simp add: array_value_def eval_tape_def deck_made_def)
qed

end
