(* ===== verification/Libfive.thy ===== *)
theory Libfive
  imports DeckProps
begin

text \<open>
  The C entry points on trees (\<open>src/five/libfive.cpp\<close>). A handle is a pointer to a \<open>Tree\<close>: the
  null pointer is \<open>None\<close>, and otherwise the handle is given by the node its tree points at. The
  caller owns its handles: \<open>a_trees\<close> lists the nodes of those that are alive, with repetitions,
  and giving one back destroys the nodes that nothing holds any more.
\<close>

section \<open>Building and reading trees\<close>

type_synonym handle = "nat option"

definition the_tree :: "handle \<Rightarrow> fault + nat" where
  "the_tree h = (case h of None \<Rightarrow> Inl NullDeref | Some p \<Rightarrow> Inr p)"

definition new_handle :: "fault + nat \<times> cache \<Rightarrow> fault + handle \<times> cache" where
  "new_handle m = bindE m (\<lambda>(p, c). Inr (Some p, c))"

definition libfive_tree_x :: "libm \<Rightarrow> allocator \<Rightarrow> nat \<Rightarrow> cache \<Rightarrow> fault + handle \<times> cache" where
  "libfive_tree_x lib alloc fuel c = new_handle (Tree_operation lib alloc fuel VAR_X 0 0 c)"

definition libfive_tree_y :: "libm \<Rightarrow> allocator \<Rightarrow> nat \<Rightarrow> cache \<Rightarrow> fault + handle \<times> cache" where
  "libfive_tree_y lib alloc fuel c = new_handle (Tree_operation lib alloc fuel VAR_Y 0 0 c)"

definition libfive_tree_z :: "libm \<Rightarrow> allocator \<Rightarrow> nat \<Rightarrow> cache \<Rightarrow> fault + handle \<times> cache" where
  "libfive_tree_z lib alloc fuel c = new_handle (Tree_operation lib alloc fuel VAR_Z 0 0 c)"

definition libfive_tree_const :: "allocator \<Rightarrow> f32 \<Rightarrow> cache \<Rightarrow> fault + handle \<times> cache" where
  "libfive_tree_const alloc f c = new_handle (Inr (Tree_constant alloc f c))"

definition libfive_tree_var :: "allocator \<Rightarrow> cache \<Rightarrow> fault + handle \<times> cache" where
  "libfive_tree_var alloc c = new_handle (Inr (Tree_var alloc c))"

definition libfive_tree_is_var :: "handle \<Rightarrow> cache \<Rightarrow> fault + bool" where
  "libfive_tree_is_var h c =
     bindE (the_tree h) (\<lambda>t. bindE (deref c t) (\<lambda>n. Inr (t_op n = VAR_FREE)))"

text \<open>The second component is what the caller's flag is set to, when there is a flag.\<close>

definition libfive_tree_get_const :: "handle \<Rightarrow> cache \<Rightarrow> fault + f32 \<times> bool" where
  "libfive_tree_get_const h c =
     bindE (the_tree h) (\<lambda>t. bindE (deref c t) (\<lambda>n.
       Inr (if t_op n = CONSTANT then (t_value n, True) else (0, False))))"

definition libfive_tree_constant_vars :: "build \<Rightarrow> oracle_remap \<Rightarrow> handle \<Rightarrow> cache \<Rightarrow> fault + handle \<times> cache" where
  "libfive_tree_constant_vars opn orc h c = bindE (the_tree h) (\<lambda>t. new_handle (makeVarsConstant opn orc t c))"

definition libfive_tree_nonary :: "libm \<Rightarrow> allocator \<Rightarrow> nat \<Rightarrow> int \<Rightarrow> cache \<Rightarrow> fault + handle \<times> cache" where
  "libfive_tree_nonary lib alloc fuel op c =
     (if opcode_is_valid op 0 then new_handle (Tree_operation lib alloc fuel (opcode_of (nat op)) 0 0 c)
      else Inr (None, c))"

definition libfive_tree_unary ::
    "libm \<Rightarrow> allocator \<Rightarrow> nat \<Rightarrow> int \<Rightarrow> handle \<Rightarrow> cache \<Rightarrow> fault + handle \<times> cache" where
  "libfive_tree_unary lib alloc fuel op a c =
     (if opcode_is_valid op 1 \<and> a \<noteq> None
      then bindE (the_tree a) (\<lambda>p. new_handle (Tree_operation lib alloc fuel (opcode_of (nat op)) p 0 c))
      else Inr (None, c))"

definition libfive_tree_binary ::
    "libm \<Rightarrow> allocator \<Rightarrow> nat \<Rightarrow> int \<Rightarrow> handle \<Rightarrow> handle \<Rightarrow> cache \<Rightarrow> fault + handle \<times> cache" where
  "libfive_tree_binary lib alloc fuel op a b c =
     (if opcode_is_valid op 2 \<and> a \<noteq> None \<and> b \<noteq> None
      then bindE (the_tree a) (\<lambda>p. bindE (the_tree b) (\<lambda>q.
             new_handle (Tree_operation lib alloc fuel (opcode_of (nat op)) p q c)))
      else Inr (None, c))"

definition libfive_tree_id :: "handle \<Rightarrow> fault + nat" where
  "libfive_tree_id h = the_tree h"

definition libfive_tree_remap ::
    "build \<Rightarrow> oracle_remap \<Rightarrow> handle \<Rightarrow> handle \<Rightarrow> handle \<Rightarrow> handle \<Rightarrow> cache \<Rightarrow> fault + handle \<times> cache" where
  "libfive_tree_remap opn orc h x y z c =
     bindE (the_tree h) (\<lambda>t. bindE (the_tree x) (\<lambda>x. bindE (the_tree y) (\<lambda>y. bindE (the_tree z) (\<lambda>z.
       new_handle (remap_axes opn orc t x y z c)))))"

definition libfive_tree_eval_f ::
    "libm \<Rightarrow> build \<Rightarrow> (nat \<Rightarrow> f32) \<Rightarrow> handle \<Rightarrow> f32 \<Rightarrow> f32 \<Rightarrow> f32 \<Rightarrow> cache \<Rightarrow> fault + f32 \<times> cache" where
  "libfive_tree_eval_f lib opn oracle_value h px py pz c =
     bindE (the_tree h) (\<lambda>t.
     bindE (Deck opn t c) (\<lambda>(d, c).
     bindE (array_value lib (\<lambda>j. oracle_value (d_oracles d ! j)) d (d_tape d) px py pz (ArrayEvaluator d (\<lambda>_. None)))
       (\<lambda>(out, _). Inr (out, c))))"

definition libfive_tree_eq :: "handle \<Rightarrow> handle \<Rightarrow> fault + bool" where
  "libfive_tree_eq a b = bindE (the_tree a) (\<lambda>p. bindE (the_tree b) (\<lambda>q. Inr (p = q)))"

definition libfive_tree_print ::
    "(f32 \<Rightarrow> string) \<Rightarrow> (nat \<Rightarrow> string) \<Rightarrow> handle \<Rightarrow> cache \<Rightarrow> fault + string" where
  "libfive_tree_print show_float oracle_name h c =
     bindE (the_tree h) (\<lambda>t. bindE (deref c t) (\<lambda>n.
       print_tree show_float oracle_name (Suc (t_rank n)) c INVALID t))"

section \<open>Giving a tree back\<close>

text \<open>
  A reference to node \<open>p\<close> is dropped. When it was the last one the node is destroyed: its
  destructor takes it out of the store, and then its members go, the right argument before the
  left one, which holds its node until its turn comes.
\<close>

fun release :: "nat \<Rightarrow> (nat \<Rightarrow> bool) \<Rightarrow> nat \<Rightarrow> cache \<Rightarrow> fault + cache" where
  "release 0 held p c = Inl OutOfFuel"
| "release (Suc fuel) held p c =
     (if p = 0 \<or> held p \<or> referenced c p then Inr c
      else bindE (deref c p) (\<lambda>n.
           bindE (tree_destructor p c) (\<lambda>c.
           bindE (release fuel (\<lambda>q. held q \<or> q = t_lhs n) (t_rhs n) c) (\<lambda>c.
             release fuel held (t_lhs n) c))))"

record api =
  a_trees :: "nat list"
  a_cache :: cache

definition libfive_tree_delete :: "handle \<Rightarrow> api \<Rightarrow> fault + api" where
  "libfive_tree_delete h s =
     (case h of
        None \<Rightarrow> Inr s
      | Some p \<Rightarrow>
          let ts = remove1 p (a_trees s) in
          bindE (release (Suc (length (c_nodes (a_cache s)))) (\<lambda>q. q \<in> set ts) p (a_cache s)) (\<lambda>c.
            Inr \<lparr>a_trees = ts, a_cache = c\<rparr>))"

section \<open>The client\<close>

definition empty_cache :: cache where
  "empty_cache = \<lparr>c_nodes = [], c_ops = (\<lambda>_. None), c_constants = (\<lambda>_. None), c_nan = 0\<rparr>"

text \<open>A call that returns a handle adds it to those of the caller.\<close>

definition received :: "api \<Rightarrow> handle \<times> cache \<Rightarrow> api" where
  "received s r = (case fst r of
     None \<Rightarrow> s\<lparr>a_cache := snd r\<rparr> | Some p \<Rightarrow> \<lparr>a_trees = p # a_trees s, a_cache = snd r\<rparr>)"

definition owned :: "api \<Rightarrow> handle \<Rightarrow> bool" where
  "owned s h \<longleftrightarrow> (case h of None \<Rightarrow> True | Some p \<Rightarrow> p \<in> set (a_trees s))"

datatype call = Const f32 | Var | Nonary int | Unary int handle | Binary int handle handle | Delete handle

definition call :: "libm \<Rightarrow> allocator \<Rightarrow> nat \<Rightarrow> call \<Rightarrow> api \<Rightarrow> fault + api" where
  "call lib alloc fuel k s = (case k of
     Const v \<Rightarrow> bindE (libfive_tree_const alloc v (a_cache s)) (\<lambda>r. Inr (received s r))
   | Var \<Rightarrow> bindE (libfive_tree_var alloc (a_cache s)) (\<lambda>r. Inr (received s r))
   | Nonary op \<Rightarrow> bindE (libfive_tree_nonary lib alloc fuel op (a_cache s)) (\<lambda>r. Inr (received s r))
   | Unary op a \<Rightarrow> bindE (libfive_tree_unary lib alloc fuel op a (a_cache s)) (\<lambda>r. Inr (received s r))
   | Binary op a b \<Rightarrow> bindE (libfive_tree_binary lib alloc fuel op a b (a_cache s)) (\<lambda>r. Inr (received s r))
   | Delete h \<Rightarrow> libfive_tree_delete h s)"

text \<open>What the caller may do: use the handles it owns, and not ask for a leaf that has no node of
  its own kind by its opcode (a free variable, a constant or an oracle has another entry point).\<close>

definition call_ok :: "call \<Rightarrow> api \<Rightarrow> bool" where
  "call_ok k s = (case k of
     Nonary op \<Rightarrow> op \<notin> int ` opcode_number ` {CONSTANT, VAR_FREE, ORACLE}
   | Unary op a \<Rightarrow> owned s a
   | Binary op a b \<Rightarrow> owned s a \<and> owned s b
   | Delete h \<Rightarrow> owned s h
   | _ \<Rightarrow> True)"

inductive api_step :: "libm \<Rightarrow> allocator \<Rightarrow> api \<Rightarrow> api \<Rightarrow> bool" for lib alloc where
  "call_ok k s \<Longrightarrow> call lib alloc fuel k s = Inr s' \<Longrightarrow> api_step lib alloc s s'"

inductive api_reachable :: "libm \<Rightarrow> allocator \<Rightarrow> api \<Rightarrow> bool" for lib alloc where
  api_start: "api_reachable lib alloc \<lparr>a_trees = [], a_cache = empty_cache\<rparr>"
| api_next: "api_reachable lib alloc s \<Longrightarrow> api_step lib alloc s s' \<Longrightarrow> api_reachable lib alloc s'"

definition api_ok :: "api \<Rightarrow> bool" where
  "api_ok s \<longleftrightarrow> store_ok (a_cache s) \<and> (\<forall>p \<in> set (a_trees s). live (a_cache s) p)"

lemma empty_cache_ok [simp]: "store_ok empty_cache"
  by (simp add: store_ok_def ops_ok_def constants_ok_def empty_cache_def)

end
