(* ===== verification/Archive.thy ===== *)
theory Archive
  imports Libfive Bitsery
begin

text \<open>
  Archives of trees (\<open>src/five/tree/archive.cpp\<close>, \<open>serializer.cpp\<close>, \<open>deserializer.cpp\<close> and their
  headers): shapes, each a tree with a name, a text and names for some of its variables, are written
  to a stream of bytes and read back. Numbers are written as they lie in memory, least significant
  byte first. What an oracle writes of itself, the trees it depends on and what its reader makes of
  the bytes are parameters.
\<close>

section \<open>Shapes\<close>

record shape =
  s_tree :: nat
  s_name :: string
  s_doc :: string
  s_vars :: "(nat \<times> string) list"

type_synonym archive = "shape list"

definition addShape :: "nat \<Rightarrow> string \<Rightarrow> string \<Rightarrow> (nat \<times> string) list \<Rightarrow> archive \<Rightarrow> archive" where
  "addShape tree nm doc vars shapes = shapes @ [\<lparr>s_tree = tree, s_name = nm, s_doc = doc, s_vars = vars\<rparr>]"

definition END_OF_ITEM :: "8 word" where
  "END_OF_ITEM = 0xFF"

record oracle_io =
  io_name :: "nat \<Rightarrow> string"
  io_deps :: "nat \<Rightarrow> nat list"
  io_write :: "nat \<Rightarrow> (nat \<times> nat) list \<Rightarrow> bytes"
  io_read :: "string \<Rightarrow> bytes \<Rightarrow> nat option \<times> bytes"

section \<open>Writing\<close>

text \<open>The stream and the numbers of the nodes that are in it.\<close>

record serializer =
  z_out :: bytes
  z_ids :: "(nat \<times> nat) list"

definition put_bytes :: "bytes \<Rightarrow> serializer \<Rightarrow> serializer" where
  "put_bytes bs z = z\<lparr>z_out := z_out z @ bs\<rparr>"

definition byte_of :: "char \<Rightarrow> 8 word" where
  "byte_of ch = word_of_nat (of_char ch)"

definition escaped :: "char \<Rightarrow> bytes" where
  "escaped ch = (if ch = CHR 0x22 \<or> ch = CHR 0x5C then [0x5C, byte_of ch] else [byte_of ch])"

definition serializeString :: "string \<Rightarrow> serializer \<Rightarrow> serializer" where
  "serializeString s z = put_bytes (0x22 # concat (map escaped s) @ [0x22]) z"

definition number_of :: "serializer \<Rightarrow> nat \<Rightarrow> fault + nat" where
  "number_of z t = (case map_of (z_ids z) t of None \<Rightarrow> Inl OutOfRange | Some i \<Rightarrow> Inr i)"

text \<open>The numbers of the arguments, the right one before the left one.\<close>

definition serialize_args :: "tnode \<Rightarrow> serializer \<Rightarrow> fault + serializer" where
  "serialize_args n z =
     bindE (if args (t_op n) = 2 then bindE (number_of z (t_rhs n)) (\<lambda>i. Inr (put_bytes (le_bytes 4 i) z)) else Inr z) (\<lambda>z.
       if args (t_op n) = 2 \<or> args (t_op n) = 1
       then bindE (number_of z (t_lhs n)) (\<lambda>i. Inr (put_bytes (le_bytes 4 i) z)) else Inr z)"

definition serialize_node ::
    "oracle_io \<Rightarrow> (serializer \<Rightarrow> nat \<Rightarrow> fault + serializer) \<Rightarrow> cache \<Rightarrow> serializer \<Rightarrow> nat \<Rightarrow> fault + serializer" where
  "serialize_node io dependency c z t =
     (if map_of (z_ids z) t \<noteq> None then Inr z
      else bindE (deref c t) (\<lambda>n.
           bindE (if t_op n = ORACLE then
                    (if t_oracle n = 0 then Inl AssertFailed else foldE dependency z (io_deps io (t_oracle n)))
                  else Inr z) (\<lambda>z.
           let z = put_bytes [of_nat (opcode_number (t_op n))] z;
               z = z\<lparr>z_ids := (t, unat (word_of_nat (length (z_ids z)) :: 32 word)) # z_ids z\<rparr>;
               z = (if t_op n = CONSTANT then put_bytes (le_bytes 4 (unat (t_value n))) z
                    else if t_op n = ORACLE then
                      put_bytes (io_write io (t_oracle n) (z_ids z)) (serializeString (io_name io (t_oracle n)) z)
                    else z)
           in serialize_args n z)))"

text \<open>An oracle's dependencies are written before it: the fuel bounds how deeply oracles depend on
  each other, and one is enough for a tree without oracles.\<close>

fun serializeTree :: "oracle_io \<Rightarrow> nat \<Rightarrow> cache \<Rightarrow> serializer \<Rightarrow> nat \<Rightarrow> fault + serializer" where
  "serializeTree io 0 c z t = Inl OutOfFuel"
| "serializeTree io (Suc fuel) c z t =
     bindE (ordered t c) (\<lambda>ts. foldE (serialize_node io (serializeTree io fuel c) c) z ts)"

definition serialize_var :: "serializer \<Rightarrow> nat \<times> string \<Rightarrow> serializer" where
  "serialize_var z = (\<lambda>(t, nm). case map_of (z_ids z) t of
     None \<Rightarrow> z
   | Some i \<Rightarrow> put_bytes (le_bytes 4 i) (serializeString nm z))"

definition serializeShape :: "oracle_io \<Rightarrow> nat \<Rightarrow> cache \<Rightarrow> serializer \<Rightarrow> shape \<Rightarrow> fault + serializer" where
  "serializeShape io fuel c z s =
     (let already_stored = (map_of (z_ids z) (s_tree s) \<noteq> None);
          z = put_bytes [byte_of (if already_stored then CHR ''t'' else CHR ''T'')] z;
          z = serializeString (s_doc s) (serializeString (s_name s) z)
      in bindE (if already_stored then bindE (number_of z (s_tree s)) (\<lambda>i. Inr (put_bytes (le_bytes 4 i) z))
                else bindE (serializeTree io fuel c z (s_tree s)) (\<lambda>z. Inr (put_bytes [END_OF_ITEM] z))) (\<lambda>z.
           Inr (put_bytes [END_OF_ITEM] (foldl serialize_var z (s_vars s)))))"

definition serialize_archive :: "oracle_io \<Rightarrow> nat \<Rightarrow> cache \<Rightarrow> archive \<Rightarrow> fault + bytes" where
  "serialize_archive io fuel c shapes =
     bindE (foldE (serializeShape io fuel c) \<lparr>z_out = [], z_ids = []\<rparr> shapes) (\<lambda>z. Inr (z_out z))"

section \<open>Reading\<close>

text \<open>The rest of the stream, the flag that an attempt to read beyond it sets, and the trees read so
  far. The requirements of the reader only print a message when they do not hold.\<close>

record deserializer =
  r_in :: bytes
  r_eof :: bool
  r_trees :: "nat list"

definition in_get :: "deserializer \<Rightarrow> 8 word option \<times> deserializer" where
  "in_get r = (if r_eof r then (None, r)
     else case r_in r of [] \<Rightarrow> (None, r\<lparr>r_eof := True\<rparr>) | b # bs \<Rightarrow> (Some b, r\<lparr>r_in := bs\<rparr>))"

text \<open>A number that the stream does not have is not assigned.\<close>

definition deserializeBytes4 :: "deserializer \<Rightarrow> fault + nat \<times> deserializer" where
  "deserializeBytes4 r = (if r_eof r \<or> length (r_in r) < 4 then Inl Unassigned
     else Inr (le_value (take 4 (r_in r)), r\<lparr>r_in := drop 4 (r_in r)\<rparr>))"

definition char_of_byte :: "8 word \<Rightarrow> char" where
  "char_of_byte b = char_of (unat b)"

text \<open>The characters up to the closing quote; at the end of the stream the value \<open>-1\<close> of \<open>in.get()\<close>
  is taken for one more character.\<close>

fun string_loop :: "bytes \<Rightarrow> string \<times> bytes \<times> bool" where
  "string_loop [] = ([CHR 0xFF], [], True)"
| "string_loop (b # bs) =
     (if b = 0x22 then ([], bs, False)
      else if b = 0x5C then
        (case bs of [] \<Rightarrow> ([CHR 0xFF], [], True)
         | b' # bs' \<Rightarrow> (let (s, rest) = string_loop bs' in (char_of_byte b' # s, rest)))
      else let (s, rest) = string_loop bs in (char_of_byte b # s, rest))"

definition deserializeString :: "deserializer \<Rightarrow> string \<times> deserializer" where
  "deserializeString r =
     (if r_eof r then ([], r)
      else let (b, r) = in_get r in
        if b \<noteq> Some 0x22 then ([], r)
        else let (s, bs, e) = string_loop (r_in r) in (s, r\<lparr>r_in := bs, r_eof := e\<rparr>))"

definition tree_at :: "deserializer \<Rightarrow> nat \<Rightarrow> fault + nat" where
  "tree_at r i = (if i < length (r_trees r) then Inr (r_trees r ! i) else Inl OutOfRange)"

definition add_tree :: "deserializer \<Rightarrow> fault + nat \<times> cache \<Rightarrow> fault + deserializer \<times> cache" where
  "add_tree r m = bindE m (\<lambda>(t, c). Inr (r\<lparr>r_trees := r_trees r @ [t]\<rparr>, c))"

text \<open>One node; the flag is lowered when an oracle's reader gives up. The constructor of trees is
  \<open>mk\<close>.\<close>

definition deserialize_node ::
    "oracle_io \<Rightarrow> allocator \<Rightarrow> build \<Rightarrow> 8 word \<Rightarrow> deserializer \<Rightarrow> cache \<Rightarrow> fault + bool \<times> deserializer \<times> cache" where
  "deserialize_node io alloc mk b r c =
     (if 34 \<le> unat b then Inl AssertFailed
      else let op = opcode_of (unat b) in
        if op = ORACLE then
          let (nm, r) = deserializeString r; (clause, bs) = io_read io nm (r_in r); r = r\<lparr>r_in := bs\<rparr> in
          case clause of
            None \<Rightarrow> Inr (False, r, c)
          | Some k \<Rightarrow> bindE (add_tree r (Inr (Tree_oracle alloc k c))) (\<lambda>x. Inr (True, x))
        else
          bindE (if op = CONSTANT then
                   bindE (deserializeBytes4 r) (\<lambda>(v, r). add_tree r (Inr (Tree_constant alloc (of_nat v) c)))
                 else if args op = 2 then
                   bindE (deserializeBytes4 r) (\<lambda>(rhs, r).
                   bindE (deserializeBytes4 r) (\<lambda>(lhs, r).
                   bindE (tree_at r lhs) (\<lambda>x. bindE (tree_at r rhs) (\<lambda>y. add_tree r (mk op x y c)))))
                 else if args op = 1 then
                   bindE (deserializeBytes4 r) (\<lambda>(lhs, r). bindE (tree_at r lhs) (\<lambda>x. add_tree r (mk op x 0 c)))
                 else add_tree r (mk op 0 0 c)) (\<lambda>x. Inr (True, x)))"

text \<open>The nodes of a shape. Every node takes at least one byte of the stream, and the fuel is the
  length of the stream.\<close>

fun tree_loop ::
    "oracle_io \<Rightarrow> allocator \<Rightarrow> build \<Rightarrow> nat \<Rightarrow> deserializer \<Rightarrow> cache \<Rightarrow> fault + bool \<times> deserializer \<times> cache" where
  "tree_loop io alloc mk 0 r c = Inl OutOfFuel"
| "tree_loop io alloc mk (Suc fuel) r c =
     (let (b, r) = in_get r in
      case b of
        None \<Rightarrow> Inr (True, r, c)
      | Some b \<Rightarrow>
          if b = END_OF_ITEM then Inr (True, r, c)
          else bindE (deserialize_node io alloc mk b r c) (\<lambda>(ok, r, c).
                 if ok then tree_loop io alloc mk fuel r c else Inr (False, r, c)))"

fun vars_set :: "nat \<Rightarrow> string \<Rightarrow> (nat \<times> string) list \<Rightarrow> (nat \<times> string) list" where
  "vars_set k v [] = [(k, v)]"
| "vars_set k v ((k', v') # m) =
     (if k = k' then (k, v) # m else if k < k' then (k, v) # (k', v') # m else (k', v') # vars_set k v m)"

fun vars_loop :: "nat \<Rightarrow> (nat \<times> string) list \<Rightarrow> deserializer \<Rightarrow> fault + (nat \<times> string) list \<times> deserializer" where
  "vars_loop 0 vars r = Inl OutOfFuel"
| "vars_loop (Suc fuel) vars r =
     (if r_eof r then Inr (vars, r)
      else let (b, r) = in_get r in
        case b of
          None \<Rightarrow> Inl Unassigned
        | Some b \<Rightarrow>
            if b = END_OF_ITEM then Inr (vars, r)
            else let (nm, r) = deserializeString r in
              bindE (deserializeBytes4 r) (\<lambda>(idx, r).
                if length (r_trees r) \<le> idx then Inl NullDeref
                else vars_loop fuel (vars_set (r_trees r ! idx) nm vars) r))"

definition deserializeShape ::
    "oracle_io \<Rightarrow> allocator \<Rightarrow> build \<Rightarrow> 8 word \<Rightarrow> deserializer \<Rightarrow> cache \<Rightarrow> fault + shape \<times> deserializer \<times> cache" where
  "deserializeShape io alloc mk tag r c =
     (let (nm, r) = deserializeString r; (doc, r) = deserializeString r;
          out = \<lparr>s_tree = 0, s_name = nm, s_doc = doc, s_vars = []\<rparr> in
      bindE (if tag = byte_of (CHR ''t'') then
               bindE (deserializeBytes4 r) (\<lambda>(root, r). bindE (tree_at r root) (\<lambda>t. Inr (True, t, r, c)))
             else
               bindE (tree_loop io alloc mk (Suc (length (r_in r))) r c) (\<lambda>(fin, r, c).
                 if \<not> fin then Inr (False, 0, r, c)
                 else if r_trees r = [] then Inl OutOfRange
                 else Inr (True, last (r_trees r), r, c))) (\<lambda>(fin, t, r, c).
        if \<not> fin then Inr (out, r, c)
        else bindE (vars_loop (Suc (length (r_in r))) [] r) (\<lambda>(vars, r).
               Inr (out\<lparr>s_tree := t, s_vars := vars\<rparr>, r, c))))"

fun shapes_loop ::
    "oracle_io \<Rightarrow> allocator \<Rightarrow> build \<Rightarrow> nat \<Rightarrow> deserializer \<Rightarrow> cache \<Rightarrow> fault + archive \<times> cache" where
  "shapes_loop io alloc mk 0 r c = Inl OutOfFuel"
| "shapes_loop io alloc mk (Suc fuel) r c =
     (let (tag, r) = in_get r in
      case tag of
        None \<Rightarrow> Inr ([], c)
      | Some tag \<Rightarrow> bindE (deserializeShape io alloc mk tag r c) (\<lambda>(s, r, c).
          bindE (shapes_loop io alloc mk fuel r c) (\<lambda>(ss, c). Inr (s # ss, c))))"

definition deserialize_archive ::
    "oracle_io \<Rightarrow> allocator \<Rightarrow> build \<Rightarrow> bytes \<Rightarrow> cache \<Rightarrow> fault + archive \<times> cache" where
  "deserialize_archive io alloc mk bs c =
     shapes_loop io alloc mk (Suc (length bs)) \<lparr>r_in = bs, r_eof = False, r_trees = []\<rparr> c"

section \<open>Trees in files\<close>

definition Tree_serialize :: "oracle_io \<Rightarrow> nat \<Rightarrow> nat \<Rightarrow> cache \<Rightarrow> fault + bytes" where
  "Tree_serialize io fuel t c = serialize_archive io fuel c (addShape t [] [] [] [])"

definition Tree_deserialize :: "oracle_io \<Rightarrow> allocator \<Rightarrow> build \<Rightarrow> bytes \<Rightarrow> cache \<Rightarrow> fault + nat \<times> cache" where
  "Tree_deserialize io alloc mk bs c =
     bindE (deserialize_archive io alloc mk bs c) (\<lambda>(ss, c).
       if length ss = 1 then Inr (s_tree (hd ss), c) else Inl AssertFailed)"

text \<open>The contents of the file, \<open>None\<close> when it cannot be opened.\<close>

definition Tree_load :: "oracle_io \<Rightarrow> allocator \<Rightarrow> build \<Rightarrow> bytes option \<Rightarrow> cache \<Rightarrow> fault + nat \<times> cache" where
  "Tree_load io alloc mk file c = (case file of None \<Rightarrow> Inr (0, c) | Some bs \<Rightarrow> Tree_deserialize io alloc mk bs c)"

definition libfive_tree_save :: "oracle_io \<Rightarrow> nat \<Rightarrow> handle \<Rightarrow> bool \<Rightarrow> cache \<Rightarrow> fault + bytes option" where
  "libfive_tree_save io fuel h opened c =
     (if \<not> opened then Inr None
      else bindE (the_tree h) (\<lambda>t. bindE (Tree_serialize io fuel t c) (\<lambda>bs. Inr (Some bs))))"

definition libfive_tree_load ::
    "oracle_io \<Rightarrow> allocator \<Rightarrow> build \<Rightarrow> bytes option \<Rightarrow> cache \<Rightarrow> fault + handle \<times> cache" where
  "libfive_tree_load io alloc mk file c =
     bindE (Tree_load io alloc mk file c) (\<lambda>(t, c). Inr (if t \<noteq> 0 then Some t else None, c))"

end
