(* ===== verification/TapePush.thy ===== *)
theory TapePush
  imports DeckProps
begin

text \<open>
  The shape of the tapes that the constructor of a deck makes, and the specialisation of a tape
  (\<open>Tape::push\<close>): when the choice of branches is right for the values in the rows, the shorter tape
  has the same value. The lemmas are about any machine that walks tapes.
\<close>

section \<open>The shape of a tape\<close>

text \<open>A clause reads rows above the one it writes, and the clauses of a tape stand in the order of
  the rows they write: walking backwards, a clause's operands are complete when it is reached.\<close>

definition clause_shape :: "nat \<Rightarrow> nat \<Rightarrow> clause \<Rightarrow> bool" where
  "clause_shape rows oracles k \<longleftrightarrow> 0 < k_id k \<and> k_id k \<le> rows \<and>
     (if k_op k = ORACLE then k_a k < oracles \<and> k_b k = 0
      else operates (k_op k) \<and> k_id k < k_a k \<and> k_a k \<le> rows \<and>
        (args (k_op k) = 1 \<and> k_b k = 0 \<or> args (k_op k) = 2 \<and> k_id k < k_b k \<and> k_b k \<le> rows))"

definition tape_shape :: "nat \<Rightarrow> nat \<Rightarrow> clause list \<Rightarrow> bool" where
  "tape_shape rows oracles ks \<longleftrightarrow> sorted_wrt (<) (map k_id ks) \<and> (\<forall>k \<in> set ks. clause_shape rows oracles k)"

lemma tape_shape_simps [simp]:
  "tape_shape rows oracles []"
  "tape_shape rows oracles (k # ks) \<longleftrightarrow>
     clause_shape rows oracles k \<and> (\<forall>k' \<in> set ks. k_id k < k_id k') \<and> tape_shape rows oracles ks"
  by (auto simp: tape_shape_def)

lemma clause_shape_rows: "clause_shape rows oracles k \<Longrightarrow> rows \<le> rows' \<Longrightarrow> clause_shape rows' oracles k"
  by (auto simp: clause_shape_def)

lemma node_clauses_shape:
  assumes ok: "store_ok c" and ts: "ts = xs @ m # ys" "distinct ts" "0 \<notin> set ts" "child_first c ts"
    and n: "node_at c m = Some n" and k: "k \<in> set (node_clauses c ts xs m)"
  shows "clause_shape (length ts) (length (oracle_list c ts)) k \<and> k_id k = length ts - length xs"
proof -
  have m: "m \<noteq> 0" "row_of ts m = length ts - length xs" "0 < row_of ts m" "row_of ts m \<le> length ts"
    using ts row_of_at[of xs m ys] by auto
  note leaf = rank_zero_leaf[OF ok n] and args = node_args[OF ok n]
  have kid: "r \<noteq> 0 \<Longrightarrow> row_of ts m < row_of ts r \<and> row_of ts r \<le> length ts" if "r = t_lhs n \<or> r = t_rhs n" for r
  proof -
    assume "r \<noteq> 0"
    then have "r \<in> set xs" using ts(4)[unfolded child_first_def, rule_format, OF ts(1) n] that by auto
    then obtain xs1 xs2 where xs: "xs = xs1 @ r # xs2" by (meson split_list)
    have "row_of ts r = Suc (length (xs2 @ m # ys))"
      using row_of_at[of xs1 r "xs2 @ m # ys"] ts(1,2) xs \<open>r \<noteq> 0\<close> by simp
    then show "row_of ts m < row_of ts r \<and> row_of ts r \<le> length ts"
      using m(2) ts(1) xs by simp
  qed
  show ?thesis
  proof (cases "0 < t_rank n")
    case True
    then have kd: "k = Clause (t_op n) (row_of ts m) (row_of ts (t_lhs n)) (row_of ts (t_rhs n))"
      using k n by (simp add: node_clauses_def)
    have lhs: "t_lhs n \<noteq> 0" using True leaf(1) by simp
    then have "t_rhs n = 0 \<and> args (t_op n) = 1 \<or> t_rhs n \<noteq> 0 \<and> args (t_op n) = 2"
      using args by (auto simp: args_ok_def arity_ok_def split: if_splits)
    then show ?thesis using kd leaf(3)[OF True] kid[of "t_lhs n"] kid[of "t_rhs n"] lhs m
      by (auto simp: clause_shape_def row_of_def)
  next
    case False
    then have "t_op n = ORACLE" "k = Clause ORACLE (row_of ts m) (length (oracle_list c xs)) 0"
      using k n by (auto simp: node_clauses_def split: if_splits)
    moreover have "length (oracle_list c xs) < length (oracle_list c ts)"
      using ts(1) n \<open>t_op n = ORACLE\<close> by (simp add: oracle_list_def op_of_def)
    ultimately show ?thesis using m by (simp add: clause_shape_def)
  qed
qed

lemma tape_of_shape:
  assumes ok: "store_ok c" and ts: "distinct ts" "0 \<notin> set ts" "child_first c ts" "\<forall>t \<in> set ts. live c t"
  shows "ts = xs @ ys \<Longrightarrow> tape_shape (length ts) (length (oracle_list c ts)) (tape_of c ts xs ys)
    \<and> (\<forall>k \<in> set (tape_of c ts xs ys). k_id k \<le> length ys)"
proof (induction ys arbitrary: xs)
  case (Cons m ys)
  obtain n where n: "node_at c m = Some n" using ts(4) Cons.prems by (auto simp: live_def)
  have new: "clause_shape (length ts) (length (oracle_list c ts)) k \<and> k_id k = Suc (length ys)"
    if "k \<in> set (node_clauses c ts xs m)" for k
    using node_clauses_shape[OF ok Cons.prems ts(1-3) n that] Cons.prems by simp
  have one: "length (node_clauses c ts xs m) \<le> 1" using n by (simp add: node_clauses_def)
  from Cons.IH[of "xs @ [m]"] Cons.prems
  have IH: "tape_shape (length ts) (length (oracle_list c ts)) (tape_of c ts (xs @ [m]) ys)"
    "\<forall>k \<in> set (tape_of c ts (xs @ [m]) ys). k_id k \<le> length ys" by simp_all
  have "sorted_wrt (<) (map k_id (node_clauses c ts xs m))" using one by (cases "node_clauses c ts xs m") auto
  with IH new show ?case by (fastforce simp: tape_shape_def sorted_wrt_append)
qed simp

lemma deck_shape:
  assumes "store_ok c" "deck_made c root ts d c' clauses x y z"
  shows "tape_shape (d_num_clauses d) (length (d_oracles d)) (tp_clauses (d_tape d))"
proof -
  note D = assms(2)[unfolded deck_made_def]
  have ts: "distinct ts" "0 \<notin> set ts" "child_first c ts" "\<forall>t \<in> set ts. live c t"
    and d: "d_oracles d = oracle_list c ts" "tp_clauses (d_tape d) = tape_of c ts [] ts" using D by blast+
  have "tape_shape (length ts) (length (d_oracles d)) (tp_clauses (d_tape d))"
    using tape_of_shape[OF assms(1) ts, of "[]" ts] d by simp
  moreover have "length ts \<le> d_num_clauses d" using D by simp
  ultimately show ?thesis using clause_shape_rows by (auto simp: tape_shape_def)
qed

section \<open>What a walk leaves in the rows\<close>

definition row_right :: "(opcode \<Rightarrow> 'a \<Rightarrow> 'a \<Rightarrow> fault + 'a) \<Rightarrow> (nat \<Rightarrow> 'a) \<Rightarrow> 'a list \<Rightarrow> clause \<Rightarrow> bool" where
  "row_right val ask w k \<longleftrightarrow>
     (if k_op k = ORACLE then w ! k_id k = ask (k_a k) else val (k_op k) (w ! k_a k) (w ! k_b k) = Inr (w ! k_id k))"

context tape_machine
begin

lemma row_right_update:
  assumes "row_right val ask w k" "k_id k \<noteq> r" "k_op k \<noteq> ORACLE \<longrightarrow> k_a k \<noteq> r \<and> k_b k \<noteq> r"
  shows "row_right val ask (w[r := x]) k"
  using assms by (auto simp: row_right_def)

lemma walk_rows:
  "tape_shape rows oracles ks \<Longrightarrow> rows < length v \<Longrightarrow> foldE exec v (rev ks) = Inr w \<Longrightarrow>
   length w = length v \<and> (\<forall>r. r \<notin> k_id ` set ks \<longrightarrow> w ! r = v ! r) \<and> (\<forall>k \<in> set ks. row_right val ask w k)"
proof (induction ks arbitrary: w)
  case (Cons k ks)
  then obtain u where u: "foldE exec v (rev ks) = Inr u" "exec u k = Inr w"
    by (auto simp: foldE_append bindE_Inr_iff)
  from Cons.IH[OF _ Cons.prems(2) u(1)] Cons.prems(1)
  have IH: "length u = length v" "\<forall>r. r \<notin> k_id ` set ks \<longrightarrow> u ! r = v ! r" "\<forall>k \<in> set ks. row_right val ask u k" by simp_all
  have k: "clause_shape rows oracles k" "k_id k < length u" using Cons.prems(1,2) IH(1) by (auto simp: clause_shape_def)
  obtain x where w: "w = u[k_id k := x]"
    and x: "if k_op k = ORACLE then x = ask (k_a k) else val (k_op k) (u ! k_a k) (u ! k_b k) = Inr x"
    using u(2) by (auto simp: exec bindE_Inr_iff split: if_splits)
  have above: "k_id k' \<noteq> k_id k" "k_op k' \<noteq> ORACLE \<longrightarrow> k_a k' \<noteq> k_id k \<and> k_b k' \<noteq> k_id k" if "k' \<in> set ks" for k'
    using that Cons.prems(1) k(1) by (fastforce simp: tape_shape_def clause_shape_def)+
  have "row_right val ask w k" using x k by (auto simp: row_right_def w clause_shape_def)
  with IH above show ?case by (auto simp: w row_right_update)
qed simp

text \<open>Conversely, the rows that the clauses of a tape can read determine what it writes.\<close>

lemma walk_to:
  "tape_shape rows oracles ks \<Longrightarrow> rows < length v \<Longrightarrow> \<forall>k \<in> set ks. row_right val ask w k \<Longrightarrow>
   \<forall>k \<in> set ks. k_op k \<noteq> ORACLE \<longrightarrow> (k_a k \<in> k_id ` set ks \<or> v ! k_a k = w ! k_a k) \<and>
     (args (k_op k) = 2 \<longrightarrow> k_b k \<in> k_id ` set ks \<or> v ! k_b k = w ! k_b k) \<Longrightarrow>
   \<exists>u. foldE exec v (rev ks) = Inr u \<and> length u = length v \<and>
     (\<forall>r. u ! r = (if r \<in> k_id ` set ks then w ! r else v ! r))"
proof (induction ks)
  case (Cons k ks)
  have above: "k_op k' \<noteq> ORACLE \<Longrightarrow> k_a k' \<noteq> k_id k \<and> (args (k_op k') = 2 \<longrightarrow> k_b k' \<noteq> k_id k)" if "k' \<in> set ks" for k'
    using that Cons.prems(1) by (fastforce simp: tape_shape_def clause_shape_def)
  then have "\<forall>k' \<in> set ks. k_op k' \<noteq> ORACLE \<longrightarrow> (k_a k' \<in> k_id ` set ks \<or> v ! k_a k' = w ! k_a k') \<and>
     (args (k_op k') = 2 \<longrightarrow> k_b k' \<in> k_id ` set ks \<or> v ! k_b k' = w ! k_b k')"
    using Cons.prems(4) by fastforce
  with Cons obtain u where u: "foldE exec v (rev ks) = Inr u" "length u = length v"
    "\<forall>r. u ! r = (if r \<in> k_id ` set ks then w ! r else v ! r)" by auto
  have k: "clause_shape rows oracles k" "k_id k < length u" "row_right val ask w k" "k_id k \<notin> k_id ` set ks"
    using Cons.prems u(2) by (auto simp: clause_shape_def)
  have "exec u k = Inr (u[k_id k := w ! k_id k])"
  proof (cases "k_op k = ORACLE")
    case False
    then have a: "u ! k_a k = w ! k_a k" using Cons.prems(4) k(1) u(3) by (auto simp: clause_shape_def)
    have "val (k_op k) (u ! k_a k) (u ! k_b k) = val (k_op k) (w ! k_a k) (w ! k_b k)"
    proof (cases "args (k_op k) = 2")
      case True
      then have "u ! k_b k = w ! k_b k" using False Cons.prems(4) k(1) u(3) by (auto simp: clause_shape_def)
      with a show ?thesis by simp
    next
      case False
      then have "args (k_op k) = 1" using \<open>k_op k \<noteq> ORACLE\<close> k(1) by (auto simp: clause_shape_def)
      from unary[OF this] a show ?thesis by metis
    qed
    with False k(3) show ?thesis by (simp add: exec row_right_def)
  qed (use k(3) in \<open>simp add: exec row_right_def\<close>)
  with u k show ?case by (auto simp: foldE_append nth_list_update)
qed simp

end

section \<open>Marking the clauses\<close>

text \<open>A choice may only pick an operand that is there.\<close>

definition keep_wf :: "(clause \<Rightarrow> keep) \<Rightarrow> clause list \<Rightarrow> bool" where
  "keep_wf fn ks \<longleftrightarrow> (\<forall>k \<in> set ks. fn k = KEEP_A \<or> fn k = KEEP_B \<longrightarrow> k_op k \<noteq> ORACLE \<and> args (k_op k) = 2)"

definition chosen :: "(clause \<Rightarrow> keep) \<Rightarrow> clause \<Rightarrow> nat \<Rightarrow> bool" where
  "chosen fn k r \<longleftrightarrow> fn k = KEEP_A \<and> r = k_a k \<or> fn k = KEEP_B \<and> r = k_b k"

definition wanted :: "push_state \<Rightarrow> nat \<Rightarrow> bool" where
  "wanted s r \<longleftrightarrow> \<not> p_disabled s r \<or> p_remap s r \<noteq> 0"

definition operands_wanted :: "push_state \<Rightarrow> clause \<Rightarrow> bool" where
  "operands_wanted s k \<longleftrightarrow> (k_op k \<noteq> ORACLE \<longrightarrow> wanted s (k_a k) \<and> (args (k_op k) = 2 \<longrightarrow> wanted s (k_b k)))"

definition mark_inv :: "nat \<Rightarrow> nat \<Rightarrow> (clause \<Rightarrow> keep) \<Rightarrow> nat \<Rightarrow> clause list \<Rightarrow> push_state \<Rightarrow> bool" where
  "mark_inv rows oracles fn root done s \<longleftrightarrow>
     (\<forall>r. p_remap s r \<noteq> 0 \<longrightarrow> p_disabled s r \<and> wanted s (p_remap s r) \<and>
        (\<exists>k \<in> set done. k_id k = r \<and> chosen fn k (p_remap s r)))
     \<and> wanted s root \<and> (\<forall>k \<in> set done. \<not> p_disabled s (k_id k) \<longrightarrow> operands_wanted s k)
     \<and> length (p_contexts s) = oracles"

lemma mark_inv_step:
  assumes "mark_inv rows oracles fn root done s"
    and mono: "\<And>q. wanted s q \<Longrightarrow> wanted s' q"
    and old: "\<And>q. q \<in> k_id ` set done \<Longrightarrow> p_disabled s' q = p_disabled s q \<and> p_remap s' q = p_remap s q"
    and new: "\<And>q. q \<notin> k_id ` set done \<Longrightarrow> p_remap s' q \<noteq> 0 \<Longrightarrow>
      q = k_id k \<and> chosen fn k (p_remap s' q) \<and> p_disabled s' q \<and> wanted s' (p_remap s' q)"
    and "\<not> p_disabled s' (k_id k) \<Longrightarrow> operands_wanted s' k" and "length (p_contexts s') = oracles"
  shows "mark_inv rows oracles fn root (done @ [k]) s'"
  unfolding mark_inv_def
proof (intro conjI allI ballI impI)
  note I = assms(1)[unfolded mark_inv_def]
  fix r assume r: "p_remap s' r \<noteq> 0"
  show "p_disabled s' r" "wanted s' (p_remap s' r)" "\<exists>k' \<in> set (done @ [k]). k_id k' = r \<and> chosen fn k' (p_remap s' r)"
    using I r old[of r] new[of r] mono by (cases "r \<in> k_id ` set done"; fastforce)+
next
  fix k' assume "k' \<in> set (done @ [k])" "\<not> p_disabled s' (k_id k')"
  with assms mono old show "operands_wanted s' k'" by (auto simp: mark_inv_def operands_wanted_def)
qed (use assms in \<open>auto simp: mark_inv_def\<close>)

lemma mark_clause_ok:
  assumes inv: "mark_inv rows oracles fn root done s" and k: "clause_shape rows oracles k" "keep_wf fn [k]"
    and above: "\<forall>k' \<in> set done. 0 < k_id k' \<and> k_id k' < k_id k" and ctx: "length contexts = oracles"
  shows "\<exists>s'. mark_clause orc fn ty contexts s k = Inr s' \<and> mark_inv rows oracles fn root (done @ [k]) s'"
proof (cases "p_disabled s (k_id k)")
  case True
  with inv show ?thesis by (fastforce simp: mark_clause_def mark_inv_def)
next
  case False
  note I = inv[unfolded mark_inv_def]
  have id: "p_remap s (k_id k) = 0" "0 < k_id k" using I False k by (auto simp: clause_shape_def)
  have free: "q \<noteq> k_id k" "k_op k \<noteq> ORACLE \<Longrightarrow> q \<noteq> k_a k \<and> q \<noteq> k_b k" if "q \<in> k_id ` set done" for q
    using that above k(1) by (fastforce simp: clause_shape_def split: if_splits)+
  have undone: "p_remap s q = 0" if "q \<notin> k_id ` set done" for q using I that by blast
  consider (a) "fn k = KEEP_A" | (b) "fn k = KEEP_B" | (op) "fn k \<noteq> KEEP_A" "fn k \<noteq> KEEP_B" "k_op k \<noteq> ORACLE"
    | (orc) "fn k \<noteq> KEEP_A" "fn k \<noteq> KEEP_B" "k_op k = ORACLE" by blast
  then show ?thesis
  proof cases
    case a
    let ?s = "s\<lparr>p_disabled := (p_disabled s)(k_a k := False, k_id k := True), p_remap := (p_remap s)(k_id k := k_a k), p_changed := True\<rparr>"
    have o: "k_op k \<noteq> ORACLE" "k_a k \<noteq> 0" "k_a k \<noteq> k_id k" using a k by (auto simp: keep_wf_def clause_shape_def)
    have "mark_inv rows oracles fn root (done @ [k]) ?s"
      by (rule mark_inv_step[OF inv]) (use a o free undone I in \<open>auto simp: wanted_def chosen_def split: if_splits\<close>)
    moreover have "mark_clause orc fn ty contexts s k = Inr ?s" using False a o by (simp add: mark_clause_def)
    ultimately show ?thesis by blast
  next
    case b
    let ?s = "s\<lparr>p_disabled := (p_disabled s)(k_b k := False, k_id k := True), p_remap := (p_remap s)(k_id k := k_b k), p_changed := True\<rparr>"
    have o: "k_op k \<noteq> ORACLE" "k_b k \<noteq> 0" "k_b k \<noteq> k_id k" using b k by (auto simp: keep_wf_def clause_shape_def)
    have "mark_inv rows oracles fn root (done @ [k]) ?s"
      by (rule mark_inv_step[OF inv]) (use b o free undone I in \<open>auto simp: wanted_def chosen_def split: if_splits\<close>)
    moreover have "mark_clause orc fn ty contexts s k = Inr ?s" using False b o by (simp add: mark_clause_def)
    ultimately show ?thesis by blast
  next
    case op
    have "\<exists>t. mark_clause orc fn ty contexts s k
        = Inr (s\<lparr>p_terminal := t, p_disabled := (p_disabled s)(k_a k := False, k_b k := False)\<rparr>)"
      using op False id by (cases "fn k") (auto simp: mark_clause_def intro: exI[of _ "p_terminal s"])
    then obtain t where t: "mark_clause orc fn ty contexts s k
        = Inr (s\<lparr>p_terminal := t, p_disabled := (p_disabled s)(k_a k := False, k_b k := False)\<rparr>)" ..
    have "mark_inv rows oracles fn root (done @ [k]) (s\<lparr>p_terminal := t, p_disabled := (p_disabled s)(k_a k := False, k_b k := False)\<rparr>)"
      by (rule mark_inv_step[OF inv]) (use op free undone I in \<open>auto simp: wanted_def operands_wanted_def split: if_splits\<close>)
    with t show ?thesis by blast
  next
    case orc
    then have "k_a k < length contexts" using k(1) ctx by (simp add: clause_shape_def)
    then obtain s' where s': "mark_clause orc fn ty contexts s k = Inr s'" "p_disabled s' = p_disabled s" "p_remap s' = p_remap s"
      "length (p_contexts s') = length (p_contexts s)"
      using orc False id by (cases "fn k") (auto simp: mark_clause_def Let_def)
    have "mark_inv rows oracles fn root (done @ [k]) s'"
      by (rule mark_inv_step[OF inv]) (use orc undone I s' in \<open>auto simp: wanted_def operands_wanted_def\<close>)
    with s' show ?thesis by blast
  qed
qed

lemma mark_all:
  assumes "tape_shape rows oracles (done @ ks)" "keep_wf fn ks" "mark_inv rows oracles fn root done s" "length contexts = oracles"
  shows "\<exists>s'. foldE (mark_clause orc fn ty contexts) s ks = Inr s' \<and> mark_inv rows oracles fn root (done @ ks) s'"
  using assms
proof (induction ks arbitrary: "done" s)
  case (Cons k ks)
  have "clause_shape rows oracles k" "keep_wf fn [k]" "\<forall>k' \<in> set done. 0 < k_id k' \<and> k_id k' < k_id k"
    using Cons.prems(1,2) by (auto simp: tape_shape_def sorted_wrt_append keep_wf_def clause_shape_def)
  from mark_clause_ok[OF Cons.prems(3) this Cons.prems(4)]
  obtain s1 where "mark_clause orc fn ty contexts s k = Inr s1" "mark_inv rows oracles fn root (done @ [k]) s1" by blast
  with Cons.IH[of "done @ [k]" s1] Cons.prems show ?case by (auto simp: keep_wf_def)
qed simp

section \<open>The shorter tape\<close>

lemma chase_ends:
  assumes "\<And>r. remap r \<noteq> 0 \<Longrightarrow> r < remap r \<and> remap r \<le> rows \<and> P r (remap r)"
    and "\<And>r. P r r" "\<And>r q q'. P r q \<Longrightarrow> P q q' \<Longrightarrow> P r q'"
  shows "rows - r \<le> fuel \<Longrightarrow> \<exists>q. chase fuel remap r = Inr q \<and> remap q = 0 \<and> r \<le> q \<and> (r \<le> rows \<longrightarrow> q \<le> rows) \<and> (remap r = 0 \<longrightarrow> q = r) \<and> P r q"
proof (induction fuel arbitrary: r)
  case 0
  then have "remap r = 0" using assms(1)[of r] by fastforce
  with assms(2) show ?case by simp
next
  case (Suc fuel)
  show ?case
  proof (cases "remap r = 0")
    case False
    note r = assms(1)[OF False]
    then have "rows - remap r \<le> fuel" using Suc.prems by linarith
    from Suc.IH[OF this] obtain q where q: "chase fuel remap (remap r) = Inr q" "remap q = 0" "remap r \<le> q"
      "remap r \<le> rows \<longrightarrow> q \<le> rows" "P (remap r) q" by blast
    with r False assms(3)[of r "remap r" q] show ?thesis by auto
  qed (use assms(2) in simp)
qed

text \<open>What the second pass needs of the marks, and the clause it leaves.\<close>

definition marks_ok :: "nat \<Rightarrow> (clause \<Rightarrow> keep) \<Rightarrow> clause list \<Rightarrow> push_state \<Rightarrow> bool" where
  "marks_ok rows fn ks s \<longleftrightarrow>
     (\<forall>r. p_remap s r \<noteq> 0 \<longrightarrow> r < p_remap s r \<and> p_remap s r \<le> rows \<and> wanted s (p_remap s r) \<and>
        (\<exists>k \<in> set ks. k_id k = r \<and> chosen fn k (p_remap s r)))
     \<and> (\<forall>k \<in> set ks. \<not> p_disabled s (k_id k) \<longrightarrow> operands_wanted s k \<and> p_remap s (k_id k) = 0)"

lemma marks_ok_final:
  assumes "mark_inv rows oracles fn root ks s" "tape_shape rows oracles ks" "keep_wf fn ks"
  shows "marks_ok rows fn ks s"
  unfolding marks_ok_def
proof (intro conjI allI ballI impI)
  note I = assms(1)[unfolded mark_inv_def]
  fix r assume r: "p_remap s r \<noteq> 0"
  then obtain k where k: "k \<in> set ks" "k_id k = r" "chosen fn k (p_remap s r)" using I by blast
  then have "clause_shape rows oracles k" "k_op k \<noteq> ORACLE" "args (k_op k) = 2"
    using assms(2,3) by (auto simp: tape_shape_def keep_wf_def chosen_def)
  with k show "r < p_remap s r" "p_remap s r \<le> rows" by (auto simp: chosen_def clause_shape_def)
  show "wanted s (p_remap s r)" "\<exists>k \<in> set ks. k_id k = r \<and> chosen fn k (p_remap s r)" using I r by blast+
next
  fix k assume "k \<in> set ks" "\<not> p_disabled s (k_id k)"
  with assms(1) show "operands_wanted s k" "p_remap s (k_id k) = 0" by (auto simp: mark_inv_def)
qed

definition choice :: "(clause \<Rightarrow> keep) \<Rightarrow> clause list \<Rightarrow> nat \<Rightarrow> nat \<Rightarrow> bool" where
  "choice fn ks r q \<longleftrightarrow> (\<exists>k \<in> set ks. k_id k = r \<and> chosen fn k q)"

definition last_row :: "nat \<Rightarrow> push_state \<Rightarrow> nat \<Rightarrow> nat" where
  "last_row rows s r = (case chase rows (p_remap s) r of Inl _ \<Rightarrow> 0 | Inr q \<Rightarrow> q)"

definition leads :: "(clause \<Rightarrow> keep) \<Rightarrow> clause list \<Rightarrow> push_state \<Rightarrow> nat \<Rightarrow> nat \<Rightarrow> bool" where
  "leads fn ks s r q \<longleftrightarrow> rtranclp (choice fn ks) r q \<and> (wanted s r \<longrightarrow> wanted s q)"

lemma leads_refl: "leads fn ks s r r"
  by (simp add: leads_def)

lemma leads_trans: "leads fn ks s r q \<Longrightarrow> leads fn ks s q q' \<Longrightarrow> leads fn ks s r q'"
  unfolding leads_def by (blast intro: rtranclp_trans)

lemma marks_lead:
  "marks_ok rows fn ks s \<Longrightarrow> p_remap s r \<noteq> 0 \<Longrightarrow>
   r < p_remap s r \<and> p_remap s r \<le> rows \<and> leads fn ks s r (p_remap s r)"
  unfolding marks_ok_def leads_def choice_def by blast

lemma last_row:
  assumes "marks_ok rows fn ks s"
  shows "chase rows (p_remap s) r = Inr (last_row rows s r)" "p_remap s (last_row rows s r) = 0" "r \<le> last_row rows s r"
    "r \<le> rows \<Longrightarrow> last_row rows s r \<le> rows" "p_remap s r = 0 \<Longrightarrow> last_row rows s r = r"
    "rtranclp (choice fn ks) r (last_row rows s r)" "wanted s r \<Longrightarrow> \<not> p_disabled s (last_row rows s r)"
proof -
  have "\<exists>q. chase rows (p_remap s) r = Inr q \<and> p_remap s q = 0 \<and> r \<le> q \<and> (r \<le> rows \<longrightarrow> q \<le> rows)
      \<and> (p_remap s r = 0 \<longrightarrow> q = r) \<and> leads fn ks s r q"
  proof (rule chase_ends)
    show "q < p_remap s q \<and> p_remap s q \<le> rows \<and> leads fn ks s q (p_remap s q)" if "p_remap s q \<noteq> 0" for q
      by (rule marks_lead[OF assms that])
  qed (simp add: leads_refl, rule leads_trans, simp_all)
  then obtain q where q: "chase rows (p_remap s) r = Inr q" "p_remap s q = 0" "r \<le> q" "r \<le> rows \<longrightarrow> q \<le> rows"
    "p_remap s r = 0 \<longrightarrow> q = r" "leads fn ks s r q" by (elim exE conjE) (rule that)
  from q(1) have eq: "last_row rows s r = q" by (simp add: last_row_def)
  show "chase rows (p_remap s) r = Inr (last_row rows s r)" "p_remap s (last_row rows s r) = 0" "r \<le> last_row rows s r"
    "r \<le> rows \<Longrightarrow> last_row rows s r \<le> rows" "p_remap s r = 0 \<Longrightarrow> last_row rows s r = r"
    unfolding eq using q(1-5) by blast+
  show "rtranclp (choice fn ks) r (last_row rows s r)" "wanted s r \<Longrightarrow> \<not> p_disabled s (last_row rows s r)"
    unfolding eq using q(2,6) by (auto simp: leads_def wanted_def)
qed

definition redirect :: "nat \<Rightarrow> push_state \<Rightarrow> clause \<Rightarrow> clause" where
  "redirect rows s k = (if k_op k = ORACLE then k
     else Clause (k_op k) (k_id k) (last_row rows s (k_a k)) (last_row rows s (k_b k)))"

lemma redirect_simps [simp]: "k_id (redirect rows s k) = k_id k" "k_op (redirect rows s k) = k_op k"
  by (simp_all add: redirect_def)

lemma collect_map_if: "collect (map (\<lambda>k. if P k then None else Some (f k)) ks) = map f (filter (\<lambda>k. \<not> P k) ks)"
  by (induction ks) auto

definition shorter :: "nat \<Rightarrow> push_state \<Rightarrow> clause list \<Rightarrow> clause list" where
  "shorter rows s ks = map (redirect rows s) (filter (\<lambda>k. \<not> p_disabled s (k_id k)) ks)"

lemma keep_clauses:
  assumes "marks_ok rows fn ks s"
  shows "\<exists>os. mapE (keep_clause rows s) ks = Inr os \<and> collect os = shorter rows s ks"
proof -
  have "mapE (keep_clause rows s) ks = Inr (map (\<lambda>k. if p_disabled s (k_id k) then None else Some (redirect rows s k)) ks)"
    by (rule mapE_Inr) (simp add: keep_clause_def redirect_def last_row(1)[OF assms])
  then show ?thesis by (simp add: collect_map_if shorter_def)
qed

lemma shorter_shape:
  assumes m: "marks_ok rows fn ks s" and t: "tape_shape rows oracles ks"
  shows "tape_shape rows oracles (shorter rows s ks)"
proof -
  have zero: "last_row rows s 0 = 0"
  proof (rule last_row(5)[OF m], rule ccontr)
    assume "p_remap s 0 \<noteq> 0"
    then obtain k where "k \<in> set ks" "k_id k = 0" using m by (auto simp: marks_ok_def)
    with t show False by (auto simp: tape_shape_def clause_shape_def)
  qed
  have "clause_shape rows oracles (redirect rows s k)" if "k \<in> set ks" for k
  proof -
    have "clause_shape rows oracles k" using t that by (simp add: tape_shape_def)
    then show ?thesis using last_row(3)[OF m, of "k_a k"] last_row(3)[OF m, of "k_b k"]
        last_row(4)[OF m, of "k_a k"] last_row(4)[OF m, of "k_b k"] zero
      by (auto simp: clause_shape_def redirect_def)
  qed
  moreover have "sorted_wrt (<) (map k_id (filter Q ks))" for Q
    using t by (induction ks) auto
  ultimately show ?thesis by (auto simp: tape_shape_def shorter_def comp_def)
qed

text \<open>A choice is right for the rows when the operand it picks has the value of the clause.\<close>

definition choice_right :: "(clause \<Rightarrow> keep) \<Rightarrow> clause list \<Rightarrow> 'a list \<Rightarrow> bool" where
  "choice_right fn ks w \<longleftrightarrow> (\<forall>k \<in> set ks. \<forall>x. chosen fn k x \<longrightarrow> w ! k_id k = w ! x)"

lemma choice_right_path: "rtranclp (choice fn ks) r q \<Longrightarrow> choice_right fn ks w \<Longrightarrow> w ! r = w ! q"
  by (induction rule: rtranclp_induct) (auto simp: choice_def choice_right_def)

context tape_machine
begin

lemma shorter_walk:
  assumes m: "marks_ok rows fn ks s" and t: "tape_shape rows oracles ks" and v: "rows < length v"
    and w: "foldE exec v (rev ks) = Inr w" and right: "choice_right fn ks w"
  shows "\<exists>u. foldE exec v (rev (shorter rows s ks)) = Inr u \<and> length u = length v
    \<and> (\<forall>r. wanted s r \<longrightarrow> u ! last_row rows s r = w ! r)"
proof -
  note W = walk_rows[OF t v w]
  let ?ids = "k_id ` set (shorter rows s ks)"
  have same: "w ! last_row rows s r = w ! r" for r
    using choice_right_path[OF last_row(6)[OF m, of r] right] by simp
  have there: "last_row rows s r \<in> ?ids \<or> v ! last_row rows s r = w ! last_row rows s r" if "wanted s r" for r
  proof (cases "last_row rows s r \<in> k_id ` set ks")
    case True
    then show ?thesis using last_row(7)[OF m that] by (auto simp: shorter_def image_iff)
  qed (use W in simp)
  have "row_right val ask w (redirect rows s k)" if "k \<in> set ks" for k
    using W that by (auto simp: row_right_def redirect_def same)
  then have rr: "\<forall>k \<in> set (shorter rows s ks). row_right val ask w k" by (auto simp: shorter_def)
  have "\<forall>k \<in> set (shorter rows s ks). k_op k \<noteq> ORACLE \<longrightarrow> (k_a k \<in> ?ids \<or> v ! k_a k = w ! k_a k) \<and>
     (args (k_op k) = 2 \<longrightarrow> k_b k \<in> ?ids \<or> v ! k_b k = w ! k_b k)"
  proof (intro ballI impI)
    fix k' assume "k' \<in> set (shorter rows s ks)" "k_op k' \<noteq> ORACLE"
    then obtain k where k: "k \<in> set ks" "\<not> p_disabled s (k_id k)" "k_op k \<noteq> ORACLE" "k' = redirect rows s k"
      by (auto simp: shorter_def)
    then have "operands_wanted s k" using m by (simp add: marks_ok_def)
    with k there show "(k_a k' \<in> ?ids \<or> v ! k_a k' = w ! k_a k') \<and>
     (args (k_op k') = 2 \<longrightarrow> k_b k' \<in> ?ids \<or> v ! k_b k' = w ! k_b k')"
      by (auto simp: operands_wanted_def redirect_def)
  qed
  from walk_to[OF shorter_shape[OF m t] v rr this]
  obtain u where u: "foldE exec v (rev (shorter rows s ks)) = Inr u" "length u = length v"
    "\<forall>r. u ! r = (if r \<in> ?ids then w ! r else v ! r)" by blast
  have "u ! last_row rows s r = w ! r" if "wanted s r" for r using u(3) there[OF that] same[of r] by auto
  with u show ?thesis by blast
qed

end

section \<open>Specialising\<close>

definition tape_ok :: "deck \<Rightarrow> tape \<Rightarrow> bool" where
  "tape_ok d tp \<longleftrightarrow> tape_shape (d_num_clauses d) (length (d_oracles d)) (tp_clauses tp)
     \<and> tp_root tp \<le> d_num_clauses d \<and> length (tp_contexts tp) = length (d_oracles d)"

lemma deck_tape_ok:
  assumes "store_ok c" "deck_made c root ts d c' clauses x y z"
  shows "tape_ok d (d_tape d)"
proof -
  have "root \<in> set ts" "length ts < length clauses" "d_num_clauses d + 1 = length clauses" "tp_root (d_tape d) = 1"
    "length (tp_contexts (d_tape d)) = length (d_oracles d)" using assms(2) unfolding deck_made_def by blast+
  moreover from this(1) have "ts \<noteq> []" by auto
  ultimately show ?thesis using deck_shape[OF assms] by (cases ts) (auto simp: tape_ok_def)
qed

text \<open>A push returns the tape itself, or the shorter tape of the marks.\<close>

lemma push_tape_cases:
  assumes tp: "tape_ok d tp" and fn: "keep_wf fn (tp_clauses tp)"
  shows "push_tape orc d fn ty bx by' bz tp = Inr tp \<or>
    (\<exists>s t. push_tape orc d fn ty bx by' bz tp = Inr t \<and> marks_ok (d_num_clauses d) fn (tp_clauses tp) s \<and> wanted s (tp_root tp)
      \<and> tp_clauses t = shorter (d_num_clauses d) s (tp_clauses tp) \<and> tp_root t = last_row (d_num_clauses d) s (tp_root tp)
      \<and> length (tp_contexts t) = length (d_oracles d) \<and> tp_parent t = Some tp \<and> tp_type t = ty
      \<and> (tp_X t, tp_Y t, tp_Z t) = (bx, by', bz))"
proof (cases "tp_terminal tp")
  case False
  let ?s0 = "\<lparr>p_disabled = (\<lambda>_. True)(tp_root tp := False), p_remap = (\<lambda>_. 0), p_contexts = tp_contexts tp,
                  p_terminal = True, p_changed = False\<rparr>"
  have "mark_inv (d_num_clauses d) (length (d_oracles d)) fn (tp_root tp) [] ?s0"
    using tp by (simp add: mark_inv_def wanted_def tape_ok_def)
  from mark_all[OF _ fn this, of "tp_contexts tp" orc ty] tp
  obtain s where s: "foldE (mark_clause orc fn ty (tp_contexts tp)) ?s0 (tp_clauses tp) = Inr s"
    "mark_inv (d_num_clauses d) (length (d_oracles d)) fn (tp_root tp) (tp_clauses tp) s" by (auto simp: tape_ok_def)
  have m: "marks_ok (d_num_clauses d) fn (tp_clauses tp) s"
    using marks_ok_final[OF s(2) _ fn] tp by (simp add: tape_ok_def)
  from keep_clauses[OF m] obtain ks where ks: "mapE (keep_clause (d_num_clauses d) s) (tp_clauses tp) = Inr ks"
    "collect ks = shorter (d_num_clauses d) s (tp_clauses tp)" by blast
  have len: "\<not> length (tp_clauses tp) < length (shorter (d_num_clauses d) s (tp_clauses tp))"
    by (simp add: shorter_def not_less)
  have root: "wanted s (tp_root tp)" "length (p_contexts s) = length (d_oracles d)" using s(2) by (simp_all add: mark_inv_def)
  show ?thesis
    using False s(1) ks m root len tp last_row(1)[OF m, of "tp_root tp"]
    by (cases "p_changed s") (auto simp: push_tape_def tape_ok_def)
qed (simp add: push_tape_def)

lemma push_tape_ok:
  assumes "tape_ok d tp" "keep_wf fn (tp_clauses tp)"
  shows "\<exists>t. push_tape orc d fn ty bx by' bz tp = Inr t \<and> tape_ok d t"
  using push_tape_cases[OF assms, of orc ty bx by' bz]
proof (elim disjE exE conjE)
  fix s t
  assume "push_tape orc d fn ty bx by' bz tp = Inr t" "marks_ok (d_num_clauses d) fn (tp_clauses tp) s"
    "tp_clauses t = shorter (d_num_clauses d) s (tp_clauses tp)" "tp_root t = last_row (d_num_clauses d) s (tp_root tp)"
    "length (tp_contexts t) = length (d_oracles d)"
  with assms(1) shorter_shape last_row(4) show ?thesis by (auto simp: tape_ok_def)
qed (use assms in auto)

context tape_machine
begin

lemma push_tape_value:
  assumes tp: "tape_ok d tp" and fn: "keep_wf fn (tp_clauses tp)" and t: "push_tape orc d fn ty bx by' bz tp = Inr t"
    and v: "d_num_clauses d < length v" and w: "foldE exec v (rev (tp_clauses tp)) = Inr w"
    and right: "choice_right fn (tp_clauses tp) w"
  shows "\<exists>u. foldE exec v (rev (tp_clauses t)) = Inr u \<and> length u = length v \<and> u ! tp_root t = w ! tp_root tp"
  using push_tape_cases[OF tp fn, of orc ty bx by' bz]
proof (elim disjE exE conjE)
  assume "push_tape orc d fn ty bx by' bz tp = Inr tp"
  then show ?thesis using t w walk_rows[OF _ v w] tp by (auto simp: tape_ok_def)
next
  fix s t'
  assume "push_tape orc d fn ty bx by' bz tp = Inr t'" and m: "marks_ok (d_num_clauses d) fn (tp_clauses tp) s" "wanted s (tp_root tp)"
    and t': "tp_clauses t' = shorter (d_num_clauses d) s (tp_clauses tp)" "tp_root t' = last_row (d_num_clauses d) s (tp_root tp)"
  with t tp shorter_walk[OF m(1) _ v w right] show ?thesis by (auto simp: tape_ok_def)
qed

end

section \<open>The evaluator of points\<close>

text \<open>Which of two numbers the minimum and the maximum are, when one is below the other.\<close>

definition selects :: "libm \<Rightarrow> bool" where
  "selects lib \<longleftrightarrow> (\<forall>a b. f32_lt a b \<longrightarrow> m_min lib a b = a \<and> m_min lib b a = a \<and> m_max lib a b = b \<and> m_max lib b a = b)"

lemma array_keep_wf: "keep_wf (array_keep v) ks"
  by (auto simp: keep_wf_def array_keep_def Let_def args_def split: if_splits)

lemma array_choice_right:
  assumes "selects lib" "\<forall>k \<in> set ks. row_right (clause_value lib) ask w k"
  shows "choice_right (array_keep w) ks w"
  unfolding choice_right_def
proof (intro ballI allI impI)
  fix k x assume "k \<in> set ks" "chosen (array_keep w) k x"
  with assms show "w ! k_id k = w ! x"
    by (auto simp: chosen_def array_keep_def Let_def row_right_def clause_value_def selects_def split: if_splits)
qed

lemma valueAndPush_value:
  assumes "tape_ok d tp" "selects lib" "d_num_clauses d < length v"
    and "array_value lib ask d tp px py pz v = Inr (out, w)"
  shows "\<exists>t u. valueAndPush lib ask orc d tp px py pz v = Inr ((out, t), w) \<and> tape_ok d t
    \<and> array_value lib ask d t px py pz v = Inr (out, u)"
proof -
  let ?v = "set_point d px py pz v"
  have w: "foldE (eval_clause lib ask) ?v (rev (tp_clauses tp)) = Inr w" "out = w ! tp_root tp"
    using assms(4) by (auto simp: array_value_def eval_tape_def bindE_Inr_iff)
  have v: "d_num_clauses d < length ?v" using assms(3) by (simp add: set_point_def)
  have shape: "tape_shape (d_num_clauses d) (length (d_oracles d)) (tp_clauses tp)" using assms(1) by (simp add: tape_ok_def)
  from point.walk_rows[OF shape v w(1)] have "choice_right (array_keep w) (tp_clauses tp) w"
    using array_choice_right[OF assms(2)] by blast
  moreover obtain t where t: "push_tape orc d (array_keep w) SPECIALIZED (0, 0) (0, 0) (0, 0) tp = Inr t" "tape_ok d t"
    using push_tape_ok[OF assms(1) array_keep_wf] by blast
  ultimately obtain u where "foldE (eval_clause lib ask) ?v (rev (tp_clauses t)) = Inr u" "u ! tp_root t = out"
    using point.push_tape_value[OF assms(1) array_keep_wf t(1) v w(1)] w(2) by auto
  with t assms(4) show ?thesis by (auto simp: valueAndPush_def array_value_def eval_tape_def)
qed

end
