(* ===== verification/TapePruned.thy ===== *)
theory TapePruned
  imports TapePush
begin

text \<open>
  What a push leaves out. The shorter tape holds the clauses that its root still reads and no clause
  whose branch was chosen; it is shorter than the old one exactly when a branch was chosen.
\<close>

section \<open>The rows a tape reads\<close>

definition operand_row :: "clause list \<Rightarrow> nat \<Rightarrow> nat \<Rightarrow> bool" where
  "operand_row ks r q \<longleftrightarrow> (\<exists>k \<in> set ks. k_id k = r \<and> k_op k \<noteq> ORACLE \<and> (q = k_a k \<or> args (k_op k) = 2 \<and> q = k_b k))"

definition used_rows :: "tape \<Rightarrow> nat set" where
  "used_rows tp = {r. (operand_row (tp_clauses tp))\<^sup>*\<^sup>* (tp_root tp) r}"

definition all_used :: "tape \<Rightarrow> bool" where
  "all_used tp \<longleftrightarrow> (\<forall>k \<in> set (tp_clauses tp). k_id k \<in> used_rows tp)"

text \<open>Every clause of a new deck is read: its rows are those of the nodes below the root.\<close>

lemma node_clause_in_tape: "ts = xs @ ys @ m # zs \<Longrightarrow> k \<in> set (node_clauses c ts (xs @ ys) m) \<Longrightarrow> k \<in> set (tape_of c ts xs (ys @ m # zs))"
proof (induction ys arbitrary: xs)
  case (Cons y ys)
  from Cons.IH[of "xs @ [y]"] Cons.prems show ?case by simp
qed simp

lemma deck_below_used:
  assumes ok: "store_ok c" and d: "deck_made c root ts d c' clauses x y z" and q: "below c root q"
  shows "row_of ts q \<in> used_rows (d_tape d)"
  using q
proof (induction rule: below.induct)
  case below_refl
  then show ?case using d by (simp add: used_rows_def deck_made_def)
next
  case (below_child q n r)
  have "q \<in> set ts" using d below_child(1) unfolding deck_made_def by blast
  then obtain xs ys where ts: "ts = xs @ q # ys" by (meson split_list)
  have rank: "0 < t_rank n" using node_child[OF ok below_child(2,3)] below_child(4) by (auto simp: child_def)
  let ?k = "Clause (t_op n) (row_of ts q) (row_of ts (t_lhs n)) (row_of ts (t_rhs n))"
  have "?k \<in> set (node_clauses c ts xs q)" using rank below_child(2) by (simp add: node_clauses_def)
  then have k: "?k \<in> set (tp_clauses (d_tape d))"
    using node_clause_in_tape[of ts "[]" xs q ys ?k c] ts d unfolding deck_made_def by simp
  have op: "t_op n \<noteq> ORACLE" "args (t_op n) = 2 \<or> t_rhs n = 0"
    using rank_zero_leaf(3)[OF ok below_child(2) rank] node_args[OF ok below_child(2)] rank
    by (auto simp: args_ok_def arity_ok_def operates_def split: if_splits)
  have "operand_row (tp_clauses (d_tape d)) (row_of ts q) (row_of ts r)"
    unfolding operand_row_def using k op below_child(3,4) by (intro bexI[of _ ?k]) auto
  with below_child.IH show ?case by (simp add: used_rows_def)
qed

lemma tape_of_row: "k \<in> set (tape_of c ts xs ys) \<Longrightarrow> \<exists>m \<in> set ys. k_id k = row_of ts m"
proof (induction ys arbitrary: xs)
  case (Cons m ys)
  then show ?case by (auto simp: node_clauses_def split: option.splits if_splits)
qed simp

lemma deck_all_used:
  assumes "store_ok c" "deck_made c root ts d c' clauses x y z"
  shows "all_used (d_tape d)"
proof -
  have "tp_clauses (d_tape d) = tape_of c ts [] ts" "set ts = {q. below c root q}"
    using assms(2) unfolding deck_made_def by blast+
  with tape_of_row[of _ c ts "[]" ts] deck_below_used[OF assms] show ?thesis
    by (force simp: all_used_def)
qed

section \<open>What the marks leave\<close>

text \<open>Which row is needed when another one is, once the branches are chosen.\<close>

definition read_onward :: "(clause \<Rightarrow> keep) \<Rightarrow> clause list \<Rightarrow> nat \<Rightarrow> nat \<Rightarrow> bool" where
  "read_onward fn ks r q \<longleftrightarrow> (\<exists>k \<in> set ks. k_id k = r \<and>
     (if fn k = KEEP_A then q = k_a k else if fn k = KEEP_B then q = k_b k
      else k_op k \<noteq> ORACLE \<and> (q = k_a k \<or> args (k_op k) = 2 \<and> q = k_b k)))"

definition marked :: "(clause \<Rightarrow> keep) \<Rightarrow> push_state \<Rightarrow> clause \<Rightarrow> bool" where
  "marked fn s k \<longleftrightarrow> (if fn k = KEEP_A then p_remap s (k_id k) = k_a k \<and> p_changed s
     else if fn k = KEEP_B then p_remap s (k_id k) = k_b k \<and> p_changed s
     else \<not> p_disabled s (k_id k))"

definition need_inv :: "(clause \<Rightarrow> keep) \<Rightarrow> clause list \<Rightarrow> nat \<Rightarrow> clause list \<Rightarrow> push_state \<Rightarrow> bool" where
  "need_inv fn ks root done s \<longleftrightarrow>
     (\<forall>r. r \<noteq> 0 \<longrightarrow> wanted s r \<longrightarrow> (read_onward fn ks)\<^sup>*\<^sup>* root r)
     \<and> (\<forall>k \<in> set done. wanted s (k_id k) \<longrightarrow> marked fn s k)"

lemma need_inv_step:
  assumes N: "need_inv fn ks root done s"
    and root: "(read_onward fn ks)\<^sup>*\<^sup>* root (k_id k)"
    and new: "\<And>q. q \<noteq> 0 \<Longrightarrow> wanted s' q \<Longrightarrow> wanted s q \<or> read_onward fn ks (k_id k) q"
    and old: "\<And>q. q \<in> k_id ` set done \<Longrightarrow> p_disabled s' q = p_disabled s q \<and> p_remap s' q = p_remap s q"
    and "marked fn s' k" and chg: "p_changed s \<longrightarrow> p_changed s'"
  shows "need_inv fn ks root (done @ [k]) s'"
  unfolding need_inv_def
proof (intro conjI allI impI ballI)
  fix r assume "r \<noteq> 0" "wanted s' r"
  from new[OF this] show "(read_onward fn ks)\<^sup>*\<^sup>* root r"
    using N root \<open>r \<noteq> 0\<close> by (auto simp: need_inv_def)
next
  fix k' assume k': "k' \<in> set (done @ [k])" "wanted s' (k_id k')"
  show "marked fn s' k'"
  proof (cases "k' \<in> set done")
    case True
    with old[of "k_id k'"] k'(2) have "wanted s (k_id k')" by (simp add: wanted_def)
    with N True have "marked fn s k'" by (simp add: need_inv_def)
    with old[of "k_id k'"] True chg show ?thesis by (auto simp: marked_def)
  qed (use k' assms(5) in auto)
qed

lemma mark_clause_need:
  assumes N: "need_inv fn ks root done s" and inv: "mark_inv rows oracles fn root done s"
    and k: "clause_shape rows oracles k" "keep_wf fn [k]" "k \<in> set ks"
    and above: "\<forall>k' \<in> set done. 0 < k_id k' \<and> k_id k' < k_id k"
    and step: "mark_clause orc fn ty contexts s k = Inr s'"
  shows "need_inv fn ks root (done @ [k]) s'"
proof -
  have undone: "k_id k \<notin> k_id ` set done" using above by auto
  have id: "p_remap s (k_id k) = 0"
  proof (rule ccontr)
    assume "p_remap s (k_id k) \<noteq> 0"
    then have "\<exists>k' \<in> set done. k_id k' = k_id k" using inv unfolding mark_inv_def by blast
    with above show False by auto
  qed
  have pos: "0 < k_id k" using k(1) by (simp add: clause_shape_def)
  show ?thesis
  proof (cases "p_disabled s (k_id k)")
    case True
    then have "s' = s" using step by (simp add: mark_clause_def)
    moreover have "\<not> wanted s (k_id k)" using True id by (simp add: wanted_def)
    ultimately show ?thesis using N by (auto simp: need_inv_def)
  next
    case False
    then have root: "(read_onward fn ks)\<^sup>*\<^sup>* root (k_id k)" using N pos by (auto simp: need_inv_def wanted_def)
    have free: "q \<noteq> k_id k" "k_op k \<noteq> ORACLE \<Longrightarrow> q \<noteq> k_a k \<and> q \<noteq> k_b k" if "q \<in> k_id ` set done" for q
      using that above k(1) by (fastforce simp: clause_shape_def split: if_splits)+
    consider (a) "fn k = KEEP_A" | (b) "fn k = KEEP_B" | (op) "fn k \<noteq> KEEP_A" "fn k \<noteq> KEEP_B" "k_op k \<noteq> ORACLE"
      | (orc) "fn k \<noteq> KEEP_A" "fn k \<noteq> KEEP_B" "k_op k = ORACLE" by blast
    then show ?thesis
    proof cases
      case a
      have o: "k_op k \<noteq> ORACLE" "k_a k \<noteq> 0" "k_a k \<noteq> k_id k" using a k by (auto simp: keep_wf_def clause_shape_def)
      have s': "s' = s\<lparr>p_disabled := (p_disabled s)(k_a k := False, k_id k := True), p_remap := (p_remap s)(k_id k := k_a k), p_changed := True\<rparr>"
        using step a False o by (auto simp: mark_clause_def)
      have "read_onward fn ks (k_id k) (k_a k)" using a k(3) by (auto simp: read_onward_def)
      moreover have "wanted s' q \<Longrightarrow> wanted s q \<or> q = k_a k" for q
        using False by (auto simp: s' wanted_def split: if_splits)
      ultimately show ?thesis
        using a free o by (intro need_inv_step[OF N root]) (auto simp: s' marked_def)
    next
      case b
      have o: "k_op k \<noteq> ORACLE" "k_b k \<noteq> 0" "k_b k \<noteq> k_id k" using b k by (auto simp: keep_wf_def clause_shape_def)
      have s': "s' = s\<lparr>p_disabled := (p_disabled s)(k_b k := False, k_id k := True), p_remap := (p_remap s)(k_id k := k_b k), p_changed := True\<rparr>"
        using step b False o by (auto simp: mark_clause_def)
      have "read_onward fn ks (k_id k) (k_b k)" using b k(3) by (auto simp: read_onward_def)
      moreover have "wanted s' q \<Longrightarrow> wanted s q \<or> q = k_b k" for q
        using False by (auto simp: s' wanted_def split: if_splits)
      ultimately show ?thesis
        using b free o by (intro need_inv_step[OF N root]) (auto simp: s' marked_def)
    next
      case op
      have s': "p_disabled s' = (p_disabled s)(k_a k := False, k_b k := False)" "p_remap s' = p_remap s" "p_changed s' = p_changed s"
        using step op False id by (cases "fn k"; auto simp: mark_clause_def)+
      have new: "read_onward fn ks (k_id k) q" if "q \<noteq> 0" "q = k_a k \<or> q = k_b k" for q
      proof -
        have "q = k_a k \<or> args (k_op k) = 2 \<and> q = k_b k" using that k(1) op(3) by (auto simp: clause_shape_def)
        with op k(3) show ?thesis by (auto simp: read_onward_def)
      qed
      show ?thesis
      proof (rule need_inv_step[OF N root])
        show "wanted s q \<or> read_onward fn ks (k_id k) q" if "q \<noteq> 0" "wanted s' q" for q
          using new[OF that(1)] that(2) by (cases "q = k_a k \<or> q = k_b k") (auto simp: wanted_def s')
        show "p_disabled s' q = p_disabled s q \<and> p_remap s' q = p_remap s q" if "q \<in> k_id ` set done" for q
          using free(2)[OF that op(3)] by (simp add: s')
        show "marked fn s' k" using op False by (simp add: marked_def s')
        show "p_changed s \<longrightarrow> p_changed s'" by (simp add: s')
      qed
    next
      case orc
      have s': "p_disabled s' = p_disabled s" "p_remap s' = p_remap s" "p_changed s \<longrightarrow> p_changed s'"
        using step orc False id by (cases "fn k"; auto simp: mark_clause_def Let_def split: if_splits)+
      show ?thesis
        using orc False s' by (intro need_inv_step[OF N root]) (auto simp: s' marked_def wanted_def)
    qed
  qed
qed

lemma mark_all_need:
  assumes "tape_shape rows oracles (done @ ks)" "keep_wf fn ks" "mark_inv rows oracles fn root done s"
    "need_inv fn all root done s" "set ks \<subseteq> set all" "length contexts = oracles"
    "foldE (mark_clause orc fn ty contexts) s ks = Inr s'"
  shows "need_inv fn all root (done @ ks) s'"
  using assms
proof (induction ks arbitrary: "done" s)
  case (Cons k ks)
  obtain s1 where s1: "mark_clause orc fn ty contexts s k = Inr s1" "foldE (mark_clause orc fn ty contexts) s1 ks = Inr s'"
    using Cons.prems(7) by (auto simp: bindE_Inr_iff)
  have k: "clause_shape rows oracles k" "keep_wf fn [k]" "\<forall>k' \<in> set done. 0 < k_id k' \<and> k_id k' < k_id k"
    using Cons.prems(1,2) by (auto simp: tape_shape_def sorted_wrt_append keep_wf_def clause_shape_def)
  have "mark_inv rows oracles fn root (done @ [k]) s1"
    using mark_clause_ok[OF Cons.prems(3) k Cons.prems(6), of orc ty] s1(1) by auto
  moreover have "need_inv fn all root (done @ [k]) s1"
    using mark_clause_need[OF Cons.prems(4,3) k(1,2) _ k(3) s1(1)] Cons.prems(5) by simp
  ultimately show ?case using Cons.IH[of "done @ [k]" s1] Cons.prems s1(2) by (auto simp: keep_wf_def)
qed simp

section \<open>The shorter tape\<close>

lemma chase_more: "chase n remap r = Inr q \<Longrightarrow> chase (Suc n) remap r = Inr q"
proof (induction n arbitrary: r)
  case (Suc n)
  show ?case
  proof (cases "remap r = 0")
    case False
    with Suc have "chase (Suc n) remap (remap r) = Inr q" by simp
    with False show ?thesis by (simp only: chase.simps(2)[of "Suc n"] if_False)
  qed (use Suc.prems in simp)
qed (simp split: if_splits)

lemma last_row_remap:
  assumes "marks_ok rows fn ks s" "p_remap s r \<noteq> 0"
  shows "last_row rows s r = last_row rows s (p_remap s r)"
proof -
  have "r < p_remap s r" "p_remap s r \<le> rows" using assms by (auto simp: marks_ok_def)
  then obtain n where n: "rows = Suc n" by (cases rows) auto
  have "chase n (p_remap s) (p_remap s r) = Inr (last_row rows s r)"
    using last_row(1)[OF assms(1), of r] assms(2) by (simp add: n)
  from chase_more[OF this] last_row(1)[OF assms(1), of "p_remap s r"] show ?thesis by (simp add: n)
qed

text \<open>The rows a root needs end at rows that the shorter tape reads.\<close>

lemma needed_read:
  assumes m: "marks_ok rows fn ks s" and N: "need_inv fn ks root ks s" and shape: "tape_shape rows oracles ks"
    and wf: "keep_wf fn ks" and root: "wanted s root"
  shows "(read_onward fn ks)\<^sup>*\<^sup>* root r \<Longrightarrow>
    wanted s r \<and> (operand_row (shorter rows s ks))\<^sup>*\<^sup>* (last_row rows s root) (last_row rows s r)"
proof (induction rule: rtranclp_induct)
  case (step r q)
  from step.hyps(2) obtain k where k: "k \<in> set ks" "k_id k = r" and q: "if fn k = KEEP_A then q = k_a k
      else if fn k = KEEP_B then q = k_b k else k_op k \<noteq> ORACLE \<and> (q = k_a k \<or> args (k_op k) = 2 \<and> q = k_b k)"
    unfolding read_onward_def by blast
  have mk: "marked fn s k" using N k step.IH by (auto simp: need_inv_def)
  have sh: "clause_shape rows oracles k" using shape k(1) by (simp add: tape_shape_def)
  show ?case
  proof (cases "fn k = KEEP_A \<or> fn k = KEEP_B")
    case True
    then have "p_remap s r = q" "q \<noteq> 0"
      using mk q k sh wf by (auto simp: marked_def keep_wf_def clause_shape_def split: if_splits)
    with last_row_remap[OF m, of r] m step.IH show ?thesis by (auto simp: marks_ok_def)
  next
    case False
    then have e: "\<not> p_disabled s (k_id k)" "k_op k \<noteq> ORACLE" "q = k_a k \<or> args (k_op k) = 2 \<and> q = k_b k"
      using mk q by (auto simp: marked_def)
    then have w: "operands_wanted s k" "p_remap s r = 0" using m k by (auto simp: marks_ok_def)
    have "redirect rows s k \<in> set (shorter rows s ks)" using k(1) e(1) by (simp add: shorter_def)
    then have "operand_row (shorter rows s ks) (last_row rows s r) (last_row rows s q)"
      unfolding operand_row_def last_row(5)[OF m w(2)] using e k(2)
      by (intro bexI[of _ "redirect rows s k"]) (auto simp: redirect_def)
    with step.IH w(1) e show ?thesis by (auto simp: operands_wanted_def)
  qed
qed (simp add: root)

lemma shorter_pruned:
  assumes m: "marks_ok rows fn ks s" and N: "need_inv fn ks root ks s" and shape: "tape_shape rows oracles ks"
    and wf: "keep_wf fn ks" and root: "wanted s root"
  shows "\<forall>k' \<in> set (shorter rows s ks). (operand_row (shorter rows s ks))\<^sup>*\<^sup>* (last_row rows s root) (k_id k')
    \<and> (\<exists>k \<in> set ks. fn k \<noteq> KEEP_A \<and> fn k \<noteq> KEEP_B \<and> k' = redirect rows s k)"
proof
  fix k' assume "k' \<in> set (shorter rows s ks)"
  then obtain k where k: "k \<in> set ks" "\<not> p_disabled s (k_id k)" "k' = redirect rows s k" by (auto simp: shorter_def)
  have sh: "clause_shape rows oracles k" using shape k(1) by (simp add: tape_shape_def)
  have w: "wanted s (k_id k)" "p_remap s (k_id k) = 0" using k m by (auto simp: wanted_def marks_ok_def)
  then have "(read_onward fn ks)\<^sup>*\<^sup>* root (k_id k)" using N sh by (auto simp: need_inv_def clause_shape_def)
  from needed_read[OF m N shape wf root this] last_row(5)[OF m w(2)] k(3)
  have "(operand_row (shorter rows s ks))\<^sup>*\<^sup>* (last_row rows s root) (k_id k')" by simp
  moreover have "fn k \<noteq> KEEP_A \<and> fn k \<noteq> KEEP_B"
  proof -
    have "marked fn s k" using N k(1) w(1) by (simp add: need_inv_def)
    with w(2) k(1) sh wf show ?thesis by (auto simp: marked_def keep_wf_def clause_shape_def split: if_splits)
  qed
  ultimately show "(operand_row (shorter rows s ks))\<^sup>*\<^sup>* (last_row rows s root) (k_id k')
    \<and> (\<exists>k \<in> set ks. fn k \<noteq> KEEP_A \<and> fn k \<noteq> KEEP_B \<and> k' = redirect rows s k)" using k by blast
qed

text \<open>A clause whose branch was chosen is disabled; without such a clause all that is read stays.\<close>

lemma chosen_disabled:
  assumes m: "marks_ok rows fn ks s" and N: "need_inv fn ks root ks s" and shape: "tape_shape rows oracles ks"
    and wf: "keep_wf fn ks" and k: "k \<in> set ks" "fn k = KEEP_A \<or> fn k = KEEP_B"
  shows "p_disabled s (k_id k)"
proof (rule ccontr)
  assume e: "\<not> p_disabled s (k_id k)"
  then have "marked fn s k" using N k(1) by (simp add: need_inv_def wanted_def)
  moreover have "clause_shape rows oracles k" using shape k(1) by (simp add: tape_shape_def)
  moreover have "p_remap s (k_id k) = 0" using e k(1) m by (simp add: marks_ok_def)
  ultimately show False using k wf by (auto simp: marked_def keep_wf_def clause_shape_def split: if_splits)
qed

lemma unchosen_enabled:
  assumes m: "marks_ok rows fn (tp_clauses tp) s" and N: "need_inv fn (tp_clauses tp) (tp_root tp) (tp_clauses tp) s"
    and root: "wanted s (tp_root tp)" and none: "\<forall>k \<in> set (tp_clauses tp). wanted s (k_id k) \<longrightarrow> fn k \<noteq> KEEP_A \<and> fn k \<noteq> KEEP_B"
  shows "r \<in> used_rows tp \<Longrightarrow> wanted s r"
  unfolding used_rows_def mem_Collect_eq
proof (induction rule: rtranclp_induct)
  case (step r q)
  then obtain k where k: "k \<in> set (tp_clauses tp)" "k_id k = r" "k_op k \<noteq> ORACLE" "q = k_a k \<or> args (k_op k) = 2 \<and> q = k_b k"
    unfolding operand_row_def by blast
  with none N step.IH have "\<not> p_disabled s (k_id k)" by (auto simp: need_inv_def marked_def)
  with m k show ?case by (auto simp: marks_ok_def operands_wanted_def)
qed (rule root)

text \<open>The result of a push, on a tape all of which is read.\<close>

lemma push_tape_pruned:
  assumes tp: "tape_ok d tp" "\<not> tp_terminal tp" "all_used tp" and wf: "keep_wf fn (tp_clauses tp)"
    and t: "push_tape orc d fn ty bx by' bz tp = Inr t"
  shows "all_used t
    \<and> (\<forall>k' \<in> set (tp_clauses t). \<exists>k \<in> set (tp_clauses tp). fn k \<noteq> KEEP_A \<and> fn k \<noteq> KEEP_B
         \<and> (k' = k \<or> k_op k' = k_op k \<and> rtranclp (choice fn (tp_clauses tp)) (k_a k) (k_a k')
              \<and> rtranclp (choice fn (tp_clauses tp)) (k_b k) (k_b k')))
    \<and> (length (tp_clauses t) < length (tp_clauses tp)) = (\<exists>k \<in> set (tp_clauses tp). fn k = KEEP_A \<or> fn k = KEEP_B)"
proof -
  let ?ks = "tp_clauses tp" and ?rows = "d_num_clauses d" and ?or = "length (d_oracles d)"
  let ?s0 = "\<lparr>p_disabled = (\<lambda>_. True)(tp_root tp := False), p_remap = (\<lambda>_. 0), p_contexts = tp_contexts tp,
                  p_terminal = True, p_changed = False\<rparr>"
  have shape: "tape_shape ?rows ?or ?ks" and ctx: "length (tp_contexts tp) = ?or" using tp(1) by (simp_all add: tape_ok_def)
  have i0: "mark_inv ?rows ?or fn (tp_root tp) [] ?s0"
    using tp(1) by (simp add: mark_inv_def wanted_def tape_ok_def)
  have n0: "need_inv fn ?ks (tp_root tp) [] ?s0" by (simp add: need_inv_def wanted_def)
  from mark_all[OF _ wf i0 ctx, of orc ty] shape
  obtain s where s: "foldE (mark_clause orc fn ty (tp_contexts tp)) ?s0 ?ks = Inr s"
    "mark_inv ?rows ?or fn (tp_root tp) ?ks s" by auto
  have N: "need_inv fn ?ks (tp_root tp) ?ks s"
    using mark_all_need[OF _ wf i0 n0 subset_refl ctx s(1)] shape by simp
  have m: "marks_ok ?rows fn ?ks s" by (rule marks_ok_final[OF s(2) shape wf])
  have root: "wanted s (tp_root tp)" using s(2) by (simp add: mark_inv_def)
  have used: "\<forall>k \<in> set ?ks. k_id k \<in> used_rows tp" using tp(3) by (simp add: all_used_def)
  from keep_clauses[OF m] obtain os where os: "mapE (keep_clause ?rows s) ?ks = Inr os"
    "collect os = shorter ?rows s ?ks" by blast
  have enabled: "\<forall>k \<in> set ?ks. \<not> p_disabled s (k_id k)" if none: "\<forall>k \<in> set ?ks. wanted s (k_id k) \<longrightarrow> fn k \<noteq> KEEP_A \<and> fn k \<noteq> KEEP_B"
  proof
    fix k assume k: "k \<in> set ?ks"
    then have "wanted s (k_id k)" using unchosen_enabled[OF m N root none] used by blast
    with none N k show "\<not> p_disabled s (k_id k)" by (auto simp: need_inv_def marked_def)
  qed
  show ?thesis
  proof (cases "p_changed s")
    case False
    then have "t = tp" using t tp(2) ctx s(1) by (simp add: push_tape_def)
    moreover have none: "\<forall>k \<in> set ?ks. wanted s (k_id k) \<longrightarrow> fn k \<noteq> KEEP_A \<and> fn k \<noteq> KEEP_B"
      using N False by (auto simp: need_inv_def marked_def split: if_splits)
    then have "\<forall>k \<in> set ?ks. fn k \<noteq> KEEP_A \<and> fn k \<noteq> KEEP_B"
      using enabled by (auto simp: wanted_def)
    ultimately show ?thesis using tp(3) by auto
  next
    case True
    then have t': "tp_clauses t = shorter ?rows s ?ks" "tp_root t = last_row ?rows s (tp_root tp)"
      using t tp(2) ctx s(1) os last_row(1)[OF m, of "tp_root tp"] by (auto simp: push_tape_def split: if_splits)
    note P = shorter_pruned[OF m N shape wf root]
    have "all_used t" using P by (auto simp: all_used_def used_rows_def t')
    moreover have "k' = k \<or> k_op k' = k_op k \<and> rtranclp (choice fn ?ks) (k_a k) (k_a k') \<and> rtranclp (choice fn ?ks) (k_b k) (k_b k')"
      if "k' = redirect ?rows s k" for k' k
      using that last_row(6)[OF m, of "k_a k"] last_row(6)[OF m, of "k_b k"] by (auto simp: redirect_def)
    moreover have "(length (shorter ?rows s ?ks) < length ?ks) = (\<exists>k \<in> set ?ks. p_disabled s (k_id k))"
      by (auto simp: shorter_def intro: length_filter_less) (metis (mono_tags, lifting) filter_True less_irrefl_nat)
    moreover have "(\<exists>k \<in> set ?ks. p_disabled s (k_id k)) = (\<exists>k \<in> set ?ks. fn k = KEEP_A \<or> fn k = KEEP_B)"
      using chosen_disabled[OF m N shape wf] enabled by blast
    ultimately show ?thesis using P unfolding t' by (metis (no_types, lifting))
  qed
qed

section \<open>Pushing at a point\<close>

text \<open>Neither operand of a minimum or maximum is below the other.\<close>

definition undecided :: "row_values \<Rightarrow> clause \<Rightarrow> bool" where
  "undecided w k \<longleftrightarrow> (k_op k = OP_MIN \<or> k_op k = OP_MAX \<longrightarrow>
     \<not> f32_lt (w ! k_a k) (w ! k_b k) \<and> \<not> f32_lt (w ! k_b k) (w ! k_a k))"

lemma undecided_keep: "undecided w k \<longleftrightarrow> array_keep w k \<noteq> KEEP_A \<and> array_keep w k \<noteq> KEEP_B"
  by (auto simp: undecided_def array_keep_def Let_def)

lemma valueAndPush_pruned:
  assumes "tape_ok d tp" "\<not> tp_terminal tp" "all_used tp" "selects lib" "d_num_clauses d < length v"
    and "array_value lib ask d tp px py pz v = Inr (out, w)"
  shows "\<exists>t u. valueAndPush lib ask orc d tp px py pz v = Inr ((out, t), w) \<and> tape_ok d t
    \<and> array_value lib ask d t px py pz v = Inr (out, u)
    \<and> all_used t \<and> (\<forall>k \<in> set (tp_clauses t). undecided w k)
    \<and> (length (tp_clauses t) < length (tp_clauses tp)) = (\<exists>k \<in> set (tp_clauses tp). \<not> undecided w k)"
proof -
  obtain t u where t: "valueAndPush lib ask orc d tp px py pz v = Inr ((out, t), w)" "tape_ok d t"
    "array_value lib ask d t px py pz v = Inr (out, u)"
    using valueAndPush_value[OF assms(1,4-6), of orc] by blast
  then have push: "push_tape orc d (array_keep w) SPECIALIZED (0, 0) (0, 0) (0, 0) tp = Inr t"
    using assms(6) by (auto simp: valueAndPush_def bindE_Inr_iff)
  have w: "foldE (eval_clause lib ask) (set_point d px py pz v) (rev (tp_clauses tp)) = Inr w"
    using assms(6) by (auto simp: array_value_def eval_tape_def bindE_Inr_iff)
  have "choice_right (array_keep w) (tp_clauses tp) w"
  proof (rule array_choice_right[OF assms(4)])
    have "tape_shape (d_num_clauses d) (length (d_oracles d)) (tp_clauses tp)" using assms(1) by (simp add: tape_ok_def)
    moreover have "d_num_clauses d < length (set_point d px py pz v)" using assms(5) by (simp add: set_point_def)
    ultimately show "\<forall>k \<in> set (tp_clauses tp). row_right (clause_value lib) ask w k" using point.walk_rows[OF _ _ w] by blast
  qed
  note same = choice_right_path[OF _ this]
  note P = push_tape_pruned[OF assms(1-3) array_keep_wf push]
  have "undecided w k'" if "k' \<in> set (tp_clauses t)" for k'
  proof -
    obtain k where k: "k \<in> set (tp_clauses tp)" "array_keep w k \<noteq> KEEP_A" "array_keep w k \<noteq> KEEP_B"
      "k' = k \<or> k_op k' = k_op k \<and> rtranclp (choice (array_keep w) (tp_clauses tp)) (k_a k) (k_a k')
         \<and> rtranclp (choice (array_keep w) (tp_clauses tp)) (k_b k) (k_b k')"
      using P \<open>k' \<in> set (tp_clauses t)\<close> by blast
    then have "undecided w k" by (simp add: undecided_keep)
    with k(4) same[of "k_a k" "k_a k'"] same[of "k_b k" "k_b k'"] show ?thesis by (auto simp: undecided_def)
  qed
  moreover have "(\<exists>k \<in> set (tp_clauses tp). array_keep w k = KEEP_A \<or> array_keep w k = KEEP_B)
      = (\<exists>k \<in> set (tp_clauses tp). \<not> undecided w k)" by (auto simp: undecided_keep)
  ultimately show ?thesis using t P by metis
qed

end
