(* ===== verification/KernelProps.thy ===== *)
theory KernelProps
  imports Libfive TapePruned
begin

text \<open>
  Properties of the implicit-function kernel: what a client of the C entry points can rely on, the
  sharing of expressions, the values that the store's rewriting keeps, and the tape of a tree.
\<close>

section \<open>Giving references back\<close>

lemma constant_builds_handle:
  assumes "store_ok c" "fresh_addresses alloc"
  shows "builds c (Inr (constant_node alloc v c))"
proof -
  obtain p c' where e: "constant_node alloc v c = (p, c')" by force
  from constant_node_ok[OF assms e] store_ok_live show ?thesis by (auto simp: builds_def e)
qed

lemma length_filter_node: "node_at c p \<noteq> None \<Longrightarrow> length (filter (\<lambda>(q, _). q \<noteq> p) (c_nodes c)) < length (c_nodes c)"
  by (rule length_filter_less[of "(p, the (node_at c p))"]) (auto dest: map_of_SomeD)

lemma tree_destructor_nodes:
  "tree_destructor p c = Inr c' \<Longrightarrow> c_nodes c' = filter (\<lambda>(q, _). q \<noteq> p) (c_nodes c)"
  by (auto simp: tree_destructor_def bindE_Inr_iff del_constant_def del_operation_def Let_def split: if_splits)

lemma release_ok:
  "store_ok c \<Longrightarrow> p \<noteq> 0 \<longrightarrow> live c p \<Longrightarrow> \<forall>q. held q \<and> q \<noteq> 0 \<longrightarrow> live c q \<Longrightarrow> length (c_nodes c) < fuel \<Longrightarrow>
   \<exists>c'. release fuel held p c = Inr c' \<and> store_ok c' \<and> extends c' c \<and> length (c_nodes c') \<le> length (c_nodes c)
     \<and> (\<forall>q. held q \<longrightarrow> node_at c' q = node_at c q)"
proof (induction fuel arbitrary: held p c)
  case (Suc fuel)
  show ?case
  proof (cases "p = 0 \<or> held p \<or> referenced c p")
    case True
    with Suc.prems show ?thesis by auto
  next
    case False
    then obtain n where n: "node_at c p = Some n" using Suc.prems(2) by (auto simp: live_def)
    from tree_destructor_ok[OF Suc.prems(1) n] False
    obtain c1 where c1: "tree_destructor p c = Inr c1" "store_ok c1" "\<forall>q. node_at c1 q = (if q = p then None else node_at c q)" by blast
    have ext: "extends c1 c" using c1(3) by (auto simp: extends_def split: if_splits)
    have less: "length (c_nodes c1) < length (c_nodes c)"
      using length_filter_node[of c p] n tree_destructor_nodes[OF c1(1)] by simp
    have kid: "q \<noteq> 0 \<longrightarrow> live c1 q" if "q = t_lhs n \<or> q = t_rhs n" for q
    proof
      assume "q \<noteq> 0"
      from node_child[OF Suc.prems(1) n that] this obtain m where "node_at c q = Some m" "t_rank m < t_rank n" by auto
      with n c1(3) \<open>q \<noteq> 0\<close> show "live c1 q" by (auto simp: live_def)
    qed
    have held: "held q \<Longrightarrow> node_at c1 q = node_at c q" for q using c1(3) False by auto
    have "\<forall>q. (held q \<or> q = t_lhs n) \<and> q \<noteq> 0 \<longrightarrow> live c1 q"
      using Suc.prems(3) held kid by (auto simp: live_def)
    from Suc.IH[OF c1(2) _ this, of "t_rhs n"] kid[of "t_rhs n"] less Suc.prems(4)
    obtain c2 where c2: "release fuel (\<lambda>q. held q \<or> q = t_lhs n) (t_rhs n) c1 = Inr c2" "store_ok c2" "extends c2 c1"
      "length (c_nodes c2) \<le> length (c_nodes c1)" "\<forall>q. held q \<or> q = t_lhs n \<longrightarrow> node_at c2 q = node_at c1 q" by auto
    have "t_lhs n \<noteq> 0 \<longrightarrow> live c2 (t_lhs n)" "\<forall>q. held q \<and> q \<noteq> 0 \<longrightarrow> live c2 q"
      using kid[of "t_lhs n"] c2(5) Suc.prems(3) held by (auto simp: live_def)
    from Suc.IH[OF c2(2) this] c2(4) less Suc.prems(4)
    obtain c3 where c3: "release fuel held (t_lhs n) c2 = Inr c3" "store_ok c3" "extends c3 c2"
      "length (c_nodes c3) \<le> length (c_nodes c2)" "\<forall>q. held q \<longrightarrow> node_at c3 q = node_at c2 q" by auto
    have "extends c3 c" using c3(3) c2(3) ext by (auto simp: extends_def)
    with c1(1) c2 c3 False n held less show ?thesis by auto
  qed
qed simp

section \<open>The entry points\<close>

lemma valid_opcode:
  assumes "opcode_is_valid op k"
  shows "args (opcode_of (nat op)) = k" "opcode_of (nat op) \<noteq> LAST_OP" "op = int (opcode_number (opcode_of (nat op)))"
proof -
  have op: "0 \<le> op" "op < 33" "args (opcode_of (nat op)) = k" using assms by (auto simp: opcode_is_valid_def)
  have "opcode_of (nat op) \<in> opcode_of ` set [0..<33]" using op by (intro imageI) simp
  then have last: "opcode_of (nat op) \<noteq> LAST_OP" unfolding opcodes_below_33 by simp
  have "distinct all_opcodes" "length all_opcodes = 34" by (simp_all add: all_opcodes_def)
  moreover have "all_opcodes ! opcode_number (opcode_of (nat op)) = all_opcodes ! nat op"
    using opcode_number_of[of "opcode_of (nat op)"] by (simp add: opcode_of_def)
  moreover have "nat op < 34" using op by simp
  ultimately have "opcode_number (opcode_of (nat op)) = nat op"
    using nth_eq_iff_index_eq[of all_opcodes "opcode_number (opcode_of (nat op))" "nat op"] opcode_number_less by simp
  with op last show "args (opcode_of (nat op)) = k" "opcode_of (nat op) \<noteq> LAST_OP" "op = int (opcode_number (opcode_of (nat op)))"
    by simp_all
qed

text \<open>The exponents that the constructor of a tree accepts.\<close>

definition exponent_ok :: "opcode \<Rightarrow> tnode option \<Rightarrow> bool" where
  "exponent_ok op n \<longleftrightarrow>
     (op = OP_POW \<or> op = OP_NTH_ROOT \<longrightarrow> (case n of None \<Rightarrow> False | Some m \<Rightarrow> t_op m = CONSTANT \<and> is_integral (t_value m)
        \<and> (op = OP_NTH_ROOT \<longrightarrow> f32_lt 0 (t_value m))))"

lemma exponent_ok_iff:
  "exponent_ok op n \<longleftrightarrow>
     (op = OP_POW \<or> op = OP_NTH_ROOT \<longrightarrow> (\<exists>m. n = Some m \<and> t_op m = CONSTANT \<and> is_integral (t_value m)
        \<and> (op = OP_NTH_ROOT \<longrightarrow> f32_lt 0 (t_value m))))"
  by (cases n) (auto simp: exponent_ok_def)

lemma Tree_operation_builds:
  assumes "store_ok c" "fresh_addresses alloc" "operates op" "args_ok c op a b"
  shows "case Tree_operation lib alloc fuel op a b c of
      Inl e \<Rightarrow> e = OutOfFuel \<or> e = AssertFailed \<and> \<not> exponent_ok op (node_at c b)
    | Inr (p, c') \<Rightarrow> store_ok c' \<and> extends c c' \<and> live c' p \<and> exponent_ok op (node_at c b)"
proof (cases "operation lib alloc fuel True op a b c")
  case (Inl e)
  with operation_builds[OF assms(2,1,3,4), of lib fuel True] show ?thesis by (simp add: Tree_operation_def builds_def)
next
  case (Inr r)
  obtain p c' where r: "r = (p, c')" by force
  from operation_builds[OF assms(2,1,3,4), of lib fuel True] Inr r
  have c': "store_ok c'" "extends c c'" "live c' p" by (simp_all add: builds_def)
  have arity: "args op = 0 \<and> a = 0 \<and> b = 0 \<or> args op = 1 \<and> a \<noteq> 0 \<and> b = 0 \<or> args op = 2 \<and> a \<noteq> 0 \<and> b \<noteq> 0"
    using assms(4) by (auto simp: args_ok_def arity_ok_def split: if_splits)
  have b: "\<exists>n. node_at c b = Some n \<and> node_at c' b = Some n" if "op = OP_POW \<or> op = OP_NTH_ROOT"
    using that assms(4) c'(2) by (auto simp: args_ok_def arity_ok_def args_def live_def extends_def split: if_splits)
  show ?thesis using Inr r c' arity b by (auto simp: Tree_operation_def exponent_ok_iff)
qed

text \<open>The power or root of two trees that the constructor refuses.\<close>

definition bad_exponent :: "call \<Rightarrow> api \<Rightarrow> bool" where
  "bad_exponent k s \<longleftrightarrow> (case k of
     Binary op (Some a) (Some b) \<Rightarrow> opcode_is_valid op 2 \<and> \<not> exponent_ok (opcode_of (nat op)) (node_at (a_cache s) b)
   | _ \<Rightarrow> False)"

lemma bad_exponent_simps [simp]:
  "\<not> bad_exponent (Const v) s" "\<not> bad_exponent Var s" "\<not> bad_exponent (Nonary op) s"
  "\<not> bad_exponent (Unary op h) s" "\<not> bad_exponent (Delete h) s"
  "\<not> bad_exponent (Binary op None h) s" "\<not> bad_exponent (Binary op h None) s"
  "\<not> opcode_is_valid op 2 \<Longrightarrow> \<not> bad_exponent (Binary op h h') s"
  "opcode_is_valid op 2 \<Longrightarrow> bad_exponent (Binary op (Some a) (Some b)) s
     = (\<not> exponent_ok (opcode_of (nat op)) (node_at (a_cache s) b))"
  by (auto simp: bad_exponent_def split: option.splits)

text \<open>The outcome of a call on trees the caller owns.\<close>

definition outcome_ok :: "call \<Rightarrow> api \<Rightarrow> fault + api \<Rightarrow> bool" where
  "outcome_ok k s r \<longleftrightarrow> (case r of
     Inl e \<Rightarrow> e = OutOfFuel \<or> e = AssertFailed \<and> bad_exponent k s
   | Inr s' \<Rightarrow> api_ok s' \<and> \<not> bad_exponent k s)"

lemma received_ok:
  assumes "api_ok s" "extends (a_cache s) c'" "store_ok c'" "\<forall>p. h = Some p \<longrightarrow> live c' p"
  shows "api_ok (received s (h, c'))"
  using assms live_extends by (auto simp: api_ok_def received_def split: option.splits)

lemma leaf_call_ok:
  assumes "api_ok s" "fresh_addresses alloc" "k = Const v \<or> k = Var"
  shows "outcome_ok k s (call lib alloc fuel k s)"
proof -
  obtain p c' where v: "var alloc (a_cache s) = (p, c')" by force
  obtain q c'' where k: "constant_node alloc v (a_cache s) = (q, c'')" by force
  have "store_ok (a_cache s)" using assms(1) by (simp add: api_ok_def)
  from var_ok[OF this assms(2) v] constant_builds_handle[OF this assms(2), of v] k assms(1,3) show ?thesis
    by (auto simp: outcome_ok_def call_def builds_def new_handle_def libfive_tree_const_def libfive_tree_var_def
        Tree_constant_def Tree_var_def v intro!: received_ok)
qed

lemma operation_call_ok:
  assumes "api_ok s" "fresh_addresses alloc" "operates op" "args_ok (a_cache s) op a b"
    and e: "bad_exponent k s = (\<not> exponent_ok op (node_at (a_cache s) b))"
  shows "outcome_ok k s (bindE (new_handle (Tree_operation lib alloc fuel op a b (a_cache s))) (\<lambda>r. Inr (received s r)))"
proof -
  have "store_ok (a_cache s)" using assms(1) by (simp add: api_ok_def)
  from Tree_operation_builds[OF this assms(2-4), of lib fuel] e show ?thesis
    by (auto simp: new_handle_def outcome_ok_def bindE_def split: sum.splits intro!: received_ok[OF assms(1)])
qed

lemma exponent_ok_other: "op \<noteq> OP_POW \<Longrightarrow> op \<noteq> OP_NTH_ROOT \<Longrightarrow> exponent_ok op n"
  by (simp add: exponent_ok_def)

lemma unary_opcode:
  "args op = 1 \<Longrightarrow> operates op \<and> op \<noteq> OP_POW \<and> op \<noteq> OP_NTH_ROOT"
  by (cases op) (simp_all add: args_def operates_def)

lemma binary_opcode: "args op = 2 \<Longrightarrow> operates op"
  by (cases op) (simp_all add: args_def operates_def)

lemma nonary_opcode:
  "args op = 0 \<Longrightarrow> op \<noteq> LAST_OP \<Longrightarrow> op \<notin> {CONSTANT, VAR_FREE, ORACLE} \<Longrightarrow> operates op \<and> op \<noteq> OP_POW \<and> op \<noteq> OP_NTH_ROOT"
  by (cases op) (simp_all add: args_def operates_def)

lemma rejected_ok: "api_ok s \<Longrightarrow> \<not> bad_exponent k s \<Longrightarrow> outcome_ok k s (Inr (received s (None, a_cache s)))"
  by (simp add: outcome_ok_def received_def)

lemma delete_ok:
  assumes "api_ok s" "owned s h"
  shows "\<exists>s'. libfive_tree_delete h s = Inr s' \<and> api_ok s' \<and> extends (a_cache s') (a_cache s)
    \<and> a_trees s' = (case h of None \<Rightarrow> a_trees s | Some p \<Rightarrow> remove1 p (a_trees s))"
proof (cases h)
  case None
  with assms show ?thesis by (auto simp: libfive_tree_delete_def)
next
  case (Some p)
  let ?ts = "remove1 p (a_trees s)"
  have c: "store_ok (a_cache s)" "live (a_cache s) p" "\<forall>q \<in> set ?ts. live (a_cache s) q"
    using assms Some set_remove1_subset[of p "a_trees s"] by (auto simp: api_ok_def owned_def)
  then obtain c' where c': "release (Suc (length (c_nodes (a_cache s)))) (\<lambda>q. q \<in> set ?ts) p (a_cache s) = Inr c'" "store_ok c'"
    "extends c' (a_cache s)" "\<forall>q. q \<in> set ?ts \<longrightarrow> node_at c' q = node_at (a_cache s) q"
    using release_ok[of "a_cache s" p "\<lambda>q. q \<in> set ?ts" "Suc (length (c_nodes (a_cache s)))"] by auto
  then have "\<forall>q \<in> set ?ts. live c' q" using c(3) by (auto simp: live_def)
  with c' Some show ?thesis by (simp add: libfive_tree_delete_def api_ok_def)
qed

lemma call_outcome:
  assumes s: "api_ok s" and alloc: "fresh_addresses alloc" and k: "call_ok k s"
  shows "outcome_ok k s (call lib alloc fuel k s)"
proof (cases k)
  case (Nonary op)
  show ?thesis
  proof (cases "opcode_is_valid op 0")
    case True
    note v = valid_opcode[OF True]
    have "opcode_of (nat op) \<notin> {CONSTANT, VAR_FREE, ORACLE}" using k Nonary v(3) by (auto simp: call_ok_def)
    from nonary_opcode[OF v(1,2) this] True v(1) s alloc Nonary show ?thesis
      by (auto simp: call_def libfive_tree_nonary_def args_leaf exponent_ok_other intro!: operation_call_ok)
  qed (use s Nonary rejected_ok in \<open>simp add: call_def libfive_tree_nonary_def\<close>)
next
  case (Unary op a)
  show ?thesis
  proof (cases "opcode_is_valid op 1 \<and> a \<noteq> None")
    case True
    then obtain p where p: "a = Some p" "live (a_cache s) p" using k s Unary by (auto simp: call_ok_def owned_def api_ok_def)
    note v = valid_opcode(1)[OF conjunct1[OF True]]
    from unary_opcode[OF v] True v p s alloc Unary show ?thesis
      by (auto simp: call_def libfive_tree_unary_def the_tree_def args_unary exponent_ok_other intro!: operation_call_ok)
  next
    case False
    with s Unary rejected_ok show ?thesis by (simp add: call_def libfive_tree_unary_def del: de_Morgan_conj)
  qed
next
  case (Binary op a b)
  show ?thesis
  proof (cases "opcode_is_valid op 2 \<and> a \<noteq> None \<and> b \<noteq> None")
    case True
    then obtain p q where p: "a = Some p" "live (a_cache s) p" "b = Some q" "live (a_cache s) q"
      using k s Binary by (auto simp: call_ok_def owned_def api_ok_def)
    note v = valid_opcode(1)[OF conjunct1[OF True]]
    have "bad_exponent k s = (\<not> exponent_ok (opcode_of (nat op)) (node_at (a_cache s) q))"
      using True Binary p(1,3) by simp
    with binary_opcode[OF v] True v p s alloc Binary show ?thesis
      by (auto simp: call_def libfive_tree_binary_def the_tree_def args_binary intro!: operation_call_ok)
  next
    case False
    then have "\<not> bad_exponent k s" using Binary by auto
    from rejected_ok[OF s this] False Binary show ?thesis
      by (simp add: call_def libfive_tree_binary_def del: de_Morgan_conj)
  qed
next
  case (Delete h)
  with k delete_ok[OF s, of h] show ?thesis by (auto simp: call_def call_ok_def outcome_ok_def)
qed (use leaf_call_ok[OF s alloc] in auto)

lemma reachable_ok:
  assumes "fresh_addresses alloc"
  shows "api_reachable lib alloc s \<Longrightarrow> api_ok s"
proof (induction rule: api_reachable.induct)
  case (api_next s s')
  then obtain k fuel where "call_ok k s" "call lib alloc fuel k s = Inr s'" by (auto elim: api_step.cases)
  with call_outcome[OF api_next.IH assms, of k lib fuel] show ?case by (simp add: outcome_ok_def)
qed (simp add: api_ok_def)

section \<open>Enough fuel\<close>

lemma Tree_operation_returns:
  assumes "operation lib alloc fuel True op a b c = Inr (p, c')"
  shows "Tree_operation lib alloc fuel op a b c \<noteq> Inl OutOfFuel"
  using assms by (auto simp: Tree_operation_def deref_def split: option.splits)

lemma operation_returns:
  assumes ok: "store_ok c" and alloc: "fresh_addresses alloc" and op: "operates op" "op \<noteq> OP_ADD" "op \<noteq> OP_SUB"
    and args: "args_ok c op a b"
  shows "\<exists>n p c'. \<forall>fuel \<ge> n. operation lib alloc fuel True op a b c = Inr (p, c')"
proof (cases "op = OP_MUL \<or> op = OP_MIN \<or> op = OP_MAX")
  case True
  then have "live c a" "live c b" using args by (auto simp: args_ok_def arity_ok_def args_def split: if_splits)
  from rearranged_returns[OF alloc True ok this] show ?thesis unfolding returns_def by blast
next
  case False
  with op have "\<not> isCommutative op" by (cases op) (simp_all add: isCommutative_def)
  from direct_returns[OF ok alloc op(1) this op(3) args, of lib]
  obtain p c' where "operation lib alloc (Suc fuel) True op a b c = Inr (p, c')" for fuel by auto
  then have "\<forall>fuel \<ge> 1. operation lib alloc fuel True op a b c = Inr (p, c')"
    using Suc_le_D by (metis One_nat_def)
  then show ?thesis by blast
qed

lemma not_sum: "args op = 0 \<or> args op = 1 \<Longrightarrow> op \<noteq> OP_ADD \<and> op \<noteq> OP_SUB"
  by (auto simp: args_def)

lemma call_returns:
  assumes s: "api_ok s" and alloc: "fresh_addresses alloc" and k: "call_ok k s"
    and op: "\<And>op a b. k = Binary op a b \<Longrightarrow> opcode_of (nat op) \<noteq> OP_ADD \<and> opcode_of (nat op) \<noteq> OP_SUB"
  shows "\<exists>n. \<forall>fuel \<ge> n. call lib alloc fuel k s \<noteq> Inl OutOfFuel"
proof -
  have ok: "store_ok (a_cache s)" using s by (simp add: api_ok_def)
  have made: "\<exists>n. \<forall>fuel \<ge> n. bindE (new_handle (Tree_operation lib alloc fuel op a b (a_cache s))) (\<lambda>r. Inr (received s r)) \<noteq> Inl OutOfFuel"
    if o: "operates op" "op \<noteq> OP_ADD" "op \<noteq> OP_SUB" "args_ok (a_cache s) op a b" for op a b
  proof -
    obtain n p c' where "\<forall>fuel \<ge> n. operation lib alloc fuel True op a b (a_cache s) = Inr (p, c')"
      using operation_returns[OF ok alloc o, of lib] by blast
    then have "\<forall>fuel \<ge> n. Tree_operation lib alloc fuel op a b (a_cache s) \<noteq> Inl OutOfFuel"
      using Tree_operation_returns by blast
    then show ?thesis by (auto simp: new_handle_def bindE_Inl_iff)
  qed
  show ?thesis
  proof (cases k)
    case (Nonary op)
    show ?thesis
    proof (cases "opcode_is_valid op 0")
      case True
      note v = valid_opcode[OF True]
      have "opcode_of (nat op) \<notin> {CONSTANT, VAR_FREE, ORACLE}" using k Nonary v(3) by (auto simp: call_ok_def)
      from nonary_opcode[OF v(1,2) this] v(1) True Nonary made[of "opcode_of (nat op)" 0 0] show ?thesis
        by (simp add: call_def libfive_tree_nonary_def args_leaf not_sum)
    qed (use Nonary in \<open>simp add: call_def libfive_tree_nonary_def\<close>)
  next
    case (Unary op a)
    show ?thesis
    proof (cases "opcode_is_valid op 1 \<and> a \<noteq> None")
      case True
      then obtain p where p: "a = Some p" "live (a_cache s) p" using k s Unary by (auto simp: call_ok_def owned_def api_ok_def)
      note v = valid_opcode(1)[OF conjunct1[OF True]]
      from unary_opcode[OF v] True v p Unary made[of "opcode_of (nat op)" p 0] show ?thesis
        by (simp add: call_def libfive_tree_unary_def the_tree_def args_unary not_sum)
    next
      case False
      with Unary show ?thesis by (simp add: call_def libfive_tree_unary_def del: de_Morgan_conj)
    qed
  next
    case (Binary op a b)
    show ?thesis
    proof (cases "opcode_is_valid op 2 \<and> a \<noteq> None \<and> b \<noteq> None")
      case True
      then obtain p q where p: "a = Some p" "live (a_cache s) p" "b = Some q" "live (a_cache s) q"
        using k s Binary by (auto simp: call_ok_def owned_def api_ok_def)
      note v = valid_opcode(1)[OF conjunct1[OF True]]
      from binary_opcode[OF v] True v p op[OF Binary] Binary made[of "opcode_of (nat op)" p q] show ?thesis
        by (simp add: call_def libfive_tree_binary_def the_tree_def args_binary)
    next
      case False
      with Binary show ?thesis by (simp add: call_def libfive_tree_binary_def del: de_Morgan_conj)
    qed
  next
    case (Delete h)
    with k delete_ok[OF s, of h] show ?thesis by (auto simp: call_def call_ok_def)
  qed (auto simp: call_def libfive_tree_const_def libfive_tree_var_def new_handle_def split: prod.splits intro: exI[of _ 0])
qed

section \<open>A sample client\<close>

lemma case_handle:
  "(case r of Inr (Some p, c) \<Rightarrow> P p c | _ \<Rightarrow> False) \<Longrightarrow> \<exists>p c. r = Inr (Some p, c) \<and> P p c"
  by (cases r) (auto split: option.splits prod.splits)

lemma case_returned: "(case r of Inl e \<Rightarrow> False | Inr s \<Rightarrow> True) \<Longrightarrow> \<exists>s. r = Inr s"
  by (cases r) auto

text \<open>A library whose transcendental functions are the identity, and the calls of a small client:
  the axes, the number one, a sine and a minimum.\<close>

definition sample_libm :: libm where
  "sample_libm = \<lparr>m_min = (\<lambda>a b. if f32_lt b a then b else a), m_max = (\<lambda>a b. if f32_lt a b then b else a),
     m_atan2 = (\<lambda>a b. a), m_array_pow = (\<lambda>a b. a), m_pow = (\<lambda>a b. a), m_interval_root = (\<lambda>a b. a),
     m_sin = id, m_cos = id, m_tan = id, m_asin = id, m_acos = id, m_atan = (\<lambda>a. 0), m_exp = id, m_log = id\<rparr>"

definition run_calls :: "libm \<Rightarrow> allocator \<Rightarrow> nat \<Rightarrow> call list \<Rightarrow> api \<Rightarrow> fault + api" where
  "run_calls lib alloc fuel ks s = foldE (\<lambda>s k. if call_ok k s then call lib alloc fuel k s else Inl AssertFailed) s ks"

lemma run_calls_reachable:
  "run_calls lib alloc fuel ks s = Inr s' \<Longrightarrow> api_reachable lib alloc s \<Longrightarrow> api_reachable lib alloc s'"
proof (induction ks arbitrary: s)
  case (Cons k ks)
  then obtain s1 where "call_ok k s" "call lib alloc fuel k s = Inr s1" "run_calls lib alloc fuel ks s1 = Inr s'"
    by (auto simp: run_calls_def bindE_Inr_iff split: if_splits)
  with Cons api_next api_step.intros show ?case by metis
qed (simp add: run_calls_def)

definition sample_start :: api where
  "sample_start = \<lparr>a_trees = [], a_cache = empty_cache\<rparr>"

definition sample_calls :: "call list" where
  "sample_calls = [Const f32_one, Nonary 2, Nonary 3, Unary 10 (Some 2), Binary 19 (Some 4) (Some 3)]"

definition sample_state :: api where
  "sample_state = (case run_calls sample_libm next_address 5 sample_calls sample_start of Inl e \<Rightarrow> sample_start | Inr s \<Rightarrow> s)"

lemma sample_run: "run_calls sample_libm next_address 5 sample_calls sample_start = Inr sample_state"
proof -
  have "case run_calls sample_libm next_address 5 sample_calls sample_start of Inl e \<Rightarrow> False | Inr s \<Rightarrow> True"
    by code_simp
  from case_returned[OF this] show ?thesis by (auto simp: sample_state_def)
qed

lemma fresh_sample: "fresh_addresses next_address"
  by (rule fresh_next_address)

lemma client_reachable: "api_reachable sample_libm next_address sample_state"
  using run_calls_reachable[OF sample_run] api_start by (simp add: sample_start_def)

definition sample_node :: "opcode \<Rightarrow> 8 word \<Rightarrow> nat \<Rightarrow> f32 \<Rightarrow> nat \<Rightarrow> nat \<Rightarrow> tnode" where
  "sample_node op fl rank v l r = \<lparr>t_op = op, t_flags = fl, t_rank = rank, t_value = v, t_oracle = 0, t_lhs = l, t_rhs = r\<rparr>"

lemma sample_trees:
  "a_trees sample_state = [5, 4, 3, 2, 1]"
  "c_nodes (a_cache sample_state) =
     [(5, sample_node OP_MIN 0 2 f32_nan 4 3), (4, sample_node OP_SIN 0 1 f32_nan 2 0),
      (3, sample_node VAR_Y 0 0 f32_nan 0 0), (2, sample_node VAR_X 0 0 f32_nan 0 0),
      (1, sample_node CONSTANT 2 0 f32_one 0 0)]"
  by code_simp+

section \<open>The state of the kernel\<close>

text \<open>C4: Whatever a client does with the trees it owns (numbers, variables, axes, operations of
  either arity, giving trees back), the expression store stays well formed (every node has the
  arity, rank and flags its operation demands, its arguments are alive, no operation is left on
  constants only, and the store's tables find exactly the nodes there are), and every tree that
  the client still owns is alive.\<close>

theorem api_invariant:
  assumes "fresh_addresses alloc" "api_reachable lib alloc s"
  shows "store_ok (a_cache s) \<and> (\<forall>p \<in> set (a_trees s). live (a_cache s) p)"
  using reachable_ok[OF assms] by (simp add: api_ok_def)

theorem api_invariant_witness:
  "store_ok (a_cache sample_state) \<and> live (a_cache sample_state) 5"
  using api_invariant[OF fresh_sample client_reachable] by (simp add: sample_trees)

text \<open>C14: What a call does, whatever was built and given back before. The calls are those of
  \<open>call_ok\<close>: on trees the client owns or null handles, and by opcode with any number except, without
  arguments, those of a constant, a free variable and an oracle, which have entry points of their
  own (C38 shows what the free variable does). Such a call fails only as a power or root whose second
  argument is not an integral (and, for a root, positive) number, which the constructor refuses:
  no null pointer, dangling cache entry or missing table entry is ever met. If the call is not an
  addition or a subtraction, all sufficient fuel gives the same: exactly those powers and roots are
  refused, and every other call returns and leaves a well-formed state.\<close>

theorem calls_are_safe:
  assumes "fresh_addresses alloc" "api_reachable lib alloc s" "call_ok k s"
  shows "(call lib alloc fuel k s = Inl e \<longrightarrow> e = OutOfFuel \<or> e = AssertFailed \<and> bad_exponent k s)
    \<and> ((\<forall>op a b. k = Binary op a b \<longrightarrow> opcode_of (nat op) \<noteq> OP_ADD \<and> opcode_of (nat op) \<noteq> OP_SUB) \<longrightarrow>
        (\<exists>n. \<forall>fuel \<ge> n. if bad_exponent k s then call lib alloc fuel k s = Inl AssertFailed
           else \<exists>s'. call lib alloc fuel k s = Inr s' \<and> api_ok s'))"
proof (intro conjI impI)
  have out: "outcome_ok k s (call lib alloc fuel k s)" for fuel
    by (rule call_outcome[OF reachable_ok[OF assms(1,2)] assms(1,3)])
  from out[of fuel] show "e = OutOfFuel \<or> e = AssertFailed \<and> bad_exponent k s" if "call lib alloc fuel k s = Inl e"
    using that by (simp add: outcome_ok_def)
  assume "\<forall>op a b. k = Binary op a b \<longrightarrow> opcode_of (nat op) \<noteq> OP_ADD \<and> opcode_of (nat op) \<noteq> OP_SUB"
  then obtain n where n: "\<forall>fuel \<ge> n. call lib alloc fuel k s \<noteq> Inl OutOfFuel"
    using call_returns[OF reachable_ok[OF assms(1,2)] assms(1,3), of lib] by blast
  have "if bad_exponent k s then call lib alloc fuel k s = Inl AssertFailed
      else \<exists>s'. call lib alloc fuel k s = Inr s' \<and> api_ok s'" if "fuel \<ge> n" for fuel
    using n that out[of fuel] by (cases "call lib alloc fuel k s") (auto simp: outcome_ok_def)
  then show "\<exists>n. \<forall>fuel \<ge> n. if bad_exponent k s then call lib alloc fuel k s = Inl AssertFailed
      else \<exists>s'. call lib alloc fuel k s = Inr s' \<and> api_ok s'" by blast
qed

theorem calls_are_safe_witness:
  "(\<exists>n. call sample_libm next_address n (Binary 25 (Some 2) (Some 3)) sample_state = Inl AssertFailed)
   \<and> (\<exists>n s'. call sample_libm next_address n (Binary 25 (Some 2) (Some 1)) sample_state = Inr s' \<and> api_ok s')"
proof
  have ok: "call_ok (Binary 25 (Some 2) (Some b)) sample_state" if "b \<in> {1, 3}" for b
    using that by (auto simp: call_ok_def owned_def sample_trees)
  have op: "opcode_of (nat 25) = OP_NTH_ROOT" by code_simp
  then have sum: "\<forall>op a b'. Binary 25 (Some 2) (Some b) = Binary op a b' \<longrightarrow>
      opcode_of (nat op) \<noteq> OP_ADD \<and> opcode_of (nat op) \<noteq> OP_SUB" for b by auto
  have bad: "bad_exponent (Binary 25 (Some 2) (Some 3)) sample_state"
    "\<not> bad_exponent (Binary 25 (Some 2) (Some 1)) sample_state" by code_simp+
  have ex: "\<exists>n. \<forall>fuel \<ge> n. if bad_exponent (Binary 25 (Some 2) (Some b)) sample_state
      then call sample_libm next_address fuel (Binary 25 (Some 2) (Some b)) sample_state = Inl AssertFailed
      else \<exists>s'. call sample_libm next_address fuel (Binary 25 (Some 2) (Some b)) sample_state = Inr s' \<and> api_ok s'"
    if "b \<in> {1, 3}" for b
    using calls_are_safe[OF fresh_sample client_reachable ok[OF that]] sum[of b] by blast
  from ex[of 3] obtain n where "\<forall>fuel \<ge> n. if bad_exponent (Binary 25 (Some 2) (Some 3)) sample_state
      then call sample_libm next_address fuel (Binary 25 (Some 2) (Some 3)) sample_state = Inl AssertFailed
      else \<exists>s'. call sample_libm next_address fuel (Binary 25 (Some 2) (Some 3)) sample_state = Inr s' \<and> api_ok s'"
    by blast
  with bad(1) show "\<exists>n. call sample_libm next_address n (Binary 25 (Some 2) (Some 3)) sample_state = Inl AssertFailed"
    by (meson order_refl)
  from ex[of 1] obtain n where "\<forall>fuel \<ge> n. if bad_exponent (Binary 25 (Some 2) (Some 1)) sample_state
      then call sample_libm next_address fuel (Binary 25 (Some 2) (Some 1)) sample_state = Inl AssertFailed
      else \<exists>s'. call sample_libm next_address fuel (Binary 25 (Some 2) (Some 1)) sample_state = Inr s' \<and> api_ok s'"
    by blast
  with bad(2) show "\<exists>n s'. call sample_libm next_address n (Binary 25 (Some 2) (Some 1)) sample_state = Inr s' \<and> api_ok s'"
    by (meson order_refl)
qed

text \<open>C18: Two trees the client owns are equal for \<open>libfive_tree_eq\<close>, which compares the nodes they
  point at, exactly when they are the same expression: the store never holds two nodes for one
  expression.\<close>

theorem equal_trees_are_shared:
  assumes "fresh_addresses alloc" "api_reachable lib alloc s" "p \<in> set (a_trees s)" "q \<in> set (a_trees s)"
  shows "libfive_tree_eq (Some p) (Some q) = Inr (tree_of (a_cache s) p = tree_of (a_cache s) q)"
proof -
  have "api_ok s" by (rule reachable_ok[OF assms(1,2)])
  then show ?thesis using tree_of_inj assms(3,4) by (auto simp: api_ok_def libfive_tree_eq_def the_tree_def)
qed

theorem equal_trees_are_shared_witness:
  "libfive_tree_eq (Some 4) (Some 5) = Inr (tree_of (a_cache sample_state) 4 = tree_of (a_cache sample_state) 5)"
  using equal_trees_are_shared[OF fresh_sample client_reachable, of 4 5] by (simp add: sample_trees)

text \<open>C15: Every call that is not an addition or a subtraction returns: the rewriting of products,
  minima and maxima, which calls itself on the parts of its arguments, comes to an end.\<close>

theorem calls_return:
  assumes "fresh_addresses alloc" "api_reachable lib alloc s" "call_ok k s"
    and "\<And>op a b. k = Binary op a b \<Longrightarrow> opcode_of (nat op) \<noteq> OP_ADD \<and> opcode_of (nat op) \<noteq> OP_SUB"
  shows "\<exists>n. \<forall>fuel \<ge> n. call lib alloc fuel k s \<noteq> Inl OutOfFuel"
  by (rule call_returns[OF reachable_ok[OF assms(1,2)] assms(1,3,4)])

theorem calls_return_witness:
  "\<exists>n. call sample_libm next_address n (Binary 19 (Some 5) (Some 4)) sample_state \<noteq> Inl OutOfFuel"
proof -
  have "call_ok (Binary 19 (Some 5) (Some 4)) sample_state" by (simp add: call_ok_def owned_def sample_trees)
  moreover have "opcode_of (nat op) \<noteq> OP_ADD \<and> opcode_of (nat op) \<noteq> OP_SUB" if "Binary 19 (Some 5) (Some 4) = Binary op a b" for op a b
    using that by (simp add: opcode_of_def all_opcodes_def)
  ultimately show ?thesis using calls_return[OF fresh_sample client_reachable] order_refl by blast
qed

section \<open>Values\<close>

lemma direct_value:
  assumes ok: "store_ok c" and alloc: "fresh_addresses alloc" and op: "operates op" "\<not> isCommutative op" "op \<noteq> OP_SUB"
    and args: "args_ok c op a b" and lib: "unit_power lib" and r: "operation lib alloc fuel True op a b c = Inr (r, c')"
  shows "same_float (eval_expr lib env (tree_of c' r)) (eval_expr lib env (Apply op (tree_of c a) (tree_of c b)))"
proof (cases fuel)
  case 0
  with r show ?thesis by (simp add: operation.simps(1))
next
  case (Suc n)
  obtain t where t: "checkIdentity (operation lib alloc n True) op a b c = Inr (t, c)" "t = 0 \<or> live c t \<and>
    same_float (eval_expr lib env (tree_of c t)) (eval_expr lib env (Apply op (tree_of c a) (tree_of c b)))"
    using identity_value[OF ok op args lib, of "operation lib alloc n True" env] by blast
  have "operation lib alloc fuel True op a b c = (if t \<noteq> 0 then Inr (t, c) else find_or_make lib alloc op a b c)"
    using operation_without_rewriting[OF op t(1), of True] by (simp add: Suc)
  with r t(2) find_or_make_value[OF ok alloc op(1) args, of lib env] show ?thesis by (auto split: if_splits)
qed

lemma new_handle_Inr:
  "new_handle (Tree_operation lib alloc fuel op a b c) = Inr (Some r, c') \<Longrightarrow> operation lib alloc fuel True op a b c = Inr (r, c')"
  by (auto simp: new_handle_def Tree_operation_def bindE_Inr_iff split: if_splits)

text \<open>C34: The tree that an operation of one argument returns has the value of the clause of the
  operation on the value of its argument, for every point, every value of the variables and the
  oracles: folding constants and dropping double negations and repeated absolute values changes
  no value (apart from the sign of a zero and the kind of a NaN).\<close>

theorem unary_tree_value:
  assumes "fresh_addresses alloc" "api_reachable lib alloc s" "p \<in> set (a_trees s)" "unit_power lib"
    and "libfive_tree_unary lib alloc fuel op (Some p) (a_cache s) = Inr (Some r, c')"
  shows "same_float (eval_expr lib env (tree_of c' r))
    (apply_clause lib (opcode_of (nat op)) (eval_expr lib env (tree_of (a_cache s) p)) 0)"
proof -
  have s: "store_ok (a_cache s)" "live (a_cache s) p" using reachable_ok[OF assms(1,2)] assms(3) by (auto simp: api_ok_def)
  have v: "opcode_is_valid op 1" and r: "operation lib alloc fuel True (opcode_of (nat op)) p 0 (a_cache s) = Inr (r, c')"
    using assms(5) new_handle_Inr by (auto simp: libfive_tree_unary_def the_tree_def split: if_splits)
  note o = unary_opcode[OF valid_opcode(1)[OF v]]
  have "\<not> isCommutative (opcode_of (nat op)) \<and> opcode_of (nat op) \<noteq> OP_SUB \<and> opcode_of (nat op) \<notin> {VAR_X, VAR_Y, VAR_Z}"
    using valid_opcode(1)[OF v] by (cases "opcode_of (nat op)") (simp_all add: args_def isCommutative_def)
  with direct_value[OF s(1) assms(1) _ _ _ _ assms(4) r, of env] o s valid_opcode(1)[OF v] show ?thesis
    by (auto simp: args_unary tree_of_0)
qed

lemma sample_unit_power: "unit_power sample_libm"
  by (simp add: unit_power_def sample_libm_def clause_nth_root_def)

theorem unary_tree_value_witness:
  "\<exists>r c'. libfive_tree_unary sample_libm next_address 5 9 (Some 5) (a_cache sample_state) = Inr (Some r, c') \<and>
    (\<forall>env. same_float (eval_expr sample_libm env (tree_of c' r))
      (apply_clause sample_libm (opcode_of (nat 9)) (eval_expr sample_libm env (tree_of (a_cache sample_state) 5)) 0))"
proof -
  have "case libfive_tree_unary sample_libm next_address 5 9 (Some 5) (a_cache sample_state) of Inr (Some r, c') \<Rightarrow> True | _ \<Rightarrow> False"
    by code_simp
  then obtain r c' where r: "libfive_tree_unary sample_libm next_address 5 9 (Some 5) (a_cache sample_state) = Inr (Some r, c')"
    by (auto split: sum.splits option.splits prod.splits)
  from unary_tree_value[OF fresh_sample client_reachable _ sample_unit_power r] r show ?thesis by (auto simp: sample_trees)
qed

text \<open>C35: The tree that \<open>libfive_tree_binary\<close> returns for a minimum has the smaller of the two
  values, however the store has rearranged the nested minima (values compared as numbers, both
  zeros being one; none of the intermediate values is a NaN).\<close>

theorem minimum_tree_value:
  assumes "fresh_addresses alloc" "api_reachable lib alloc s" "p \<in> set (a_trees s)" "q \<in> set (a_trees s)"
    and "lattice_clause lib OP_MIN min" "numeric lib env (a_cache s) p" "numeric lib env (a_cache s) q"
    and "libfive_tree_binary lib alloc fuel 19 (Some p) (Some q) (a_cache s) = Inr (Some r, c')"
  shows "f32_key (eval_expr lib env (tree_of c' r))
    = min (f32_key (eval_expr lib env (tree_of (a_cache s) p))) (f32_key (eval_expr lib env (tree_of (a_cache s) q)))"
proof -
  have s: "store_ok (a_cache s)" "live (a_cache s) p" "live (a_cache s) q"
    using reachable_ok[OF assms(1,2)] assms(3,4) by (auto simp: api_ok_def)
  have "opcode_of (nat 19) = OP_MIN" by (simp add: opcode_of_def all_opcodes_def)
  then have "operation lib alloc fuel True OP_MIN p q (a_cache s) = Inr (r, c')"
    using assms(8) new_handle_Inr by (auto simp: libfive_tree_binary_def the_tree_def split: if_splits)
  from lattice_value[OF assms(1) _ assms(5) _ _ _ s assms(6,7) this] show ?thesis
    by (simp add: key_of_def min.assoc min.commute)
qed

definition client_env :: env where
  "client_env = \<lparr>e_x = f32_one, e_y = 0, e_z = 0, e_var = (\<lambda>_. 0), e_oracle = (\<lambda>_. 0)\<rparr>"

lemma sample_lattice: "lattice_clause sample_libm OP_MIN min"
  unfolding lattice_clause_def
  by (auto simp: apply_clause_def clause_value_def sample_libm_def f32_lt_def min_def)

theorem minimum_tree_value_witness:
  "\<exists>r c'. libfive_tree_binary sample_libm next_address 5 19 (Some 4) (Some 5) (a_cache sample_state) = Inr (Some r, c') \<and>
    f32_key (eval_expr sample_libm client_env (tree_of c' r))
      = min (f32_key (eval_expr sample_libm client_env (tree_of (a_cache sample_state) 4)))
          (f32_key (eval_expr sample_libm client_env (tree_of (a_cache sample_state) 5)))"
proof -
  have "case libfive_tree_binary sample_libm next_address 5 19 (Some 4) (Some 5) (a_cache sample_state) of Inr (Some r, c') \<Rightarrow> True | _ \<Rightarrow> False"
    by code_simp
  then obtain r c' where r: "libfive_tree_binary sample_libm next_address 5 19 (Some 4) (Some 5) (a_cache sample_state) = Inr (Some r, c')"
    by (auto split: sum.splits option.splits prod.splits)
  have "numeric sample_libm client_env (a_cache sample_state) 4" "numeric sample_libm client_env (a_cache sample_state) 5"
    by code_simp+
  from minimum_tree_value[OF fresh_sample client_reachable _ _ sample_lattice this r] r show ?thesis by (auto simp: sample_trees)
qed

section \<open>Evaluating a tree\<close>

text \<open>C2: \<open>libfive_tree_eval_f\<close> flattens the tree into a tape, walks the tape over an array of rows
  and returns the last row: that is the value of the tree, computed recursively, at the point, with
  the free variables at zero and the oracles answering as they do.\<close>

theorem eval_f_computes_tree:
  assumes "fresh_addresses alloc" "api_reachable lib alloc s" "p \<in> set (a_trees s)"
  shows "\<exists>c'. libfive_tree_eval_f lib (operation lib alloc (Suc fuel) True) oracle_value (Some p) px py pz (a_cache s)
    = Inr (eval_expr lib (env_of (a_cache s) (\<lambda>_. None) oracle_value px py pz) (tree_of (a_cache s) p), c')
    \<and> api_ok \<lparr>a_trees = a_trees s, a_cache = c'\<rparr>"
proof -
  have s: "store_ok (a_cache s)" "live (a_cache s) p" "\<forall>p \<in> set (a_trees s). live (a_cache s) p"
    using reachable_ok[OF assms(1,2)] assms(3) by (auto simp: api_ok_def)
  obtain d c' ts clauses x y z where d: "Deck (operation lib alloc (Suc fuel) True) p (a_cache s) = Inr (d, c')"
    "deck_made (a_cache s) p ts d c' clauses x y z"
    using Deck_made[OF s(1,2) operation_makes_axes[OF assms(1)], of lib fuel] by blast
  have "store_ok c'" "extends (a_cache s) c'" using d(2) by (simp_all add: deck_made_def)
  with d(1) deck_value[OF s(1) d(2), of lib oracle_value px py pz "\<lambda>_. None"] s(3) live_extends show ?thesis
    by (auto simp: libfive_tree_eval_f_def the_tree_def api_ok_def)
qed

theorem eval_f_computes_tree_witness:
  "\<exists>c'. libfive_tree_eval_f sample_libm (operation sample_libm next_address (Suc 3) True) (\<lambda>_. 0) (Some 5) f32_one 0 0 (a_cache sample_state)
    = Inr (eval_expr sample_libm (env_of (a_cache sample_state) (\<lambda>_. None) (\<lambda>_. 0) f32_one 0 0) (tree_of (a_cache sample_state) 5), c')
    \<and> api_ok \<lparr>a_trees = a_trees sample_state, a_cache = c'\<rparr>"
  by (rule eval_f_computes_tree[OF fresh_sample client_reachable]) (simp add: sample_trees)

text \<open>C36: In the deck of a tree every clause names rows inside the result array and an oracle of
  the deck; the rows of the three axes are different rows of the array; and a clause only reads
  rows that no later step of the walk writes (its operands stand in higher rows, and rows are
  written in descending order).\<close>

theorem deck_rows_in_bounds:
  assumes "fresh_addresses alloc" "api_reachable lib alloc s" "p \<in> set (a_trees s)"
    and "Deck (operation lib alloc (Suc fuel) True) p (a_cache s) = Inr (d, c')"
  shows "tape_shape (d_num_clauses d) (length (d_oracles d)) (tp_clauses (d_tape d))
    \<and> tp_root (d_tape d) \<le> d_num_clauses d \<and> d_X d \<le> d_num_clauses d \<and> d_Y d \<le> d_num_clauses d \<and> d_Z d \<le> d_num_clauses d
    \<and> d_X d \<noteq> d_Y d \<and> d_X d \<noteq> d_Z d \<and> d_Y d \<noteq> d_Z d \<and> 0 < d_X d \<and> 0 < d_Y d \<and> 0 < d_Z d"
proof -
  have s: "store_ok (a_cache s)" "live (a_cache s) p" using reachable_ok[OF assms(1,2)] assms(3) by (auto simp: api_ok_def)
  obtain ts clauses x y z where d: "deck_made (a_cache s) p ts d c' clauses x y z"
    using Deck_made[OF s operation_makes_axes[OF assms(1)], of lib fuel] assms(4) by auto
  moreover have "length clauses = Suc (d_num_clauses d)" using d by (simp add: deck_made_def)
  ultimately show ?thesis using deck_tape_ok[OF s(1) d] axis_rows_differ[OF d] by (simp add: tape_ok_def)
qed

theorem deck_rows_in_bounds_witness:
  "\<exists>d c'. Deck (operation sample_libm next_address (Suc 3) True) 5 (a_cache sample_state) = Inr (d, c')
    \<and> tape_shape (d_num_clauses d) (length (d_oracles d)) (tp_clauses (d_tape d))"
proof -
  have "case Deck (operation sample_libm next_address (Suc 3) True) 5 (a_cache sample_state) of Inr (d, c') \<Rightarrow> True | _ \<Rightarrow> False"
    by code_simp
  then obtain d c' where d: "Deck (operation sample_libm next_address (Suc 3) True) 5 (a_cache sample_state) = Inr (d, c')"
    by (auto split: sum.splits prod.splits)
  from deck_rows_in_bounds[OF fresh_sample client_reachable _ d] d show ?thesis by (auto simp: sample_trees)
qed

text \<open>C7: Evaluating a deck at a point and pushing returns the value of the tree at that point, and a
  shorter tape that still computes it there. The branches that the point decides are gone: every
  clause of the new tape is read from its root, and none is a minimum or maximum with one operand
  below the other (in the rows the evaluation left). The new tape is shorter than the deck's exactly
  when the point decides a minimum or maximum. (The hypothesis on the library is that the
  minimum and the maximum of two different numbers are one of them.)\<close>

theorem pushed_tape_computes_tree:
  assumes "fresh_addresses alloc" "api_reachable lib alloc s" "p \<in> set (a_trees s)" "selects lib"
    and "Deck (operation lib alloc (Suc fuel) True) p (a_cache s) = Inr (d, c')"
    and "v0 = ArrayEvaluator d (\<lambda>_. None)"
    and "out = eval_expr lib (env_of (a_cache s) (\<lambda>_. None) oracle_value px py pz) (tree_of (a_cache s) p)"
  shows "\<exists>t w u. valueAndPush lib (\<lambda>j. oracle_value (d_oracles d ! j)) orc d (d_tape d) px py pz v0 = Inr ((out, t), w)
    \<and> tape_ok d t \<and> array_value lib (\<lambda>j. oracle_value (d_oracles d ! j)) d t px py pz v0 = Inr (out, u)
    \<and> (\<forall>k \<in> set (tp_clauses t). k_id k \<in> used_rows t \<and> undecided w k)
    \<and> (length (tp_clauses t) < length (tp_clauses (d_tape d))) = (\<exists>k \<in> set (tp_clauses (d_tape d)). \<not> undecided w k)"
proof -
  have s: "store_ok (a_cache s)" "live (a_cache s) p" using reachable_ok[OF assms(1,2)] assms(3) by (auto simp: api_ok_def)
  obtain ts clauses x y z where d: "deck_made (a_cache s) p ts d c' clauses x y z"
    using Deck_made[OF s operation_makes_axes[OF assms(1)], of lib fuel] assms(5) by auto
  have ok: "tape_ok d (d_tape d)" "\<not> tp_terminal (d_tape d)" "all_used (d_tape d)"
    using deck_tape_ok[OF s(1) d] deck_all_used[OF s(1) d] d unfolding deck_made_def by blast+
  have len: "d_num_clauses d < length v0" by (simp add: assms(6) ArrayEvaluator_fill)
  obtain w where "array_value lib (\<lambda>j. oracle_value (d_oracles d ! j)) d (d_tape d) px py pz v0 = Inr (out, w)"
    using deck_value[OF s(1) d, of lib oracle_value px py pz "\<lambda>_. None"] assms(6,7) by auto
  from valueAndPush_pruned[OF ok assms(4) len this, of orc] show ?thesis
    unfolding all_used_def by blast
qed

lemma sample_selects: "selects sample_libm"
  by (auto simp: selects_def sample_libm_def f32_lt_asym)

text \<open>The minimum of the sine (the identity, in the sample library) of X and of Y, at (1, 0, 0): Y is
  below, the minimum and the sine are dropped and no clause is left.\<close>

theorem pushed_tape_computes_tree_witness:
  "\<exists>d c' t w. Deck (operation sample_libm next_address (Suc 3) True) 5 (a_cache sample_state) = Inr (d, c')
    \<and> valueAndPush sample_libm (\<lambda>j. 0) \<lparr>o_push = (\<lambda>_ _ c. c), o_isTerminal = (\<lambda>_. True)\<rparr> d (d_tape d) f32_one 0 0
        (ArrayEvaluator d (\<lambda>_. None)) = Inr ((0, t), w)
    \<and> tape_ok d t \<and> length (tp_clauses (d_tape d)) = 2 \<and> length (tp_clauses t) < 2 \<and> tp_clauses t = []"
proof -
  let ?orc = "\<lparr>o_push = (\<lambda>_ _ c. c), o_isTerminal = (\<lambda>_. True)\<rparr>"
  have run: "case Deck (operation sample_libm next_address (Suc 3) True) 5 (a_cache sample_state) of Inr (d, c') \<Rightarrow>
      (case valueAndPush sample_libm (\<lambda>j. 0) ?orc d (d_tape d) f32_one 0 0 (ArrayEvaluator d (\<lambda>_. None)) of
         Inr ((out, t), w) \<Rightarrow> tp_clauses t = [] \<and> list_ex (\<lambda>k. \<not> undecided w k) (tp_clauses (d_tape d))
       | _ \<Rightarrow> False) \<and> length (tp_clauses (d_tape d)) = 2 | _ \<Rightarrow> False"
    by code_simp
  then obtain d c' where d: "Deck (operation sample_libm next_address (Suc 3) True) 5 (a_cache sample_state) = Inr (d, c')"
    by (auto split: sum.splits prod.splits)
  obtain out t w where v: "valueAndPush sample_libm (\<lambda>j. 0) ?orc d (d_tape d) f32_one 0 0 (ArrayEvaluator d (\<lambda>_. None)) = Inr ((out, t), w)"
    and t: "tp_clauses t = []" "\<exists>k \<in> set (tp_clauses (d_tape d)). \<not> undecided w k" "length (tp_clauses (d_tape d)) = 2"
    using run[unfolded d] by (auto simp: list_ex_iff split: sum.splits prod.splits)
  have "eval_expr sample_libm (env_of (a_cache sample_state) (\<lambda>_. None) (\<lambda>_. 0) f32_one 0 0) (tree_of (a_cache sample_state) 5) = 0"
    by code_simp
  with pushed_tape_computes_tree[OF fresh_sample client_reachable _ sample_selects d refl refl, where oracle_value="\<lambda>_. 0"
      and px = f32_one and py = 0 and pz = 0 and orc = ?orc] v t d
  show ?thesis by (auto simp: sample_trees)
qed

section \<open>A leaf asked for by its opcode\<close>

lemma variable_operation:
  "Tree_operation lib alloc (Suc fuel) VAR_FREE 0 0 c = find_or_make lib alloc VAR_FREE 0 0 c"
  by (simp add: Tree_operation_def operation.simps checkIdentity_def checkCommutative_def checkAffine_def isCommutative_def
      deref_opt_def args_def)
     (simp add: bindE_def split: sum.splits prod.splits)

definition variable_node :: tnode where
  "variable_node = \<lparr>t_op = VAR_FREE, t_flags = operation_flags VAR_FREE None None, t_rank = 0, t_value = f32_nan,
     t_oracle = 0, t_lhs = 0, t_rhs = 0\<rparr>"

lemma variable_made:
  assumes "store_ok c"
  shows "find_or_make lib alloc VAR_FREE 0 0 c = Inr (alloc (c_nodes c),
    c\<lparr>c_nodes := (alloc (c_nodes c), variable_node) # c_nodes c, c_ops := (c_ops c)((VAR_FREE, 0, 0) \<mapsto> alloc (c_nodes c))\<rparr>)"
proof -
  have "c_ops c (VAR_FREE, 0, 0) = None" using store_op[OF assms] by (cases "c_ops c (VAR_FREE, 0, 0)") auto
  then show ?thesis by (simp add: find_or_make_def deref_opt_def new_node_def Let_def operation_rank_def variable_node_def)
qed

text \<open>C37: \<open>libfive_tree_nonary\<close> accepts the opcode of a free variable and enters the new node into
  the table of operations, which the destructor of a free variable does not clean: once the tree
  is given back, the next such call finds an entry whose node is gone and fails the assertion on
  it. (\<open>libfive_tree_var\<close> makes its variables outside that table.)\<close>

theorem free_variable_entry_expires:
  assumes "fresh_addresses alloc" "api_reachable lib alloc s"
    and "libfive_tree_nonary lib alloc (Suc fuel) 5 (a_cache s) = Inr (Some p, c')"
    and "libfive_tree_delete (Some p) \<lparr>a_trees = p # a_trees s, a_cache = c'\<rparr> = Inr s'"
  shows "libfive_tree_nonary lib alloc (Suc fuel) 5 (a_cache s') = Inl AssertFailed"
proof -
  let ?c = "a_cache s"
  have s: "store_ok ?c" "\<forall>p \<in> set (a_trees s). live ?c p" using reachable_ok[OF assms(1,2)] by (auto simp: api_ok_def)
  note new = fresh_address[OF assms(1), of ?c]
  have call: "libfive_tree_nonary lib alloc (Suc fuel) 5 c = new_handle (find_or_make lib alloc VAR_FREE 0 0 c)" for c
    by (simp add: libfive_tree_nonary_def opcode_is_valid_def opcode_of_def all_opcodes_def variable_operation args_def)
  have p: "p = alloc (c_nodes ?c)"
    and c': "c' = ?c\<lparr>c_nodes := (p, variable_node) # c_nodes ?c, c_ops := (c_ops ?c)((VAR_FREE, 0, 0) \<mapsto> p)\<rparr>"
    using assms(3) by (auto simp: call new_handle_def variable_made[OF s(1)])
  have kid: "t_lhs m \<noteq> p \<and> t_rhs m \<noteq> p" if "node_at ?c q = Some m" for q m
    using node_child[OF s(1) that, of p] new p by auto
  have free: "p \<noteq> 0" "p \<notin> set (a_trees s)" "\<not> referenced c' p"
    using new s(2) kid by (auto simp: p[symmetric] c' variable_node_def live_def referenced_iff split: if_splits)
  have "release (Suc (length (c_nodes c'))) (\<lambda>q. q \<in> set (a_trees s)) p c' = Inr (c'\<lparr>c_nodes := filter (\<lambda>(q, _). q \<noteq> p) (c_nodes c')\<rparr>)"
    using free by (simp add: c' variable_node_def tree_destructor_def)
  then have "a_cache s' = c'\<lparr>c_nodes := filter (\<lambda>(q, _). q \<noteq> p) (c_nodes c')\<rparr>"
    using assms(4) by (simp add: libfive_tree_delete_def del: release.simps) auto
  moreover have "map_of (filter (\<lambda>(q, _). q \<noteq> p) h) p = None" for h :: nodes by (induction h) auto
  ultimately show ?thesis by (simp add: call find_or_make_def new_handle_def c')
qed

theorem free_variable_entry_expires_witness:
  "\<exists>p c' s'. libfive_tree_nonary sample_libm next_address (Suc 1) 5 (a_cache sample_start) = Inr (Some p, c')
    \<and> libfive_tree_delete (Some p) \<lparr>a_trees = p # a_trees sample_start, a_cache = c'\<rparr> = Inr s'
    \<and> libfive_tree_nonary sample_libm next_address (Suc 1) 5 (a_cache s') = Inl AssertFailed"
proof -
  have "case libfive_tree_nonary sample_libm next_address (Suc 1) 5 (a_cache sample_start) of
      Inr (Some p, c') \<Rightarrow> (case libfive_tree_delete (Some p) \<lparr>a_trees = p # a_trees sample_start, a_cache = c'\<rparr> of Inl e \<Rightarrow> False | Inr s' \<Rightarrow> True)
    | _ \<Rightarrow> False"
    by code_simp
  from case_handle[OF this] obtain p c' where p: "libfive_tree_nonary sample_libm next_address (Suc 1) 5 (a_cache sample_start) = Inr (Some p, c')"
    and d: "case libfive_tree_delete (Some p) \<lparr>a_trees = p # a_trees sample_start, a_cache = c'\<rparr> of Inl e \<Rightarrow> False | Inr s' \<Rightarrow> True"
    by blast
  from case_returned[OF d] obtain s' where "libfive_tree_delete (Some p) \<lparr>a_trees = p # a_trees sample_start, a_cache = c'\<rparr> = Inr s'"
    by blast
  note e = p this
  have "api_reachable sample_libm next_address sample_start" using api_start by (simp add: sample_start_def)
  from free_variable_entry_expires[OF fresh_sample this e] e show ?thesis by blast
qed

end
