(* ===== verification/ArchiveProps.thy ===== *)
theory ArchiveProps
  imports Archive KernelProps
begin

text \<open>
  An archive is read back as it was written. The writer numbers the nodes in the order in which it
  writes them, the reader in the order in which it reads them; the proof goes along the nodes of
  each tree, which stand children first, and then along the shapes.
\<close>

section \<open>Strings and numbers\<close>

lemma byte_of_char: "char_of_byte (byte_of ch) = ch"
proof -
  have "(of_char ch :: nat) < 256" using rangeI[of "of_char :: char \<Rightarrow> nat" ch] unfolding range_nat_of_char by simp
  then have "unat (word_of_nat (of_char ch) :: 8 word) = (of_char ch :: nat)"
    by (simp add: unsigned_of_nat take_bit_nat_eq_self)
  then show ?thesis by (simp add: char_of_byte_def byte_of_def)
qed

lemma byte_of_inj: "byte_of a = byte_of b \<longleftrightarrow> a = b"
  using byte_of_char by metis

lemma byte_of_special: "byte_of ch = 0x22 \<longleftrightarrow> ch = CHR 0x22" "byte_of ch = 0x5C \<longleftrightarrow> ch = CHR 0x5C"
proof -
  have "byte_of (CHR 0x22) = 0x22" "byte_of (CHR 0x5C) = 0x5C" by (simp_all add: byte_of_def)
  then show "byte_of ch = 0x22 \<longleftrightarrow> ch = CHR 0x22" "byte_of ch = 0x5C \<longleftrightarrow> ch = CHR 0x5C" using byte_of_inj by metis+
qed

lemma string_loop_round: "string_loop (concat (map escaped s) @ 0x22 # rest) = (s, rest, False)"
proof (induction s)
  case (Cons ch s)
  have "byte_of (CHR 0x22) = 0x22" "byte_of (CHR 0x5C) = 0x5C" by (simp_all add: byte_of_def)
  then show ?case using Cons byte_of_special[of ch] byte_of_char[of ch]
    by (cases "ch = CHR 0x22 \<or> ch = CHR 0x5C") (auto simp: escaped_def)
qed simp

definition string_bytes :: "string \<Rightarrow> bytes" where
  "string_bytes s = 0x22 # concat (map escaped s) @ [0x22]"

lemma serializeString_out: "serializeString s z = z\<lparr>z_out := z_out z @ string_bytes s\<rparr>"
  by (simp add: serializeString_def put_bytes_def string_bytes_def)

lemma deserializeString_round:
  assumes "r_in r = string_bytes s @ rest" "\<not> r_eof r"
  shows "deserializeString r = (s, r\<lparr>r_in := rest\<rparr>)"
  using assms string_loop_round[of s rest] by (simp add: deserializeString_def in_get_def string_bytes_def)

lemma deserializeBytes4_round:
  assumes "r_in r = le_bytes 4 i @ rest" "\<not> r_eof r" "i < 2 ^ 32"
  shows "deserializeBytes4 r = Inr (i, r\<lparr>r_in := rest\<rparr>)"
  using assms by (simp add: deserializeBytes4_def le_value_le_bytes)

section \<open>Nodes\<close>

text \<open>A tree can be built again: its constructor finds the node that is there. A constant is found
  by its value; of the other nodes this is assumed (\<open>rebuilds\<close>), and shown below for nodes on which
  no rewriting applies.\<close>

lemma constant_found:
  assumes "store_ok c" "node_at c q = Some n" "t_op n = CONSTANT"
  shows "constant_node alloc (t_value n) c = (q, c)"
  using store_okD[OF assms(1,2)] assms(3) by (auto simp: node_ok_def registered_def constant_node_def)

definition rebuilds :: "build \<Rightarrow> cache \<Rightarrow> nat \<Rightarrow> bool" where
  "rebuilds mk c q \<longleftrightarrow> (\<forall>n c'. node_at c q = Some n \<longrightarrow> t_op n \<noteq> CONSTANT \<longrightarrow> store_ok c' \<longrightarrow> extends c c' \<longrightarrow>
     (\<exists>c''. mk (t_op n) (t_lhs n) (t_rhs n) c' = Inr (q, c'') \<and> store_ok c'' \<and> extends c' c''))"

definition numbered :: "serializer \<Rightarrow> nat list \<Rightarrow> bool" where
  "numbered z ts \<longleftrightarrow> distinct ts \<and> length (z_ids z) = length ts
     \<and> map_of (z_ids z) = (\<lambda>t. if t \<in> set ts then Some (index_of t ts) else None)"

lemma numbered_add:
  assumes "numbered z ts" "t \<notin> set ts" "length ts < 2 ^ 32"
  shows "numbered (z\<lparr>z_out := out, z_ids := (t, unat (word_of_nat (length (z_ids z)) :: 32 word)) # z_ids z\<rparr>) (ts @ [t])"
proof -
  have "unat (word_of_nat (length ts) :: 32 word) = length ts" using assms(3)
    by (simp add: unsigned_of_nat take_bit_nat_eq_self)
  moreover have "index_of u (ts @ [t]) = (if u \<in> set ts then index_of u ts else length ts)" if "u \<in> set ts \<or> u = t" for u
    using that assms(2) by (induction ts) auto
  ultimately show ?thesis using assms by (auto simp: numbered_def fun_eq_iff)
qed

definition node_bytes :: "nat list \<Rightarrow> tnode \<Rightarrow> bytes" where
  "node_bytes ts n = of_nat (opcode_number (t_op n)) # (if t_op n = CONSTANT then le_bytes 4 (unat (t_value n)) else [])
     @ (if args (t_op n) = 2 then le_bytes 4 (index_of (t_rhs n) ts) else [])
     @ (if args (t_op n) = 2 \<or> args (t_op n) = 1 then le_bytes 4 (index_of (t_lhs n) ts) else [])"

definition children_in :: "nat list \<Rightarrow> tnode \<Rightarrow> bool" where
  "children_in ts n \<longleftrightarrow> (t_lhs n = 0 \<or> t_lhs n \<in> set ts) \<and> (t_rhs n = 0 \<or> t_rhs n \<in> set ts)"

lemma index_of_snoc: "u \<in> set ts \<Longrightarrow> index_of u (ts @ [t]) = index_of u ts"
  by (induction ts) auto

lemma serialize_node_bytes:
  assumes ok: "store_ok c" and n: "node_at c t = Some n" "t_op n \<noteq> ORACLE" and z: "numbered z ts" "t \<notin> set ts"
    and len: "length ts < 2 ^ 32" and kids: "children_in ts n"
  shows "\<exists>z'. serialize_node io dep c z t = Inr z' \<and> z_out z' = z_out z @ node_bytes ts n \<and> numbered z' (ts @ [t])"
proof -
  have args: "args (t_op n) = 1 \<or> args (t_op n) = 2 \<Longrightarrow> t_lhs n \<in> set ts" "args (t_op n) = 2 \<Longrightarrow> t_rhs n \<in> set ts"
    using node_args[OF ok n(1)] kids by (auto simp: args_ok_def arity_ok_def children_in_def split: if_splits)
  let ?ids = "(t, unat (word_of_nat (length (z_ids z)) :: 32 word)) # z_ids z"
  have num: "number_of z' u = Inr (index_of u ts)" if "z_ids z' = ?ids" "u \<in> set ts" for z' u
    using z that by (auto simp: numbered_def number_of_def)
  let ?z = "z\<lparr>z_out := z_out z @ node_bytes ts n, z_ids := ?ids\<rparr>"
  have "map_of (z_ids z) t = None" using z by (simp add: numbered_def)
  with n args num have "serialize_node io dep c z t = Inr ?z"
    by (auto simp: serialize_node_def put_bytes_def serialize_args_def node_bytes_def Let_def)
  with numbered_add[OF z len] show ?thesis by simp
qed

text \<open>The reader's step on the bytes of a node.\<close>

lemma deserialize_node_bytes:
  assumes ok: "store_ok c" and n: "node_at c t = Some n" "t_op n \<noteq> ORACLE" and kids: "children_in ts n"
    and len: "length ts < 2 ^ 32" and re: "rebuilds mk c t"
    and r: "r_in r = node_bytes ts n @ rest" "\<not> r_eof r" "r_trees r = ts" and c': "store_ok c'" "extends c c'"
  shows "\<exists>c''. tree_loop io alloc mk (Suc fuel) r c' = tree_loop io alloc mk fuel (r\<lparr>r_in := rest, r_trees := ts @ [t]\<rparr>) c''
    \<and> store_ok c'' \<and> extends c' c''"
proof -
  have op: "unat (of_nat (opcode_number (t_op n)) :: 8 word) = opcode_number (t_op n)" "opcode_number (t_op n) < 34"
    using opcode_number_less[of "t_op n"] by (simp_all add: unsigned_of_nat take_bit_nat_eq_self)
  have fin: "of_nat (opcode_number (t_op n)) \<noteq> END_OF_ITEM"
  proof
    assume "of_nat (opcode_number (t_op n)) = END_OF_ITEM"
    then have "opcode_number (t_op n) = 255" using op(1) by (simp add: END_OF_ITEM_def)
    with op(2) show False by simp
  qed
  have a: "args_ok c (t_op n) (t_lhs n) (t_rhs n)" by (rule node_args[OF ok n(1)])
  have idx: "index_of u ts < 2 ^ 32" "tree_at r' (index_of u ts) = Inr u" if "u \<in> set ts" "r_trees r' = ts" for u r'
    using that index_of_less[of u ts] index_of_nth[of u ts] len by (simp_all add: tree_at_def)
  let ?r = "r\<lparr>r_in := tl (node_bytes ts n) @ rest\<rparr>"
  have "\<exists>c''. deserialize_node io alloc mk (of_nat (opcode_number (t_op n))) ?r c'
      = Inr (True, r\<lparr>r_in := rest, r_trees := ts @ [t]\<rparr>, c'') \<and> store_ok c'' \<and> extends c' c''"
  proof (cases "t_op n = CONSTANT")
    case True
    have "constant_node alloc (t_value n) c' = (t, c')" using constant_found[OF c'(1) _ True] extends_node[OF c'(2) n(1)] by simp
    moreover have "args (t_op n) = 0" using True by (simp add: args_def)
    moreover have "(of_nat (unat (t_value n)) :: f32) = t_value n" by simp
    moreover have "unat (t_value n) < 2 ^ 32" using unsigned_less[of "t_value n"] by simp
    ultimately show ?thesis using True op r c' n
      by (auto simp: deserialize_node_def node_bytes_def deserializeBytes4_round add_tree_def Tree_constant_def)
  next
    case False
    with re n(1) c' obtain c'' where c'': "mk (t_op n) (t_lhs n) (t_rhs n) c' = Inr (t, c'')" "store_ok c''" "extends c' c''"
      unfolding rebuilds_def by blast
    consider "args (t_op n) = 0" "t_lhs n = 0" "t_rhs n = 0" | "args (t_op n) = 1" "t_lhs n \<in> set ts" "t_rhs n = 0"
      | "args (t_op n) = 2" "t_lhs n \<in> set ts" "t_rhs n \<in> set ts"
      using a kids by (auto simp: args_ok_def arity_ok_def children_in_def split: if_splits)
    then show ?thesis
      by cases (use False op r n(2) c'' idx in \<open>auto simp: deserialize_node_def node_bytes_def add_tree_def deserializeBytes4_round\<close>)
  qed
  with r(1,2) fin show ?thesis by (auto simp: in_get_def node_bytes_def)
qed

section \<open>Trees\<close>

text \<open>The reader turns \<open>bs\<close> into trees for the nodes that \<open>ts'\<close> has more than \<open>ts\<close>, in \<open>k\<close> steps.\<close>

definition reads_back ::
    "oracle_io \<Rightarrow> allocator \<Rightarrow> build \<Rightarrow> cache \<Rightarrow> bytes \<Rightarrow> nat list \<Rightarrow> nat list \<Rightarrow> nat \<Rightarrow> bool" where
  "reads_back io alloc mk c bs ts ts' k \<longleftrightarrow> k \<le> length bs \<and>
     (\<forall>r c' rest fuel. r_in r = bs @ rest \<longrightarrow> \<not> r_eof r \<longrightarrow> r_trees r = ts \<longrightarrow> store_ok c' \<longrightarrow> extends c c' \<longrightarrow>
       (\<exists>c''. tree_loop io alloc mk (k + fuel) r c' = tree_loop io alloc mk fuel (r\<lparr>r_in := rest, r_trees := ts'\<rparr>) c''
         \<and> store_ok c'' \<and> extends c' c''))"

lemma reads_back_Nil: "reads_back io alloc mk c [] ts ts 0"
proof -
  have "r\<lparr>r_in := rest, r_trees := ts\<rparr> = r" if "r_in r = rest" "r_trees r = ts" for r :: deserializer and rest
    using that by simp
  then show ?thesis unfolding reads_back_def by fastforce
qed

lemma reads_back_trans:
  assumes "reads_back io alloc mk c bs ts us k" "reads_back io alloc mk c bs' us vs k'"
  shows "reads_back io alloc mk c (bs @ bs') ts vs (k + k')"
  unfolding reads_back_def
proof (intro conjI allI impI)
  show "k + k' \<le> length (bs @ bs')" using assms by (simp add: reads_back_def)
  fix r :: deserializer and c' rest fuel
  assume r: "r_in r = (bs @ bs') @ rest" "\<not> r_eof r" "r_trees r = ts" and c': "store_ok c'" "extends c c'"
  obtain c1 where c1: "tree_loop io alloc mk (k + (k' + fuel)) r c' = tree_loop io alloc mk (k' + fuel) (r\<lparr>r_in := bs' @ rest, r_trees := us\<rparr>) c1"
    "store_ok c1" "extends c' c1"
    using assms(1)[unfolded reads_back_def] r c' by (metis append.assoc)
  have "extends c c1" using c'(2) c1(3) by (rule extends_trans)
  then obtain c2 where "tree_loop io alloc mk (k' + fuel) (r\<lparr>r_in := bs' @ rest, r_trees := us\<rparr>) c1
      = tree_loop io alloc mk fuel (r\<lparr>r_in := bs' @ rest, r_trees := us, r_in := rest, r_trees := vs\<rparr>) c2" "store_ok c2" "extends c1 c2"
    using assms(2)[unfolded reads_back_def, THEN conjunct2, rule_format, of "r\<lparr>r_in := bs' @ rest, r_trees := us\<rparr>" rest c1 fuel] r c1(2) by auto
  with c1 extends_trans show "\<exists>c''. tree_loop io alloc mk (k + k' + fuel) r c' = tree_loop io alloc mk fuel (r\<lparr>r_in := rest, r_trees := vs\<rparr>) c''
         \<and> store_ok c'' \<and> extends c' c''" by (auto simp: add.assoc)
qed

text \<open>The nodes that are not numbered yet, each after its arguments.\<close>

fun closed_nodes :: "cache \<Rightarrow> nat list \<Rightarrow> nat list \<Rightarrow> bool" where
  "closed_nodes c ts [] \<longleftrightarrow> True"
| "closed_nodes c ts (q # qs) \<longleftrightarrow> (\<exists>n. node_at c q = Some n \<and> t_op n \<noteq> ORACLE \<and> children_in ts n) \<and> closed_nodes c (ts @ [q]) qs"

lemma closed_nodes_mono: "closed_nodes c ts qs \<Longrightarrow> set ts \<subseteq> set us \<Longrightarrow> closed_nodes c us qs"
proof (induction qs arbitrary: ts us)
  case (Cons q qs)
  have "closed_nodes c (us @ [q]) qs" by (rule Cons.IH[of "ts @ [q]"]) (use Cons.prems in auto)
  with Cons.prems show ?case by (auto simp: children_in_def)
qed simp

definition room :: "cache \<Rightarrow> bool" where
  "room c \<longleftrightarrow> length (c_nodes c) < 2 ^ 32"

lemma room_bound:
  assumes "room c" "distinct ts" "\<forall>t \<in> set ts. node_at c t \<noteq> None"
  shows "length ts < 2 ^ 32"
proof -
  have "set ts \<subseteq> fst ` set (c_nodes c)"
  proof
    fix t assume "t \<in> set ts"
    then obtain n where "node_at c t = Some n" using assms(3) by blast
    from map_of_SomeD[OF this] show "t \<in> fst ` set (c_nodes c)" by (rule image_eqI[rotated]) simp
  qed
  then have "card (set ts) \<le> card (fst ` set (c_nodes c))" by (rule card_mono[rotated]) simp
  also have "\<dots> \<le> length (c_nodes c)" using card_image_le[of "set (c_nodes c)" fst] card_length[of "c_nodes c"] by simp
  finally show ?thesis using assms(1,2) by (simp add: room_def distinct_card)
qed

lemma nodes_round_trip:
  assumes ok: "store_ok c" and room: "room c"
  shows "closed_nodes c ts qs \<Longrightarrow> \<forall>q \<in> set qs. rebuilds mk c q \<Longrightarrow> numbered z ts \<Longrightarrow> \<forall>t \<in> set ts. node_at c t \<noteq> None \<Longrightarrow>
    distinct qs \<Longrightarrow> \<exists>z' bs k. foldE (serialize_node io dep c) z qs = Inr z' \<and> z_out z' = z_out z @ bs
      \<and> numbered z' (ts @ filter (\<lambda>q. q \<notin> set ts) qs)
      \<and> reads_back io alloc mk c bs ts (ts @ filter (\<lambda>q. q \<notin> set ts) qs) k"
proof (induction qs arbitrary: z ts)
  case Nil
  then show ?case using reads_back_Nil by (auto intro!: exI[of _ 0])
next
  case (Cons q qs)
  obtain n where n: "node_at c q = Some n" "t_op n \<noteq> ORACLE" "children_in ts n" using Cons.prems(1) by auto
  show ?case
  proof (cases "q \<in> set ts")
    case True
    then have "serialize_node io dep c z q = Inr z" using Cons.prems(3) by (simp add: serialize_node_def numbered_def)
    moreover have "closed_nodes c ts qs" by (rule closed_nodes_mono[of c "ts @ [q]"]) (use Cons.prems(1) True in auto)
    ultimately show ?thesis using Cons.IH[of ts z] Cons.prems True by simp
  next
    case False
    note len = room_bound[OF room _ Cons.prems(4)]
    have "distinct ts" using Cons.prems(3) by (simp add: numbered_def)
    note len = len[OF this]
    from serialize_node_bytes[OF ok n(1,2) Cons.prems(3) False len n(3)]
    obtain z1 where z1: "serialize_node io dep c z q = Inr z1" "z_out z1 = z_out z @ node_bytes ts n" "numbered z1 (ts @ [q])" by blast
    have one: "reads_back io alloc mk c (node_bytes ts n) ts (ts @ [q]) 1"
      unfolding reads_back_def
      using deserialize_node_bytes[OF ok n(1-3) len, of mk _ _ _ io alloc] Cons.prems(2) by (auto simp: node_bytes_def)
    have rest: "filter (\<lambda>x. x \<notin> set (ts @ [q])) qs = filter (\<lambda>x. x \<notin> set ts) qs"
      using Cons.prems(5) by (auto intro: filter_cong)
    from Cons.IH[OF _ _ z1(3)] Cons.prems n(1)
    obtain z' bs k where z': "foldE (serialize_node io dep c) z1 qs = Inr z'" "z_out z' = z_out z1 @ bs"
      "numbered z' ((ts @ [q]) @ filter (\<lambda>x. x \<notin> set (ts @ [q])) qs)"
      "reads_back io alloc mk c bs (ts @ [q]) ((ts @ [q]) @ filter (\<lambda>x. x \<notin> set (ts @ [q])) qs) k" by auto
    from reads_back_trans[OF one z'(4)] z1 z' False show ?thesis unfolding rest by auto
  qed
qed

section \<open>Shapes\<close>

text \<open>What an archive must be like: no oracles, no named variables, trees that can be built again.\<close>

definition shape_ok :: "build \<Rightarrow> cache \<Rightarrow> shape \<Rightarrow> bool" where
  "shape_ok mk c s \<longleftrightarrow> live c (s_tree s) \<and> s_vars s = []
     \<and> (\<forall>q. below c (s_tree s) q \<longrightarrow> op_of c q \<noteq> ORACLE \<and> rebuilds mk c q)"

lemma closed_ordered:
  assumes "child_first c qs" "\<forall>q \<in> set qs. live c q \<and> op_of c q \<noteq> ORACLE"
  shows "qs = xs @ ys \<Longrightarrow> set xs \<subseteq> set us \<Longrightarrow> closed_nodes c us ys"
proof (induction ys arbitrary: xs us)
  case (Cons q ys)
  then obtain n where n: "node_at c q = Some n" "t_op n \<noteq> ORACLE" using assms(2) by (auto simp: live_def op_of_def)
  have "children_in us n"
    using assms(1)[unfolded child_first_def, rule_format, OF Cons.prems(1) n(1)] Cons.prems(2) by (auto simp: children_in_def)
  with n Cons.IH[of "xs @ [q]" "us @ [q]"] Cons.prems show ?case by auto
qed simp

lemma serialize_shape_bytes:
  assumes ok: "store_ok c" and room: "room c" and s: "shape_ok mk c s" and z: "numbered z ts" "\<forall>t \<in> set ts. node_at c t \<noteq> None"
  shows "\<exists>z' ts' bs. serializeShape io (Suc fuel) c z s = Inr z' \<and> z_out z' = z_out z @ bs \<and> numbered z' ts'
    \<and> (\<forall>t \<in> set ts'. node_at c t \<noteq> None) \<and> bs \<noteq> [] \<and>
    (\<forall>r c' rest. r_in r = tl bs @ rest \<longrightarrow> \<not> r_eof r \<longrightarrow> r_trees r = ts \<longrightarrow> store_ok c' \<longrightarrow> extends c c' \<longrightarrow>
      (\<exists>c''. deserializeShape io alloc mk (hd bs) r c' = Inr (s, r\<lparr>r_in := rest, r_trees := ts'\<rparr>, c'')
        \<and> store_ok c'' \<and> extends c' c''))"
proof -
  let ?head = "string_bytes (s_name s) @ string_bytes (s_doc s)"
  have vars: "s_vars s = []" using s by (simp add: shape_ok_def)
  then have sv: "\<lparr>s_tree = s_tree s, s_name = s_name s, s_doc = s_doc s, s_vars = []\<rparr> = s" "s\<lparr>s_vars := []\<rparr> = s" by simp_all
  have distinct: "distinct ts" using z(1) by (simp add: numbered_def)
  note len = room_bound[OF room distinct z(2)]
  have tags: "byte_of (CHR ''T'') \<noteq> byte_of (CHR ''t'')" by (simp add: byte_of_inj)
  have END: "vars_loop (Suc k) [] r = Inr ([], r\<lparr>r_in := rest\<rparr>)" if "r_in r = END_OF_ITEM # rest" "\<not> r_eof r" for k r rest
    using that by (simp add: in_get_def)
  show ?thesis
  proof (cases "s_tree s \<in> set ts")
    case True
    let ?i = "index_of (s_tree s) ts"
    let ?bs = "byte_of (CHR ''t'') # ?head @ le_bytes 4 ?i @ [END_OF_ITEM]"
    have i: "?i < length ts" "ts ! ?i = s_tree s" using index_of_less[OF True] index_of_nth[OF True] by simp_all
    have "serializeShape io (Suc fuel) c z s = Inr (z\<lparr>z_out := z_out z @ ?bs\<rparr>)"
      using True z(1) vars by (simp add: serializeShape_def numbered_def number_of_def put_bytes_def serializeString_out Let_def)
    moreover have "\<exists>c''. deserializeShape io alloc mk (hd ?bs) r c' = Inr (s, r\<lparr>r_in := rest, r_trees := ts\<rparr>, c'') \<and> store_ok c'' \<and> extends c' c''"
      if r: "r_in r = tl ?bs @ rest" "\<not> r_eof r" "r_trees r = ts" and c': "store_ok c'" for r :: deserializer and c' rest
    proof -
      have e: "r\<lparr>r_in := rest, r_trees := ts\<rparr> = r\<lparr>r_in := rest\<rparr>" using r(3) by simp
      have "deserializeShape io alloc mk (hd ?bs) r c' = Inr (s, r\<lparr>r_in := rest\<rparr>, c')"
        using r i len sv by (simp add: deserializeShape_def deserializeString_round deserializeBytes4_round tree_at_def END del: vars_loop.simps)
      with c' e show ?thesis by auto
    qed
    ultimately show ?thesis using z by (intro exI[of _ "z\<lparr>z_out := z_out z @ ?bs\<rparr>"] exI[of _ ts] exI[of _ ?bs]) (auto simp: numbered_def)
  next
    case False
    have t: "live c (s_tree s)" "\<And>q. below c (s_tree s) q \<Longrightarrow> op_of c q \<noteq> ORACLE \<and> rebuilds mk c q" using s by (simp_all add: shape_ok_def)
    obtain qs xs where qs: "ordered (s_tree s) c = Inr qs" "distinct qs" "set qs = {q. below c (s_tree s) q}" "child_first c qs" "qs = xs @ [s_tree s]"
      using ordered_result[OF ok t(1)] by blast
    have live: "\<forall>q \<in> set qs. live c q" using below_live[OF ok _ t(1)] qs(3) by auto
    let ?z1 = "z\<lparr>z_out := z_out z @ byte_of (CHR ''T'') # ?head\<rparr>" and ?ts' = "ts @ filter (\<lambda>q. q \<notin> set ts) qs"
    have "numbered ?z1 ts" using z(1) by (simp add: numbered_def)
    moreover have "closed_nodes c ts qs" by (rule closed_ordered[OF qs(4), of "[]"]) (use live t(2) qs(3) in auto)
    ultimately obtain z2 bs k where z2: "foldE (serialize_node io (serializeTree io fuel c) c) ?z1 qs = Inr z2"
      "z_out z2 = z_out ?z1 @ bs" "numbered z2 ?ts'" "reads_back io alloc mk c bs ts ?ts' k"
      using nodes_round_trip[OF ok room, of ts qs mk ?z1 io "serializeTree io fuel c" alloc] t(2) qs(2,3) z(2) by auto
    let ?bs = "byte_of (CHR ''T'') # ?head @ bs @ [END_OF_ITEM, END_OF_ITEM]"
    let ?z' = "z2\<lparr>z_out := z_out z @ ?bs\<rparr>"
    have "serializeShape io (Suc fuel) c z s = Inr ?z'"
      using False z(1) vars z2(1,2) qs(1)
      by (simp add: serializeShape_def numbered_def put_bytes_def serializeString_out Let_def)
    moreover have "\<exists>c''. deserializeShape io alloc mk (hd ?bs) r c' = Inr (s, r\<lparr>r_in := rest, r_trees := ?ts'\<rparr>, c'') \<and> store_ok c'' \<and> extends c' c''"
      if r: "r_in r = tl ?bs @ rest" "\<not> r_eof r" "r_trees r = ts" and c': "store_ok c'" "extends c c'" for r :: deserializer and c' rest
    proof -
      let ?r = "r\<lparr>r_in := bs @ END_OF_ITEM # END_OF_ITEM # rest\<rparr>"
      have k: "k \<le> length bs" using z2(4) by (simp add: reads_back_def)
      obtain c'' where c'': "tree_loop io alloc mk (k + Suc (length (r_in ?r) - k)) ?r c'
          = tree_loop io alloc mk (Suc (length (r_in ?r) - k)) (?r\<lparr>r_in := END_OF_ITEM # END_OF_ITEM # rest, r_trees := ?ts'\<rparr>) c''"
        "store_ok c''" "extends c' c''"
        using z2(4)[unfolded reads_back_def, THEN conjunct2, rule_format, of ?r "END_OF_ITEM # END_OF_ITEM # rest" c' "Suc (length (r_in ?r) - k)"]
          r c' by (auto simp del: tree_loop.simps)
      then have loop: "tree_loop io alloc mk (Suc (length (r_in ?r))) ?r c' = Inr (True, r\<lparr>r_in := END_OF_ITEM # rest, r_trees := ?ts'\<rparr>, c'')"
        using k r(2) by (simp add: in_get_def)
      have last: "last ?ts' = s_tree s" "?ts' \<noteq> []" using qs(5) False by auto
      from loop last have "deserializeShape io alloc mk (hd ?bs) r c' = Inr (s, r\<lparr>r_in := rest, r_trees := ?ts'\<rparr>, c'')"
        using r(1,2) tags sv by (simp add: deserializeShape_def deserializeString_round END del: tree_loop.simps vars_loop.simps)
      with c'' show ?thesis by auto
    qed
    moreover have "numbered ?z' ?ts'" using z2(3) by (simp add: numbered_def)
    moreover have "\<forall>t \<in> set ?ts'. node_at c t \<noteq> None" using z(2) live by (auto simp: live_def)
    ultimately show ?thesis by (intro exI[of _ ?z'] exI[of _ ?ts'] exI[of _ ?bs]) auto
  qed
qed

lemma archive_bytes:
  assumes ok: "store_ok c" and room: "room c"
  shows "\<forall>s \<in> set shapes. shape_ok mk c s \<Longrightarrow> numbered z ts \<Longrightarrow> \<forall>t \<in> set ts. node_at c t \<noteq> None \<Longrightarrow>
    \<exists>z' bs. foldE (serializeShape io (Suc fuel) c) z shapes = Inr z' \<and> z_out z' = z_out z @ bs \<and>
      (\<forall>r c' k. r_in r = bs \<longrightarrow> \<not> r_eof r \<longrightarrow> r_trees r = ts \<longrightarrow> store_ok c' \<longrightarrow> extends c c' \<longrightarrow> length bs < k \<longrightarrow>
        (\<exists>c''. shapes_loop io alloc mk k r c' = Inr (shapes, c'') \<and> store_ok c'' \<and> extends c' c''))"
proof (induction shapes arbitrary: z ts)
  case Nil
  have "shapes_loop io alloc mk k r c' = Inr ([], c')" if "0 < k" "r_in r = []" "\<not> r_eof r" for k r c'
    using that by (cases k) (auto simp: in_get_def)
  then show ?case by auto
next
  case (Cons s shapes)
  from serialize_shape_bytes[OF ok room _ Cons.prems(2,3), of mk s io fuel alloc] Cons.prems(1)
  obtain z1 ts1 bs1 where z1: "serializeShape io (Suc fuel) c z s = Inr z1" "z_out z1 = z_out z @ bs1" "numbered z1 ts1"
    "\<forall>t \<in> set ts1. node_at c t \<noteq> None" "bs1 \<noteq> []"
    and read1: "\<And>r c' rest. r_in r = tl bs1 @ rest \<Longrightarrow> \<not> r_eof r \<Longrightarrow> r_trees r = ts \<Longrightarrow> store_ok c' \<Longrightarrow> extends c c' \<Longrightarrow>
      \<exists>c''. deserializeShape io alloc mk (hd bs1) r c' = Inr (s, r\<lparr>r_in := rest, r_trees := ts1\<rparr>, c'') \<and> store_ok c'' \<and> extends c' c''"
    by auto
  from Cons.IH[OF _ z1(3,4)] Cons.prems(1)
  obtain z' bs where z': "foldE (serializeShape io (Suc fuel) c) z1 shapes = Inr z'" "z_out z' = z_out z1 @ bs"
    and read: "\<And>r c' k. r_in r = bs \<Longrightarrow> \<not> r_eof r \<Longrightarrow> r_trees r = ts1 \<Longrightarrow> store_ok c' \<Longrightarrow> extends c c' \<Longrightarrow> length bs < k \<Longrightarrow>
        \<exists>c''. shapes_loop io alloc mk k r c' = Inr (shapes, c'') \<and> store_ok c'' \<and> extends c' c''"
    by auto
  have "\<exists>c''. shapes_loop io alloc mk k r c' = Inr (s # shapes, c'') \<and> store_ok c'' \<and> extends c' c''"
    if r: "r_in r = bs1 @ bs" "\<not> r_eof r" "r_trees r = ts" and c': "store_ok c'" "extends c c'" and k: "length (bs1 @ bs) < k"
    for r c' k
  proof -
    obtain k' where k': "k = Suc k'" "length bs < k'" using k z1(5) by (cases k) (auto simp: neq_Nil_conv)
    let ?r = "r\<lparr>r_in := tl bs1 @ bs\<rparr>"
    obtain c1 where c1: "deserializeShape io alloc mk (hd bs1) ?r c' = Inr (s, ?r\<lparr>r_in := bs, r_trees := ts1\<rparr>, c1)" "store_ok c1" "extends c' c1"
      using read1[of ?r bs c'] r c' by auto
    have "extends c c1" using c'(2) c1(3) by (rule extends_trans)
    from read[of "?r\<lparr>r_in := bs, r_trees := ts1\<rparr>" c1 k', OF _ _ _ c1(2) this k'(2)] r(2)
    obtain c2 where c2: "shapes_loop io alloc mk k' (?r\<lparr>r_in := bs, r_trees := ts1\<rparr>) c1 = Inr (shapes, c2)" "store_ok c2" "extends c1 c2"
      by auto
    have "in_get r = (Some (hd bs1), ?r)" using r z1(5) by (cases bs1) (auto simp: in_get_def)
    with c1 c2 k'(1) extends_trans show ?thesis by auto
  qed
  with z1 z' show ?case by (intro exI[of _ z'] exI[of _ "bs1 @ bs"]) auto
qed

section \<open>Nodes that can be built again\<close>

text \<open>No rewriting applies to the node. The rewriting of sums makes constants on the way, and sums
  are left out.\<close>

definition settled :: "cache \<Rightarrow> nat \<Rightarrow> bool" where
  "settled c q \<longleftrightarrow> (case node_at c q of None \<Rightarrow> False | Some n \<Rightarrow>
     t_op n \<notin> {VAR_FREE, ORACLE, OP_ADD, OP_SUB} \<and> exponent_ok (t_op n) (node_at c (t_rhs n)) \<and>
     (t_op n \<noteq> CONSTANT \<longrightarrow>
       (case checkIdentity (\<lambda>_ _ _ _. Inl Unassigned) (t_op n) (t_lhs n) (t_rhs n) c of Inl _ \<Rightarrow> False | Inr (t, _) \<Rightarrow> t = 0) \<and>
       (case checkCommutative (\<lambda>_ _ _ _. Inl Unassigned) (t_op n) (t_lhs n) (t_rhs n) c of Inl _ \<Rightarrow> False | Inr (t, _) \<Rightarrow> t = 0)))"

lemma rank_or_zero_extends: "extends c c' \<Longrightarrow> p \<noteq> 0 \<longrightarrow> live c p \<Longrightarrow> rank_or_zero c' p = rank_or_zero c p"
  by (auto simp: rank_or_zero_def deref_opt_def deref_def live_def extends_def)

lemma identity_settled:
  assumes "case checkIdentity (\<lambda>_ _ _ _. Inl Unassigned) op a b c of Inl _ \<Rightarrow> False | Inr (t, _) \<Rightarrow> t = 0"
    and "extends c c'" "a \<noteq> 0 \<longrightarrow> live c a" "b \<noteq> 0 \<longrightarrow> live c b"
  shows "checkIdentity opn op a b c' = Inr (0, c')"
proof -
  have same: "deref_opt c' p = deref_opt c p" "deref_opt c p = Inr (child c p)" if "p \<noteq> 0 \<longrightarrow> live c p" for p
    using that deref_opt_child[of p c] deref_opt_child[of p c'] child_extends[OF assms(2) that] live_extends[OF assms(2), of p] by simp_all
  show ?thesis using assms(1) same[OF assms(3)] same[OF assms(4)]
    by (cases op) (auto simp: checkIdentity_def Let_def split: if_splits)
qed

lemma commutative_settled:
  assumes ok: "store_ok c" and s: "case checkCommutative (\<lambda>_ _ _ _. Inl Unassigned) op a b c of Inl _ \<Rightarrow> False | Inr (t, _) \<Rightarrow> t = 0"
    and ext: "extends c c'" and l: "isCommutative op \<Longrightarrow> live c a \<and> live c b"
  shows "checkCommutative opn op a b c' = Inr (0, c')"
proof (cases "isCommutative op")
  case True
  obtain na nb where n: "node_at c a = Some na" "node_at c b = Some nb" using l[OF True] by (auto simp: live_def)
  then have n': "node_at c' a = Some na" "node_at c' b = Some nb" using ext by (auto simp: extends_def)
  have kid: "p \<noteq> 0 \<longrightarrow> live c p" if "p \<in> {t_lhs na, t_rhs na, t_lhs nb, t_rhs nb}" for p
    using that node_child[OF ok n(1), of p] node_child[OF ok n(2), of p] by (auto simp: live_def)
  have rank: "\<exists>r. rank_or_zero c p = Inr r \<and> rank_or_zero c' p = Inr r" if "p \<in> {t_lhs na, t_rhs na, t_lhs nb, t_rhs nb}" for p
    using rank_or_zero_extends[OF ext kid[OF that]] rank_or_zero_child[OF kid[OF that]] by simp
  obtain al ar bl br where r: "rank_or_zero c (t_lhs na) = Inr al" "rank_or_zero c' (t_lhs na) = Inr al"
    "rank_or_zero c (t_rhs na) = Inr ar" "rank_or_zero c' (t_rhs na) = Inr ar"
    "rank_or_zero c (t_lhs nb) = Inr bl" "rank_or_zero c' (t_lhs nb) = Inr bl"
    "rank_or_zero c (t_rhs nb) = Inr br" "rank_or_zero c' (t_rhs nb) = Inr br"
    using rank[of "t_lhs na"] rank[of "t_rhs na"] rank[of "t_lhs nb"] rank[of "t_rhs nb"] by blast
  show ?thesis using s True n n' r by (auto simp: checkCommutative_def split: if_splits)
qed (simp add: checkCommutative_def)

lemma settled_rebuilds:
  assumes ok: "store_ok c" and set: "settled c q"
  shows "rebuilds (Tree_operation lib alloc (Suc fuel)) c q"
  unfolding rebuilds_def
proof (intro allI impI)
  fix n c' assume n: "node_at c q = Some n" "t_op n \<noteq> CONSTANT" and c': "store_ok c'" "extends c c'"
  let ?op = "t_op n" and ?a = "t_lhs n" and ?b = "t_rhs n"
  have S: "?op \<notin> {VAR_FREE, ORACLE, OP_ADD, OP_SUB}" "exponent_ok ?op (node_at c ?b)"
    "case checkIdentity (\<lambda>_ _ _ _. Inl Unassigned) ?op ?a ?b c of Inl _ \<Rightarrow> False | Inr (t, _) \<Rightarrow> t = 0"
    "case checkCommutative (\<lambda>_ _ _ _. Inl Unassigned) ?op ?a ?b c of Inl _ \<Rightarrow> False | Inr (t, _) \<Rightarrow> t = 0"
    using set n by (auto simp: settled_def)
  have args: "args_ok c ?op ?a ?b" by (rule node_args[OF ok n(1)])
  then have kids: "?a \<noteq> 0 \<longrightarrow> live c ?a" "?b \<noteq> 0 \<longrightarrow> live c ?b" "isCommutative ?op \<Longrightarrow> live c ?a \<and> live c ?b"
    by (auto simp: args_ok_def arity_ok_def args_def isCommutative_def split: opcode.splits if_splits)
  have op: "?op \<noteq> INVALID" "?op \<noteq> LAST_OP" using args by (auto simp: args_ok_def arity_ok_def args_def split: if_splits)
  have n': "node_at c' q = Some n" using c'(2) n(1) by (simp add: extends_def)
  have "registered c' q n" using store_okD[OF c'(1) n'] by (simp add: node_ok_def)
  then have found: "find_or_make lib alloc ?op ?a ?b c' = Inr (q, c')"
    using n(2) S(1) n' by (simp add: registered_def find_or_make_def)
  have "operation lib alloc (Suc fuel) True ?op ?a ?b c' = Inr (q, c')"
    using S op n(2) found identity_settled[OF S(3) c'(2) kids(1,2)] commutative_settled[OF ok S(4) c'(2) kids(3)]
    by (simp add: operation.simps checkAffine_def)
  moreover have "node_at c ?b = Some m \<Longrightarrow> node_at c' ?b = Some m" for m using c'(2) by (simp add: extends_def)
  ultimately have "Tree_operation lib alloc (Suc fuel) ?op ?a ?b c' = Inr (q, c')"
    using args S(2) by (auto simp: Tree_operation_def args_ok_def arity_ok_def exponent_ok_iff split: if_splits)
  with c' show "\<exists>c''. Tree_operation lib alloc (Suc fuel) ?op ?a ?b c' = Inr (q, c'') \<and> store_ok c'' \<and> extends c' c''" by auto
qed

section \<open>The properties\<close>

text \<open>C12: An archive that is written and read back in the same store is the same archive: every
  shape has its name, its text (whatever characters they contain, quotes and backslashes
  included) and the very tree it had, subtrees that several shapes share being stored once and
  referred to by number; reading ends exactly where writing did. The shapes name no variables (see
  below), and their trees are made of constants, axes and operations other than sums on which the
  store has nothing left to rewrite.\<close>

theorem archive_round_trip:
  assumes "fresh_addresses alloc" "api_reachable lib alloc s" "\<forall>h \<in> set shapes. s_tree h \<in> set (a_trees s) \<and> s_vars h = []"
    and "\<And>h q. h \<in> set shapes \<Longrightarrow> below (a_cache s) (s_tree h) q \<Longrightarrow> settled (a_cache s) q"
    and "length (c_nodes (a_cache s)) < 2 ^ 32"
  shows "\<exists>bs c'. serialize_archive io (Suc n) (a_cache s) shapes = Inr bs
    \<and> deserialize_archive io alloc (Tree_operation lib alloc (Suc fuel)) bs (a_cache s) = Inr (shapes, c')"
proof -
  let ?c = "a_cache s" and ?z = "\<lparr>z_out = [], z_ids = []\<rparr>"
  have ok: "store_ok ?c" "\<forall>p \<in> set (a_trees s). live ?c p" using reachable_ok[OF assms(1,2)] by (auto simp: api_ok_def)
  have "op_of ?c q \<noteq> ORACLE" if "settled ?c q" for q using that by (auto simp: settled_def op_of_def split: option.splits)
  then have shapes: "\<forall>h \<in> set shapes. shape_ok (Tree_operation lib alloc (Suc fuel)) ?c h"
    using assms(3,4) ok settled_rebuilds[OF ok(1)] unfolding shape_ok_def by blast
  have "numbered ?z []" by (simp add: numbered_def)
  from archive_bytes[OF ok(1) _ shapes this, of io n alloc] assms(5)
  obtain z bs where z: "foldE (serializeShape io (Suc n) ?c) ?z shapes = Inr z" "z_out z = bs"
    and r: "\<And>r c' k. r_in r = bs \<Longrightarrow> \<not> r_eof r \<Longrightarrow> r_trees r = [] \<Longrightarrow> store_ok c' \<Longrightarrow> extends ?c c' \<Longrightarrow> length bs < k \<Longrightarrow>
        \<exists>c''. shapes_loop io alloc (Tree_operation lib alloc (Suc fuel)) k r c' = Inr (shapes, c'') \<and> store_ok c'' \<and> extends c' c''"
    by (auto simp: room_def)
  from r[of "\<lparr>r_in = bs, r_eof = False, r_trees = []\<rparr>" ?c "Suc (length bs)"] ok(1)
  obtain c'' where "shapes_loop io alloc (Tree_operation lib alloc (Suc fuel)) (Suc (length bs)) \<lparr>r_in = bs, r_eof = False, r_trees = []\<rparr> ?c
    = Inr (shapes, c'')" by auto
  with z show ?thesis unfolding serialize_archive_def deserialize_archive_def by auto
qed

definition sample_io :: oracle_io where
  "sample_io = \<lparr>io_name = (\<lambda>_. []), io_deps = (\<lambda>_. []), io_write = (\<lambda>_ _. []), io_read = (\<lambda>_ bs. (None, bs))\<rparr>"

definition sample_archive :: archive where
  "sample_archive = addShape 4 ''sine'' ''a \"wave\"'' [] (addShape 5 ''both'' [] [] [])"

lemma sample_below:
  assumes "below (a_cache sample_state) p q" "p \<in> {2, 3, 4, 5}"
  shows "q \<in> {2, 3, 4, 5}"
  using assms by (induction rule: below.induct) (auto simp: sample_trees sample_node_def split: if_splits)

lemma sample_settled:
  assumes "q \<in> {2, 3, 4, 5}"
  shows "settled (a_cache sample_state) q"
proof -
  have "settled (a_cache sample_state) 2" "settled (a_cache sample_state) 3" "settled (a_cache sample_state) 4" "settled (a_cache sample_state) 5"
    by code_simp+
  with assms show ?thesis by auto
qed

theorem archive_round_trip_witness:
  "\<exists>bs c'. serialize_archive sample_io (Suc 0) (a_cache sample_state) sample_archive = Inr bs
    \<and> deserialize_archive sample_io next_address (Tree_operation sample_libm next_address (Suc 0)) bs (a_cache sample_state)
      = Inr (sample_archive, c')"
proof (rule archive_round_trip[OF fresh_sample client_reachable])
  show "\<forall>h \<in> set sample_archive. s_tree h \<in> set (a_trees sample_state) \<and> s_vars h = []"
    by (simp add: sample_archive_def addShape_def sample_trees)
  show "settled (a_cache sample_state) q" if "h \<in> set sample_archive" "below (a_cache sample_state) (s_tree h) q" for h q
    using that sample_settled[OF sample_below[of 4 q]] sample_settled[OF sample_below[of 5 q]]
    by (auto simp: sample_archive_def addShape_def)
  show "length (c_nodes (a_cache sample_state)) < 2 ^ 32" by (simp add: sample_trees)
qed

text \<open>C38: A shape that names a variable is never read back: the reader takes the opening quote of
  the name for the byte that would end the shape, does not find the quote it then expects, and
  reads the number of the variable from the wrong place; it ends with the entry beyond the end of
  its table of trees. (Here for a variable as the shape and a name of one letter.)\<close>

theorem named_variables_are_not_read:
  assumes "fresh_addresses alloc" "api_reachable lib alloc s" "v \<in> set (a_trees s)" "op_of (a_cache s) v = VAR_FREE"
    and "ch \<noteq> CHR 0x22" "ch \<noteq> CHR 0x5C" "deserialize_archive io alloc (Tree_operation lib alloc (Suc fuel)) bs (a_cache s) = r"
    and "serialize_archive io (Suc n) (a_cache s) (addShape v nm doc [(v, [ch])] []) = Inr bs"
  shows "r = Inl NullDeref"
proof -
  let ?c = "a_cache s" and ?mk = "Tree_operation lib alloc (Suc fuel)"
  have ok: "store_ok ?c" "live ?c v" using reachable_ok[OF assms(1,2)] assms(3) by (auto simp: api_ok_def)
  then obtain m where m: "node_at ?c v = Some m" "t_op m = VAR_FREE" using assms(4) by (auto simp: live_def op_of_def)
  have leaf: "t_lhs m = 0" "t_rhs m = 0" using node_args[OF ok(1) m(1)] m(2) by (auto simp: args_ok_def arity_ok_def args_def split: if_splits)
  have "\<forall>q. below ?c v q \<longrightarrow> q = v"
  proof (intro allI impI)
    fix q assume "below ?c v q"
    then show "q = v" using m leaf by (induction rule: below.induct) auto
  qed
  then obtain qs xs where "ordered v ?c = Inr qs" "distinct qs" "set qs = {v}"
    using ordered_result[OF ok] below_refl[of ?c v] by blast
  then have ord: "ordered v ?c = Inr [v]" by (cases qs; cases "tl qs") auto
  have node: "serialize_node io dep ?c z v = Inr (z\<lparr>z_out := z_out z @ [5], z_ids := [(v, 0)]\<rparr>)" if "z_ids z = []" for dep z
    using that m by (simp add: serialize_node_def serialize_args_def put_bytes_def Let_def args_def opcode_number_def all_opcodes_def)
  have "le_bytes (Suc (Suc (Suc (Suc 0)))) 0 = [0, 0, 0, 0]" by simp
  moreover have "Suc (Suc (Suc (Suc 0))) = 4" by simp
  ultimately have zero: "le_bytes 4 0 = [0, 0, 0, 0]" by metis
  have tree: "serializeTree io (Suc n) ?c z v = Inr (z\<lparr>z_out := z_out z @ [5], z_ids := [(v, 0)]\<rparr>)" if "z_ids z = []" for z
    using node[OF that] by (simp add: ord)
  let ?head = "byte_of (CHR ''T'') # string_bytes nm @ string_bytes doc"
  have name: "string_bytes [ch] = [0x22, byte_of ch, 0x22]" using assms(5,6) by (simp add: string_bytes_def escaped_def)
  have "serializeShape io (Suc n) ?c \<lparr>z_out = [], z_ids = []\<rparr> \<lparr>s_tree = v, s_name = nm, s_doc = doc, s_vars = [(v, [ch])]\<rparr>
    = Inr \<lparr>z_out = ?head @ [5, END_OF_ITEM, 0x22, byte_of ch, 0x22, 0, 0, 0, 0, END_OF_ITEM], z_ids = [(v, 0)]\<rparr>"
    by (simp add: serializeShape_def tree put_bytes_def serializeString_out serialize_var_def name zero del: serializeTree.simps)
  then have bs: "bs = ?head @ [5, END_OF_ITEM, 0x22, byte_of ch, 0x22, 0, 0, 0, 0, END_OF_ITEM]"
    using assms(8) by (simp add: serialize_archive_def addShape_def del: serializeTree.simps)
  obtain p c' where mk: "?mk VAR_FREE 0 0 ?c = Inr (p, c')"
    using variable_made[OF ok(1), of lib alloc] by (simp add: variable_operation)
  let ?rest = "[0x22, byte_of ch, 0x22, 0, 0, 0, 0, END_OF_ITEM]"
  have "opcode_of 5 = VAR_FREE" by (simp add: opcode_of_def all_opcodes_def)
  then have read: "deserialize_node io alloc ?mk 5 r ?c = Inr (True, r\<lparr>r_trees := r_trees r @ [p]\<rparr>, c')" for r
    using mk by (simp add: deserialize_node_def args_def add_tree_def)
  have trees: "tree_loop io alloc ?mk (Suc (Suc k)) r ?c = Inr (True, r\<lparr>r_in := ?rest, r_trees := r_trees r @ [p]\<rparr>, c')"
    if "r_in r = 5 # END_OF_ITEM # ?rest" "\<not> r_eof r" for r k
    using that by (simp add: in_get_def read END_OF_ITEM_def)
  have vars: "vars_loop (Suc k) [] r = Inl NullDeref" if "r_in r = ?rest" "\<not> r_eof r" "r_trees r = [p]" for r k
  proof -
    let ?r = "r\<lparr>r_in := tl ?rest\<rparr>"
    have "deserializeString ?r = ([], r\<lparr>r_in := [0x22, 0, 0, 0, 0, END_OF_ITEM]\<rparr>)"
      using that byte_of_special(1)[of ch] assms(5) by (simp add: deserializeString_def in_get_def)
    moreover have "deserializeBytes4 (r\<lparr>r_in := [0x22, 0, 0, 0, 0, END_OF_ITEM]\<rparr>) = Inr (34, r\<lparr>r_in := [0, END_OF_ITEM]\<rparr>)"
      using that(2) by (simp add: deserializeBytes4_def)
    ultimately show ?thesis using that by (simp add: in_get_def END_OF_ITEM_def)
  qed
  have "deserializeShape io alloc ?mk (byte_of (CHR ''T'')) r ?c = Inl NullDeref"
    if "r_in r = string_bytes nm @ string_bytes doc @ 5 # END_OF_ITEM # ?rest" "\<not> r_eof r" "r_trees r = []" for r
    using that by (simp add: deserializeShape_def deserializeString_round byte_of_inj trees vars del: tree_loop.simps vars_loop.simps)
  then show ?thesis using assms(7) by (simp add: deserialize_archive_def bs in_get_def)
qed

definition var_state :: api where
  "var_state = (case run_calls sample_libm next_address 5 [Var] sample_start of Inl e \<Rightarrow> sample_start | Inr s \<Rightarrow> s)"

lemma var_state_facts:
  "api_reachable sample_libm next_address var_state" "a_trees var_state = [1]" "op_of (a_cache var_state) 1 = VAR_FREE"
proof -
  have "case run_calls sample_libm next_address 5 [Var] sample_start of Inl e \<Rightarrow> False | Inr s \<Rightarrow> True" by code_simp
  from case_returned[OF this] have "run_calls sample_libm next_address 5 [Var] sample_start = Inr var_state" by (auto simp: var_state_def)
  from run_calls_reachable[OF this] api_start show "api_reachable sample_libm next_address var_state" by (simp add: sample_start_def)
  show "a_trees var_state = [1]" "op_of (a_cache var_state) 1 = VAR_FREE" by code_simp+
qed

theorem named_variables_are_not_read_witness:
  "\<exists>bs. serialize_archive sample_io (Suc 0) (a_cache var_state) (addShape 1 ''circle'' [] [(1, ''r'')] []) = Inr bs
    \<and> deserialize_archive sample_io next_address (Tree_operation sample_libm next_address (Suc 0)) bs (a_cache var_state) = Inl NullDeref"
proof -
  have "case serialize_archive sample_io (Suc 0) (a_cache var_state) (addShape 1 ''circle'' [] [(1, ''r'')] []) of Inl e \<Rightarrow> False | Inr bs \<Rightarrow> True"
    by code_simp
  from case_returned[OF this] obtain bs where
    bs: "serialize_archive sample_io (Suc 0) (a_cache var_state) (addShape 1 ''circle'' [] [(1, ''r'')] []) = Inr bs" by blast
  from named_variables_are_not_read[OF fresh_sample var_state_facts(1) _ var_state_facts(3) _ _ refl bs, of 0] bs show ?thesis
    by (simp add: var_state_facts(2))
qed

end
