(* ===== verification/IntervalOps.thy ===== *)
theory IntervalOps
  imports TapePush
begin

text \<open>
  The interval class (\<open>thirdparty/libfive/eval/interval.hpp\<close>): bounds, and a flag that is set when
  the value may be NaN. The bounds are computed by the interval library of Boost, which is not in
  the repository: the record \<open>boost\<close> holds what the class calls, with the C library's functions in
  \<open>libm\<close> as before. \<open>b_make l u\<close> is the library's constructor from two bounds.
\<close>

record boost =
  b_make :: "f32 \<Rightarrow> f32 \<Rightarrow> bounds"
  b_empty :: bounds
  b_default :: bounds
  b_hull :: "bounds \<Rightarrow> bounds \<Rightarrow> bounds"
  b_add :: "bounds \<Rightarrow> bounds \<Rightarrow> bounds"
  b_sub :: "bounds \<Rightarrow> bounds \<Rightarrow> bounds"
  b_mul :: "bounds \<Rightarrow> bounds \<Rightarrow> bounds"
  b_div :: "bounds \<Rightarrow> bounds \<Rightarrow> bounds"
  b_min :: "bounds \<Rightarrow> bounds \<Rightarrow> bounds"
  b_max :: "bounds \<Rightarrow> bounds \<Rightarrow> bounds"
  b_scale :: "bounds \<Rightarrow> f32 \<Rightarrow> bounds"
  b_over :: "f32 \<Rightarrow> bounds \<Rightarrow> bounds"
  b_pow :: "bounds \<Rightarrow> int \<Rightarrow> bounds"
  b_nth_root :: "bounds \<Rightarrow> int \<Rightarrow> bounds"
  b_neg :: "bounds \<Rightarrow> bounds"
  b_square :: "bounds \<Rightarrow> bounds"
  b_sqrt :: "bounds \<Rightarrow> bounds"
  b_abs :: "bounds \<Rightarrow> bounds"
  b_sin :: "bounds \<Rightarrow> bounds"
  b_cos :: "bounds \<Rightarrow> bounds"
  b_tan :: "bounds \<Rightarrow> bounds"
  b_asin :: "bounds \<Rightarrow> bounds"
  b_acos :: "bounds \<Rightarrow> bounds"
  b_atan :: "bounds \<Rightarrow> bounds"
  b_exp :: "bounds \<Rightarrow> bounds"
  b_log :: "bounds \<Rightarrow> bounds"

record interval =
  i_bounds :: bounds
  i_maybe_nan :: bool

definition interval :: "bounds \<Rightarrow> bool \<Rightarrow> interval" where
  "interval i u = \<lparr>i_bounds = i, i_maybe_nan = u\<rparr>"

lemma interval_simps [simp]: "i_bounds (interval i u) = i" "i_maybe_nan (interval i u) = u"
  by (simp_all add: interval_def)

definition Interval :: "boost \<Rightarrow> f32 \<Rightarrow> f32 \<Rightarrow> interval" where
  "Interval bo l u = interval (b_make bo l u) (f32_isnan l \<or> f32_isnan u)"

definition i_lower :: "interval \<Rightarrow> f32" where "i_lower a = fst (i_bounds a)"
definition i_upper :: "interval \<Rightarrow> f32" where "i_upper a = snd (i_bounds a)"

definition isSafe :: "interval \<Rightarrow> bool" where "isSafe a \<longleftrightarrow> \<not> i_maybe_nan a"
definition isFilled :: "interval \<Rightarrow> bool" where "isFilled a \<longleftrightarrow> f32_lt (i_upper a) 0"
definition isEmpty :: "interval \<Rightarrow> bool" where "isEmpty a \<longleftrightarrow> f32_lt 0 (i_lower a)"

datatype interval_state = EMPTY | FILLED | AMBIGUOUS | UNKNOWN

definition i_state :: "interval \<Rightarrow> interval_state" where
  "i_state a = (if i_maybe_nan a then AMBIGUOUS else if isEmpty a then EMPTY else if isFilled a then FILLED else AMBIGUOUS)"

section \<open>Arithmetic\<close>

definition plus_inf :: f32 where "plus_inf = f32_inf False"
definition minus_inf :: f32 where "minus_inf = f32_inf True"

definition has_zero :: "interval \<Rightarrow> bool" where
  "has_zero a \<longleftrightarrow> f32_le (i_lower a) 0 \<and> f32_le 0 (i_upper a)"

definition has_infinity :: "interval \<Rightarrow> bool" where
  "has_infinity a \<longleftrightarrow> f32_eq (i_lower a) minus_inf \<or> f32_eq (i_upper a) plus_inf"

definition i_add :: "boost \<Rightarrow> interval \<Rightarrow> interval \<Rightarrow> interval" where
  "i_add bo a b = interval (b_add bo (i_bounds a) (i_bounds b))
     (i_maybe_nan a \<or> i_maybe_nan b
      \<or> f32_eq (i_lower a) minus_inf \<and> f32_eq (i_upper b) plus_inf
      \<or> f32_eq (i_lower b) minus_inf \<and> f32_eq (i_upper a) plus_inf)"

definition i_mul :: "boost \<Rightarrow> interval \<Rightarrow> interval \<Rightarrow> interval" where
  "i_mul bo a b = interval (b_mul bo (i_bounds a) (i_bounds b))
     (i_maybe_nan a \<or> i_maybe_nan b \<or> has_infinity a \<and> has_zero b \<or> has_infinity b \<and> has_zero a)"

definition i_sub :: "boost \<Rightarrow> interval \<Rightarrow> interval \<Rightarrow> interval" where
  "i_sub bo a b = interval (b_sub bo (i_bounds a) (i_bounds b))
     (i_maybe_nan a \<or> i_maybe_nan b
      \<or> f32_eq (i_lower a) minus_inf \<and> f32_eq (i_lower b) minus_inf
      \<or> f32_eq (i_upper a) minus_inf \<and> f32_eq (i_upper b) minus_inf)"

definition i_div :: "boost \<Rightarrow> interval \<Rightarrow> interval \<Rightarrow> interval" where
  "i_div bo a b = interval
     (if has_zero b then b_make bo minus_inf plus_inf else b_div bo (i_bounds a) (i_bounds b))
     (i_maybe_nan a \<or> i_maybe_nan b \<or> has_infinity a \<and> has_infinity b \<or> has_zero a \<and> has_zero b)"

text \<open>Eigen's minimum is NaN exactly when its first argument is.\<close>

definition i_min :: "boost \<Rightarrow> interval \<Rightarrow> interval \<Rightarrow> interval" where
  "i_min bo a b = (let i = b_min bo (i_bounds a) (i_bounds b) in
     interval (if i_maybe_nan b then b_hull bo i (i_bounds a) else i) (i_maybe_nan a))"

definition i_max :: "boost \<Rightarrow> interval \<Rightarrow> interval \<Rightarrow> interval" where
  "i_max bo a b = (let i = b_max bo (i_bounds a) (i_bounds b) in
     interval (if i_maybe_nan b then b_hull bo i (i_bounds a) else i) (i_maybe_nan a))"

section \<open>The functions of two intervals\<close>

definition f32_pi :: f32 where "f32_pi = 0x40490FDB"
definition f32_half_pi :: f32 where "f32_half_pi = 0x3FC90FDB"

text \<open>The constructor takes floats, so that what \<open>::atan2\<close> returns is narrowed: \<open>m_atan2\<close> is the same
  function as in the array evaluator.\<close>

definition i_atan2 :: "libm \<Rightarrow> boost \<Rightarrow> interval \<Rightarrow> interval \<Rightarrow> interval" where
  "i_atan2 lib bo y x =
     (let u = i_maybe_nan y \<or> i_maybe_nan x \<or> has_zero x \<and> has_zero y;
          at = (\<lambda>l l' h h'. interval (b_make bo (m_atan2 lib l l') (m_atan2 lib h h')) u);
          xl = i_lower x; xu = i_upper x; yl = i_lower y; yu = i_upper y
      in if f32_lt 0 xl then
           (if f32_lt 0 yl then at yl xu yu xl
            else if f32_lt yu 0 then at yl xl yu xu
            else at yl xl yu xl)
         else if f32_lt xu 0 then
           (if f32_lt 0 yl then at yu xu yl xl
            else if f32_lt yu 0 then at yu xl yl xu
            else interval (b_make bo (f32_uminus f32_pi) f32_pi) u)
         else if f32_lt 0 yl then at yl xu yl xl
         else if f32_lt yu 0 then at yu xl yu xu
         else interval (b_make bo (f32_uminus f32_pi) f32_pi) u)"

text \<open>The conversion to \<open>int\<close> is undefined outside the range of \<open>int\<close>.\<close>

definition int_of_f32 :: "f32 \<Rightarrow> fault + int" where
  "int_of_f32 v = (case f32_to_int v of None \<Rightarrow> Inl OutOfRange | Some n \<Rightarrow> Inr n)"

definition f32_of_int :: "int \<Rightarrow> f32" where
  "f32_of_int n = f32_pack (n < 0) \<bar>n\<bar> 0"

definition i_pow :: "libm \<Rightarrow> boost \<Rightarrow> interval \<Rightarrow> interval \<Rightarrow> fault + interval" where
  "i_pow lib bo a b = bindE (int_of_f32 (i_lower b)) (\<lambda>n.
     let nanOnZeroToNegative = f32_isnan (m_pow lib 0 (f32_uminus f32_one)) in
     Inr (interval (b_pow bo (i_bounds a) n)
       (i_maybe_nan a \<or> i_maybe_nan b \<or> has_zero a \<and> (n = 0 \<or> n < 0 \<and> nanOnZeroToNegative)
        \<or> f32_lt (i_lower a) 0 \<and> f32_isnan (m_pow lib (f32_uminus f32_one) (f32_of_int n)))))"

text \<open>\<open>bPt & 2\<close> is the second bit of the integer.\<close>

definition i_nth_root :: "boost \<Rightarrow> interval \<Rightarrow> interval \<Rightarrow> fault + interval" where
  "i_nth_root bo a b = bindE (int_of_f32 (i_lower b)) (\<lambda>n.
     Inr (interval (b_nth_root bo (i_bounds a) n)
       (i_maybe_nan a \<or> i_maybe_nan b \<or> f32_le (i_lower a) 0 \<and> \<not> odd (n div 2))))"

definition f32_isfinite :: "f32 \<Rightarrow> bool" where
  "f32_isfinite v \<longleftrightarrow> \<not> f32_isnan v \<and> \<not> f32_isinf v"

definition f32_fmin :: "f32 \<Rightarrow> f32 \<Rightarrow> f32" where
  "f32_fmin a b = (if f32_isnan a then b else if f32_isnan b then a else if f32_lt b a then b else a)"

definition f32_fmax :: "f32 \<Rightarrow> f32 \<Rightarrow> f32" where
  "f32_fmax a b = (if f32_isnan a then b else if f32_isnan b then a else if f32_lt a b then b else a)"

definition i_mod :: "boost \<Rightarrow> interval \<Rightarrow> interval \<Rightarrow> fault + interval" where
  "i_mod bo a b =
     (let wide = b_make bo (f32_fmin (i_lower b) 0) (f32_fmax 0 (i_upper b));
          position = (if f32_le 0 (i_upper b) then 1 else 0) + 2 * (if f32_le (i_lower b) 0 then 1 else 0 :: nat);
          usedA = (if position = 2 then b_scale bo (i_bounds a) (f32_uminus f32_one) else i_bounds a);
          quotients = b_div bo usedA (b_abs bo (i_bounds b))
      in bindE
           (if \<not> (f32_isfinite (i_upper a) \<and> f32_isfinite (i_lower a)) then Inr wide
            else if position = 3 then Inr wide
            else if position = 0 then Inr (b_empty bo)
            else bindE (int_of_f32 (f32_floor (fst quotients))) (\<lambda>q.
                 bindE (int_of_f32 (f32_floor (snd quotients))) (\<lambda>q'.
                   Inr (if q = q' then b_sub bo (i_bounds a) (b_scale bo (i_bounds b) (f32_of_int q)) else wide))))
           (\<lambda>out. Inr (interval out (f32_le 0 (i_upper b) \<and> f32_le (i_lower b) 0))))"

definition i_nanfill :: "boost \<Rightarrow> interval \<Rightarrow> interval \<Rightarrow> interval" where
  "i_nanfill bo a b =
     (if i_maybe_nan a then interval (b_hull bo (i_bounds a) (i_bounds b)) (i_maybe_nan b)
      else interval (i_bounds a) False)"

definition i_compare :: "boost \<Rightarrow> interval \<Rightarrow> interval \<Rightarrow> interval" where
  "i_compare bo a b = (let m = f32_uminus f32_one in
     if f32_lt (i_upper a) (i_lower b) then interval (b_make bo m m) False
     else if f32_lt (i_upper b) (i_lower a) then interval (b_make bo f32_one f32_one) False
     else interval (b_make bo m f32_one) False)"

section \<open>The functions of one interval\<close>

definition i_map :: "(bounds \<Rightarrow> bounds) \<Rightarrow> interval \<Rightarrow> interval" where
  "i_map f a = interval (f (i_bounds a)) (i_maybe_nan a)"

definition i_sqrt :: "boost \<Rightarrow> interval \<Rightarrow> interval" where
  "i_sqrt bo a = interval (b_sqrt bo (i_bounds a)) (i_maybe_nan a \<or> f32_lt (i_lower a) 0)"

definition outside_unit :: "interval \<Rightarrow> bool" where
  "outside_unit a \<longleftrightarrow> f32_lt (i_lower a) (f32_uminus f32_one) \<or> f32_lt f32_one (i_upper a)"

definition i_asin :: "boost \<Rightarrow> interval \<Rightarrow> interval" where
  "i_asin bo a = interval (b_asin bo (i_bounds a)) (i_maybe_nan a \<or> outside_unit a)"

definition i_acos :: "boost \<Rightarrow> interval \<Rightarrow> interval" where
  "i_acos bo a = interval (b_acos bo (i_bounds a)) (i_maybe_nan a \<or> outside_unit a)"

definition i_atan :: "boost \<Rightarrow> interval \<Rightarrow> interval" where
  "i_atan bo a = interval
     (if f32_isinf (i_lower a) \<or> f32_isinf (i_upper a) then b_make bo (f32_uminus f32_half_pi) f32_half_pi
      else b_atan bo (i_bounds a)) (i_maybe_nan a)"

definition i_log :: "boost \<Rightarrow> interval \<Rightarrow> interval" where
  "i_log bo a = interval (b_log bo (i_bounds a)) (i_maybe_nan a \<or> f32_lt (i_lower a) 0)"

definition i_recip :: "boost \<Rightarrow> interval \<Rightarrow> interval" where
  "i_recip bo a = interval (b_over bo f32_one (i_bounds a)) (i_maybe_nan a)"

end
