(* ===== verification/IntervalEval.thy ===== *)
theory IntervalEval
  imports IntervalOps
begin

text \<open>
  The evaluator of regions (\<open>src/five/eval/eval_interval.cpp\<close>, \<open>src/five/eval/base.cpp\<close>): it walks
  a tape with an interval in each row, and shortens the tape to the branches that the region needs.
\<close>

section \<open>Clauses\<close>

definition interval_value :: "libm \<Rightarrow> boost \<Rightarrow> opcode \<Rightarrow> interval \<Rightarrow> interval \<Rightarrow> fault + interval" where
  "interval_value lib bo op a b = (case op of
     OP_ADD \<Rightarrow> Inr (i_add bo a b)
   | OP_MUL \<Rightarrow> Inr (i_mul bo a b)
   | OP_MIN \<Rightarrow> Inr (i_min bo a b)
   | OP_MAX \<Rightarrow> Inr (i_max bo a b)
   | OP_SUB \<Rightarrow> Inr (i_sub bo a b)
   | OP_DIV \<Rightarrow> Inr (i_div bo a b)
   | OP_ATAN2 \<Rightarrow> Inr (i_atan2 lib bo a b)
   | OP_POW \<Rightarrow> i_pow lib bo a b
   | OP_NTH_ROOT \<Rightarrow> i_nth_root bo a b
   | OP_MOD \<Rightarrow> i_mod bo a b
   | OP_NANFILL \<Rightarrow> Inr (i_nanfill bo a b)
   | OP_COMPARE \<Rightarrow> Inr (i_compare bo a b)
   | OP_SQUARE \<Rightarrow> Inr (i_map (b_square bo) a)
   | OP_SQRT \<Rightarrow> Inr (i_sqrt bo a)
   | OP_NEG \<Rightarrow> Inr (i_map (b_neg bo) a)
   | OP_SIN \<Rightarrow> Inr (i_map (b_sin bo) a)
   | OP_COS \<Rightarrow> Inr (i_map (b_cos bo) a)
   | OP_TAN \<Rightarrow> Inr (i_map (b_tan bo) a)
   | OP_ASIN \<Rightarrow> Inr (i_asin bo a)
   | OP_ACOS \<Rightarrow> Inr (i_acos bo a)
   | OP_ATAN \<Rightarrow> Inr (i_atan bo a)
   | OP_EXP \<Rightarrow> Inr (i_map (b_exp bo) a)
   | OP_LOG \<Rightarrow> Inr (i_log bo a)
   | OP_ABS \<Rightarrow> Inr (i_map (b_abs bo) a)
   | OP_RECIP \<Rightarrow> Inr (i_recip bo a)
   | CONST_VAR \<Rightarrow> Inr a
   | _ \<Rightarrow> Inl AssertFailed)"

definition interval_clause ::
    "libm \<Rightarrow> boost \<Rightarrow> (nat \<Rightarrow> interval) \<Rightarrow> interval list \<Rightarrow> clause \<Rightarrow> fault + interval list" where
  "interval_clause lib bo oracle v k =
     (if k_op k = ORACLE then Inr (v[k_id k := oracle (k_a k)])
      else bindE (interval_value lib bo (k_op k) (v ! k_a k) (v ! k_b k)) (\<lambda>out. Inr (v[k_id k := out])))"

section \<open>The evaluator\<close>

text \<open>A line on the error stream for each variable that is given no value.\<close>

definition BaseEvaluator :: "deck \<Rightarrow> (nat \<Rightarrow> f32 option) \<Rightarrow> string list" where
  "BaseEvaluator d vars =
     map (\<lambda>_. ''BaseEvaluator::BaseEvaluator: uninitialized variable.'') (filter (\<lambda>(_, t). vars t = None) (d_vars d))"

definition interval_store :: "boost \<Rightarrow> f32 \<Rightarrow> nat \<Rightarrow> interval list \<Rightarrow> interval list" where
  "interval_store bo f index v = v[index := Interval bo f f]"

definition IntervalEvaluator :: "boost \<Rightarrow> deck \<Rightarrow> (nat \<Rightarrow> f32 option) \<Rightarrow> interval list" where
  "IntervalEvaluator bo d vars =
     (let v = replicate (d_num_clauses d + 1) (interval (b_default bo) False);
          v = foldl (\<lambda>v (i, t). interval_store bo (case vars t of Some x \<Rightarrow> x | None \<Rightarrow> 0) i v) v (d_vars d)
      in foldl (\<lambda>v (i, x). interval_store bo x i v) v (d_constants d))"

type_synonym point = "f32 \<times> f32 \<times> f32"

definition set_box :: "boost \<Rightarrow> deck \<Rightarrow> point \<Rightarrow> point \<Rightarrow> interval list \<Rightarrow> interval list" where
  "set_box bo d = (\<lambda>(lx, ly, lz) (ux, uy, uz) v.
     v[d_X d := Interval bo lx ux, d_Y d := Interval bo ly uy, d_Z d := Interval bo lz uz])"

definition any_nan :: "point \<Rightarrow> bool" where
  "any_nan = (\<lambda>(x, y, z). f32_isnan x \<or> f32_isnan y \<or> f32_isnan z)"

definition interval_eval ::
    "libm \<Rightarrow> boost \<Rightarrow> (nat \<Rightarrow> interval) \<Rightarrow> deck \<Rightarrow> tape \<Rightarrow> point \<Rightarrow> point \<Rightarrow> interval list \<Rightarrow> fault + interval \<times> interval list" where
  "interval_eval lib bo oracle d tp lower upper v =
     (if any_nan lower \<or> any_nan upper then Inl AssertFailed
      else bindE (foldE (interval_clause lib bo oracle) (set_box bo d lower upper v) (rev (tp_clauses tp)))
        (\<lambda>v. Inr (v ! tp_root tp, v)))"

definition interval_setVar :: "boost \<Rightarrow> deck \<Rightarrow> nat \<Rightarrow> f32 \<Rightarrow> interval list \<Rightarrow> bool \<times> interval list" where
  "interval_setVar bo d t x v =
     (case find (\<lambda>(_, t'). t' = t) (d_vars d) of
        None \<Rightarrow> (False, v)
      | Some (i, _) \<Rightarrow> (\<not> f32_eq (i_lower (v ! i)) x \<or> \<not> f32_eq (i_upper (v ! i)) x, interval_store bo x i v))"

section \<open>Shortening the tape\<close>

definition interval_keep :: "interval list \<Rightarrow> clause \<Rightarrow> keep" where
  "interval_keep v k =
     (let a = v ! k_a k; b = v ! k_b k in
      if k_op k = OP_MAX then
        (if k_a k = k_b k then KEEP_A
         else if f32_lt (i_upper b) (i_lower a) then KEEP_A
         else if f32_lt (i_upper a) (i_lower b) then KEEP_B
         else KEEP_BOTH)
      else if k_op k = OP_MIN then
        (if k_a k = k_b k then KEEP_A
         else if f32_lt (i_upper b) (i_lower a) then KEEP_B
         else if f32_lt (i_upper a) (i_lower b) then KEEP_A
         else KEEP_BOTH)
      else KEEP_ALWAYS)"

definition interval_push :: "oracle_ops \<Rightarrow> deck \<Rightarrow> tape \<Rightarrow> interval list \<Rightarrow> fault + tape" where
  "interval_push orc d tp v =
     push_tape orc d (interval_keep v) INTERVAL
       (i_lower (v ! d_X d), i_upper (v ! d_X d)) (i_lower (v ! d_Y d), i_upper (v ! d_Y d))
       (i_lower (v ! d_Z d), i_upper (v ! d_Z d)) tp"

definition intervalAndPush ::
    "libm \<Rightarrow> boost \<Rightarrow> (nat \<Rightarrow> interval) \<Rightarrow> oracle_ops \<Rightarrow> deck \<Rightarrow> tape \<Rightarrow> point \<Rightarrow> point \<Rightarrow> interval list
     \<Rightarrow> fault + (interval \<times> tape) \<times> interval list" where
  "intervalAndPush lib bo oracle orc d tp lower upper v =
     bindE (interval_eval lib bo oracle d tp lower upper v) (\<lambda>(out, v).
     bindE (interval_push orc d tp v) (\<lambda>tp'. Inr ((out, tp'), v)))"

lemma interval_value_unary: "args op = 1 \<Longrightarrow> interval_value lib bo op a b = interval_value lib bo op a b'"
  by (cases op) (simp_all add: args_def interval_value_def)

interpretation box: tape_machine "interval_clause lib bo ask" "interval_value lib bo" ask for lib bo ask
  by unfold_locales (simp_all add: interval_clause_def interval_value_unary[of _ _ _ _ _ _])

end
