(* ===== verification/IntervalSound.thy ===== *)
theory IntervalSound
  imports IntervalEval
begin

text \<open>
  What the rows of the interval evaluator promise about the rows of the evaluator of points: as
  long as the numbers are finite, the bounds enclose them. From this follows that the branches
  that a region switches off do not matter for the points in it.
\<close>

section \<open>Two machines side by side\<close>

text \<open>
  Two evaluators walk the same tape; \<open>rel x a\<close> says that the first's row \<open>x\<close> is what the second's
  row \<open>a\<close> promises. The operations keep the promise for good results. An operation may need
  more (\<open>side\<close>) of a second operand that no clause of the tape computes.
\<close>

locale tape_simulation = p: tape_machine exec val ask + q: tape_machine exec' val' ask'
  for exec :: "'a list \<Rightarrow> clause \<Rightarrow> fault + 'a list" and val ask
    and exec' :: "'b list \<Rightarrow> clause \<Rightarrow> fault + 'b list" and val' ask' +
  fixes rel :: "'a \<Rightarrow> 'b \<Rightarrow> bool" and good :: "'a \<Rightarrow> bool" and side :: "opcode \<Rightarrow> 'a \<Rightarrow> 'b \<Rightarrow> bool"
    and scope :: "opcode \<Rightarrow> bool"
  assumes promise: "scope op \<Longrightarrow> good x \<Longrightarrow> rel x a \<Longrightarrow> (args op = 2 \<longrightarrow> good y \<and> rel y b \<and> side op y b)
      \<Longrightarrow> val op x y = Inr z \<Longrightarrow> good z \<Longrightarrow> \<exists>c. val' op a b = Inr c \<and> rel z c"

definition operands :: "clause \<Rightarrow> nat set" where
  "operands k = (if k_op k = ORACLE then {} else if args (k_op k) = 2 then {k_a k, k_b k} else {k_a k})"

context tape_simulation
begin

text \<open>The rows \<open>w\<close> are what the first machine's walk leaves; the second walks from the rows \<open>v\<close>.\<close>

definition matched :: "'a list \<Rightarrow> 'b list \<Rightarrow> clause set \<Rightarrow> clause \<Rightarrow> bool" where
  "matched w v K k \<longleftrightarrow> row_right val ask w k \<and> good (w ! k_id k) \<and>
     (if k_op k = ORACLE then rel (ask (k_a k)) (ask' (k_a k))
      else scope (k_op k) \<and> (\<forall>r \<in> operands k. good (w ! r) \<and> (r \<in> k_id ` K \<or> rel (w ! r) (v ! r)))
        \<and> (args (k_op k) = 2 \<longrightarrow> (\<forall>y b. side (k_op k) y b) \<or> k_b k \<notin> k_id ` K \<and> side (k_op k) (w ! k_b k) (v ! k_b k)))"

lemma walk_together:
  "tape_shape rows oracles ks \<Longrightarrow> rows < length v \<Longrightarrow> \<forall>k \<in> set ks. matched w v (set ks) k \<Longrightarrow>
   \<exists>u. foldE exec' v (rev ks) = Inr u \<and> length u = length v
     \<and> (\<forall>r. if r \<in> k_id ` set ks then rel (w ! r) (u ! r) else u ! r = v ! r)"
proof (induction ks)
  case (Cons k ks)
  have shape: "clause_shape rows oracles k" "tape_shape rows oracles ks" "\<forall>k' \<in> set ks. k_id k < k_id k'"
    using Cons.prems(1) by simp_all
  have "matched w v (set ks) k'" if k': "k' \<in> set ks" for k'
  proof -
    have "clause_shape rows oracles k'" "k_id k < k_id k'" using shape k' by (auto simp: tape_shape_def)
    then have "k_id k \<notin> operands k'" by (auto simp: operands_def clause_shape_def split: if_splits)
    moreover have "matched w v (set (k # ks)) k'" using Cons.prems(3) k' by simp
    ultimately show ?thesis by (auto simp: matched_def)
  qed
  with Cons shape obtain u where u: "foldE exec' v (rev ks) = Inr u" "length u = length v"
    "\<forall>r. if r \<in> k_id ` set ks then rel (w ! r) (u ! r) else u ! r = v ! r" by blast
  have M: "matched w v (set (k # ks)) k" using Cons.prems(3) by simp
  have k: "k_id k < length u" "k_id k \<notin> k_id ` set ks" using shape Cons.prems(2) u(2) by (auto simp: clause_shape_def)
  have "\<exists>c. exec' u k = Inr (u[k_id k := c]) \<and> rel (w ! k_id k) c"
  proof (cases "k_op k = ORACLE")
    case True
    with M show ?thesis by (auto simp: q.exec matched_def row_right_def)
  next
    case False
    have row: "good (w ! r) \<and> rel (w ! r) (u ! r)" if "r \<in> operands k" for r
    proof -
      have "r \<noteq> k_id k" using that shape(1) by (auto simp: operands_def clause_shape_def split: if_splits)
      with M that False have "good (w ! r)" "r \<in> k_id ` set ks \<or> rel (w ! r) (v ! r)" by (auto simp: matched_def)
      then show ?thesis using u(3)[rule_format, of r] by (cases "r \<in> k_id ` set ks") simp_all
    qed
    have sd: "side (k_op k) (w ! k_b k) (u ! k_b k)" if "args (k_op k) = 2"
      using M False that u(3) by (auto simp: matched_def)
    have "\<exists>c. val' (k_op k) (u ! k_a k) (u ! k_b k) = Inr c \<and> rel (w ! k_id k) c"
    proof (rule promise)
      show "val (k_op k) (w ! k_a k) (w ! k_b k) = Inr (w ! k_id k)" using M False by (simp add: matched_def row_right_def)
      show "good (w ! k_id k)" "scope (k_op k)" using M False by (simp_all add: matched_def)
      show "good (w ! k_a k)" "rel (w ! k_a k) (u ! k_a k)" using row False by (auto simp: operands_def)
      show "args (k_op k) = 2 \<longrightarrow> good (w ! k_b k) \<and> rel (w ! k_b k) (u ! k_b k) \<and> side (k_op k) (w ! k_b k) (u ! k_b k)"
        using row sd False by (auto simp: operands_def)
    qed
    with False show ?thesis by (auto simp: q.exec)
  qed
  with u k show ?case by (auto simp: foldE_append nth_list_update)
qed simp

end

section \<open>What the interval library encloses\<close>

definition within :: "bounds \<Rightarrow> f32 \<Rightarrow> bool" where
  "within i x \<longleftrightarrow> f32_le (fst i) x \<and> f32_le x (snd i)"

text \<open>An interval says of a value that it is in the bounds, or NaN if the flag allows it.\<close>

definition covers :: "f32 \<Rightarrow> interval \<Rightarrow> bool" where
  "covers x a \<longleftrightarrow> (if f32_isnan x then i_maybe_nan a else within (i_bounds a) x)"

definition encloses1 :: "(bounds \<Rightarrow> bounds) \<Rightarrow> (f32 \<Rightarrow> f32) \<Rightarrow> bool" where
  "encloses1 f g \<longleftrightarrow> (\<forall>i x. f32_isfinite x \<longrightarrow> within i x \<longrightarrow> f32_isfinite (g x) \<longrightarrow> within (f i) (g x))"

definition encloses2 :: "(bounds \<Rightarrow> bounds \<Rightarrow> bounds) \<Rightarrow> (f32 \<Rightarrow> f32 \<Rightarrow> f32) \<Rightarrow> bool" where
  "encloses2 f g \<longleftrightarrow> (\<forall>i j x y. f32_isfinite x \<longrightarrow> f32_isfinite y \<longrightarrow> within i x \<longrightarrow> within j y \<longrightarrow>
     f32_isfinite (g x y) \<longrightarrow> within (f i j) (g x y))"

text \<open>
  The library's documented inclusion property, for finite operands and results: the interval of an
  operation encloses the results of the operation on the members of the intervals. The
  constructor keeps two bounds that are in order, and the hull holds both intervals.
\<close>

definition boost_arithmetic :: "libm \<Rightarrow> boost \<Rightarrow> bool" where
  "boost_arithmetic lib bo \<longleftrightarrow>
     (\<forall>l u. f32_le l u \<longrightarrow> b_make bo l u = (l, u))
     \<and> within (b_default bo) 0
     \<and> (\<forall>i j x. within i x \<or> within j x \<longrightarrow> within (b_hull bo i j) x)
     \<and> encloses2 (b_add bo) f32_add \<and> encloses2 (b_sub bo) f32_sub \<and> encloses2 (b_mul bo) f32_mul
     \<and> encloses2 (b_div bo) f32_div \<and> encloses2 (b_min bo) (m_min lib) \<and> encloses2 (b_max bo) (m_max lib)
     \<and> encloses1 (b_over bo f32_one) (f32_div f32_one) \<and> encloses1 (b_neg bo) f32_uminus
     \<and> encloses1 (b_square bo) (\<lambda>x. f32_mul x x) \<and> encloses1 (b_sqrt bo) f32_sqrt \<and> encloses1 (b_abs bo) f32_abs"

definition boost_functions :: "libm \<Rightarrow> boost \<Rightarrow> bool" where
  "boost_functions lib bo \<longleftrightarrow>
     encloses1 (b_sin bo) (m_sin lib) \<and> encloses1 (b_cos bo) (m_cos lib) \<and> encloses1 (b_tan bo) (m_tan lib)
     \<and> encloses1 (b_asin bo) (m_asin lib) \<and> encloses1 (b_acos bo) (m_acos lib) \<and> encloses1 (b_atan bo) (m_atan lib)
     \<and> encloses1 (b_exp bo) (m_exp lib) \<and> encloses1 (b_log bo) (m_log lib)
     \<and> (\<forall>x. f32_isfinite (m_atan lib x) \<longrightarrow> within (f32_uminus f32_half_pi, f32_half_pi) (m_atan lib x))
     \<and> (\<forall>n y. f32_to_int y = Some n \<and> is_integral y \<longrightarrow> encloses1 (\<lambda>i. b_pow bo i n) (\<lambda>x. m_array_pow lib x y))"

text \<open>The operations whose bounds rest on these properties alone: the roots, the remainder and the
  angle of a vector go through further functions of the C library.\<close>

definition enclosed :: "opcode \<Rightarrow> bool" where
  "enclosed op \<longleftrightarrow> op \<noteq> OP_ATAN2 \<and> op \<noteq> OP_NTH_ROOT \<and> op \<noteq> OP_MOD"

text \<open>The exponent of a power is an integral constant.\<close>

definition exponent_side :: "opcode \<Rightarrow> f32 \<Rightarrow> interval \<Rightarrow> bool" where
  "exponent_side op y b \<longleftrightarrow> (op = OP_POW \<longrightarrow> is_integral y \<and> f32_to_int y \<noteq> None \<and> i_lower b = y)"

lemma finite_covers: "f32_isfinite x \<Longrightarrow> covers x a \<longleftrightarrow> within (i_bounds a) x"
  by (simp add: covers_def f32_isfinite_def)

lemma encloses1D: "encloses1 f g \<Longrightarrow> f32_isfinite x \<Longrightarrow> within i x \<Longrightarrow> f32_isfinite (g x) \<Longrightarrow> within (f i) (g x)"
  unfolding encloses1_def by blast

lemma encloses2D: "encloses2 f g \<Longrightarrow> f32_isfinite x \<Longrightarrow> f32_isfinite y \<Longrightarrow> within i x \<Longrightarrow> within j y \<Longrightarrow>
    f32_isfinite (g x y) \<Longrightarrow> within (f i j) (g x y)"
  unfolding encloses2_def by blast

lemma infinities:
  "f32_mag (f32_inf False) = 0x7F800000" "f32_mag (f32_inf True) = 0x7F800000" "\<not> f32_neg (f32_inf False)" "f32_neg (f32_inf True)"
  by (simp_all add: f32_inf_def f32_mag_def f32_neg_def)

lemma number_le_infinity: "\<not> f32_isnan x \<Longrightarrow> f32_le minus_inf x \<and> f32_le x plus_inf"
  by (auto simp: f32_isfinite_def f32_isnan_def f32_isinf_def f32_le_def f32_key_def minus_inf_def plus_inf_def infinities;
      use f32_mag_nonneg[of x] in linarith)

lemma make_within:
  "boost_arithmetic lib bo \<Longrightarrow> f32_le l x \<Longrightarrow> f32_le x u \<Longrightarrow> within (b_make bo l u) x"
  by (auto simp: boost_arithmetic_def within_def f32_le_def)

lemma covers_Interval:
  assumes "boost_arithmetic lib bo" "f32_isnan x \<longrightarrow> f32_isnan l \<or> f32_isnan u" "\<not> f32_isnan x \<Longrightarrow> f32_le l x \<and> f32_le x u"
  shows "covers x (Interval bo l u)"
  using assms make_within[OF assms(1), of l x u] by (auto simp: covers_def Interval_def)

lemma units: "f32_le (f32_uminus f32_one) (f32_uminus f32_one)" "f32_le (f32_uminus f32_one) 0" "f32_le 0 f32_one"
    "f32_le f32_one f32_one" "f32_le (f32_uminus f32_one) f32_one"
  by (simp_all add: f32_one_def f32_defs)

lemma compare_within:
  assumes bo: "boost_arithmetic lib bo" and x: "within (i_bounds a) x" "within (i_bounds b) y"
  shows "within (i_bounds (i_compare bo a b)) (clause_compare x y)"
proof -
  have xs: "f32_le (i_lower a) x" "f32_le x (i_upper a)" "f32_le (i_lower b) y" "f32_le y (i_upper b)"
    using x by (simp_all add: within_def i_lower_def i_upper_def)
  then have "f32_lt (i_upper a) (i_lower b) \<Longrightarrow> f32_lt x y" "f32_lt (i_upper b) (i_lower a) \<Longrightarrow> f32_lt y x"
    by (auto simp: f32_lt_def f32_le_def)
  with units make_within[OF bo] show ?thesis
    by (auto simp: i_compare_def clause_compare_def Let_def dest: f32_lt_asym)
qed

lemma div_within:
  assumes bo: "boost_arithmetic lib bo" and x: "within (i_bounds a) x" "within (i_bounds b) y"
    and fin: "f32_isfinite x" "f32_isfinite y" "f32_isfinite (f32_div x y)"
  shows "within (i_bounds (i_div bo a b)) (f32_div x y)"
proof (cases "has_zero b")
  case True
  with number_le_infinity[of "f32_div x y"] fin(3) make_within[OF bo] show ?thesis by (simp add: i_div_def f32_isfinite_def)
next
  case False
  have "encloses2 (b_div bo) f32_div" using bo by (simp add: boost_arithmetic_def)
  from encloses2D[OF this fin(1,2) x fin(3)] False show ?thesis by (simp add: i_div_def)
qed

lemma interval_value_covers:
  assumes bo: "boost_arithmetic lib bo" "boost_functions lib bo" and op: "enclosed op"
    and x: "f32_isfinite x" "covers x a" and y: "args op = 2 \<longrightarrow> f32_isfinite y \<and> covers y b \<and> exponent_side op y b"
    and z: "clause_value lib op x y = Inr z" "f32_isfinite z"
  shows "\<exists>c. interval_value lib bo op a b = Inr c \<and> covers z c"
proof -
  note A = bo(1)[unfolded boost_arithmetic_def] and F = bo(2)[unfolded boost_functions_def]
  have xa: "within (i_bounds a) x" using x by (simp add: finite_covers)
  have yb: "within (i_bounds b) y" "f32_isfinite y" "exponent_side op y b" if "args op = 2"
    using y that by (auto simp: finite_covers)
  have hull: "within (b_hull bo i j) v" if "within i v \<or> within j v" for i j v using A that by blast
  have num: "\<not> f32_isnan x" using x(1) by (simp add: f32_isfinite_def)
  note e1 = encloses1D[OF _ x(1) xa] and e2 = encloses2D[OF _ x(1) _ xa, where j = "i_bounds b" and y = y]
  show ?thesis
  proof (cases op)
    case OP_POW
    then obtain n where n: "f32_to_int y = Some n" "is_integral y" "i_lower b = y" using yb(3) by (auto simp: args_def exponent_side_def)
    then have "encloses1 (\<lambda>i. b_pow bo i n) (\<lambda>x. m_array_pow lib x y)" using F by blast
    from e1[OF this] OP_POW n z show ?thesis
      by (auto simp: interval_value_def clause_value_def i_pow_def int_of_f32_def finite_covers)
  next
    case OP_DIV
    with div_within[OF bo(1) xa yb(1) x(1) yb(2)] z show ?thesis
      by (auto simp: interval_value_def clause_value_def finite_covers args_def)
  next
    case OP_COMPARE
    with compare_within[OF bo(1) xa yb(1)] z show ?thesis
      by (auto simp: interval_value_def clause_value_def finite_covers args_def)
  next
    case OP_MIN
    have "encloses2 (b_min bo) (m_min lib)" using A by blast
    from e2[OF this] OP_MIN yb z show ?thesis
      by (auto simp: interval_value_def clause_value_def finite_covers args_def i_min_def Let_def intro!: hull)
  next
    case OP_MAX
    have "encloses2 (b_max bo) (m_max lib)" using A by blast
    from e2[OF this] OP_MAX yb z show ?thesis
      by (auto simp: interval_value_def clause_value_def finite_covers args_def i_max_def Let_def intro!: hull)
  next
    case OP_ATAN
    have "encloses1 (b_atan bo) (m_atan lib)" "within (f32_uminus f32_half_pi, f32_half_pi) (m_atan lib x)"
      using F OP_ATAN z by (auto simp: clause_value_def)
    with e1 make_within[OF bo(1)] OP_ATAN z show ?thesis
      by (auto simp: interval_value_def clause_value_def finite_covers i_atan_def within_def)
  next
    case OP_NANFILL
    with xa z num show ?thesis by (auto simp: interval_value_def clause_value_def finite_covers i_nanfill_def intro!: hull)
  qed (use A F e1 e2 yb z xa op x in \<open>auto simp: interval_value_def clause_value_def finite_covers args_def i_add_def i_sub_def
      i_mul_def i_map_def i_sqrt_def i_asin_def i_acos_def i_log_def i_recip_def enclosed_def\<close>)
qed

end
