(* ===== verification/RegionTape.thy ===== *)
theory RegionTape
  imports IntervalSound
begin

text \<open>
  The tapes of a region: shortened for a box, then for a box inside it, and so on, as the renderers
  do on their way down. Whatever boxes around a point were used, the tape still computes the value
  of the point, and the interval of the next box encloses it.
\<close>

section \<open>Tapes that stay among the rows of a larger one\<close>

definition reads :: "tape \<Rightarrow> nat set" where
  "reads tp = insert (tp_root tp) (\<Union>k \<in> set (tp_clauses tp). operands k)"

definition writes :: "tape \<Rightarrow> nat set" where
  "writes tp = k_id ` set (tp_clauses tp)"

text \<open>What a tape reads of the rows in \<open>B\<close> it has computed itself, so that rows left over from
  another tape do not matter.\<close>

definition closed_tape :: "nat set \<Rightarrow> tape \<Rightarrow> bool" where
  "closed_tape B tp \<longleftrightarrow> writes tp \<subseteq> B \<and> reads tp \<inter> B \<subseteq> writes tp"

definition powers :: "nat set \<Rightarrow> tape \<Rightarrow> bool" where
  "powers P tp \<longleftrightarrow> (\<forall>k \<in> set (tp_clauses tp). k_op k = OP_POW \<longrightarrow> k_b k \<in> P)"

lemma operands_redirect:
  "clause_shape rows oracles k \<Longrightarrow> operands (redirect rows' s k) = last_row rows' s ` operands k"
  by (auto simp: operands_def redirect_def)

lemma choice_reads:
  assumes "rtranclp (choice fn (tp_clauses tp)) r q" "keep_wf fn (tp_clauses tp)" "r \<in> reads tp"
  shows "q \<in> reads tp"
  using assms(1,3)
proof (induction rule: rtranclp_induct)
  case (step q q')
  then obtain k where k: "k \<in> set (tp_clauses tp)" "chosen fn k q'" by (auto simp: choice_def)
  then have "fn k = KEEP_A \<or> fn k = KEEP_B" by (auto simp: chosen_def)
  then have "k_op k \<noteq> ORACLE" "args (k_op k) = 2" using assms(2) k(1) by (auto simp: keep_wf_def)
  with k have "q' \<in> operands k" by (auto simp: chosen_def operands_def)
  with k show ?case by (auto simp: reads_def)
qed simp

lemma operand_wanted:
  assumes "marks_ok rows fn ks s" "k \<in> set ks" "\<not> p_disabled s (k_id k)" "r \<in> operands k"
  shows "wanted s r"
  using assms by (auto simp: marks_ok_def operands_wanted_def operands_def split: if_splits)

lemma shorter_rows:
  assumes m: "marks_ok rows fn (tp_clauses tp) s" and fn: "keep_wf fn (tp_clauses tp)"
    and shape: "\<forall>k \<in> set (tp_clauses tp). clause_shape rows oracles k" and root: "wanted s (tp_root tp)"
    and t: "tp_clauses t = shorter rows s (tp_clauses tp)" "tp_root t = last_row rows s (tp_root tp)"
  shows "writes t = {r \<in> writes tp. \<not> p_disabled s r}"
    and "q \<in> reads t \<Longrightarrow> q \<in> reads tp \<and> \<not> p_disabled s q"
proof -
  show "writes t = {r \<in> writes tp. \<not> p_disabled s r}"
    by (auto simp: writes_def t shorter_def image_iff)
  assume "q \<in> reads t"
  then consider "q = last_row rows s (tp_root tp)"
    | k where "k \<in> set (tp_clauses tp)" "\<not> p_disabled s (k_id k)" "q \<in> operands (redirect rows s k)"
    by (auto simp: reads_def t shorter_def)
  then obtain r where r: "r \<in> reads tp" "wanted s r" "q = last_row rows s r"
  proof cases
    case 1
    with root show ?thesis using that by (auto simp: reads_def)
  next
    case 2
    then obtain r where "r \<in> operands k" "q = last_row rows s r" using operands_redirect shape by blast
    with 2 operand_wanted[OF m 2(1,2)] show ?thesis using that by (auto simp: reads_def)
  qed
  with choice_reads[OF last_row(6)[OF m] fn] last_row(7)[OF m] show "q \<in> reads tp \<and> \<not> p_disabled s q" by blast
qed

text \<open>The rows \<open>w\<close> of the point agree with every clause of the tape, and its root holds the value.\<close>

definition follows :: "libm \<Rightarrow> (nat \<Rightarrow> f32) \<Rightarrow> deck \<Rightarrow> nat set \<Rightarrow> nat set \<Rightarrow> f32 list \<Rightarrow> f32 \<Rightarrow> tape \<Rightarrow> bool" where
  "follows lib ov d B P w out tp \<longleftrightarrow> tape_ok d tp \<and> closed_tape B tp \<and> powers P tp
     \<and> (\<forall>k \<in> set (tp_clauses tp). row_right (clause_value lib) ov w k \<and> (k_op k \<noteq> ORACLE \<longrightarrow> enclosed (k_op k)))
     \<and> (\<forall>r \<in> reads tp \<union> writes tp. f32_isfinite (w ! r)) \<and> w ! tp_root tp = out"

lemma push_follows:
  assumes f: "follows lib ov d B P w out tp" and fn: "keep_wf fn (tp_clauses tp)" and P: "P \<inter> B = {}"
    and right: "choice_right fn (tp_clauses tp) w"
  shows "\<exists>t. push_tape orc d fn ty bx by' bz tp = Inr t \<and> follows lib ov d B P w out t"
proof -
  note F = f[unfolded follows_def]
  from push_tape_ok[OF _ fn] F obtain t where t: "push_tape orc d fn ty bx by' bz tp = Inr t" "tape_ok d t" by blast
  have "follows lib ov d B P w out t"
    using push_tape_cases[OF _ fn, of d orc ty bx by' bz]
  proof (elim meta_impE disjE exE conjE)
    fix s t'
    assume m: "marks_ok (d_num_clauses d) fn (tp_clauses tp) s" "wanted s (tp_root tp)"
      and t': "push_tape orc d fn ty bx by' bz tp = Inr t'" "tp_clauses t' = shorter (d_num_clauses d) s (tp_clauses tp)"
        "tp_root t' = last_row (d_num_clauses d) s (tp_root tp)"
    have shape: "\<forall>k \<in> set (tp_clauses tp). clause_shape (d_num_clauses d) (length (d_oracles d)) k"
      using F by (simp add: tape_ok_def tape_shape_def)
    have eq: "t' = t" using t(1) t'(1) by simp
    have same: "w ! last_row (d_num_clauses d) s r = w ! r" for r
      using choice_right_path[OF last_row(6)[OF m(1)] right] by simp
    have fixed: "last_row (d_num_clauses d) s r = r" if "r \<in> P" for r
    proof (rule last_row(5)[OF m(1)], rule ccontr)
      assume "p_remap s r \<noteq> 0"
      then have "r \<in> writes tp" using m(1) by (auto simp: marks_ok_def writes_def)
      with F P that show False by (auto simp: closed_tape_def)
    qed
    note R = shorter_rows[OF m(1) fn shape m(2), of t]
    have "closed_tape B t" "\<forall>r \<in> reads t \<union> writes t. f32_isfinite (w ! r)"
      using F R t' eq by (auto simp: closed_tape_def)
    moreover have "powers P t"
      using F fixed t'(2) eq by (auto simp: powers_def shorter_def redirect_def)
    moreover have "row_right (clause_value lib) ov w k \<and> (k_op k \<noteq> ORACLE \<longrightarrow> enclosed (k_op k))" if "k \<in> set (tp_clauses t)" for k
      using that F t'(2) eq by (auto simp: shorter_def row_right_def redirect_def same)
    ultimately show ?thesis using F t(2) t'(3) eq same by (simp add: follows_def)
  qed (use F f t in auto)
  with t show ?thesis by blast
qed

section \<open>Rows that are ready for a walk\<close>

text \<open>Between two walks the rows of the constants and of the variables are as the constructor left
  them; the rows of clauses hold whatever the last walk put there.\<close>

definition rows_ready :: "deck \<Rightarrow> 'a list \<Rightarrow> 'a list \<Rightarrow> bool" where
  "rows_ready d fresh v \<longleftrightarrow> length v = length fresh \<and>
     (\<forall>r. r \<notin> writes (d_tape d) \<union> {d_X d, d_Y d, d_Z d} \<longrightarrow> v ! r = fresh ! r)"

definition in_box :: "point \<Rightarrow> point \<Rightarrow> point \<Rightarrow> bool" where
  "in_box = (\<lambda>(lx, ly, lz) (ux, uy, uz) (x, y, z).
     f32_le lx x \<and> f32_le x ux \<and> f32_le ly y \<and> f32_le y uy \<and> f32_le lz z \<and> f32_le z uz)"

lemma fill_together:
  "(\<And>x. rel (g x) (g' x)) \<Longrightarrow> list_all2 rel v v' \<Longrightarrow> list_all2 rel (fill g v kvs) (fill g' v' kvs)"
  unfolding fill_def by (induction kvs arbitrary: v v') (auto simp: list_all2_update_cong)

lemma IntervalEvaluator_fill:
  "IntervalEvaluator bo d vars = fill (\<lambda>x. Interval bo x x)
     (fill (\<lambda>t. let x = (case vars t of Some x \<Rightarrow> x | None \<Rightarrow> 0) in Interval bo x x)
        (replicate (d_num_clauses d + 1) (interval (b_default bo) False)) (d_vars d)) (d_constants d)"
  by (simp add: IntervalEvaluator_def fill_def interval_store_def Let_def)

lemma fresh_covers:
  assumes "boost_arithmetic lib bo"
  shows "list_all2 covers (ArrayEvaluator d vars) (IntervalEvaluator bo d vars)"
proof -
  have "covers x (Interval bo x x)" for x
    by (rule covers_Interval[OF assms]) (simp_all add: f32_le_def)
  moreover have "covers 0 (interval (b_default bo) False)"
    using assms by (simp add: covers_def boost_arithmetic_def f32_isnan_def f32_mag_def)
  ultimately show ?thesis unfolding ArrayEvaluator_fill IntervalEvaluator_fill
    by (intro fill_together) (simp_all add: list_all2_conv_all_nth Let_def del: replicate.simps)
qed

lemma length_fresh [simp]: "length (ArrayEvaluator d vars) = d_num_clauses d + 1"
  by (simp add: ArrayEvaluator_fill)

lemma length_fresh_intervals: "boost_arithmetic lib bo \<Longrightarrow> length (IntervalEvaluator bo d vars) = d_num_clauses d + 1"
  using list_all2_lengthD[OF fresh_covers, of lib bo d vars] by simp

text \<open>A row that the tape of the deck does not compute.\<close>

lemma outside_covers:
  assumes bo: "boost_arithmetic lib bo" and p: "in_box lower upper (px, py, pz)"
    and v: "rows_ready d (ArrayEvaluator d vars) v" and v': "rows_ready d (IntervalEvaluator bo d vars) v'"
    and r: "r \<notin> writes (d_tape d)" "r \<le> d_num_clauses d"
  shows "covers (set_point d px py pz v ! r) (set_box bo d lower upper v' ! r)"
proof -
  have len: "length v = d_num_clauses d + 1" "length v' = d_num_clauses d + 1"
    using v v' length_fresh_intervals[OF bo] by (simp_all add: rows_ready_def)
  obtain lx ly lz ux uy uz where b: "lower = (lx, ly, lz)" "upper = (ux, uy, uz)" by (metis prod.exhaust)
  have "f32_le l x \<Longrightarrow> f32_le x u \<Longrightarrow> covers x (Interval bo l u)" for x l u
    by (rule covers_Interval[OF bo]) (auto simp: f32_le_def)
  then have box: "covers px (Interval bo lx ux)" "covers py (Interval bo ly uy)" "covers pz (Interval bo lz uz)"
    using p by (simp_all add: in_box_def b)
  have "covers (ArrayEvaluator d vars ! r) (IntervalEvaluator bo d vars ! r)"
    using fresh_covers[OF bo] r(2) by (simp add: list_all2_conv_all_nth)
  then have "r \<notin> {d_X d, d_Y d, d_Z d} \<Longrightarrow> covers (v ! r) (v' ! r)"
    using v v' r(1) by (simp add: rows_ready_def)
  with box len r(2) show ?thesis by (cases "r = d_Z d"; cases "r = d_Y d"; cases "r = d_X d") (simp_all add: set_point_def set_box_def b)
qed

section \<open>Walking and pushing in a box\<close>

interpretation region: tape_simulation "eval_clause lib ov" "clause_value lib" ov "interval_clause lib bo iv" "interval_value lib bo" iv
    covers f32_isfinite exponent_side "\<lambda>op. enclosed op \<and> boost_arithmetic lib bo \<and> boost_functions lib bo" for lib bo ov iv
  by unfold_locales (use interval_value_covers in blast)

text \<open>The smaller and the larger of two numbers, also of equal ones.\<close>

definition picks :: "libm \<Rightarrow> bool" where
  "picks lib \<longleftrightarrow> selects lib \<and> (\<forall>x. m_min lib x x = x \<and> m_max lib x x = x)"

lemma interval_keep_wf: "keep_wf (interval_keep v) ks"
  by (auto simp: keep_wf_def interval_keep_def Let_def args_def split: if_splits)

lemma apart: "within i x \<Longrightarrow> within j y \<Longrightarrow> f32_lt (snd j) (fst i) \<Longrightarrow> f32_lt y x"
  by (auto simp: within_def f32_le_def f32_lt_def)

lemma interval_choice_right:
  assumes lib: "picks lib" and k: "\<forall>k \<in> set (tp_clauses tp). row_right (clause_value lib) ov w k"
    and cov: "\<forall>r \<in> reads tp. f32_isfinite (w ! r) \<and> covers (w ! r) (u ! r)"
  shows "choice_right (interval_keep u) (tp_clauses tp) w"
  unfolding choice_right_def
proof (intro ballI allI impI)
  fix k x assume k': "k \<in> set (tp_clauses tp)" "chosen (interval_keep u) k x"
  then have op: "k_op k = OP_MIN \<or> k_op k = OP_MAX" by (auto simp: chosen_def interval_keep_def Let_def split: if_splits)
  then have "k_a k \<in> reads tp" "k_b k \<in> reads tp"
    using k'(1) by (auto simp: reads_def operands_def args_def intro!: bexI[of _ k])
  then have in': "within (i_bounds (u ! k_a k)) (w ! k_a k)" "within (i_bounds (u ! k_b k)) (w ! k_b k)"
    using cov by (auto simp: finite_covers)
  have "clause_value lib (k_op k) (w ! k_a k) (w ! k_b k) = Inr (w ! k_id k)"
    using k k'(1) op by (auto simp: row_right_def)
  with op lib k'(2) apart[OF in'] apart[OF in'(2,1)] show "w ! k_id k = w ! x"
    by (auto simp: chosen_def interval_keep_def Let_def clause_value_def picks_def selects_def i_lower_def i_upper_def split: if_splits)
qed

text \<open>What is fixed while a region is subdivided around a point: the rows \<open>w\<close> of the point, which
  agree with the rows the evaluators start from, and the constant exponents.\<close>

definition region_ok :: "libm \<Rightarrow> boost \<Rightarrow> deck \<Rightarrow> (nat \<Rightarrow> f32 option) \<Rightarrow> point \<Rightarrow> nat set \<Rightarrow> f32 list \<Rightarrow> bool" where
  "region_ok lib bo d vars = (\<lambda>(px, py, pz) P w.
     boost_arithmetic lib bo \<and> boost_functions lib bo \<and> picks lib
     \<and> (\<forall>r \<le> d_num_clauses d. r \<notin> writes (d_tape d) \<longrightarrow> w ! r = set_point d px py pz (ArrayEvaluator d vars) ! r)
     \<and> (\<forall>r \<in> P. r \<notin> writes (d_tape d) \<and> r \<notin> {d_X d, d_Y d, d_Z d} \<and> is_integral (w ! r) \<and> f32_to_int (w ! r) \<noteq> None
          \<and> IntervalEvaluator bo d vars ! r = Interval bo (w ! r) (w ! r)))"

lemma reads_bounded:
  assumes "tape_ok d tp" "r \<in> reads tp"
  shows "r \<le> d_num_clauses d"
  using assms by (auto simp: reads_def tape_ok_def tape_shape_def clause_shape_def operands_def split: if_splits)

lemma box_walk:
  assumes reg: "region_ok lib bo d vars (px, py, pz) P w"
    and f: "follows lib ov d (writes (d_tape d)) P w out tp"
    and box: "in_box lower upper (px, py, pz)" and v: "rows_ready d (IntervalEvaluator bo d vars) v"
    and orc: "\<forall>j. covers (ov j) (iv j)"
  shows "\<exists>i u. interval_eval lib bo iv d tp lower upper v = Inr (i, u) \<and> covers out i
    \<and> rows_ready d (IntervalEvaluator bo d vars) u \<and> choice_right (interval_keep u) (tp_clauses tp) w"
proof -
  let ?B = "writes (d_tape d)" and ?v = "set_box bo d lower upper v" and ?a = "ArrayEvaluator d vars"
  note R = reg[unfolded region_ok_def prod.case] and F = f[unfolded follows_def]
  have bo: "boost_arithmetic lib bo" using R by blast
  have len: "length v = d_num_clauses d + 1" using v length_fresh_intervals[OF bo] by (simp add: rows_ready_def)
  obtain lx ly lz ux uy uz where b: "lower = (lx, ly, lz)" "upper = (ux, uy, uz)" by (metis prod.exhaust)
  have len': "length ?v = d_num_clauses d + 1" using len by (simp add: set_box_def b)
  have out: "covers (w ! r) (?v ! r)" if "r \<notin> ?B" "r \<le> d_num_clauses d" for r
    using outside_covers[OF bo box _ v that, of ?a] R that by (simp add: rows_ready_def)
  have shape: "tape_shape (d_num_clauses d) (length (d_oracles d)) (tp_clauses tp)" using F by (simp add: tape_ok_def)
  have matched: "region.matched lib ov iv bo w ?v (set (tp_clauses tp)) k" if k: "k \<in> set (tp_clauses tp)" for k
  proof -
    have sub: "operands k \<subseteq> reads tp" "k_id k \<in> writes tp" using k by (auto simp: reads_def writes_def)
    have row: "f32_isfinite (w ! r) \<and> (r \<in> writes tp \<or> covers (w ! r) (?v ! r))" if "r \<in> operands k" for r
    proof -
      have "r \<in> reads tp" "r \<le> d_num_clauses d" using sub(1) that reads_bounded[of d tp r] F by auto
      with F out[of r] show ?thesis by (auto simp: closed_tape_def)
    qed
    have "exponent_side (k_op k) (w ! k_b k) (?v ! k_b k) \<and> k_b k \<notin> writes tp" if "k_op k = OP_POW"
    proof -
      have P: "k_b k \<in> P" using F k that by (auto simp: powers_def)
      then have "?v ! k_b k = Interval bo (w ! k_b k) (w ! k_b k)"
        using R v by (auto simp: set_box_def b rows_ready_def)
      moreover have "f32_le (w ! k_b k) (w ! k_b k)" using R P by (auto simp: f32_to_int_def f32_le_def split: if_splits)
      ultimately show ?thesis using R P F bo
        by (auto simp: exponent_side_def Interval_def i_lower_def boost_arithmetic_def closed_tape_def)
    qed
    then have "(\<forall>y b. exponent_side (k_op k) y b) \<or> k_b k \<notin> writes tp \<and> exponent_side (k_op k) (w ! k_b k) (?v ! k_b k)"
      by (cases "k_op k = OP_POW") (auto simp: exponent_side_def)
    with row F k sub(2) R orc show ?thesis unfolding region.matched_def by (auto simp: writes_def)
  qed
  from region.walk_together[OF shape, where v = ?v and lib = lib and bo = bo and ov = ov and iv = iv and w = w] len' matched
  obtain u where u: "foldE (interval_clause lib bo iv) ?v (rev (tp_clauses tp)) = Inr u" "length u = length ?v"
    "\<forall>r. if r \<in> writes tp then covers (w ! r) (u ! r) else u ! r = ?v ! r" by (auto simp: writes_def)
  have stay: "u ! r = ?v ! r" if "r \<notin> writes tp" for r using u(3)[rule_format, of r] that by simp
  have cov: "covers (w ! r) (u ! r)" if "r \<in> reads tp" for r
    using u(3)[rule_format, of r] out[of r] F that reads_bounded[of d tp r] by (auto simp: closed_tape_def split: if_splits)
  have "\<not> any_nan lower \<and> \<not> any_nan upper" using box by (auto simp: in_box_def b any_nan_def f32_le_def)
  then have "interval_eval lib bo iv d tp lower upper v = Inr (u ! tp_root tp, u)" using u(1) by (simp add: interval_eval_def)
  moreover have "covers out (u ! tp_root tp)" using cov[of "tp_root tp"] F by (simp add: reads_def)
  moreover have "rows_ready d (IntervalEvaluator bo d vars) u"
    unfolding rows_ready_def
  proof (intro conjI allI impI)
    fix r assume r: "r \<notin> ?B \<union> {d_X d, d_Y d, d_Z d}"
    with F have "r \<notin> writes tp" by (auto simp: closed_tape_def)
    with stay[of r] r v show "u ! r = IntervalEvaluator bo d vars ! r" by (simp add: set_box_def b rows_ready_def)
  qed (use u(2) v in \<open>simp add: set_box_def b rows_ready_def\<close>)
  moreover have "choice_right (interval_keep u) (tp_clauses tp) w"
    using interval_choice_right[of lib tp ov w u] R F cov by blast
  ultimately show ?thesis by blast
qed

end
