(* ===== verification/RegionProps.thy ===== *)
theory RegionProps
  imports RegionTape KernelProps
begin

text \<open>
  Properties of the evaluator of regions: subdividing around a point never changes what the tape
  says of the point, and what the intervals miss.
\<close>

section \<open>Trees that intervals enclose\<close>

fun enclosed_expr :: "expr \<Rightarrow> bool" where
  "enclosed_expr (Apply op l r) \<longleftrightarrow> enclosed op \<and> enclosed_expr l \<and> enclosed_expr r \<and>
     (op = OP_POW \<longrightarrow> (case r of Constant v \<Rightarrow> is_integral v \<and> f32_to_int v \<noteq> None | _ \<Rightarrow> False))"
| "enclosed_expr e \<longleftrightarrow> True"

text \<open>The values of an expression and of its parts are numbers.\<close>

fun finite_expr :: "libm \<Rightarrow> env \<Rightarrow> expr \<Rightarrow> bool" where
  "finite_expr lib env (Apply op l r) \<longleftrightarrow>
     f32_isfinite (eval_expr lib env (Apply op l r)) \<and> finite_expr lib env l \<and> finite_expr lib env r"
| "finite_expr lib env e \<longleftrightarrow> f32_isfinite (eval_expr lib env e)"

lemma finite_exprD: "finite_expr lib env e \<Longrightarrow> f32_isfinite (eval_expr lib env e)"
  by (cases e) simp_all

lemma below_parts:
  assumes ok: "store_ok c" and q: "below c p q" and e: "enclosed_expr (tree_of c p)" "finite_expr lib env (tree_of c p)"
  shows "enclosed_expr (tree_of c q) \<and> finite_expr lib env (tree_of c q)"
  using q
proof (induction rule: below.induct)
  case (below_child q n r)
  then have q: "enclosed_expr (tree_of c q)" "finite_expr lib env (tree_of c q)" by blast+
  have "t_op n \<noteq> CONSTANT" "t_op n \<noteq> VAR_FREE" "t_op n \<noteq> ORACLE"
    using node_args[OF ok below_child(2)] below_child(3,4) by (auto simp: args_ok_def arity_ok_def args_def split: if_splits)
  then have "tree_of c q = Apply (t_op n) (tree_of c (t_lhs n)) (tree_of c (t_rhs n))"
    by (simp add: tree_of_node[OF ok below_child(2)])
  with q below_child(3) show ?case by auto
qed (use e in simp)

section \<open>The rows of a deck's tape\<close>

lemma tape_of_clauses:
  "k \<in> set (tape_of c ts xs ys) \<Longrightarrow> \<exists>m zs. m \<in> set ys \<and> k \<in> set (node_clauses c ts zs m)"
proof (induction ys arbitrary: xs)
  case (Cons a ys)
  then show ?case by (cases "k \<in> set (node_clauses c ts xs a)") fastforce+
qed simp

lemma clause_of_node:
  assumes ok: "store_ok c" and dm: "deck_made c root ts d c' clauses x y z" and k: "k \<in> set (tp_clauses (d_tape d))"
  obtains m n where "m \<in> set ts" "node_at c m = Some n" "k_id k = row_of ts m" "k_op k = t_op n"
    "t_op n = ORACLE \<or> 0 < t_rank n \<and> k_a k = row_of ts (t_lhs n) \<and> k_b k = row_of ts (t_rhs n)"
proof -
  have "tp_clauses (d_tape d) = tape_of c ts [] ts" "\<forall>t \<in> set ts. live c t" using dm by (simp_all add: deck_made_def)
  with k obtain m zs where m: "m \<in> set ts" "k \<in> set (node_clauses c ts zs m)" "live c m" using tape_of_clauses by metis
  then obtain n where "node_at c m = Some n" by (auto simp: live_def)
  with m that show ?thesis by (auto simp: node_clauses_def split: if_splits)
qed

lemma children_in_deck:
  assumes ok: "store_ok c" and dm: "deck_made c root ts d c' clauses x y z"
    and m: "m \<in> set ts" "node_at c m = Some n" "r = t_lhs n \<or> r = t_rhs n" "r \<noteq> 0"
  shows "r \<in> set ts"
  using dm m below_child[of c root m n r] by (simp add: deck_made_def)

lemma deck_operands:
  assumes ok: "store_ok c" and dm: "deck_made c root ts d c' clauses x y z" and k: "k \<in> set (tp_clauses (d_tape d))"
  shows "operands k \<subseteq> row_of ts ` set ts"
proof -
  obtain m n where m: "m \<in> set ts" "node_at c m = Some n" "k_op k = t_op n"
    "t_op n = ORACLE \<or> 0 < t_rank n \<and> k_a k = row_of ts (t_lhs n) \<and> k_b k = row_of ts (t_rhs n)"
    using clause_of_node[OF assms] by metis
  show ?thesis
  proof (cases "t_op n = ORACLE")
    case False
    then have a: "t_lhs n \<noteq> 0" "args (t_op n) = 2 \<longrightarrow> t_rhs n \<noteq> 0"
      using m(4) rank_zero_leaf(1)[OF ok m(2)] node_args[OF ok m(2)] by (auto simp: args_ok_def arity_ok_def)
    with False m children_in_deck[OF ok dm m(1,2)] show ?thesis by (auto simp: operands_def)
  qed (use m in \<open>simp add: operands_def\<close>)
qed

lemma deck_node:
  assumes "deck_made c root ts d c' clauses x y z" "t \<in> set ts"
  obtains n where "node_at c t = Some n"
proof -
  have "live c t" using assms by (simp add: deck_made_def)
  with that show ?thesis by (auto simp: live_def)
qed

definition integral_rows :: "cache \<Rightarrow> nat list \<Rightarrow> nat set" where
  "integral_rows c ts = row_of ts ` {t \<in> set ts. op_of c t = CONSTANT \<and> is_integral (value_of c t) \<and> f32_to_int (value_of c t) \<noteq> None}"

lemma constant_row:
  assumes ok: "store_ok c" and dm: "deck_made c root ts d c' clauses x y z"
    and t: "t \<in> set ts" "op_of c t = CONSTANT"
  shows "row_of ts t \<notin> writes (d_tape d)" "row_of ts t \<notin> {d_X d, d_Y d, d_Z d}"
    "IntervalEvaluator bo d vars ! row_of ts t = Interval bo (value_of c t) (value_of c t)"
    "tree_of c t = Constant (value_of c t)"
proof -
  note D = dm[unfolded deck_made_def]
  have dist: "distinct ts" "0 \<notin> set ts" using D by blast+
  obtain n where n: "node_at c t = Some n" "t_op n = CONSTANT" "value_of c t = t_value n"
  proof -
    obtain n where "node_at c t = Some n" using deck_node[OF dm t(1)] .
    with t(2) that show ?thesis by (simp add: op_of_def value_of_def)
  qed
  then show tree: "tree_of c t = Constant (value_of c t)" by (simp add: tree_of_node[OF ok n(1)])
  have inj: "u = t" if "u \<in> set ts" "row_of ts u = row_of ts t" for u
    using row_of_inj[OF that(1) t(1)] that t(1) dist(2) by metis
  have "k_id k \<noteq> row_of ts t" if k: "k \<in> set (tp_clauses (d_tape d))" for k
  proof
    assume id: "k_id k = row_of ts t"
    obtain m n' where m: "m \<in> set ts" "node_at c m = Some n'" "k_id k = row_of ts m"
      "t_op n' = ORACLE \<or> 0 < t_rank n'" using clause_of_node[OF ok dm k] by metis
    with id inj[of m] have "n' = n" using n(1) by simp
    with m(4) n(2) rank_zero_leaf(3)[OF ok n(1)] show False by auto
  qed
  then show "row_of ts t \<notin> writes (d_tape d)" unfolding writes_def by (metis imageE)
  have clause: "map_of clauses t = Some (row_of ts t)" using D t(1) by blast
  have same: "t = a" if "map_of clauses a = Some (row_of ts t)" for a
    using D clause that unfolding rows_distinct_def by blast
  have "tree_of c' t = tree_of c t" using tree_of_extends[OF ok] D t(1) by blast
  then have "t \<noteq> x" "t \<noteq> y" "t \<noteq> z" using D tree by auto
  then show "row_of ts t \<notin> {d_X d, d_Y d, d_Z d}" using same D by fastforce
  have con: "d_constants d = map (\<lambda>t. (row_of ts t, value_of c t)) (filter (\<lambda>t. op_of c t = CONSTANT) ts)"
    using D by (simp add: constant_rows_def)
  have "(row_of ts t, value_of c t) \<in> set (d_constants d)" using t by (auto simp: con)
  moreover have "row_of ts t < d_num_clauses d + 1" using D clause unfolding rows_distinct_def by metis
  ultimately show "IntervalEvaluator bo d vars ! row_of ts t = Interval bo (value_of c t) (value_of c t)"
    unfolding IntervalEvaluator_fill using distinct_rows[OF dist, of "value_of c"]
    by (intro fill_at) (simp_all add: con)
qed

lemma deck_follows:
  assumes ok: "store_ok c" and dm: "deck_made c root ts d c' clauses x y z"
    and laws: "boost_arithmetic lib bo" "boost_functions lib bo" "picks lib"
    and e: "enclosed_expr (tree_of c root)" "finite_expr lib (env_of c vars ov px py pz) (tree_of c root)"
  shows "\<exists>w. region_ok lib bo d vars (px, py, pz) (integral_rows c ts) w \<and>
    follows lib (\<lambda>j. ov (d_oracles d ! j)) d (writes (d_tape d)) (integral_rows c ts) w
      (eval_expr lib (env_of c vars ov px py pz) (tree_of c root)) (d_tape d)"
proof -
  let ?env = "env_of c vars ov px py pz" and ?v = "set_point d px py pz (ArrayEvaluator d vars)" and ?P = "integral_rows c ts"
  note D = dm[unfolded deck_made_def]
  have tp: "tape_ok d (d_tape d)" by (rule deck_tape_ok[OF ok dm])
  obtain w where w: "foldE (eval_clause lib (\<lambda>j. ov (d_oracles d ! j))) ?v (rev (tp_clauses (d_tape d))) = Inr w"
    "rows_ok (eval_expr lib ?env) c ts ts w" using deck_rows[OF ok dm] by blast
  have shape: "tape_shape (d_num_clauses d) (length (d_oracles d)) (tp_clauses (d_tape d))" "d_num_clauses d < length ?v"
    using tp by (simp_all add: tape_ok_def set_point_def)
  note W = point.walk_rows[OF shape w(1)]
  have row: "w ! row_of ts t = eval_expr lib ?env (tree_of c t)" if "t \<in> set ts" for t
    using w(2) that by (simp add: rows_ok_def)
  have part: "enclosed_expr (tree_of c t) \<and> finite_expr lib ?env (tree_of c t)" if "t \<in> set ts" for t
    using below_parts[OF ok _ e] D that by blast
  have reads: "reads (d_tape d) \<union> writes (d_tape d) \<subseteq> row_of ts ` set ts"
  proof -
    have "writes (d_tape d) \<subseteq> row_of ts ` set ts"
      unfolding writes_def using clause_of_node[OF ok dm] by (metis image_subsetI imageI)
    moreover have "tp_root (d_tape d) \<in> row_of ts ` set ts" using D by force
    ultimately show ?thesis using deck_operands[OF ok dm] by (auto simp: reads_def)
  qed
  have ops: "(k_op k \<noteq> ORACLE \<longrightarrow> enclosed (k_op k)) \<and> (k_op k = OP_POW \<longrightarrow> k_b k \<in> ?P)"
    if k: "k \<in> set (tp_clauses (d_tape d))" for k
  proof -
    obtain m n where m: "m \<in> set ts" "node_at c m = Some n" "k_op k = t_op n"
      "t_op n = ORACLE \<or> 0 < t_rank n \<and> k_a k = row_of ts (t_lhs n) \<and> k_b k = row_of ts (t_rhs n)"
      using clause_of_node[OF ok dm k] by metis
    show ?thesis
    proof (cases "t_op n = ORACLE")
      case False
      then have "t_op n \<noteq> CONSTANT" "t_op n \<noteq> VAR_FREE" using m(4) rank_zero_leaf(3)[OF ok m(2)] by auto
      with False have t: "tree_of c m = Apply (t_op n) (tree_of c (t_lhs n)) (tree_of c (t_rhs n))"
        by (simp add: tree_of_node[OF ok m(2)])
      have "k_b k \<in> ?P" if pow: "t_op n = OP_POW"
      proof -
        have r: "t_rhs n \<noteq> 0" using node_args[OF ok m(2)] pow by (auto simp: args_ok_def arity_ok_def args_def split: if_splits)
        then have r': "t_rhs n \<in> set ts" using children_in_deck[OF ok dm m(1,2)] by blast
        obtain v where v: "tree_of c (t_rhs n) = Constant v" "is_integral v" "f32_to_int v \<noteq> None"
          using part[OF m(1)] t pow by (auto split: expr.splits)
        obtain n' where n': "node_at c (t_rhs n) = Some n'" using deck_node[OF dm r'] .
        have "op_of c (t_rhs n) = CONSTANT \<and> value_of c (t_rhs n) = v"
          using v(1) n' by (auto simp: tree_of_node[OF ok n'] op_of_def value_of_def split: if_splits)
        with v(2,3) r' m(4) pow show ?thesis by (auto simp: integral_rows_def)
      qed
      with part[OF m(1)] t m(3) show ?thesis by auto
    qed (use m in simp)
  qed
  have "region_ok lib bo d vars (px, py, pz) ?P w"
    unfolding region_ok_def prod.case
  proof (intro conjI laws ballI allI impI)
    fix r assume "r \<notin> writes (d_tape d)"
    with W show "w ! r = ?v ! r" by (simp add: writes_def)
  next
    fix r assume "r \<in> ?P"
    then obtain t where t: "t \<in> set ts" "op_of c t = CONSTANT" "is_integral (value_of c t)" "f32_to_int (value_of c t) \<noteq> None"
      "r = row_of ts t" by (auto simp: integral_rows_def)
    note C = constant_row[OF ok dm t(1,2)]
    have "w ! r = value_of c t" using row[OF t(1)] C(4) t(5) by simp
    with C(1-3) t(3-5) show "r \<notin> writes (d_tape d)" "r \<notin> {d_X d, d_Y d, d_Z d}" "is_integral (w ! r)" "f32_to_int (w ! r) \<noteq> None"
      "IntervalEvaluator bo d vars ! r = Interval bo (w ! r) (w ! r)" by simp_all
  qed
  moreover have "follows lib (\<lambda>j. ov (d_oracles d ! j)) d (writes (d_tape d)) ?P w (eval_expr lib ?env (tree_of c root)) (d_tape d)"
    unfolding follows_def
  proof (intro conjI ballI tp)
    show "closed_tape (writes (d_tape d)) (d_tape d)" by (auto simp: closed_tape_def)
    show "powers ?P (d_tape d)" using ops by (simp add: powers_def)
    show "w ! tp_root (d_tape d) = eval_expr lib ?env (tree_of c root)" proof -
      have "root \<in> set ts" "row_of ts root = 1" "tp_root (d_tape d) = 1" using D by blast+
      with row show ?thesis by metis
    qed
  next
    fix r assume "r \<in> reads (d_tape d) \<union> writes (d_tape d)"
    then obtain t where "t \<in> set ts" "r = row_of ts t" using reads by blast
    with row part finite_exprD show "f32_isfinite (w ! r)" by metis
  qed (use W ops in blast)+
  ultimately show ?thesis by blast
qed

section \<open>Subdividing\<close>

text \<open>The tapes that the renderers come by on their way to a point: from the tape of the deck, each
  box around the point is evaluated, with whatever rows earlier walks have left, and the tape is
  shortened for it.\<close>

inductive region_tape ::
    "libm \<Rightarrow> boost \<Rightarrow> (point \<Rightarrow> point \<Rightarrow> nat \<Rightarrow> interval) \<Rightarrow> oracle_ops \<Rightarrow> deck \<Rightarrow> (nat \<Rightarrow> f32 option) \<Rightarrow> point \<Rightarrow> tape \<Rightarrow> bool"
  for lib bo iv orc d vars p where
  region_base: "region_tape lib bo iv orc d vars p (d_tape d)"
| region_push: "region_tape lib bo iv orc d vars p tp \<Longrightarrow> in_box lower upper p \<Longrightarrow>
    rows_ready d (IntervalEvaluator bo d vars) v \<Longrightarrow>
    intervalAndPush lib bo (iv lower upper) orc d tp lower upper v = Inr ((i, t), v') \<Longrightarrow>
    region_tape lib bo iv orc d vars p t"

definition oracles_cover :: "(nat \<Rightarrow> f32) \<Rightarrow> (point \<Rightarrow> point \<Rightarrow> nat \<Rightarrow> interval) \<Rightarrow> point \<Rightarrow> bool" where
  "oracles_cover ov iv p \<longleftrightarrow> (\<forall>lower upper j. in_box lower upper p \<longrightarrow> covers (ov j) (iv lower upper j))"

lemma region_walk:
  assumes reg: "region_ok lib bo d vars (px, py, pz) P w" and P: "P \<inter> writes (d_tape d) = {}"
    and f: "follows lib ov d (writes (d_tape d)) P w out tp" and orc: "oracles_cover ov iv (px, py, pz)"
    and box: "in_box lower upper (px, py, pz)" and v: "rows_ready d (IntervalEvaluator bo d vars) v"
  shows "\<exists>i t u. intervalAndPush lib bo (iv lower upper) orac d tp lower upper v = Inr ((i, t), u) \<and> covers out i
    \<and> rows_ready d (IntervalEvaluator bo d vars) u \<and> follows lib ov d (writes (d_tape d)) P w out t"
proof -
  have "\<forall>j. covers (ov j) (iv lower upper j)" using orc box unfolding oracles_cover_def by blast
  from box_walk[OF reg f box v this] obtain i u where u: "interval_eval lib bo (iv lower upper) d tp lower upper v = Inr (i, u)"
    "covers out i" "rows_ready d (IntervalEvaluator bo d vars) u" "choice_right (interval_keep u) (tp_clauses tp) w" by blast
  obtain t where "interval_push orac d tp u = Inr t" "follows lib ov d (writes (d_tape d)) P w out t"
    using push_follows[OF f interval_keep_wf P u(4)] unfolding interval_push_def by blast
  with u show ?thesis by (auto simp: intervalAndPush_def)
qed

lemma region_tape_follows:
  assumes reg: "region_ok lib bo d vars (px, py, pz) P w" and P: "P \<inter> writes (d_tape d) = {}"
    and base: "follows lib ov d (writes (d_tape d)) P w out (d_tape d)" and orc: "oracles_cover ov iv (px, py, pz)"
    and t: "region_tape lib bo iv orac d vars (px, py, pz) t"
  shows "follows lib ov d (writes (d_tape d)) P w out t"
  using t
proof (induction rule: region_tape.induct)
  case (region_push tp lower upper v i t v')
  from region_walk[OF reg P region_push(5) orc region_push(2,3), where orac = orac] region_push(4) show ?case by auto
qed (rule base)

lemma follows_value:
  assumes reg: "region_ok lib bo d vars (px, py, pz) P w" and f: "follows lib ov d (writes (d_tape d)) P w out tp"
    and v: "rows_ready d (ArrayEvaluator d vars) v"
  shows "\<exists>u. array_value lib ov d tp px py pz v = Inr (out, u) \<and> rows_ready d (ArrayEvaluator d vars) u"
proof -
  let ?v = "set_point d px py pz v"
  note F = f[unfolded follows_def] and R = reg[unfolded region_ok_def prod.case]
  have len: "length ?v = d_num_clauses d + 1" using v by (simp add: rows_ready_def set_point_def)
  have shape: "tape_shape (d_num_clauses d) (length (d_oracles d)) (tp_clauses tp)" using F by (simp add: tape_ok_def)
  have same: "?v ! r = w ! r" if "r \<in> reads tp" "r \<notin> writes tp" for r
  proof -
    have r: "r \<notin> writes (d_tape d)" "r \<le> d_num_clauses d" using that F reads_bounded[of d tp r] by (auto simp: closed_tape_def)
    then have "r \<notin> {d_X d, d_Y d, d_Z d} \<Longrightarrow> v ! r = ArrayEvaluator d vars ! r" using v by (simp add: rows_ready_def)
    then have "?v ! r = set_point d px py pz (ArrayEvaluator d vars) ! r" using v r(2)
      by (cases "r = d_Z d"; cases "r = d_Y d"; cases "r = d_X d") (simp_all add: set_point_def rows_ready_def)
    with R r show ?thesis by simp
  qed
  have "\<forall>k \<in> set (tp_clauses tp). k_op k \<noteq> ORACLE \<longrightarrow> (k_a k \<in> writes tp \<or> ?v ! k_a k = w ! k_a k) \<and>
     (args (k_op k) = 2 \<longrightarrow> k_b k \<in> writes tp \<or> ?v ! k_b k = w ! k_b k)"
  proof (intro ballI impI)
    fix k assume "k \<in> set (tp_clauses tp)" "k_op k \<noteq> ORACLE"
    then have "k_a k \<in> reads tp" "args (k_op k) = 2 \<longrightarrow> k_b k \<in> reads tp"
      by (auto simp: reads_def operands_def intro!: bexI[of _ k])
    with same show "(k_a k \<in> writes tp \<or> ?v ! k_a k = w ! k_a k) \<and> (args (k_op k) = 2 \<longrightarrow> k_b k \<in> writes tp \<or> ?v ! k_b k = w ! k_b k)"
      by blast
  qed
  with point.walk_to[OF shape, of ?v lib ov w] F len obtain u where
    u: "foldE (eval_clause lib ov) ?v (rev (tp_clauses tp)) = Inr u" "length u = length ?v"
      "\<forall>r. u ! r = (if r \<in> writes tp then w ! r else ?v ! r)" by (auto simp: writes_def)
  have "tp_root tp \<in> reads tp" by (simp add: reads_def)
  then have "u ! tp_root tp = out" using u(3) same[of "tp_root tp"] F by simp
  moreover have "rows_ready d (ArrayEvaluator d vars) u"
    unfolding rows_ready_def
  proof (intro conjI allI impI)
    fix r assume r: "r \<notin> writes (d_tape d) \<union> {d_X d, d_Y d, d_Z d}"
    with F have "r \<notin> writes tp" by (auto simp: closed_tape_def)
    with u(3) r v show "u ! r = ArrayEvaluator d vars ! r" by (simp add: set_point_def rows_ready_def)
  qed (use u(2) v in \<open>simp add: set_point_def rows_ready_def\<close>)
  ultimately show ?thesis using u(1) by (auto simp: array_value_def eval_tape_def)
qed

text \<open>C1: Subdividing is sound. Take a tree without remainders, roots and angles of vectors, whose
  powers have integral constant exponents, and a point at which the tree and all its parts are
  finite numbers. Whatever boxes around the point the tape was shortened for, one after another,
  and whatever earlier walks left in the rows: the evaluator of points still gets the tree's value
  at the point from the shortened tape, and evaluating the next box around the point succeeds,
  with an interval that encloses the value and with a tape of the same kind. Of the interval
  library only its inclusion property is assumed, of oracles that their intervals cover their
  values, of minimum and maximum that they return the smaller and the larger number.\<close>

theorem subdividing_keeps_value:
  assumes "fresh_addresses alloc" "api_reachable lib alloc s" "p \<in> set (a_trees s)"
    and "boost_arithmetic lib bo" "boost_functions lib bo" "picks lib"
    and "Deck (operation lib alloc (Suc fuel) True) p (a_cache s) = Inr (d, c')"
    and "env = env_of (a_cache s) vars ov px py pz"
    and "enclosed_expr (tree_of (a_cache s) p)" "finite_expr lib env (tree_of (a_cache s) p)"
    and "oracles_cover (\<lambda>j. ov (d_oracles d ! j)) iv (px, py, pz)"
    and "region_tape lib bo iv orc d vars (px, py, pz) tp"
    and "rows_ready d (ArrayEvaluator d vars) v" "rows_ready d (IntervalEvaluator bo d vars) v'"
    and "in_box lower upper (px, py, pz)"
  shows "(\<exists>u. array_value lib (\<lambda>j. ov (d_oracles d ! j)) d tp px py pz v = Inr (eval_expr lib env (tree_of (a_cache s) p), u)
      \<and> rows_ready d (ArrayEvaluator d vars) u)
    \<and> (\<exists>i t u. intervalAndPush lib bo (iv lower upper) orc d tp lower upper v' = Inr ((i, t), u)
      \<and> covers (eval_expr lib env (tree_of (a_cache s) p)) i \<and> rows_ready d (IntervalEvaluator bo d vars) u
      \<and> region_tape lib bo iv orc d vars (px, py, pz) t)"
proof -
  have s: "store_ok (a_cache s)" "live (a_cache s) p" using reachable_ok[OF assms(1,2)] assms(3) by (auto simp: api_ok_def)
  obtain ts clauses x y z where dm: "deck_made (a_cache s) p ts d c' clauses x y z"
    using Deck_made[OF s operation_makes_axes[OF assms(1)], of lib fuel] assms(7) by auto
  obtain w where w: "region_ok lib bo d vars (px, py, pz) (integral_rows (a_cache s) ts) w"
    "follows lib (\<lambda>j. ov (d_oracles d ! j)) d (writes (d_tape d)) (integral_rows (a_cache s) ts) w
      (eval_expr lib env (tree_of (a_cache s) p)) (d_tape d)"
    using deck_follows[OF s(1) dm assms(4-6,9)] assms(8,10) by blast
  have P: "integral_rows (a_cache s) ts \<inter> writes (d_tape d) = {}"
    using constant_row(1)[OF s(1) dm] by (auto simp: integral_rows_def)
  note f = region_tape_follows[OF w(1) P w(2) assms(11,12)]
  obtain i t u where push: "intervalAndPush lib bo (iv lower upper) orc d tp lower upper v' = Inr ((i, t), u)"
    "covers (eval_expr lib env (tree_of (a_cache s) p)) i" "rows_ready d (IntervalEvaluator bo d vars) u"
    using region_walk[OF w(1) P f assms(11,15,14)] by blast
  with follows_value[OF w(1) f assms(13)] region_push[OF assms(12,15,14) push(1)] show ?thesis by blast
qed

definition everything :: bounds where "everything = (minus_inf, plus_inf)"

text \<open>An interval library that computes minima, maxima and hulls and otherwise knows nothing.\<close>

definition sample_min :: "bounds \<Rightarrow> bounds \<Rightarrow> bounds" where
  "sample_min i j = (m_min sample_libm (fst i) (fst j), m_min sample_libm (snd i) (snd j))"

definition sample_max :: "bounds \<Rightarrow> bounds \<Rightarrow> bounds" where
  "sample_max i j = (m_max sample_libm (fst i) (fst j), m_max sample_libm (snd i) (snd j))"

definition sample_boost :: boost where
  "sample_boost = \<lparr>b_make = (\<lambda>l u. if f32_le l u then (l, u) else (f32_nan, f32_nan)), b_empty = (f32_nan, f32_nan), b_default = (0, 0),
     b_hull = (\<lambda>i j. everything), b_add = (\<lambda>i j. everything), b_sub = (\<lambda>i j. everything), b_mul = (\<lambda>i j. everything),
     b_div = (\<lambda>i j. everything), b_min = sample_min, b_max = sample_max, b_scale = (\<lambda>i c. everything),
     b_over = (\<lambda>c i. everything), b_pow = (\<lambda>i n. everything), b_nth_root = (\<lambda>i n. everything),
     b_neg = (\<lambda>i. everything), b_square = (\<lambda>i. everything), b_sqrt = (\<lambda>i. everything), b_abs = (\<lambda>i. everything),
     b_sin = id, b_cos = id, b_tan = id, b_asin = id, b_acos = id, b_atan = (\<lambda>i. everything), b_exp = id, b_log = id\<rparr>"

lemma in_everything: "\<not> f32_isnan x \<Longrightarrow> within everything x"
  using number_le_infinity by (simp add: within_def everything_def)

lemma everything_encloses: "encloses1 (\<lambda>i. everything) g" "encloses2 (\<lambda>i j. everything) h"
  using in_everything by (auto simp: encloses1_def encloses2_def f32_isfinite_def)

lemma sample_encloses: "encloses2 sample_min (m_min sample_libm)" "encloses2 sample_max (m_max sample_libm)"
  by (auto simp: encloses2_def within_def sample_min_def sample_max_def sample_libm_def f32_le_def f32_lt_def)

lemma sample_laws: "boost_arithmetic sample_libm sample_boost" "boost_functions sample_libm sample_boost" "picks sample_libm"
proof -
  have number: "within i x \<Longrightarrow> \<not> f32_isnan x" for i x by (auto simp: within_def f32_le_def)
  have half_pi: "within (f32_uminus f32_half_pi, f32_half_pi) 0" by code_simp
  have zero: "within (0, 0) 0" by (simp add: within_def f32_le_def f32_isnan_def f32_mag_def)
  show "boost_arithmetic sample_libm sample_boost"
    unfolding boost_arithmetic_def sample_boost_def boost.simps
    using everything_encloses sample_encloses number zero in_everything by (intro conjI allI impI) (auto split: if_splits)
  show "boost_functions sample_libm sample_boost"
    unfolding boost_functions_def sample_boost_def sample_libm_def boost.simps libm.simps
    using everything_encloses half_pi by (intro conjI allI impI) (simp_all add: encloses1_def[of id])
  show "picks sample_libm" using sample_selects by (simp add: picks_def sample_libm_def)
qed

lemma sample_deck:
  obtains d c' where "Deck (operation sample_libm next_address (Suc 3) True) 5 (a_cache sample_state) = Inr (d, c')"
proof -
  have "case Deck (operation sample_libm next_address (Suc 3) True) 5 (a_cache sample_state) of Inr (d, c') \<Rightarrow> True | _ \<Rightarrow> False"
    by code_simp
  with that show ?thesis by (auto split: sum.splits prod.splits)
qed

text \<open>The sine of the first axis is between 0 and 1, the second axis between 2 and 4.\<close>

theorem subdividing_keeps_value_witness:
  "\<exists>d c' i t u w. Deck (operation sample_libm next_address (Suc 3) True) 5 (a_cache sample_state) = Inr (d, c')
    \<and> intervalAndPush sample_libm sample_boost (\<lambda>j. interval (0, 0) False) \<lparr>o_push = (\<lambda>_ _ _. 0), o_isTerminal = (\<lambda>_. True)\<rparr> d (d_tape d)
        (0, 0x40000000, 0) (f32_one, 0x40800000, 0) (IntervalEvaluator sample_boost d (\<lambda>_. None)) = Inr ((i, t), u)
    \<and> array_value sample_libm (\<lambda>j. 0) d t f32_one 0x40000000 0 (ArrayEvaluator d (\<lambda>_. None)) = Inr (f32_one, w)"
proof -
  let ?c = "a_cache sample_state" and ?p = "(f32_one, 0x40000000, 0) :: point" and ?iv = "\<lambda>_ _ _. interval (0, 0) False"
  let ?env = "env_of ?c (\<lambda>_. None) (\<lambda>_. 0) f32_one 0x40000000 0"
  let ?orc = "\<lparr>o_push = (\<lambda>_ _ _. 0), o_isTerminal = (\<lambda>_. True)\<rparr>"
  obtain d c' where d: "Deck (operation sample_libm next_address (Suc 3) True) 5 ?c = Inr (d, c')" by (rule sample_deck)
  have tree: "enclosed_expr (tree_of ?c 5)" "finite_expr sample_libm ?env (tree_of ?c 5)"
    "eval_expr sample_libm ?env (tree_of ?c 5) = f32_one" by code_simp+
  have orc: "oracles_cover (\<lambda>j. 0) ?iv ?p" by (simp add: oracles_cover_def covers_def within_def f32_le_def f32_isnan_def f32_mag_def)
  have box: "in_box (0, 0x40000000, 0) (f32_one, 0x40800000, 0) ?p" by code_simp
  have ready: "rows_ready d v v" for v :: "'x list" by (simp add: rows_ready_def)
  note step = subdividing_keeps_value[OF fresh_sample client_reachable _ sample_laws d refl tree(1,2) orc _ ready ready box, where orc = ?orc]
  from step[OF _ region_base] obtain i t u where push: "intervalAndPush sample_libm sample_boost (?iv (0, 0x40000000, 0) (f32_one, 0x40800000, 0)) ?orc d
      (d_tape d) (0, 0x40000000, 0) (f32_one, 0x40800000, 0) (IntervalEvaluator sample_boost d (\<lambda>_. None)) = Inr ((i, t), u)"
    "region_tape sample_libm sample_boost ?iv ?orc d (\<lambda>_. None) ?p t" by (auto simp: sample_trees)
  from step[OF _ push(2)] tree(3) obtain w where
    "array_value sample_libm (\<lambda>j. 0) d t f32_one 0x40000000 0 (ArrayEvaluator d (\<lambda>_. None)) = Inr (f32_one, w)"
    by (auto simp: sample_trees)
  with d push(1) show ?thesis by blast
qed

end
