(* ===== verification/IntervalFlags.thy ===== *)
theory IntervalFlags
  imports RegionProps IeeeRounding
begin

text \<open>
  The flag that an interval carries for values that may be NaN: which operations set it whenever
  they have to, and where it is missed.
\<close>

section \<open>When the operations of floats are NaN\<close>

lemma nan_simps: "f32_isnan f32_nan" "\<not> f32_isnan 0" "\<not> f32_isnan 0x80000000" "f32_isinf x \<Longrightarrow> \<not> f32_isnan x"
proof -
  show "f32_isnan f32_nan" "\<not> f32_isnan 0" "\<not> f32_isnan 0x80000000" by (simp_all add: f32_isnan_def f32_nan_def f32_mag_def)
qed (simp_all add: f32_isnan_def f32_isinf_def)

lemma pack_nan: "0 \<le> m \<Longrightarrow> f32_isnan (f32_pack s m e) = False"
  by simp

lemma add_nan: "f32_isnan (f32_add x y) \<longleftrightarrow> f32_isnan x \<or> f32_isnan y \<or> f32_isinf x \<and> f32_isinf y \<and> f32_neg x \<noteq> f32_neg y"
  unfolding f32_add_def Let_def using nan_simps(4)[of x] nan_simps(4)[of y] by (auto simp: nan_simps pack_nan)

lemma mul_nan: "f32_isnan (f32_mul x y) \<longleftrightarrow> f32_isnan x \<or> f32_isnan y
    \<or> f32_isinf x \<and> f32_mag y = 0 \<or> f32_isinf y \<and> f32_mag x = 0"
proof -
  have "0 \<le> f32_man x * f32_man y" by (rule mult_nonneg_nonneg) simp_all
  with nan_simps(4)[of x] nan_simps(4)[of y] show ?thesis
    unfolding f32_mul_def Let_def by (auto simp: nan_simps pack_nan f32_isinf_def)
qed

lemma div_nan: "f32_isnan (f32_div x y) \<longleftrightarrow> f32_isnan x \<or> f32_isnan y
    \<or> f32_isinf x \<and> f32_isinf y \<or> f32_mag x = 0 \<and> f32_mag y = 0"
proof -
  have "0 \<le> f32_man x * 2 ^ 60 div f32_man y"
  proof (cases "f32_man y = 0")
    case False
    then have "0 < f32_man y" using f32_man_nonneg[of y] by linarith
    then show ?thesis by (simp add: pos_imp_zdiv_nonneg_iff)
  qed simp
  then have "f32_isnan (f32_pack s (2 * (f32_man x * 2 ^ 60 div f32_man y) + c) e) = False" if "0 \<le> c" for s c e
    using that by (intro pack_nan) simp
  from this[of 0] this[of 1] nan_simps(4)[of x] nan_simps(4)[of y] show ?thesis
    unfolding f32_div_def Let_def by (auto simp: nan_simps f32_isinf_def)
qed

lemma uminus_bits: "f32_mag (f32_uminus x) = f32_mag x" "f32_neg (f32_uminus x) \<longleftrightarrow> \<not> f32_neg x"
proof -
  have u: "uint (f32_uminus x) = uint x XOR 0x80000000" by (simp add: f32_uminus_def uint_xor)
  have "take_bit 31 (uint x XOR 0x80000000) = take_bit 31 (uint x)" by (simp add: take_bit_xor)
  then show "f32_mag (f32_uminus x) = f32_mag x" unfolding f32_mag_def u by (simp add: take_bit_eq_mod)
  have neg: "f32_neg y \<longleftrightarrow> bit (uint y) 31" for y
  proof -
    have "uint y < 2 ^ 32" "0 \<le> uint y" using uint_bounded[of y] by simp_all
    then have "uint y div 2 ^ 31 = (if 2 ^ 31 \<le> uint y then 1 else 0)"
      by (cases "2 ^ 31 \<le> uint y") (auto intro: int_div_pos_eq[where r = "uint y - 2 ^ 31"])
    then show ?thesis unfolding f32_neg_def bit_iff_odd by simp
  qed
  have "bit (0x80000000 :: int) 31" by (simp add: bit_iff_odd)
  then have "bit (uint x XOR 0x80000000) 31 \<longleftrightarrow> \<not> bit (uint x) 31" by (simp add: bit_xor_iff)
  then show "f32_neg (f32_uminus x) \<longleftrightarrow> \<not> f32_neg x" unfolding neg u .
qed

lemma uminus_nan: "f32_isnan (f32_uminus x) = f32_isnan x" "f32_isinf (f32_uminus x) = f32_isinf x"
  by (simp_all add: f32_isnan_def f32_isinf_def uminus_bits)

lemma sub_nan: "f32_isnan (f32_sub x y) \<longleftrightarrow> f32_isnan x \<or> f32_isnan y \<or> f32_isinf x \<and> f32_isinf y \<and> f32_neg x = f32_neg y"
  by (auto simp: f32_sub_def add_nan uminus_nan uminus_bits nan_simps)

lemma sqrt_nan: "f32_isnan (f32_sqrt x) \<longleftrightarrow> f32_isnan x \<or> f32_neg x \<and> f32_mag x \<noteq> 0"
proof -
  have "f32_isnan (f32_pack False (2 * isqrt (f32_man x * 2 ^ k) + c) e) = False" if "0 \<le> c" for k c e
    using isqrt_bounds[of "f32_man x * 2 ^ k"] that mult_nonneg_nonneg[OF f32_man_nonneg, of "2 ^ k" x] by (intro pack_nan) simp
  from this[of 0] this[of 1] nan_simps(4)[of x] show ?thesis
    unfolding f32_sqrt_def Let_def by (auto simp: nan_simps)
qed

section \<open>When the flag is set\<close>

lemma keys:
  "f32_key 0 = 0" "f32_key plus_inf = 0x7F800000" "f32_key minus_inf = - 0x7F800000"
  "f32_isinf x \<Longrightarrow> f32_key x = (if f32_neg x then - 0x7F800000 else 0x7F800000)"
  "f32_mag x = 0 \<Longrightarrow> f32_key x = 0"
  by (simp_all add: f32_key_def plus_inf_def minus_inf_def f32_isinf_def f32_mag_def[of 0] f32_neg_def[of 0])

lemma key_bounds: "\<not> f32_isnan x \<Longrightarrow> - 0x7F800000 \<le> f32_key x \<and> f32_key x \<le> 0x7F800000"
  using f32_mag_nonneg[of x] by (cases "f32_neg x") (simp_all add: f32_isnan_def f32_key_def del: f32_mag_nonneg)

lemma key_negative: "f32_neg x \<Longrightarrow> f32_mag x \<noteq> 0 \<Longrightarrow> f32_key x < 0"
  using f32_mag_nonneg[of x] by (simp add: f32_key_def del: f32_mag_nonneg)

lemma number_inf: "\<not> f32_isnan plus_inf" "\<not> f32_isnan minus_inf"
  by (simp_all add: plus_inf_def minus_inf_def)

lemma covers_infinity:
  "within (i_bounds a) x \<Longrightarrow> f32_isinf x \<Longrightarrow>
   if f32_neg x then f32_eq (i_lower a) minus_inf else f32_eq (i_upper a) plus_inf"
  using key_bounds[of "fst (i_bounds a)"] key_bounds[of "snd (i_bounds a)"]
  by (auto simp: within_def i_lower_def i_upper_def f32_le_def f32_eq_def keys number_inf)

lemma covers_zero: "within (i_bounds a) x \<Longrightarrow> f32_mag x = 0 \<Longrightarrow> has_zero a"
  by (simp add: within_def has_zero_def i_lower_def i_upper_def f32_le_def nan_simps keys)

lemma covers_negative: "within (i_bounds a) x \<Longrightarrow> f32_neg x \<Longrightarrow> f32_mag x \<noteq> 0 \<Longrightarrow> f32_lt (i_lower a) 0"
  using key_negative[of x] by (simp add: within_def i_lower_def f32_le_def f32_lt_def nan_simps keys)

text \<open>The operations whose flag is complete. A difference is one of them unless both operands may be
  plus infinity.\<close>

definition flagged :: "opcode \<Rightarrow> interval \<Rightarrow> interval \<Rightarrow> bool" where
  "flagged op a b \<longleftrightarrow> op \<in> {OP_ADD, OP_MUL, OP_DIV, OP_MIN, OP_MAX, OP_NANFILL, OP_SQUARE, OP_SQRT, OP_NEG, OP_ABS, OP_RECIP, CONST_VAR}
     \<or> op = OP_SUB \<and> \<not> (f32_eq (i_upper a) plus_inf \<and> f32_eq (i_upper b) plus_inf)"

text \<open>A minimum or maximum is NaN exactly when its first argument is.\<close>

definition first_nan :: "libm \<Rightarrow> bool" where
  "first_nan lib \<longleftrightarrow> (\<forall>x y. f32_isnan (m_min lib x y) = f32_isnan x \<and> f32_isnan (m_max lib x y) = f32_isnan x)"

lemma covers_cases:
  assumes "covers x a"
  shows "f32_isnan x \<and> i_maybe_nan a \<or> \<not> f32_isnan x \<and> within (i_bounds a) x"
  using assms by (auto simp: covers_def split: if_splits)

lemma abs_nan: "f32_isnan (f32_abs x) = f32_isnan x"
proof -
  have "f32_mag (f32_abs x) = f32_mag x"
    unfolding f32_mag_def f32_abs_def uint_and take_bit_eq_mod[symmetric] by (simp add: take_bit_eq_mask mask_eq_exp_minus_1 and.assoc)
  then show ?thesis by (simp add: f32_isnan_def)
qed

text \<open>C19: Sums, products, quotients, minima, maxima, squares, square roots, negations, absolute values,
  reciprocals and fillings of NaN flag their intervals whenever they have to: if two values are
  covered by the operands, infinities and NaN included, and the operation on them is NaN, the
  interval of the result says so; differences do as long as the operands cannot both be plus
  infinity. Nothing is assumed of the bounds that the interval library computes.\<close>

theorem nan_is_flagged:
  assumes "flagged op a b" "first_nan lib" "covers x a" "covers y b"
    and "clause_value lib op x y = Inr z" "f32_isnan z"
  shows "\<exists>c. interval_value lib bo op a b = Inr c \<and> i_maybe_nan c \<and> i_state c = AMBIGUOUS"
proof -
  note x = covers_cases[OF assms(3)] and y = covers_cases[OF assms(4)]
  note xi = covers_infinity[of a x] and yi = covers_infinity[of b y] and x0 = covers_zero[of a x] and y0 = covers_zero[of b y]
  have one: "\<not> f32_isinf f32_one" "f32_mag f32_one \<noteq> 0" "\<not> f32_isnan f32_one"
    by (simp_all add: f32_one_def f32_isinf_def f32_isnan_def f32_mag_def)
  note neg = covers_negative[of a x]
  show ?thesis
  proof (cases op)
    case OP_ADD
    with assms(5,6) x y xi yi show ?thesis
      by (auto simp: interval_value_def clause_value_def i_add_def i_state_def add_nan split: if_splits)
  next
    case OP_SUB
    with assms(1,5,6) x y xi yi show ?thesis
      by (auto simp: interval_value_def clause_value_def i_sub_def i_state_def sub_nan flagged_def split: if_splits)
  next
    case OP_MUL
    with assms(5,6) x y xi yi x0 y0 show ?thesis
      by (auto simp: interval_value_def clause_value_def i_mul_def i_state_def mul_nan has_infinity_def split: if_splits)
  next
    case OP_DIV
    with assms(5,6) x y xi yi x0 y0 show ?thesis
      by (auto simp: interval_value_def clause_value_def i_div_def i_state_def div_nan has_infinity_def split: if_splits)
  next
    case OP_SQUARE
    with assms(5,6) x show ?thesis
      by (auto simp: interval_value_def clause_value_def i_map_def i_state_def mul_nan f32_isinf_def)
  next
    case OP_SQRT
    with assms(5,6) x neg show ?thesis
      by (auto simp: interval_value_def clause_value_def i_sqrt_def i_state_def sqrt_nan)
  next
    case OP_RECIP
    with assms(5,6) x one show ?thesis
      by (auto simp: interval_value_def clause_value_def i_recip_def i_state_def div_nan)
  qed (use assms x y in \<open>auto simp: flagged_def first_nan_def interval_value_def clause_value_def i_min_def i_max_def i_nanfill_def
      i_map_def i_state_def Let_def uminus_nan abs_nan split: if_splits\<close>)
qed

lemma sample_first_nan: "first_nan sample_libm"
  by (auto simp: first_nan_def sample_libm_def f32_lt_def)

text \<open>Minus infinity and plus infinity add up to NaN.\<close>

theorem nan_is_flagged_witness:
  "f32_isnan (f32_add minus_inf plus_inf) \<and> i_state (i_add sample_boost (interval everything False) (interval everything False)) = AMBIGUOUS"
proof -
  have "flagged OP_ADD (interval everything False) (interval everything False)" by (simp add: flagged_def)
  moreover have "covers minus_inf (interval everything False)" "covers plus_inf (interval everything False)" by code_simp+
  moreover have n: "f32_isnan (f32_add minus_inf plus_inf)" by code_simp
  ultimately show ?thesis
    using nan_is_flagged[OF _ sample_first_nan, of OP_ADD "interval everything False" "interval everything False" minus_inf plus_inf
        "f32_add minus_inf plus_inf" sample_boost]
    by (simp add: clause_value_def interval_value_def)
qed

text \<open>C40: Two flags are wrong. Whenever two unflagged operands both reach plus infinity (and do not
  both reach minus infinity), their difference is marked as a number, though plus infinity minus
  plus infinity is NaN: the code compares the upper bounds with minus infinity. And for every
  unflagged base that reaches zero or below, the flag of a root depends on the second bit of its
  degree, not on the first: even roots of degree 2, 6, 10, ... are marked as numbers, odd roots of
  degree 1, 5, 9, ... as possibly NaN.\<close>

theorem flag_is_missed:
  assumes "isSafe a" "isSafe b" "covers plus_inf a" "covers plus_inf b"
    and "\<not> (f32_eq (i_lower a) minus_inf \<and> f32_eq (i_lower b) minus_inf)"
    and "isSafe c" "isSafe d" "f32_le (i_lower c) 0" "int_of_f32 (i_lower d) = Inr n"
  shows "(\<exists>z r. clause_value lib OP_SUB plus_inf plus_inf = Inr z \<and> f32_isnan z
       \<and> interval_value lib bo OP_SUB a b = Inr r \<and> isSafe r \<and> \<not> covers z r)
    \<and> (\<exists>r. interval_value lib bo OP_NTH_ROOT c d = Inr r \<and> isSafe r = (n mod 4 = 2 \<or> n mod 4 = 3))"
proof
  have nan: "f32_isnan (f32_sub plus_inf plus_inf)" by code_simp
  have "f32_key plus_inf = 0x7F800000" "f32_key minus_inf = - 0x7F800000" by (simp_all add: keys)
  then have "\<not> f32_eq (i_upper a) minus_inf" "\<not> f32_eq (i_upper b) minus_inf"
    using assms(3,4) by (auto simp: covers_def within_def number_inf f32_le_def f32_eq_def i_upper_def)
  then have "isSafe (i_sub bo a b)" using assms(1,2,5) by (auto simp: isSafe_def i_sub_def)
  with nan show "\<exists>z r. clause_value lib OP_SUB plus_inf plus_inf = Inr z \<and> f32_isnan z
       \<and> interval_value lib bo OP_SUB a b = Inr r \<and> isSafe r \<and> \<not> covers z r"
    by (auto simp: clause_value_def interval_value_def covers_def isSafe_def)
  have "odd (n div 2) = (n mod 4 = 2 \<or> n mod 4 = 3)" by presburger
  then show "\<exists>r. interval_value lib bo OP_NTH_ROOT c d = Inr r \<and> isSafe r = (n mod 4 = 2 \<or> n mod 4 = 3)"
    using assms(6-9) by (simp add: interval_value_def i_nth_root_def isSafe_def)
qed

theorem flag_is_missed_witness:
  "isSafe (i_sub sample_boost (interval (0, plus_inf) False) (interval (0, plus_inf) False))
   \<and> (\<exists>r. interval_value sample_libm sample_boost OP_NTH_ROOT (interval (minus_inf, 0) False)
        (interval (0x40000000, 0x40000000) False) = Inr r \<and> isSafe r)
   \<and> (\<exists>r. interval_value sample_libm sample_boost OP_NTH_ROOT (interval (minus_inf, 0) False)
        (interval (0x40A00000, 0x40A00000) False) = Inr r \<and> \<not> isSafe r)"
proof -
  let ?a = "interval (0, plus_inf) False" and ?c = "interval (minus_inf, 0) False"
  have h: "isSafe ?a" "covers plus_inf ?a" "\<not> (f32_eq (i_lower ?a) minus_inf \<and> f32_eq (i_lower ?a) minus_inf)"
    "isSafe ?c" "f32_le (i_lower ?c) 0" by code_simp+
  have d: "isSafe (interval (0x40000000, 0x40000000) False)" "isSafe (interval (0x40A00000, 0x40A00000) False)"
    "int_of_f32 (i_lower (interval (0x40000000, 0x40000000) False)) = Inr 2"
    "int_of_f32 (i_lower (interval (0x40A00000, 0x40A00000) False)) = Inr 5" by code_simp+
  note f = flag_is_missed[OF h(1,1,2,2,3,4) _ h(5), of _ _ sample_libm sample_boost]
  show ?thesis using f[OF d(1,3)] f[OF d(2,4)] by (auto simp: interval_value_def)
qed

end
