(* ===== verification/MeshFactory.thy ===== *)
theory MeshFactory
  imports ExprTree Graph
begin

text \<open>
  From a document to a mesh (\<open>src/mesh/MeshFactory.cpp\<close>): the trees of a graph become an expression
  of the kernel, the kernel renders it, and the factory adds the normals. The nodes of a tree are
  objects of the document's heap. \<open>dynamic_pointer_cast\<close> of a null pointer is null, so a tree
  without a node has no expression. Rendering itself belongs to the renderers, and what they return
  is the argument of the last step.
\<close>

section \<open>Operators of trees\<close>

type_synonym combination = "nat \<Rightarrow> nat \<Rightarrow> cache \<Rightarrow> fault + nat \<times> cache"

definition square_tree :: "libm \<Rightarrow> allocator \<Rightarrow> nat \<Rightarrow> nat \<Rightarrow> cache \<Rightarrow> fault + nat \<times> cache" where
  "square_tree lib alloc fuel a c = Tree_operation lib alloc fuel OP_SQUARE a 0 c"

definition plus_tree :: "libm \<Rightarrow> allocator \<Rightarrow> nat \<Rightarrow> combination" where
  "plus_tree lib alloc fuel a b c = Tree_operation lib alloc fuel OP_ADD a b c"

definition minus_tree :: "libm \<Rightarrow> allocator \<Rightarrow> nat \<Rightarrow> combination" where
  "minus_tree lib alloc fuel a b c = Tree_operation lib alloc fuel OP_SUB a b c"

definition min_tree :: "libm \<Rightarrow> allocator \<Rightarrow> nat \<Rightarrow> combination" where
  "min_tree lib alloc fuel a b c = Tree_operation lib alloc fuel OP_MIN a b c"

definition max_tree :: "libm \<Rightarrow> allocator \<Rightarrow> nat \<Rightarrow> combination" where
  "max_tree lib alloc fuel a b c = Tree_operation lib alloc fuel OP_MAX a b c"

section \<open>The expression of a tree\<close>

definition aggregateOf :: "nat list \<Rightarrow> combination \<Rightarrow> cache \<Rightarrow> fault + nat option \<times> cache" where
  "aggregateOf ts combine c =
     (case ts of
        [] \<Rightarrow> Inr (None, c)
      | [t] \<Rightarrow> Inr (Some t, c)
      | t # us \<Rightarrow> bindE (foldE (\<lambda>(acc, c) elem. combine acc elem c) (t, c) us) (\<lambda>(t, c). Inr (Some t, c)))"

text \<open>The number that a tree is subtracted by is made a constant first.\<close>

definition minus_number :: "libm \<Rightarrow> allocator \<Rightarrow> nat \<Rightarrow> nat \<Rightarrow> f32 \<Rightarrow> cache \<Rightarrow> fault + nat \<times> cache" where
  "minus_number lib alloc fuel a v c = (let (b, c) = Tree_constant alloc v c in minus_tree lib alloc fuel a b c)"

definition square_distance :: "libm \<Rightarrow> allocator \<Rightarrow> nat \<Rightarrow> nat \<Rightarrow> f32 \<Rightarrow> cache \<Rightarrow> fault + nat \<times> cache" where
  "square_distance lib alloc fuel a v c =
     bindE (minus_number lib alloc fuel a v c) (\<lambda>(d, c). square_tree lib alloc fuel d c)"

definition sphere_tree :: "libm \<Rightarrow> allocator \<Rightarrow> nat \<Rightarrow> coord \<Rightarrow> radius \<Rightarrow> cache \<Rightarrow> fault + nat \<times> cache" where
  "sphere_tree lib alloc fuel p r c =
     bindE (Tree_operation lib alloc fuel VAR_X 0 0 c) (\<lambda>(x, c).
     bindE (Tree_operation lib alloc fuel VAR_Y 0 0 c) (\<lambda>(y, c).
     bindE (Tree_operation lib alloc fuel VAR_Z 0 0 c) (\<lambda>(z, c).
     bindE (square_distance lib alloc fuel x (cx p) c) (\<lambda>(sx, c).
     bindE (square_distance lib alloc fuel y (cy p) c) (\<lambda>(sy, c).
     bindE (plus_tree lib alloc fuel sx sy c) (\<lambda>(sxy, c).
     bindE (square_distance lib alloc fuel z (cz p) c) (\<lambda>(sz, c).
     bindE (plus_tree lib alloc fuel sxy sz c) (\<lambda>(s, c).
       minus_number lib alloc fuel s (magnitude r) c))))))))"

text \<open>\<open>l5TreesFromTrees\<close> is the loop over the children, and that over the forest in \<open>fromTree\<close>.\<close>

fun l5TreeFromTree ::
      "libm \<Rightarrow> allocator \<Rightarrow> nat \<Rightarrow> heap \<Rightarrow> tree \<Rightarrow> cache \<Rightarrow> fault + nat option \<times> cache"
  and l5TreesFromTrees ::
      "libm \<Rightarrow> allocator \<Rightarrow> nat \<Rightarrow> heap \<Rightarrow> tree list \<Rightarrow> cache \<Rightarrow> fault + nat list \<times> cache" where
  "l5TreeFromTree lib alloc fuel h (Tree node children) c =
     (case h node of
        None \<Rightarrow> Inr (None, c)
      | Some (Sphere uid p r) \<Rightarrow> bindE (sphere_tree lib alloc fuel p r c) (\<lambda>(t, c). Inr (Some t, c))
      | Some (SetOp uid type) \<Rightarrow>
          bindE (l5TreesFromTrees lib alloc fuel h children c) (\<lambda>(ts, c).
            if type = Union_op then aggregateOf ts (min_tree lib alloc fuel) c
            else if type = Intersection_op then aggregateOf ts (max_tree lib alloc fuel) c
            else Inr (None, c)))"
| "l5TreesFromTrees lib alloc fuel h [] c = Inr ([], c)"
| "l5TreesFromTrees lib alloc fuel h (t # ts) c =
     bindE (l5TreeFromTree lib alloc fuel h t c) (\<lambda>(maybeTree, c).
     bindE (l5TreesFromTrees lib alloc fuel h ts c) (\<lambda>(out, c).
       Inr (case maybeTree of None \<Rightarrow> out | Some u \<Rightarrow> u # out, c)))"

definition forest_shape ::
    "libm \<Rightarrow> allocator \<Rightarrow> nat \<Rightarrow> heap \<Rightarrow> tree list \<Rightarrow> cache \<Rightarrow> fault + nat option \<times> cache" where
  "forest_shape lib alloc fuel h docs c =
     bindE (l5TreesFromTrees lib alloc fuel h docs c) (\<lambda>(forest, c). aggregateOf forest (min_tree lib alloc fuel) c)"

section \<open>The mesh of a rendered shape\<close>

text \<open>Vectors are lists of floats; the cross product and the normalisation are those of the
  platform. Indices are the 32-bit numbers that the renderer made.\<close>

type_synonym vector = "f32 list"

record vertex =
  position :: vector
  normal :: vector

record mesh =
  vertices :: "vertex list"
  indices :: "32 word list"

record brep =
  verts :: "(f32 \<times> f32 \<times> f32) list"
  branes :: "(32 word \<times> 32 word \<times> 32 word) list"

definition xyz :: "vector \<Rightarrow> vector" where
  "xyz v = take 3 v"

definition vec_sub :: "vector \<Rightarrow> vector \<Rightarrow> vector" where
  "vec_sub v w = map2 f32_sub v w"

definition vec_add :: "vector \<Rightarrow> vector \<Rightarrow> vector" where
  "vec_add v w = map2 f32_add v w"

definition add_normal :: "vector \<Rightarrow> nat \<Rightarrow> vertex list \<Rightarrow> vertex list" where
  "add_normal n i vs = vs[i := (vs ! i)\<lparr>normal := vec_add (normal (vs ! i)) n\<rparr>]"

text \<open>A triangle that names a missing vertex is undefined behaviour.\<close>

definition triangle_normal ::
    "(vector \<Rightarrow> vector \<Rightarrow> vector) \<Rightarrow> vertex list \<Rightarrow> 32 word \<times> 32 word \<times> 32 word \<Rightarrow> fault + vertex list" where
  "triangle_normal simd_cross vs = (\<lambda>(a, b, c).
     let i0 = unat a; i1 = unat b; i2 = unat c in
     if \<not> (i0 < length vs \<and> i1 < length vs \<and> i2 < length vs) then Inl OutOfRange
     else
       let p0 = xyz (position (vs ! i0)); p1 = xyz (position (vs ! i1)); p2 = xyz (position (vs ! i2));
           cross = simd_cross (vec_sub p1 p0) (vec_sub p2 p0);
           cross4 = take 3 cross @ [0]
       in Inr (add_normal cross4 i2 (add_normal cross4 i1 (add_normal cross4 i0 vs))))"

text \<open>The loop goes over the indices in steps of three.\<close>

fun triples :: "'a list \<Rightarrow> ('a \<times> 'a \<times> 'a) list" where
  "triples (a # b # c # xs) = (a, b, c) # triples xs"
| "triples _ = []"

definition meshOf ::
    "(vector \<Rightarrow> vector \<Rightarrow> vector) \<Rightarrow> (vector \<Rightarrow> vector) \<Rightarrow> brep \<Rightarrow> fault + mesh" where
  "meshOf simd_cross simd_normalize m =
     (let vs = map (\<lambda>(x, y, z). \<lparr>position = [x, y, z, f32_one], normal = [0, 0, 0, 0]\<rparr>) (verts m);
          ids = concat (map (\<lambda>(a, b, c). [a, b, c]) (branes m))
      in bindE (foldE (triangle_normal simd_cross) vs (triples ids)) (\<lambda>vs.
           Inr \<lparr>vertices = map (\<lambda>v. v\<lparr>normal := simd_normalize (normal v)\<rparr>) vs, indices = ids\<rparr>))"

definition fromTree ::
    "libm \<Rightarrow> allocator \<Rightarrow> nat \<Rightarrow> (vector \<Rightarrow> vector \<Rightarrow> vector) \<Rightarrow> (vector \<Rightarrow> vector)
     \<Rightarrow> (nat \<Rightarrow> f32 \<times> f32 \<times> f32 \<Rightarrow> f32 \<times> f32 \<times> f32 \<Rightarrow> cache \<Rightarrow> brep \<times> cache)
     \<Rightarrow> heap \<Rightarrow> tree list \<Rightarrow> cache \<Rightarrow> fault + mesh option \<times> cache" where
  "fromTree lib alloc fuel simd_cross simd_normalize render h docs c =
     bindE (forest_shape lib alloc fuel h docs c) (\<lambda>(shape, c).
       case shape of
         None \<Rightarrow> Inr (None, c)
       | Some s \<Rightarrow>
           let bound = 0x40A00000; low = f32_uminus bound;
               (m, c) = render s (low, low, low) (bound, bound, bound) c
           in bindE (meshOf simd_cross simd_normalize m) (\<lambda>mesh. Inr (Some mesh, c)))"

end
