(* ===== verification/MeshProps.thy ===== *)
theory MeshProps
  imports MeshFactory IntervalFlags
begin

text \<open>
  Properties of the mesh factory: the expression it makes for a document, its value at a point, and
  the normals of the mesh.
\<close>

section \<open>Sums that the store does not rewrite\<close>

fun depth :: "expr \<Rightarrow> nat" where
  "depth (Apply op l r) = max (if l = Null then 0 else Suc (depth l)) (if r = Null then 0 else Suc (depth r))"
| "depth _ = 0"

lemma rank_depth:
  assumes ok: "store_ok c"
  shows "p \<noteq> 0 \<longrightarrow> live c p \<Longrightarrow> rank_of c p = depth (tree_of c p)"
proof (induction "rank_of c p" arbitrary: p rule: less_induct)
  case less
  show ?case
  proof (cases "p = 0")
    case True
    then show ?thesis using tree_of_0[OF ok] by (simp add: rank_of_def child_def)
  next
    case False
    with less.prems obtain n where n: "node_at c p = Some n" by (auto simp: live_def)
    have nd: "args_ok c (t_op n) (t_lhs n) (t_rhs n)" "t_rank n = operation_rank (child c (t_lhs n)) (child c (t_rhs n))"
      using store_okD[OF ok n] by (simp_all add: node_ok_def)
    have rank: "rank_of c p = t_rank n" using False n by (rule rank_of_node)
    have kid: "(case child c q of None \<Rightarrow> 0 | Some m \<Rightarrow> t_rank m + 1) = (if tree_of c q = Null then 0 else Suc (depth (tree_of c q)))"
      if q: "q = t_lhs n \<or> q = t_rhs n" for q
    proof (cases "q = 0")
      case True
      then show ?thesis using tree_of_0[OF ok] by (simp add: child_def)
    next
      case False
      with node_child[OF ok n q] obtain m where m: "node_at c q = Some m" "t_rank m < t_rank n" by auto
      have live: "live c q" using store_ok_live[OF ok m(1)] .
      from less.hyps[of q] m False rank live have "t_rank m = depth (tree_of c q)" by (simp add: rank_of_node)
      with m False tree_of_not_Null[OF ok live] show ?thesis by (simp add: child_def)
    qed
    have leaf: "t_rank n = 0" if "args (t_op n) = 0"
      using nd that by (simp add: args_ok_def arity_ok_def operation_rank_def child_def split: if_splits)
    show ?thesis using rank nd(2) kid leaf by (auto simp: tree_of_node[OF ok n] operation_rank_def args_def)
  qed
qed

text \<open>The summands of an expression that is a sum of other things than sums, differences, products
  and quotients; a number counts as a multiple of one.\<close>

fun plain_sum :: "expr \<Rightarrow> bool" where
  "plain_sum (Apply op l r) \<longleftrightarrow>
     (if op = OP_ADD then plain_sum l \<and> plain_sum r else op \<notin> {OP_SUB, OP_NEG, OP_MUL, OP_DIV, CONSTANT})"
| "plain_sum (Constant v) \<longleftrightarrow> True"
| "plain_sum _ \<longleftrightarrow> False"

fun is_summand :: "expr \<Rightarrow> expr \<Rightarrow> bool" where
  "is_summand (Apply op l r) t \<longleftrightarrow>
     (if op = OP_ADD then is_summand l t \<or> is_summand r t else t = Apply op l r)"
| "is_summand (Constant v) t \<longleftrightarrow> (\<exists>w. t = Constant w)"
| "is_summand _ t \<longleftrightarrow> False"

lemma affine_set_keys: "fst ` set (affine_set k v m) = insert k (fst ` set m)"
proof (induction m)
  case (Cons kv m)
  then show ?case by (cases kv) (simp add: insert_commute)
qed simp

lemma affine_insert_keys: "fst ` set (affine_insert k v m) = insert k (fst ` set m)"
  using affine_set_keys[of k v m] by (force simp: affine_insert_def map_of_eq_None_iff)

lemma affine_merge_keys: "fst ` set (affine_merge f g m terms) = fst ` set m \<union> fst ` set terms"
proof (induction terms arbitrary: m)
  case (Cons kv terms)
  obtain k v where kv: "kv = (k, v)" by force
  have "affine_merge f g m ((k, v) # terms) = affine_merge f g (case map_of m k of
      None \<Rightarrow> affine_insert k (g v) m | Some old \<Rightarrow> affine_set k (f old v) m) terms"
    by (simp add: affine_merge_def)
  with kv Cons[of "case map_of m k of None \<Rightarrow> affine_insert k (g v) m | Some old \<Rightarrow> affine_set k (f old v) m"]
  show ?case by (auto simp: affine_set_keys affine_insert_keys split: option.splits)
qed (simp add: affine_merge_def)

lemma plain_sum_affine:
  assumes "fresh_addresses alloc"
  shows "store_ok c \<Longrightarrow> node_at c p = Some n \<Longrightarrow> t_rank n < fuel \<Longrightarrow> plain_sum (tree_of c p) \<Longrightarrow>
    \<exists>m c'. asAffine alloc fuel p c = Inr (m, c') \<and> store_ok c' \<and> extends c c'
      \<and> (\<forall>k \<in> fst ` set m. live c' k \<and> is_summand (tree_of c p) (tree_of c' k))"
proof (induction fuel arbitrary: p n c)
  case (Suc fuel)
  note ok = Suc.prems(1) and n = Suc.prems(2)
  note tree = tree_of_node[OF ok n]
  show ?case
  proof (cases "t_op n")
    case CONSTANT
    obtain k c' where k: "constant_node alloc f32_one c = (k, c')" by force
    from constant_node_ok[OF ok assms k] obtain m where m: "store_ok c'" "extends c c'" "node_at c' k = Some m" "t_op m = CONSTANT"
      by auto
    from CONSTANT n k m tree tree_of_node[OF m(1,3)] store_ok_live[OF m(1,3)] show ?thesis by simp
  next
    case OP_ADD
    have sub: "plain_sum (tree_of c (t_lhs n))" "plain_sum (tree_of c (t_rhs n))"
      using Suc.prems(4) tree OP_ADD by simp_all
    then obtain l r where l: "node_at c (t_lhs n) = Some l" "t_rank l < t_rank n"
      and r: "node_at c (t_rhs n) = Some r" "t_rank r < t_rank n"
      using node_child[OF ok n, of "t_lhs n"] node_child[OF ok n, of "t_rhs n"] tree_of_0[OF ok] by (metis plain_sum.simps(3))
    from Suc.IH[OF ok l(1) _ sub(1)] l Suc.prems(3) obtain m1 c1 where 1: "asAffine alloc fuel (t_lhs n) c = Inr (m1, c1)"
      "store_ok c1" "extends c c1" "\<forall>k \<in> fst ` set m1. live c1 k \<and> is_summand (tree_of c (t_lhs n)) (tree_of c1 k)" by auto
    have r1: "node_at c1 (t_rhs n) = Some r" "tree_of c1 (t_rhs n) = tree_of c (t_rhs n)"
      using extends_node[OF 1(3) r(1)] tree_of_extends[OF ok 1(2,3) store_ok_live[OF ok r(1)]] by simp_all
    from Suc.IH[OF 1(2) r1(1)] r1(2) sub(2) r Suc.prems(3) obtain m2 c2 where 2: "asAffine alloc fuel (t_rhs n) c1 = Inr (m2, c2)"
      "store_ok c2" "extends c1 c2" "\<forall>k \<in> fst ` set m2. live c2 k \<and> is_summand (tree_of c (t_rhs n)) (tree_of c2 k)" by auto
    have "\<forall>k \<in> fst ` set m1. live c2 k \<and> is_summand (tree_of c (t_lhs n)) (tree_of c2 k)"
      using 1 live_extends[OF 2(3)] tree_of_extends[OF 1(2) 2(2,3)] by auto
    then have "\<forall>k \<in> fst ` set (affine_merge f32_add id m1 m2). live c2 k \<and> is_summand (tree_of c p) (tree_of c2 k)"
      unfolding affine_merge_keys ball_Un using 2(4) tree OP_ADD by simp
    with 1(1) 2(1,2) OP_ADD n extends_trans[OF 1(3) 2(3)] show ?thesis by simp
  qed (use Suc.prems tree store_ok_live[OF ok n] in auto)
qed simp

fun zero_number :: "expr \<Rightarrow> bool" where
  "zero_number (Constant v) \<longleftrightarrow> f32_eq v 0"
| "zero_number _ \<longleftrightarrow> False"

fun applied :: "opcode \<Rightarrow> expr \<Rightarrow> (expr \<times> expr) option" where
  "applied op (Apply op' l r) = (if op' = op then Some (l, r) else None)"
| "applied op _ = None"

lemma zero_number_node: "store_ok c \<Longrightarrow> live c p \<Longrightarrow> is_constant (child c p) 0 \<longleftrightarrow> zero_number (tree_of c p)"
  by (auto simp: live_def child_def is_constant_def tree_of_node split: if_splits)

lemma negated_node: "store_ok c \<Longrightarrow> live c p \<Longrightarrow> opcode_or_invalid (child c p) = OP_NEG \<longleftrightarrow> applied OP_NEG (tree_of c p) \<noteq> None"
  by (auto simp: live_def child_def opcode_or_invalid_def tree_of_node split: if_splits)

lemma commutative_operands:
  assumes ok: "store_ok c" and l: "live c a" "live c b" and op: "isCommutative op"
    and kid: "applied op (tree_of c x) = Some (e1, e2)" "x = a \<or> x = b"
  shows "\<exists>n. node_at c x = Some n \<and> t_op n = op \<and> live c (t_lhs n) \<and> live c (t_rhs n)
    \<and> tree_of c (t_lhs n) = e1 \<and> tree_of c (t_rhs n) = e2"
proof -
  obtain n where n: "node_at c x = Some n" using l kid(2) by (auto simp: live_def)
  have op': "args op = 2" using op by (cases op) (simp_all add: isCommutative_def args_def)
  have "t_op n = op" "tree_of c (t_lhs n) = e1" "tree_of c (t_rhs n) = e2"
    using kid(1) by (auto simp: tree_of_node[OF ok n] split: if_splits)
  with n op' node_lhs[OF ok n] node_rhs[OF ok n] show ?thesis by simp
qed

lemma commutative_calm:
  assumes ok: "store_ok c" and l: "live c a" "live c b" and op: "isCommutative op"
    and "applied op (tree_of c a) = None"
    and "\<And>x y. applied op (tree_of c b) = Some (x, y) \<Longrightarrow> depth x \<le> depth (tree_of c a) \<and> depth y \<le> depth (tree_of c a)"
  shows "checkCommutative opn op a b c = Inr (0, c)"
proof -
  have o: "op \<notin> {CONSTANT, VAR_FREE, ORACLE}" using op by (auto simp: isCommutative_def)
  obtain na nb where n: "node_at c a = Some na" "node_at c b = Some nb" using l by (auto simp: live_def)
  have na: "t_op na \<noteq> op" using assms(5) o by (auto simp: tree_of_node[OF ok n(1)] split: if_splits)
  have ranks: "rank_or_zero c p = Inr (depth (tree_of c p))" if "p \<in> {t_lhs na, t_rhs na, t_lhs nb, t_rhs nb}" for p
  proof -
    have "p \<noteq> 0 \<longrightarrow> live c p" using that node_args[OF ok n(1)] node_args[OF ok n(2)] by (auto simp: args_ok_def)
    then show ?thesis using rank_or_zero_child rank_depth[OF ok] by (simp add: rank_of_def)
  qed
  have rank: "t_rank na = depth (tree_of c a)" using rank_depth[OF ok, of a] n(1) l(1) by (simp add: rank_of_node live_def)
  have "t_op nb = op \<Longrightarrow> depth (tree_of c (t_lhs nb)) \<le> depth (tree_of c a) \<and> depth (tree_of c (t_rhs nb)) \<le> depth (tree_of c a)"
    using assms(6) o by (simp add: tree_of_node[OF ok n(2)])
  with na rank show ?thesis using op n by (cases "t_op nb = op") (simp_all add: checkCommutative_def ranks)
qed

lemma commutative_left:
  assumes ok: "store_ok c" and l: "live c a" "live c b" and op: "isCommutative op"
    and a: "applied op (tree_of c a) = Some (x, y)"
  shows "\<exists>p q. live c p \<and> live c q \<and> tree_of c p = x \<and> tree_of c q = y \<and> (\<forall>opn. checkCommutative opn op a b c =
    (if depth (tree_of c b) < depth x then bindE (opn op q b c) (\<lambda>(r, c). opn op p r c)
     else if depth (tree_of c b) < depth y then bindE (opn op p b c) (\<lambda>(r, c). opn op q r c)
     else Inr (0, c)))"
proof -
  from commutative_operands[OF ok l op a] obtain na where na: "node_at c a = Some na" "t_op na = op" "live c (t_lhs na)"
    "live c (t_rhs na)" "tree_of c (t_lhs na) = x" "tree_of c (t_rhs na) = y" by blast
  obtain nb where nb: "node_at c b = Some nb" using l by (auto simp: live_def)
  have ranks: "rank_or_zero c p = Inr (depth (tree_of c p))" if "p \<in> {t_lhs na, t_rhs na, t_lhs nb, t_rhs nb}" for p
  proof -
    have "p \<noteq> 0 \<longrightarrow> live c p" using that node_args[OF ok na(1)] node_args[OF ok nb] by (auto simp: args_ok_def)
    then show ?thesis using rank_or_zero_child rank_depth[OF ok] by (simp add: rank_of_def)
  qed
  have "t_rank nb = depth (tree_of c b)" using rank_depth[OF ok, of b] nb l(2) by (simp add: rank_of_node live_def)
  then show ?thesis using op na nb
    by (intro exI[of _ "t_lhs na"] exI[of _ "t_rhs na"]) (simp add: checkCommutative_def ranks)
qed

section \<open>Calls that settle\<close>

text \<open>With enough fuel the call returns, always the same, and what it returns satisfies \<open>Q\<close>.\<close>

definition settles :: "cache \<Rightarrow> (nat \<Rightarrow> fault + 'a \<times> cache) \<Rightarrow> ('a \<Rightarrow> cache \<Rightarrow> bool) \<Rightarrow> bool" where
  "settles c m Q \<longleftrightarrow> (\<exists>k r c'. (\<forall>fuel \<ge> k. m fuel = Inr (r, c')) \<and> store_ok c' \<and> extends c c' \<and> Q r c')"

lemma settles_at_once: "store_ok c' \<Longrightarrow> extends c c' \<Longrightarrow> Q r c' \<Longrightarrow> settles c (\<lambda>fuel. Inr (r, c')) Q"
  unfolding settles_def by blast

lemma settles_Suc:
  assumes "settles c (\<lambda>fuel. m (Suc fuel)) Q"
  shows "settles c m Q"
proof -
  from assms obtain k r c' where k: "\<forall>fuel \<ge> k. m (Suc fuel) = Inr (r, c')" "store_ok c'" "extends c c'" "Q r c'"
    unfolding settles_def by blast
  then have "\<forall>fuel \<ge> Suc k. m fuel = Inr (r, c')" by (metis Suc_le_D Suc_le_mono)
  with k show ?thesis unfolding settles_def by blast
qed

lemma settles_bind:
  assumes "settles c m Q"
    and "\<And>r c'. store_ok c' \<Longrightarrow> extends c c' \<Longrightarrow> Q r c' \<Longrightarrow> settles c' (\<lambda>fuel. f fuel r c') R"
  shows "settles c (\<lambda>fuel. bindE (m fuel) (\<lambda>(r, c). f fuel r c)) R"
proof -
  from assms(1) obtain k r c' where k: "\<forall>fuel \<ge> k. m fuel = Inr (r, c')" "store_ok c'" "extends c c'" "Q r c'"
    unfolding settles_def by blast
  from assms(2)[OF k(2-4)] obtain j s c'' where j: "\<forall>fuel \<ge> j. f fuel r c' = Inr (s, c'')" "store_ok c''" "extends c' c''" "R s c''"
    unfolding settles_def by blast
  have "\<forall>fuel \<ge> max j k. bindE (m fuel) (\<lambda>(r, c). f fuel r c) = Inr (s, c'')" using j(1) k(1) by simp
  with j extends_trans[OF k(3) j(3)] show ?thesis unfolding settles_def by blast
qed

lemma settles_mono: "settles c m Q \<Longrightarrow> (\<And>r c'. store_ok c' \<Longrightarrow> extends c c' \<Longrightarrow> Q r c' \<Longrightarrow> R r c') \<Longrightarrow> settles c m R"
  unfolding settles_def by blast

lemma settles_cong: "settles c m Q \<Longrightarrow> (\<And>fuel. m' fuel = m fuel) \<Longrightarrow> settles c m' Q"
  unfolding settles_def by simp

definition makes :: "cache \<Rightarrow> (nat \<Rightarrow> fault + nat \<times> cache) \<Rightarrow> expr \<Rightarrow> bool" where
  "makes c m e \<longleftrightarrow> settles c m (\<lambda>p c'. live c' p \<and> tree_of c' p = e)"

lemma not_all_constant:
  assumes "store_ok c" "live c a" "\<And>v. tree_of c a \<noteq> Constant v"
  shows "\<not> all_constant c a r"
proof -
  obtain n where n: "node_at c a = Some n" using assms(2) by (auto simp: live_def)
  with assms(3)[of "t_value n"] have "t_op n \<noteq> CONSTANT" by (auto simp: tree_of_node[OF assms(1) n])
  with n assms(2) show ?thesis by (simp add: all_constant_def child_def live_def constant_argument_def)
qed

lemma makes_lookup:
  assumes "store_ok c" "fresh_addresses alloc" "operates op" "args_ok c op a b" "\<not> all_constant c a b"
  shows "makes c (\<lambda>fuel. find_or_make lib alloc op a b c) (Apply op (tree_of c a) (tree_of c b))"
proof -
  from find_or_make_tree[OF assms(1-4), of lib] assms(5) obtain p c' where "find_or_make lib alloc op a b c = Inr (p, c')"
    "store_ok c'" "extends c c'" "live c' p" "tree_of c' p = Apply op (tree_of c a) (tree_of c b)" by auto
  then show ?thesis by (auto simp: makes_def intro: settles_at_once)
qed

lemma makes_extends:
  assumes "makes c' m e" "extends c c'"
  shows "makes c m e"
  using assms extends_trans unfolding makes_def settles_def by blast

lemma makes_sum:
  assumes ok: "store_ok c" and alloc: "fresh_addresses alloc" and op: "op = OP_ADD \<or> op = OP_SUB"
    and l: "live c a" "live c b" and plain: "plain_sum (tree_of c a)" "plain_sum (tree_of c b)"
    and apart: "\<And>t. is_summand (tree_of c a) t \<Longrightarrow> \<not> is_summand (tree_of c b) t"
    and nonzero: "\<not> zero_number (tree_of c a)" "\<not> zero_number (tree_of c b)" "applied OP_NEG (tree_of c b) = None"
    and calm: "\<And>opn. op = OP_ADD \<Longrightarrow> checkCommutative opn op a b c = Inr (0, c)"
    and var: "\<And>v. tree_of c a \<noteq> Constant v"
  shows "makes c (\<lambda>fuel. operation lib alloc fuel True op a b c) (Apply op (tree_of c a) (tree_of c b))"
proof -
  have o: "operates op" "args op = 2" "args_ok c op a b" using op l by (auto simp: operates_def args_def args_binary)
  have der: "deref_opt c a = Inr (child c a)" "deref_opt c b = Inr (child c b)" using l by (simp_all add: deref_opt_child)
  have id: "checkIdentity opn op a b c = Inr (0, c)" for opn
    using op nonzero zero_number_node[OF ok l(1)] zero_number_node[OF ok l(2)] negated_node[OF ok l(2)]
    by (auto simp: checkIdentity_def der)
  have com: "checkCommutative opn op a b c = Inr (0, c)" for opn
    using calm op by (auto simp: checkCommutative_def isCommutative_def)
  obtain na nb where na: "node_at c a = Some na" and nb: "node_at c b = Some nb" using l by (auto simp: live_def)
  from plain_sum_affine[OF alloc ok na lessI plain(1)] obtain m1 c1 where 1: "asAffine alloc (Suc (t_rank na)) a c = Inr (m1, c1)"
    "store_ok c1" "extends c c1" "\<forall>k \<in> fst ` set m1. live c1 k \<and> is_summand (tree_of c a) (tree_of c1 k)" by auto
  have b1: "node_at c1 b = Some nb" "tree_of c1 b = tree_of c b"
    using extends_node[OF 1(3) nb] tree_of_extends[OF ok 1(2,3) l(2)] by simp_all
  from plain_sum_affine[OF alloc 1(2) b1(1) lessI] b1(2) plain(2) obtain m2 c2 where 2: "asAffine alloc (Suc (t_rank nb)) b c1 = Inr (m2, c2)"
    "store_ok c2" "extends c1 c2" "\<forall>k \<in> fst ` set m2. live c2 k \<and> is_summand (tree_of c b) (tree_of c2 k)" by auto
  have "is_summand (tree_of c a) (tree_of c2 k)" if "k \<in> fst ` set m1" for k
    using that 1(4) tree_of_extends[OF 1(2) 2(2,3)] by auto
  then have "\<not> (\<exists>k \<in> set m2. map_of m1 (fst k) \<noteq> None)" using 2(4) apart by (auto simp: map_of_eq_None_iff)
  then have aff: "checkAffine alloc opn op a b c = Inr (0, c2)" for opn
    using op 1(1) 2(1) na b1(1) by (auto simp: checkAffine_def affine_of_def Let_def simp del: asAffine.simps)
  have ext: "extends c c2" using extends_trans[OF 1(3) 2(3)] .
  have t2: "tree_of c2 a = tree_of c a" "tree_of c2 b = tree_of c b"
    using tree_of_extends[OF ok 2(2) ext] l by simp_all
  have "operation lib alloc (Suc fuel) True op a b c = find_or_make lib alloc op a b c2" for fuel
    using o(1) by (simp add: operation.simps id com aff operates_def)
  moreover have "makes c2 (\<lambda>fuel. find_or_make lib alloc op a b c2) (Apply op (tree_of c2 a) (tree_of c2 b))"
    using var t2(1) by (intro makes_lookup[OF 2(2) alloc o(1) args_ok_extends[OF ext o(3)]]
        not_all_constant[OF 2(2) live_extends[OF ext l(1)]]) simp
  ultimately show ?thesis using makes_extends[OF _ ext] t2 unfolding makes_def
    by (intro settles_Suc[of c "\<lambda>fuel. operation lib alloc fuel True op a b c"]) simp
qed

lemma makes_tree:
  assumes "makes c (\<lambda>fuel. operation lib alloc fuel True op a b c) e" "args_ok c op a b" "op \<noteq> OP_POW" "op \<noteq> OP_NTH_ROOT"
  shows "makes c (\<lambda>fuel. Tree_operation lib alloc fuel op a b c) e"
proof -
  have "args op = 0 \<and> a = 0 \<and> b = 0 \<or> args op = 1 \<and> a \<noteq> 0 \<and> b = 0 \<or> args op = 2 \<and> a \<noteq> 0 \<and> b \<noteq> 0"
    using assms(2) by (auto simp: args_ok_def arity_ok_def split: if_splits)
  with assms(3,4) have "Tree_operation lib alloc fuel op a b c = operation lib alloc fuel True op a b c" for fuel
    by (auto simp: Tree_operation_def bindE_def split: sum.splits)
  with assms(1) show ?thesis unfolding makes_def by simp
qed

lemma makes_axis:
  assumes "store_ok c" "fresh_addresses alloc" "op = VAR_X \<or> op = VAR_Y \<or> op = VAR_Z"
  shows "makes c (\<lambda>fuel. Tree_operation lib alloc fuel op 0 0 c) (Apply op Null Null)"
proof (rule makes_tree)
  have "args_ok c op 0 0" "\<not> all_constant c 0 0" "operates op" "\<not> isCommutative op" "op \<noteq> OP_SUB"
    using assms(3) by (auto simp: args_leaf args_def all_constant_def operates_def isCommutative_def)
  moreover have "checkIdentity opn op 0 0 c = Inr (0, c)" for opn
    using assms(3) by (auto simp: checkIdentity_def deref_opt_def)
  ultimately show "makes c (\<lambda>fuel. operation lib alloc fuel True op 0 0 c) (Apply op Null Null)"
    using makes_lookup[OF assms(1,2), of op 0 0 lib] tree_of_0[OF assms(1)] operation_without_rewriting[of op lib alloc _ 0 0 c 0 True]
    unfolding makes_def by (intro settles_Suc[of c "\<lambda>fuel. operation lib alloc fuel True op 0 0 c"]) simp
  show "args_ok c op 0 0" by fact
qed (use assms(3) in auto)

lemma makes_square:
  assumes "store_ok c" "fresh_addresses alloc" "live c a" "\<And>v. tree_of c a \<noteq> Constant v"
  shows "makes c (\<lambda>fuel. square_tree lib alloc fuel a c) (Apply OP_SQUARE (tree_of c a) Null)"
  unfolding square_tree_def
proof (rule makes_tree)
  show args: "args_ok c OP_SQUARE a 0" using assms(3) by (simp add: args_unary args_def)
  have "deref_opt c a = Inr (child c a)" "deref_opt c 0 = Inr None"
    using assms(3) by (simp_all add: deref_opt_child child_def)
  then have "checkIdentity opn OP_SQUARE a 0 c = Inr (0, c)" for opn by (simp add: checkIdentity_def)
  then show "makes c (\<lambda>fuel. operation lib alloc fuel True OP_SQUARE a 0 c) (Apply OP_SQUARE (tree_of c a) Null)"
    using makes_lookup[OF assms(1,2) _ args not_all_constant[OF assms(1,3,4)], of lib] tree_of_0[OF assms(1)]
      operation_without_rewriting[of OP_SQUARE lib alloc _ a 0 c 0 True]
    unfolding makes_def by (intro settles_Suc[of c "\<lambda>fuel. operation lib alloc fuel True OP_SQUARE a 0 c"])
      (simp add: operates_def isCommutative_def)
qed simp_all

section \<open>The expression of a sphere\<close>

definition offset :: "expr \<Rightarrow> f32 \<Rightarrow> expr" where
  "offset e v = (if f32_eq v 0 then e else Apply OP_SUB e (Constant v))"

definition squared :: "expr \<Rightarrow> expr" where
  "squared e = Apply OP_SQUARE e Null"

definition added :: "expr \<Rightarrow> expr \<Rightarrow> expr" where
  "added a b = Apply OP_ADD a b"

text \<open>The store puts the shallowest of three summands last.\<close>

definition sum3 :: "expr \<Rightarrow> expr \<Rightarrow> expr \<Rightarrow> expr" where
  "sum3 a b c =
     (if depth c < depth a then added a (added b c)
      else if depth c < depth b then added b (added a c)
      else added (added a b) c)"

definition sphere_expr :: "coord \<Rightarrow> radius \<Rightarrow> expr" where
  "sphere_expr p r = offset (sum3
     (squared (offset (Apply VAR_X Null Null) (cx p)))
     (squared (offset (Apply VAR_Y Null Null) (cy p)))
     (squared (offset (Apply VAR_Z Null Null) (cz p)))) (magnitude r)"

lemma makes_minus_number:
  assumes ok: "store_ok c" and alloc: "fresh_addresses alloc" and a: "live c a"
    and e: "plain_sum (tree_of c a)" "\<And>w. \<not> is_summand (tree_of c a) (Constant w)" and v: "\<not> f32_isnan v"
  shows "makes c (\<lambda>fuel. minus_number lib alloc fuel a v c) (offset (tree_of c a) v)"
proof -
  obtain b c1 where b: "constant_node alloc v c = (b, c1)" by force
  obtain m where m: "store_ok c1" "extends c c1" "node_at c1 b = Some m" "t_op m = CONSTANT" "\<not> f32_isnan (t_value m)"
    "f32_key (t_value m) = f32_key v"
    using constant_node_ok[OF ok alloc b] v by auto
  have tb: "tree_of c1 b = Constant (t_value m)" "live c1 b" using m tree_of_node[OF m(1,3)] store_ok_live by auto
  have ta: "tree_of c1 a = tree_of c a" "live c1 a"
    using tree_of_extends[OF ok m(1,2) a] live_extends[OF m(2) a] by simp_all
  have var: "tree_of c a \<noteq> Constant w" for w using e(2)[of w] by auto
  then have nonzero: "\<not> zero_number (tree_of c a)" by (cases "tree_of c a") auto
  have args: "args_ok c1 OP_SUB a b" using ta(2) tb(2) by (simp add: args_binary args_def)
  have "makes c1 (\<lambda>fuel. operation lib alloc fuel True OP_SUB a b c1) (offset (tree_of c a) v)"
  proof (cases "f32_eq v 0")
    case True
    then have "zero_number (tree_of c1 b)" using tb m by (simp add: f32_eq_def)
    then have "checkIdentity opn OP_SUB a b c1 = Inr (a, c1)" for opn
      using zero_number_node[OF m(1) ta(2)] zero_number_node[OF m(1) tb(2)] nonzero ta tb(2)
      by (simp add: checkIdentity_def deref_opt_child)
    moreover have "a \<noteq> 0" using a by (simp add: live_def)
    ultimately have "operation lib alloc (Suc fuel) True OP_SUB a b c1 = Inr (a, c1)" for fuel
      by (simp add: operation.simps)
    with True ta m(1) show ?thesis unfolding makes_def
      by (intro settles_Suc[of c1 "\<lambda>fuel. operation lib alloc fuel True OP_SUB a b c1"])
        (auto simp: offset_def intro: settles_at_once)
  next
    case False
    then have "f32_key v \<noteq> 0" using v by (simp add: f32_eq_def keys nan_simps)
    then have "t_value m = v" using f32_key_inj m(6) by metis
    with tb(1) have tb': "tree_of c1 b = Constant v" by simp
    have "makes c1 (\<lambda>fuel. operation lib alloc fuel True OP_SUB a b c1) (Apply OP_SUB (tree_of c1 a) (tree_of c1 b))"
      using e nonzero False var ta tb tb' by (intro makes_sum[OF m(1) alloc]) auto
    with ta(1) tb' False show ?thesis by (simp add: offset_def)
  qed
  from makes_extends[OF makes_tree[OF this args] m(2)] b show ?thesis
    by (simp add: minus_number_def minus_tree_def Tree_constant_def)
qed

lemma makes_two_squares:
  assumes "store_ok c" "fresh_addresses alloc" "live c a" "live c b" "tree_of c a = squared x" "tree_of c b = squared y" "x \<noteq> y"
  shows "makes c (\<lambda>fuel. operation lib alloc fuel True OP_ADD a b c) (added (squared x) (squared y))"
proof -
  have "checkCommutative opn OP_ADD a b c = Inr (0, c)" for opn
    using assms by (intro commutative_calm) (simp_all add: isCommutative_def squared_def)
  with assms makes_sum[of c alloc OP_ADD a b lib] show ?thesis by (simp add: squared_def added_def)
qed

lemma makes_square_and_sum:
  assumes "store_ok c" "fresh_addresses alloc" "live c a" "live c b" "tree_of c a = squared x"
    "tree_of c b = added (squared y) (squared z)" "x \<noteq> y" "x \<noteq> z"
    "depth (squared y) \<le> depth (squared x)" "depth (squared z) \<le> depth (squared x)"
  shows "makes c (\<lambda>fuel. operation lib alloc fuel True OP_ADD a b c) (added (squared x) (added (squared y) (squared z)))"
proof -
  have "checkCommutative opn OP_ADD a b c = Inr (0, c)" for opn
    using assms by (intro commutative_calm) (auto simp add: isCommutative_def squared_def added_def)
  with assms makes_sum[of c alloc OP_ADD a b lib] show ?thesis by (simp add: squared_def added_def)
qed

lemma makes_three_squares:
  assumes ok: "store_ok c" and alloc: "fresh_addresses alloc" and l: "live c a" "live c b"
    and a: "tree_of c a = added (squared x) (squared y)" and b: "tree_of c b = squared z"
    and xyz: "x \<noteq> y" "x \<noteq> z" "y \<noteq> z"
    and depth: "depth (squared x) \<le> Suc (depth (squared z))" "depth (squared y) \<le> Suc (depth (squared z))"
  shows "makes c (\<lambda>fuel. operation lib alloc fuel True OP_ADD a b c) (sum3 (squared x) (squared y) (squared z))"
proof -
  have op: "isCommutative OP_ADD" "operates OP_ADD" by (simp_all add: isCommutative_def operates_def)
  have "applied OP_ADD (tree_of c a) = Some (squared x, squared y)" by (simp add: a added_def)
  from commutative_left[OF ok l op(1) this] obtain p q where pq: "live c p" "live c q" "tree_of c p = squared x" "tree_of c q = squared y"
    and eq: "\<And>opn. checkCommutative opn OP_ADD a b c =
      (if depth (squared z) < depth (squared x) then bindE (opn OP_ADD q b c) (\<lambda>(r, c). opn OP_ADD p r c)
       else if depth (squared z) < depth (squared y) then bindE (opn OP_ADD p b c) (\<lambda>(r, c). opn OP_ADD q r c)
       else Inr (0, c))"
    unfolding b by blast
  have id: "checkIdentity opn OP_ADD a b c = Inr (0, c)" for opn
    using zero_number_node[OF ok l(1)] zero_number_node[OF ok l(2)] negated_node[OF ok l(2)] a b l
    by (simp add: checkIdentity_def deref_opt_child added_def squared_def)
  have rotated: "makes c (\<lambda>fuel. operation lib alloc fuel True OP_ADD a b c) (added (squared u) (added (squared v) (squared z)))"
    if "\<And>opn. checkCommutative opn OP_ADD a b c = bindE (opn OP_ADD n b c) (\<lambda>(r, c). opn OP_ADD m r c)"
      "live c m" "live c n" "tree_of c m = squared u" "tree_of c n = squared v" "u \<noteq> v" "u \<noteq> z" "v \<noteq> z"
      "depth (squared v) \<le> depth (squared u)" "depth (squared z) \<le> depth (squared u)" for m n u v
  proof -
    let ?opn = "\<lambda>fuel. operation lib alloc fuel True"
    have "makes c (\<lambda>fuel. bindE (?opn fuel OP_ADD n b c) (\<lambda>(r, c). ?opn fuel OP_ADD m r c))
        (added (squared u) (added (squared v) (squared z)))"
      unfolding makes_def
    proof (rule settles_bind[OF makes_two_squares[OF ok alloc that(3) l(2) that(5) b that(8), unfolded makes_def]])
      fix r c1 assume c1: "store_ok c1" "extends c c1" "live c1 r \<and> tree_of c1 r = added (squared v) (squared z)"
      have "tree_of c1 m = squared u" "live c1 m"
        using tree_of_extends[OF ok c1(1,2) that(2)] that(2,4) live_extends[OF c1(2)] by simp_all
      then show "settles c1 (\<lambda>fuel. ?opn fuel OP_ADD m r c1) (\<lambda>p c'. live c' p \<and> tree_of c' p = added (squared u) (added (squared v) (squared z)))"
        using c1 that by (intro makes_square_and_sum[OF c1(1) alloc, unfolded makes_def]) auto
    qed
    then have "makes c (\<lambda>fuel. ?opn (Suc fuel) OP_ADD a b c) (added (squared u) (added (squared v) (squared z)))"
    proof (unfold makes_def settles_def, elim exE conjE)
      fix k r c' assume r: "\<forall>fuel \<ge> k. bindE (?opn fuel OP_ADD n b c) (\<lambda>(r, c). ?opn fuel OP_ADD m r c) = Inr (r, c')"
        "store_ok c'" "extends c c'" "live c' r" "tree_of c' r = added (squared u) (added (squared v) (squared z))"
      then have "r \<noteq> 0" by (simp add: live_def)
      with r(1) have "\<forall>fuel \<ge> k. ?opn (Suc fuel) OP_ADD a b c = Inr (r, c')"
        by (simp add: operation.simps id that(1) Let_def)
      with r show "\<exists>k r c'. (\<forall>fuel \<ge> k. ?opn (Suc fuel) OP_ADD a b c = Inr (r, c')) \<and> store_ok c' \<and> extends c c'
        \<and> live c' r \<and> tree_of c' r = added (squared u) (added (squared v) (squared z))" by blast
    qed
    then show ?thesis unfolding makes_def by (rule settles_Suc)
  qed
  show ?thesis
  proof (cases "depth (squared z) < depth (squared x)")
    case True
    then show ?thesis using pq xyz depth eq by (simp add: sum3_def rotated[of q p])
  next
    case False
    show ?thesis
    proof (cases "depth (squared z) < depth (squared y)")
      case True
      then show ?thesis using False pq xyz depth eq by (simp add: sum3_def rotated[of p q])
    next
      case other: False
      have "makes c (\<lambda>fuel. operation lib alloc fuel True OP_ADD a b c) (Apply OP_ADD (tree_of c a) (tree_of c b))"
        using False other eq xyz l by (intro makes_sum[OF ok alloc]) (auto simp: a b added_def squared_def)
      then show ?thesis using False other a b by (simp add: sum3_def added_def)
    qed
  qed
qed

definition holds :: "cache \<Rightarrow> nat \<Rightarrow> expr \<Rightarrow> bool" where
  "holds c p e \<longleftrightarrow> live c p \<and> tree_of c p = e"

lemma holds_extends: "store_ok c \<Longrightarrow> store_ok c' \<Longrightarrow> extends c c' \<Longrightarrow> holds c p e \<Longrightarrow> holds c' p e"
  using tree_of_extends live_extends by (auto simp: holds_def)

lemma makes_bind:
  assumes "store_ok c" "makes c m e"
    and "\<And>p c'. store_ok c' \<Longrightarrow> holds c' p e \<Longrightarrow> (\<And>q e'. holds c q e' \<Longrightarrow> holds c' q e') \<Longrightarrow> makes c' (\<lambda>fuel. f fuel p c') e'"
  shows "makes c (\<lambda>fuel. bindE (m fuel) (\<lambda>(p, c). f fuel p c)) e'"
  unfolding makes_def
proof (rule settles_bind[OF assms(2)[unfolded makes_def]])
  fix p c' assume c': "store_ok c'" "extends c c'" "live c' p \<and> tree_of c' p = e"
  then show "settles c' (\<lambda>fuel. f fuel p c') (\<lambda>p c'. live c' p \<and> tree_of c' p = e')"
    using assms(3)[of c' p] holds_extends[OF assms(1) c'(1,2)] by (simp add: holds_def makes_def)
qed

definition axis :: "expr \<Rightarrow> bool" where
  "axis e \<longleftrightarrow> (\<exists>op \<in> {VAR_X, VAR_Y, VAR_Z}. e = Apply op Null Null)"

lemma makes_square_distance:
  assumes ok: "store_ok c" and alloc: "fresh_addresses alloc" and a: "holds c a e" "axis e" and v: "\<not> f32_isnan v"
  shows "makes c (\<lambda>fuel. square_distance lib alloc fuel a v c) (squared (offset e v))"
  unfolding square_distance_def
proof (rule makes_bind[OF ok])
  have "plain_sum e" "\<not> is_summand e (Constant w)" for w using a(2) by (auto simp: axis_def)
  then show "makes c (\<lambda>fuel. minus_number lib alloc fuel a v c) (offset e v)"
    using a(1) makes_minus_number[OF ok alloc, of a v lib] v by (simp add: holds_def)
next
  fix d c' assume c': "store_ok c'" "holds c' d (offset e v)"
  then show "makes c' (\<lambda>fuel. square_tree lib alloc fuel d c') (squared (offset e v))"
    using makes_square[OF c'(1) alloc, of d lib] a(2) by (auto simp: holds_def squared_def offset_def axis_def split: if_splits)
qed

lemma makes_plus:
  assumes "makes c (\<lambda>fuel. operation lib alloc fuel True OP_ADD a b c) e" "live c a" "live c b"
  shows "makes c (\<lambda>fuel. plus_tree lib alloc fuel a b c) e"
  unfolding plus_tree_def using assms by (intro makes_tree) (simp_all add: args_binary args_def)

definition coord_numbers :: "coord \<Rightarrow> radius \<Rightarrow> bool" where
  "coord_numbers p r \<longleftrightarrow> \<not> f32_isnan (cx p) \<and> \<not> f32_isnan (cy p) \<and> \<not> f32_isnan (cz p) \<and> \<not> f32_isnan (magnitude r)"

lemma shallow_offset: "axis e \<Longrightarrow> axis e' \<Longrightarrow> depth (squared (offset e v)) \<le> Suc (depth (squared (offset e' v')))"
  by (auto simp: axis_def squared_def offset_def)

lemma makes_sphere_sum:
  assumes c: "store_ok c" and alloc: "fresh_addresses alloc" and axis: "axis ex" "axis ey" "axis ez" "ex \<noteq> ey" "ex \<noteq> ez" "ey \<noteq> ez"
    and h: "holds c sx (squared (offset ex vx))" "holds c sy (squared (offset ey vy))" "holds c z ez"
    and v: "\<not> f32_isnan vz" "\<not> f32_isnan m"
  shows "makes c (\<lambda>fuel. bindE (plus_tree lib alloc fuel sx sy c) (\<lambda>(sxy, c).
     bindE (square_distance lib alloc fuel z vz c) (\<lambda>(sz, c).
     bindE (plus_tree lib alloc fuel sxy sz c) (\<lambda>(s, c). minus_number lib alloc fuel s m c))))
     (offset (sum3 (squared (offset ex vx)) (squared (offset ey vy)) (squared (offset ez vz))) m)"
    (is "makes c _ (offset ?sum m)")
proof (rule makes_bind[OF c])
  have differ: "offset ex vx \<noteq> offset ey vy" "offset ex vx \<noteq> offset ez vz" "offset ey vy \<noteq> offset ez vz"
    using axis by (auto simp: offset_def axis_def)
  have sum: "plain_sum ?sum" "\<not> is_summand ?sum (Constant w)" for w by (auto simp: sum3_def added_def squared_def)
  show "makes c (\<lambda>fuel. plus_tree lib alloc fuel sx sy c) (added (squared (offset ex vx)) (squared (offset ey vy)))"
    using h differ by (intro makes_plus makes_two_squares[OF c alloc]) (simp_all add: holds_def)
  fix sxy c1 assume 1: "store_ok c1" "holds c1 sxy (added (squared (offset ex vx)) (squared (offset ey vy)))"
    "\<And>q e. holds c q e \<Longrightarrow> holds c1 q e"
  show "makes c1 (\<lambda>fuel. bindE (square_distance lib alloc fuel z vz c1) (\<lambda>(sz, c).
      bindE (plus_tree lib alloc fuel sxy sz c) (\<lambda>(s, c). minus_number lib alloc fuel s m c))) (offset ?sum m)"
  proof (rule makes_bind[OF 1(1) makes_square_distance[OF 1(1) alloc 1(3)[OF h(3)] axis(3) v(1)]])
    fix sz c2 assume 2: "store_ok c2" "holds c2 sz (squared (offset ez vz))" "\<And>q e. holds c1 q e \<Longrightarrow> holds c2 q e"
    show "makes c2 (\<lambda>fuel. bindE (plus_tree lib alloc fuel sxy sz c2) (\<lambda>(s, c). minus_number lib alloc fuel s m c)) (offset ?sum m)"
    proof (rule makes_bind[OF 2(1)])
      show "makes c2 (\<lambda>fuel. plus_tree lib alloc fuel sxy sz c2) ?sum"
        using 2(2) 2(3)[OF 1(2)] differ shallow_offset axis
        by (intro makes_plus makes_three_squares[OF 2(1) alloc]) (auto simp: holds_def)
    next
      fix s c3 assume "store_ok c3" "holds c3 s ?sum"
      then show "makes c3 (\<lambda>fuel. minus_number lib alloc fuel s m c3) (offset ?sum m)"
        using makes_minus_number[of c3 alloc s m lib] alloc sum v(2) by (simp add: holds_def)
    qed
  qed
qed

lemma makes_sphere_squares:
  assumes c: "store_ok c" and alloc: "fresh_addresses alloc" and num: "coord_numbers p r"
    and h: "holds c x (Apply VAR_X Null Null)" "holds c y (Apply VAR_Y Null Null)" "holds c z (Apply VAR_Z Null Null)"
  shows "makes c (\<lambda>fuel. bindE (square_distance lib alloc fuel x (cx p) c) (\<lambda>(sx, c).
     bindE (square_distance lib alloc fuel y (cy p) c) (\<lambda>(sy, c).
     bindE (plus_tree lib alloc fuel sx sy c) (\<lambda>(sxy, c).
     bindE (square_distance lib alloc fuel z (cz p) c) (\<lambda>(sz, c).
     bindE (plus_tree lib alloc fuel sxy sz c) (\<lambda>(s, c). minus_number lib alloc fuel s (magnitude r) c)))))) (sphere_expr p r)"
proof -
  have axis: "axis (Apply VAR_X Null Null)" "axis (Apply VAR_Y Null Null)" "axis (Apply VAR_Z Null Null)" by (simp_all add: axis_def)
  have v: "\<not> f32_isnan (cx p)" "\<not> f32_isnan (cy p)" "\<not> f32_isnan (cz p)" "\<not> f32_isnan (magnitude r)"
    using num by (simp_all add: coord_numbers_def)
  note dist = makes_square_distance[where lib=lib, OF _ alloc]
  show ?thesis unfolding sphere_expr_def
  proof (rule makes_bind[OF c dist[OF c h(1) axis(1) v(1)]])
    fix sx c1 assume 1: "store_ok c1" "holds c1 sx (squared (offset (Apply VAR_X Null Null) (cx p)))" "\<And>q e. holds c q e \<Longrightarrow> holds c1 q e"
    show "makes c1 (\<lambda>fuel. bindE (square_distance lib alloc fuel y (cy p) c1) (\<lambda>(sy, c).
     bindE (plus_tree lib alloc fuel sx sy c) (\<lambda>(sxy, c).
     bindE (square_distance lib alloc fuel z (cz p) c) (\<lambda>(sz, c).
     bindE (plus_tree lib alloc fuel sxy sz c) (\<lambda>(s, c). minus_number lib alloc fuel s (magnitude r) c)))))
     (offset (sum3 (squared (offset (Apply VAR_X Null Null) (cx p))) (squared (offset (Apply VAR_Y Null Null) (cy p)))
       (squared (offset (Apply VAR_Z Null Null) (cz p)))) (magnitude r))"
      using 1 h axis v by (intro makes_bind[OF 1(1) dist[OF 1(1) 1(3)[OF h(2)] axis(2) v(2)]] makes_sphere_sum alloc) simp_all
  qed
qed

lemma makes_sphere:
  assumes ok: "store_ok c" and alloc: "fresh_addresses alloc" and num: "coord_numbers p r"
  shows "makes c (\<lambda>fuel. sphere_tree lib alloc fuel p r c) (sphere_expr p r)"
  unfolding sphere_tree_def
  apply (rule makes_bind[OF ok makes_axis[OF ok alloc]], simp)
  subgoal premises x for x c1
    apply (rule makes_bind[OF x(1) makes_axis[OF x(1) alloc]], simp)
    subgoal premises y for y c2
      apply (rule makes_bind[OF y(1) makes_axis[OF y(1) alloc]], simp)
      subgoal premises z for z c3
        using x y z by (intro makes_sphere_squares[OF z(1) alloc num]) simp_all
      done
    done
  done

section \<open>The solid a document stands for\<close>

definition far :: "f32 \<Rightarrow> f32 \<Rightarrow> f32" where
  "far x v = (if f32_eq v 0 then x else f32_sub x v)"

definition sphere_value :: "f32 \<Rightarrow> f32 \<Rightarrow> f32 \<Rightarrow> coord \<Rightarrow> radius \<Rightarrow> f32" where
  "sphere_value x y z p r =
     (let sq = (\<lambda>d. f32_mul d d);
          a = sq (far x (cx p)); b = sq (far y (cy p)); c = sq (far z (cz p));
          flat = (\<lambda>v. f32_eq v 0);
          s = (if flat (cz p) \<and> \<not> flat (cx p) then f32_add a (f32_add b c)
               else if flat (cz p) \<and> \<not> flat (cy p) then f32_add b (f32_add a c)
               else f32_add (f32_add a b) c)
      in far s (magnitude r))"

text \<open>The place, in the order of the numbers, of what a solid says of a point: negative inside.\<close>

definition best :: "(int \<Rightarrow> int \<Rightarrow> int) \<Rightarrow> int list \<Rightarrow> int option" where
  "best f ks = (case ks of [] \<Rightarrow> None | k # ks \<Rightarrow> Some (foldl f k ks))"

fun solid_key :: "heap \<Rightarrow> f32 \<Rightarrow> f32 \<Rightarrow> f32 \<Rightarrow> tree \<Rightarrow> int option"
  and solid_keys :: "heap \<Rightarrow> f32 \<Rightarrow> f32 \<Rightarrow> f32 \<Rightarrow> tree list \<Rightarrow> int list" where
  "solid_key h x y z (Tree a ts) =
     (case h a of
        None \<Rightarrow> None
      | Some (Sphere uid p r) \<Rightarrow> Some (f32_key (sphere_value x y z p r))
      | Some (SetOp uid t) \<Rightarrow> best (if t = Union_op then min else max) (solid_keys h x y z ts))"
| "solid_keys h x y z [] = []"
| "solid_keys h x y z (t # ts) =
     (case solid_key h x y z t of None \<Rightarrow> solid_keys h x y z ts | Some k \<Rightarrow> k # solid_keys h x y z ts)"

fun spheres :: "heap \<Rightarrow> tree \<Rightarrow> (coord \<times> radius) list"
  and all_spheres :: "heap \<Rightarrow> tree list \<Rightarrow> (coord \<times> radius) list" where
  "spheres h (Tree a ts) =
     (case h a of None \<Rightarrow> [] | Some (Sphere uid p r) \<Rightarrow> [(p, r)] | Some (SetOp uid t) \<Rightarrow> all_spheres h ts)"
| "all_spheres h [] = []"
| "all_spheres h (t # ts) = spheres h t @ all_spheres h ts"

lemma sphere_value_expr: "eval_expr lib env (sphere_expr p r) = sphere_value (e_x env) (e_y env) (e_z env) p r"
proof -
  have off: "eval_expr lib env (offset e v) = far (eval_expr lib env e) v" for e v
    by (simp add: offset_def far_def apply_clause_def clause_value_def)
  have sum: "eval_expr lib env (added a b) = f32_add (eval_expr lib env a) (eval_expr lib env b)"
    "eval_expr lib env (squared a) = f32_mul (eval_expr lib env a) (eval_expr lib env a)" for a b
    by (simp_all add: added_def squared_def apply_clause_def clause_value_def)
  have deep: "depth (squared (offset (Apply op Null Null) v)) = (if f32_eq v 0 then 1 else 2)" for op v
    by (simp add: squared_def offset_def)
  show ?thesis by (simp add: sphere_expr_def off sum3_def deep sum sphere_value_def Let_def if_distrib[where f="eval_expr lib env"])
qed

text \<open>In sums, differences and squares a NaN goes all the way up.\<close>

fun arithmetic :: "expr \<Rightarrow> bool" where
  "arithmetic (Apply op l r) \<longleftrightarrow>
     (op = OP_ADD \<or> op = OP_SUB) \<and> arithmetic l \<and> arithmetic r \<or> op = OP_SQUARE \<and> arithmetic l \<and> r = Null
     \<or> (op = VAR_X \<or> op = VAR_Y \<or> op = VAR_Z) \<and> l = Null \<and> r = Null"
| "arithmetic (Constant v) \<longleftrightarrow> True"
| "arithmetic _ \<longleftrightarrow> False"

lemma arithmetic_numbers: "arithmetic e \<Longrightarrow> \<not> f32_isnan (eval_expr lib env e) \<Longrightarrow> numbers lib env e"
proof (induction e)
  case (Apply op l r)
  then show ?case
    by (auto simp: apply_clause_def clause_value_def add_nan sub_nan mul_nan nan_simps)
qed auto

lemma sphere_numbers:
  assumes "\<not> f32_isnan (sphere_value (e_x env) (e_y env) (e_z env) p r)"
  shows "numbers lib env (sphere_expr p r)"
proof (rule arithmetic_numbers)
  show "arithmetic (sphere_expr p r)"
    by (simp add: sphere_expr_def offset_def sum3_def squared_def added_def)
  show "\<not> f32_isnan (eval_expr lib env (sphere_expr p r))" using assms by (simp add: sphere_value_expr)
qed

definition keyed :: "libm \<Rightarrow> env \<Rightarrow> cache \<Rightarrow> nat \<Rightarrow> int \<Rightarrow> bool" where
  "keyed lib env c p k \<longleftrightarrow> live c p \<and> numeric lib env c p \<and> key_of lib env c p = k"

lemma keyed_extends: "store_ok c \<Longrightarrow> store_ok c' \<Longrightarrow> extends c c' \<Longrightarrow> keyed lib env c p k \<Longrightarrow> keyed lib env c' p k"
  using numeric_extends live_extends by (auto simp: keyed_def)

definition lattice :: "libm \<Rightarrow> opcode \<Rightarrow> (int \<Rightarrow> int \<Rightarrow> int) \<Rightarrow> bool" where
  "lattice lib op f \<longleftrightarrow> (op = OP_MIN \<or> op = OP_MAX) \<and> lattice_clause lib op f
     \<and> (\<forall>a b c. f (f a b) c = f a (f b c)) \<and> (\<forall>a b. f a b = f b a) \<and> (\<forall>a. f a a = a)"

lemma combined_key:
  assumes ok: "store_ok c" and alloc: "fresh_addresses alloc" and f: "lattice lib op f"
    and l: "keyed lib env c a j" "keyed lib env c b k"
  shows "settles c (\<lambda>fuel. Tree_operation lib alloc fuel op a b c) (\<lambda>p c'. keyed lib env c' p (f j k))"
proof -
  have op: "op = OP_MIN \<or> op = OP_MAX" and live: "live c a" "live c b" using f l by (simp_all add: lattice_def keyed_def)
  then have "op = OP_MUL \<or> op = OP_MIN \<or> op = OP_MAX" by blast
  from rearranged_returns[OF alloc this ok live, of lib] obtain p c' n where
    r: "\<forall>fuel \<ge> n. operation lib alloc fuel True op a b c = Inr (p, c')" and b: "store_ok c'" "extends c c'" "live c' p"
    by (auto simp: returns_def bounded_def)
  have "numeric lib env c' p \<and> key_of lib env c' p = f (key_of lib env c a) (key_of lib env c b)"
    using f l by (intro lattice_value[OF alloc op _ _ _ _ ok live, of lib f env n]) (auto simp: lattice_def keyed_def r)
  then have "keyed lib env c' p (f j k)" using b(3) l by (simp add: keyed_def)
  moreover have "Tree_operation lib alloc fuel op a b c = Inr (p, c')" if "n \<le> fuel" for fuel
    using r that op live by (auto simp: Tree_operation_def args_def live_def)
  ultimately show ?thesis using b unfolding settles_def by blast
qed

lemma folded_key:
  assumes alloc: "fresh_addresses alloc" and f: "lattice lib op f"
  shows "store_ok c \<Longrightarrow> keyed lib env c t k \<Longrightarrow> list_all2 (keyed lib env c) us ks \<Longrightarrow>
    settles c (\<lambda>fuel. foldE (\<lambda>(acc, c) elem. Tree_operation lib alloc fuel op acc elem c) (t, c) us)
      (\<lambda>p c'. keyed lib env c' p (foldl f k ks))"
proof (induction us arbitrary: t k c ks)
  case Nil
  then show ?case by (auto intro: settles_at_once)
next
  case (Cons u us)
  then obtain j js where ks: "ks = j # js" "keyed lib env c u j" "list_all2 (keyed lib env c) us js"
    by (auto simp: list_all2_Cons1)
  have "settles c (\<lambda>fuel. bindE (Tree_operation lib alloc fuel op t u c) (\<lambda>(t, c).
      foldE (\<lambda>(acc, c) elem. Tree_operation lib alloc fuel op acc elem c) (t, c) us)) (\<lambda>p c'. keyed lib env c' p (foldl f (f k j) js))"
  proof (rule settles_bind[OF combined_key[OF Cons.prems(1) alloc f Cons.prems(2) ks(2)]])
    fix p c' assume c': "store_ok c'" "extends c c'" "keyed lib env c' p (f k j)"
    have "list_all2 (keyed lib env c') us js"
      using ks(3) keyed_extends[OF Cons.prems(1) c'(1,2)] by (rule list_all2_mono)
    with Cons.IH c' show "settles c' (\<lambda>fuel. foldE (\<lambda>(acc, c) elem. Tree_operation lib alloc fuel op acc elem c) (p, c') us)
        (\<lambda>p c'. keyed lib env c' p (foldl f (f k j) js))" by blast
  qed
  then show ?case by (simp add: ks(1) case_prod_beta')
qed

definition shaped :: "libm \<Rightarrow> env \<Rightarrow> int option \<Rightarrow> nat option \<Rightarrow> cache \<Rightarrow> bool" where
  "shaped lib env k s c \<longleftrightarrow> (case s of None \<Rightarrow> k = None | Some p \<Rightarrow> \<exists>j. k = Some j \<and> keyed lib env c p j)"

lemma aggregated_key:
  assumes "fresh_addresses alloc" "lattice lib op f" "store_ok c" "list_all2 (keyed lib env c) ts ks"
  shows "settles c (\<lambda>fuel. aggregateOf ts (Tree_operation lib alloc fuel op) c) (shaped lib env (best f ks))"
proof (cases ts)
  case Nil
  with assms(3,4) show ?thesis by (auto simp: aggregateOf_def best_def shaped_def intro: settles_at_once)
next
  case (Cons t us)
  then obtain k js where ks: "ks = k # js" "keyed lib env c t k" "list_all2 (keyed lib env c) us js"
    using assms(4) by (auto simp: list_all2_Cons1)
  have "settles c (\<lambda>fuel. bindE (foldE (\<lambda>(acc, c) elem. Tree_operation lib alloc fuel op acc elem c) (t, c) us)
      (\<lambda>(t, c). Inr (Some t, c))) (shaped lib env (best f ks))"
    by (rule settles_bind[OF folded_key[OF assms(1-3) ks(2,3)]]) (simp add: settles_at_once shaped_def best_def ks(1))
  moreover have "aggregateOf ts g c = bindE (foldE (\<lambda>(acc, c) elem. g acc elem c) (t, c) us) (\<lambda>(t, c). Inr (Some t, c))" for g
    by (cases us) (simp_all add: aggregateOf_def Cons)
  ultimately show ?thesis by simp
qed

section \<open>A document and its solid\<close>

definition spheres_ok :: "env \<Rightarrow> (coord \<times> radius) list \<Rightarrow> bool" where
  "spheres_ok env ss \<longleftrightarrow> (\<forall>(p, r) \<in> set ss. coord_numbers p r \<and> \<not> f32_isnan (sphere_value (e_x env) (e_y env) (e_z env) p r))"

lemma tree_shaped:
  assumes alloc: "fresh_addresses alloc" and lib: "lattice lib OP_MIN min" "lattice lib OP_MAX max"
  shows "x = e_x env \<Longrightarrow> y = e_y env \<Longrightarrow> z = e_z env \<Longrightarrow> store_ok c \<Longrightarrow> spheres_ok env (spheres h t) \<Longrightarrow>
      settles c (\<lambda>fuel. l5TreeFromTree lib alloc fuel h t c) (shaped lib env (solid_key h x y z t))"
    and "x = e_x env \<Longrightarrow> y = e_y env \<Longrightarrow> z = e_z env \<Longrightarrow> store_ok c \<Longrightarrow> spheres_ok env (all_spheres h ts) \<Longrightarrow>
      settles c (\<lambda>fuel. l5TreesFromTrees lib alloc fuel h ts c) (\<lambda>us c'. list_all2 (keyed lib env c') us (solid_keys h x y z ts))"
proof (induction h x y z t and h x y z ts arbitrary: c and c rule: solid_key_solid_keys.induct)
  case (1 h x y z a ts)
  show ?case
  proof (cases "h a")
    case None
    with 1 show ?thesis by (auto simp: shaped_def intro: settles_at_once)
  next
    case (Some n)
    show ?thesis
    proof (cases n)
      case (Sphere uid p r)
      have num: "coord_numbers p r" "numbers lib env (sphere_expr p r)"
        using 1(6) Some Sphere sphere_numbers by (auto simp: spheres_ok_def)
      have "settles c (\<lambda>fuel. bindE (sphere_tree lib alloc fuel p r c) (\<lambda>(t, c). Inr (Some t, c)))
          (shaped lib env (Some (f32_key (sphere_value x y z p r))))"
        using num(2) by (intro settles_bind[OF makes_sphere[OF 1(5) alloc num(1), unfolded makes_def]])
          (auto simp: shaped_def keyed_def numeric_def key_of_def sphere_value_expr 1(2-4) intro!: settles_at_once)
      then show ?thesis by (simp add: Some Sphere)
    next
      case (SetOp uid type)
      let ?op = "if type = Union_op then OP_MIN else OP_MAX" and ?f = "if type = Union_op then min else max"
      have "settles c (\<lambda>fuel. bindE (l5TreesFromTrees lib alloc fuel h ts c)
          (\<lambda>(us, c). aggregateOf us (Tree_operation lib alloc fuel ?op) c)) (shaped lib env (best ?f (solid_keys h x y z ts)))"
      proof (rule settles_bind[OF 1(1)[OF Some SetOp 1(2-5)]])
        show "spheres_ok env (all_spheres h ts)" using 1(6) Some SetOp by simp
        fix us c' assume "store_ok c'" "list_all2 (keyed lib env c') us (solid_keys h x y z ts)"
        then show "settles c' (\<lambda>fuel. aggregateOf us (Tree_operation lib alloc fuel ?op) c') (shaped lib env (best ?f (solid_keys h x y z ts)))"
          using aggregated_key[OF alloc _ _ , of lib ?op ?f c' env us] lib by simp
      qed
      moreover have "min_tree lib alloc fuel = Tree_operation lib alloc fuel OP_MIN"
        "max_tree lib alloc fuel = Tree_operation lib alloc fuel OP_MAX" for fuel
        by (simp_all add: fun_eq_iff min_tree_def max_tree_def)
      ultimately show ?thesis by (cases type) (simp_all add: Some SetOp)
    qed
  qed
next
  case (2 h x y z)
  then show ?case by (auto intro: settles_at_once)
next
  case (3 h x y z t ts)
  have ok: "spheres_ok env (spheres h t)" "spheres_ok env (all_spheres h ts)" using 3(8) by (auto simp: spheres_ok_def)
  show ?case unfolding l5TreesFromTrees.simps
  proof (rule settles_bind[OF 3(1)[OF 3(4-7) ok(1)]])
    fix s c1 assume 1: "store_ok c1" "extends c c1" "shaped lib env (solid_key h x y z t) s c1"
    have ih: "settles c1 (\<lambda>fuel. l5TreesFromTrees lib alloc fuel h ts c1) (\<lambda>us c'. list_all2 (keyed lib env c') us (solid_keys h x y z ts))"
      using 3(2,3) 3(4-6) 1(1) ok(2) by (cases "solid_key h x y z t") (auto simp: shaped_def)
    show "settles c1 (\<lambda>fuel. bindE (l5TreesFromTrees lib alloc fuel h ts c1) (\<lambda>(out, c).
        Inr (case s of None \<Rightarrow> out | Some u \<Rightarrow> u # out, c))) (\<lambda>us c'. list_all2 (keyed lib env c') us (solid_keys h x y z (t # ts)))"
      using 1(3) keyed_extends[OF 1(1)]
      by (intro settles_bind[OF ih]) (auto simp: shaped_def split: option.splits intro!: settles_at_once)
  qed
qed

text \<open>C3: The expression that the mesh factory makes of a document is the solid the document stands
  for: the factory returns, it makes no expression exactly when the document shows no sphere, and
  otherwise the value of the expression at a point is, as a number, the least over the trees, for a
  union the least and for an intersection the greatest over the parts, and for a sphere the sum of
  the squared distances less the radius (the radius itself, not its square), each step rounded. No
  value of a sphere at the point may be a NaN.\<close>

theorem forest_shape_is_solid:
  assumes "fresh_addresses alloc" "api_reachable lib alloc s"
    and "lattice_clause lib OP_MIN min" "lattice_clause lib OP_MAX max" "spheres_ok env (all_spheres h ts)"
  shows "\<exists>k shape c'. (\<forall>fuel \<ge> k. forest_shape lib alloc fuel h ts (a_cache s) = Inr (shape, c')) \<and> api_ok (s\<lparr>a_cache := c'\<rparr>)
    \<and> best min (solid_keys h (e_x env) (e_y env) (e_z env) ts) = map_option (\<lambda>p. f32_key (eval_expr lib env (tree_of c' p))) shape"
proof -
  have lib: "lattice lib OP_MIN min" "lattice lib OP_MAX max"
    using assms(3,4) by (auto simp: lattice_def min.assoc min.commute max.assoc max.commute)
  have s: "store_ok (a_cache s)" "\<forall>p \<in> set (a_trees s). live (a_cache s) p" using reachable_ok[OF assms(1,2)] by (simp_all add: api_ok_def)
  let ?keys = "solid_keys h (e_x env) (e_y env) (e_z env) ts"
  have "min_tree lib alloc fuel = Tree_operation lib alloc fuel OP_MIN" for fuel by (simp add: fun_eq_iff min_tree_def)
  then have "settles (a_cache s) (\<lambda>fuel. forest_shape lib alloc fuel h ts (a_cache s)) (shaped lib env (best min ?keys))"
    unfolding forest_shape_def
    by (intro settles_bind[OF tree_shaped(2)[OF assms(1) lib refl refl refl s(1) assms(5)]])
      (simp add: aggregated_key[OF assms(1) lib(1)])
  then obtain k shape c' where k: "\<forall>fuel \<ge> k. forest_shape lib alloc fuel h ts (a_cache s) = Inr (shape, c')"
    "store_ok c'" "extends (a_cache s) c'" "shaped lib env (best min ?keys) shape c'" unfolding settles_def by blast
  have "best min ?keys = map_option (\<lambda>p. f32_key (eval_expr lib env (tree_of c' p))) shape"
    using k(4) by (cases shape) (auto simp: shaped_def keyed_def key_of_def)
  moreover have "api_ok (s\<lparr>a_cache := c'\<rparr>)" using k(2,3) s(2) live_extends by (auto simp: api_ok_def)
  ultimately show ?thesis using k(1) by blast
qed

text \<open>The intersection of two spheres beside a third one.\<close>

definition sample_solid :: heap where
  "sample_solid a =
     (if a = 1 then Some (SetOp 1 Intersection_op)
      else if a = 2 then Some (Sphere 2 (Coord 0 0 0) \<lparr>magnitude = f32_one\<rparr>)
      else if a = 3 then Some (Sphere 3 (Coord f32_one 0 0) \<lparr>magnitude = f32_one\<rparr>)
      else if a = 4 then Some (Sphere 4 (Coord 0 f32_one 0) \<lparr>magnitude = f32_one\<rparr>)
      else None)"

lemma sample_lattice_max: "lattice_clause sample_libm OP_MAX max"
  unfolding lattice_clause_def
  by (auto simp: apply_clause_def clause_value_def sample_libm_def f32_lt_def max_def)

theorem forest_shape_is_solid_witness:
  "\<exists>fuel p c'. forest_shape sample_libm next_address fuel sample_solid [Tree 1 [Tree 2 [], Tree 3 []], Tree 4 []] (a_cache sample_start)
     = Inr (Some p, c') \<and> f32_key (eval_expr sample_libm client_env (tree_of c' p)) = 0"
proof -
  let ?ts = "[Tree 1 [Tree 2 [], Tree 3 []], Tree 4 []]"
  have "spheres_ok client_env (all_spheres sample_solid ?ts)" by code_simp
  from forest_shape_is_solid[OF fresh_sample _ sample_lattice sample_lattice_max this, of sample_start]
  obtain k shape c' where k: "\<And>fuel. k \<le> fuel \<Longrightarrow> forest_shape sample_libm next_address fuel sample_solid ?ts (a_cache sample_start) = Inr (shape, c')"
    "best min (solid_keys sample_solid (e_x client_env) (e_y client_env) (e_z client_env) ?ts)
      = map_option (\<lambda>p. f32_key (eval_expr sample_libm client_env (tree_of c' p))) shape"
    using api_start by (auto simp: sample_start_def)
  have "best min (solid_keys sample_solid (e_x client_env) (e_y client_env) (e_z client_env) ?ts) = Some 0" by code_simp
  with k(2) obtain p where "shape = Some p" "f32_key (eval_expr sample_libm client_env (tree_of c' p)) = 0" by auto
  with k(1)[OF le_refl] show ?thesis by blast
qed

section \<open>The normals of a mesh\<close>

definition cross_of :: "(vector \<Rightarrow> vector \<Rightarrow> vector) \<Rightarrow> vertex list \<Rightarrow> 32 word \<times> 32 word \<times> 32 word \<Rightarrow> vector" where
  "cross_of cr vs = (\<lambda>(a, b, c).
     let p = (\<lambda>i. xyz (position (vs ! unat i))) in take 3 (cr (vec_sub (p b) (p a)) (vec_sub (p c) (p a))) @ [0])"

definition in_mesh :: "nat \<Rightarrow> 32 word \<times> 32 word \<times> 32 word \<Rightarrow> bool" where
  "in_mesh n = (\<lambda>(a, b, c). unat a < n \<and> unat b < n \<and> unat c < n)"

text \<open>A triangle adds its normal to a vertex once for each corner that is this vertex.\<close>

definition corners :: "nat \<Rightarrow> 32 word \<times> 32 word \<times> 32 word \<Rightarrow> nat" where
  "corners i = (\<lambda>(a, b, c). length (filter (\<lambda>j. unat j = i) [a, b, c]))"

definition normals_at ::
    "(vector \<Rightarrow> vector \<Rightarrow> vector) \<Rightarrow> vertex list \<Rightarrow> (32 word \<times> 32 word \<times> 32 word) list \<Rightarrow> nat \<Rightarrow> vector list" where
  "normals_at cr vs ts i = concat (map (\<lambda>t. replicate (corners i t) (cross_of cr vs t)) ts)"

definition with_normals :: "vertex list \<Rightarrow> (nat \<Rightarrow> vector list) \<Rightarrow> vertex list" where
  "with_normals vs ns = map (\<lambda>i. (vs ! i)\<lparr>normal := foldl vec_add (normal (vs ! i)) (ns i)\<rparr>) [0..<length vs]"

lemma triples_concat: "triples (concat (map (\<lambda>(a, b, c). [a, b, c]) ts)) = ts"
  by (induction ts) auto

lemma add_normal_nth:
  "length (add_normal n i vs) = length vs"
  "j < length vs \<Longrightarrow> add_normal n i vs ! j = (if j = i then (vs ! j)\<lparr>normal := vec_add (normal (vs ! j)) n\<rparr> else vs ! j)"
  by (auto simp: add_normal_def nth_list_update)

lemma triangle_normals:
  "foldE (triangle_normal cr) vs ts =
    (if \<forall>t \<in> set ts. in_mesh (length vs) t then Inr (with_normals vs (normals_at cr vs ts)) else Inl OutOfRange)"
proof (induction ts arbitrary: vs)
  case Nil
  show ?case by (simp add: with_normals_def normals_at_def map_nth)
next
  case (Cons t ts)
  obtain a b c where t: "t = (a, b, c)" using prod_cases3 by blast
  show ?case
  proof (cases "in_mesh (length vs) t")
    case True
    define ws where "ws = add_normal (cross_of cr vs t) (unat c) (add_normal (cross_of cr vs t) (unat b) (add_normal (cross_of cr vs t) (unat a) vs))"
    have step: "triangle_normal cr vs t = Inr ws"
      using True by (simp add: triangle_normal_def t in_mesh_def ws_def cross_of_def Let_def)
    have len: "length ws = length vs" by (simp add: ws_def add_normal_nth)
    have pos: "position (ws ! i) = position (vs ! i)" if "i < length vs" for i
      using that by (simp add: ws_def add_normal_nth)
    have norm: "ws ! i = (vs ! i)\<lparr>normal := foldl vec_add (normal (vs ! i)) (replicate (corners i t) (cross_of cr vs t))\<rparr>"
      if "i < length vs" for i
      using that by (auto simp: ws_def add_normal_nth corners_def t)
    have "cross_of cr ws u = cross_of cr vs u" if "in_mesh (length vs) u" for u
      using that pos by (auto simp: cross_of_def in_mesh_def split: prod.splits)
    then have "\<forall>u \<in> set ts. in_mesh (length vs) u \<Longrightarrow> with_normals ws (normals_at cr ws ts) = with_normals vs (normals_at cr vs (t # ts))"
      by (auto simp: with_normals_def normals_at_def len norm cong: map_cong)
    with Cons.IH[of ws] step True len show ?thesis by simp
  next
    case False
    then have "triangle_normal cr vs t = Inl OutOfRange" by (auto simp: triangle_normal_def t in_mesh_def Let_def)
    with False show ?thesis by simp
  qed
qed

text \<open>C27: The mesh the factory makes has the vertices and triangles of the renderer, in their order.
  The normal of a vertex is the normalised sum, in the order of the triangles, of the cross products
  of the triangles at this vertex, counted with the corners they have there. A triangle that names a
  missing vertex, and only that, makes the factory fail.\<close>

theorem mesh_normals:
  "meshOf cr nrm m =
     (let vs = map (\<lambda>(x, y, z). \<lparr>position = [x, y, z, f32_one], normal = [0, 0, 0, 0]\<rparr>) (verts m) in
      if list_all (in_mesh (length (verts m))) (branes m)
      then Inr \<lparr>vertices = map (\<lambda>i. (vs ! i)\<lparr>normal := nrm (foldl vec_add [0, 0, 0, 0] (normals_at cr vs (branes m) i))\<rparr>) [0..<length (verts m)],
                indices = concat (map (\<lambda>(a, b, c). [a, b, c]) (branes m))\<rparr>
      else Inl OutOfRange)"
proof -
  have start: "normal (case t of (x, y, z) \<Rightarrow> \<lparr>position = [x, y, z, f32_one], normal = [0, 0, 0, 0]\<rparr>) = [0, 0, 0, 0]" for t
    by (simp split: prod.split)
  show ?thesis
    unfolding meshOf_def Let_def triples_concat triangle_normals
    by (auto simp: list_all_iff with_normals_def start cong: map_cong)
qed

end
