(* ===== verification/CellTables.thy ===== *)
theory CellTables
  imports Prelude
begin

text \<open>
  The tables of the octree renderers: numbers for the corners and subspaces of a cell
  (\<open>thirdparty/libfive/render/brep/indexes.hpp\<close>), the neighbours of a cell
  (\<open>neighbor_tables.hpp\<close>, \<open>src/five/render/brep/neighbor_tables.cpp\<close>), the subspaces that touch
  (\<open>edge_tables.cpp\<close>) and the sign patterns that are a disk (\<open>manifold_tables.cpp\<close>).

  A subspace of a cell of dimension \<open>N\<close> is a number with \<open>N\<close> ternary digits, a corner one with
  \<open>N\<close> binary digits. The index \<open>-1\<close>, which means that there is none, is \<open>None\<close>. Bit fields of
  axes are bytes, as in the code; the templates are instantiated for two and three dimensions.
\<close>

section \<open>Indices\<close>

fun dimension :: "nat \<Rightarrow> nat" where
  "dimension i = (if i = 0 then 0 else (if i mod 3 = 2 then 1 else 0) + dimension (i div 3))"

fun contains :: "nat \<Rightarrow> nat \<Rightarrow> bool" where
  "contains i n =
     (if i = 0 then n = 0 else (i mod 3 = 2 \<or> i mod 3 = n mod 3) \<and> contains (i div 3) (n div 3))"

fun contains_corner :: "nat \<Rightarrow> nat \<Rightarrow> bool" where
  "contains_corner i c =
     (if i = 0 then c = 0 else (i mod 3 = 2 \<or> i mod 3 = c mod 2) \<and> contains_corner (i div 3) (c div 2))"

function join :: "nat \<Rightarrow> nat \<Rightarrow> nat" where
  "join i j =
     (if i \<noteq> 0 \<or> j \<noteq> 0
      then 3 * join (i div 3) (j div 3) + (if i mod 3 \<noteq> j mod 3 then 2 else i mod 3) else 0)"
  by pat_completeness auto
termination by (relation "measure (\<lambda>(i, j). i + j)") auto

fun floating :: "nat \<Rightarrow> 8 word" where
  "floating i = (if i = 0 then 0 else push_bit 1 (floating (i div 3)) OR (if i mod 3 = 2 then 1 else 0))"

definition fixed :: "nat \<Rightarrow> 8 word" where
  "fixed i = NOT (floating i)"

definition fixed_in :: "nat \<Rightarrow> nat \<Rightarrow> 8 word" where
  "fixed_in N i = fixed i AND (2 ^ N - 1)"

fun pos :: "nat \<Rightarrow> 8 word" where
  "pos i = (if i = 0 then 0 else push_bit 1 (pos (i div 3)) OR (if i mod 3 = 1 then 1 else 0))"

definition isAxisFixed :: "nat \<Rightarrow> nat \<Rightarrow> bool" where
  "isAxisFixed i a = bit (fixed i) a"

definition axisPosition :: "nat \<Rightarrow> nat \<Rightarrow> bool" where
  "axisPosition i a = bit (pos i) a"

definition isCorner :: "nat \<Rightarrow> bool" where
  "isCorner i \<longleftrightarrow> floating i = 0"

text \<open>The two bytes lose their lowest bit with each call.\<close>

lemma drop_bit_less: "w \<noteq> 0 \<Longrightarrow> unat (drop_bit (Suc 0) w) < unat (w :: 8 word)"
proof -
  assume "w \<noteq> 0"
  then have "0 < unat w" by (simp add: unat_gt_0)
  then show ?thesis unfolding unat_drop_bit_eq by (simp add: drop_bit_eq_div)
qed

lemma drop_bit_le: "unat (drop_bit (Suc 0) w) \<le> unat (w :: 8 word)"
  unfolding unat_drop_bit_eq by (simp add: drop_bit_eq_div)

function fromPosAndFloating :: "8 word \<Rightarrow> 8 word \<Rightarrow> nat" where
  "fromPosAndFloating p f =
     (if f \<noteq> 0 \<or> p \<noteq> 0
      then (if bit f 0 then 2 else if bit p 0 then 1 else 0)
        + 3 * fromPosAndFloating (drop_bit 1 p) (drop_bit 1 f)
      else 0)"
  by pat_completeness auto
termination
proof (relation "measure (\<lambda>(p, f). unat p + unat f)", goal_cases)
  case (2 p f)
  then show ?case using drop_bit_less[of p] drop_bit_less[of f] drop_bit_le[of p] drop_bit_le[of f] by fastforce
qed simp

fun corner_neighbor :: "nat \<Rightarrow> nat" where
  "corner_neighbor i = (if i = 0 then 0 else 3 * corner_neighbor (i div 2) + i mod 2)"

declare dimension.simps [simp del] contains.simps [simp del] contains_corner.simps [simp del] join.simps [simp del]
  floating.simps [simp del] pos.simps [simp del] fromPosAndFloating.simps [simp del] corner_neighbor.simps [simp del]

section \<open>Neighbours\<close>

text \<open>A byte in an expression is promoted to an integer.\<close>

definition getCorner :: "nat \<Rightarrow> nat \<Rightarrow> nat \<Rightarrow> nat option" where
  "getCorner N corner neighbor =
     (if unat (pos neighbor) AND unat (fixed neighbor) = corner AND unat (fixed neighbor)
      then Some ((corner XOR unat (fixed_in N neighbor)) OR (corner AND unat (floating neighbor)))
      else None)"

definition getNeighbor :: "nat \<Rightarrow> nat \<Rightarrow> nat \<Rightarrow> nat option" where
  "getNeighbor N subcell neighbor =
     (if contains neighbor subcell
      then Some (fromPosAndFloating ((2 ^ N - 1) AND (pos subcell XOR fixed_in N neighbor)) (floating subcell))
      else None)"

definition withinTreeIndex :: "nat \<Rightarrow> nat \<Rightarrow> nat \<Rightarrow> nat option" where
  "withinTreeIndex N child neighbor =
     (if (unat (pos neighbor) XOR child) AND unat (fixed_in N neighbor) = unat (fixed_in N neighbor)
      then Some (unat (pos neighbor) OR (unat (floating neighbor) AND child))
      else None)"

function whichNeighbor :: "nat \<Rightarrow> nat \<Rightarrow> nat" where
  "whichNeighbor c n =
     (if c \<noteq> 0 \<or> n \<noteq> 0
      then (if c mod 2 = n mod 3 then c mod 2 else 2) + 3 * whichNeighbor (c div 2) (n div 3) else 0)"
  by pat_completeness auto
termination by (relation "measure (\<lambda>(c, n). c + n)") auto

declare whichNeighbor.simps [simp del]

definition neighborTargetIndex :: "nat \<Rightarrow> nat \<Rightarrow> nat \<Rightarrow> nat \<times> nat" where
  "neighborTargetIndex N child neighbor =
     (whichNeighbor child neighbor,
      (2 ^ N - 1) AND ((child XOR unat (fixed neighbor)) OR (child AND unat (floating neighbor))))"

definition pushIndex :: "nat \<Rightarrow> nat \<Rightarrow> nat \<Rightarrow> nat option \<times> nat" where
  "pushIndex N c n =
     (case withinTreeIndex N c n of
        Some i \<Rightarrow> (None, i)
      | None \<Rightarrow> let (m, i) = neighborTargetIndex N c n in (Some m, i))"

section \<open>The tables of neighbours\<close>

text \<open>A vector of fixed capacity refuses a further element.\<close>

definition push_back :: "nat \<Rightarrow> 'a \<Rightarrow> 'a list \<Rightarrow> fault + 'a list" where
  "push_back capacity x xs = (if length xs < capacity then Inr (xs @ [x]) else Inl OutOfRange)"

definition push_some :: "nat \<Rightarrow> ('a \<Rightarrow> 'b option) \<Rightarrow> 'a list \<Rightarrow> fault + ('a \<times> 'b) list" where
  "push_some capacity f xs =
     foldE (\<lambda>out n. case f n of None \<Rightarrow> Inr out | Some p \<Rightarrow> push_back capacity (n, p) out) [] xs"

definition assertE :: "bool \<Rightarrow> 'a \<Rightarrow> fault + 'a" where
  "assertE b x = (if b then Inr x else Inl AssertFailed)"

text \<open>The child's subspace is summed into a subspace of the parent when every fixed axis is high, or
  low on a low child.\<close>

definition qef_valid :: "nat \<Rightarrow> nat \<Rightarrow> nat \<Rightarrow> bool" where
  "qef_valid N child neighbor \<longleftrightarrow>
     list_all (\<lambda>d. \<not> bit (fixed_in N neighbor) d \<or> bit (pos neighbor) d \<or> \<not> bit child d) [0..<N]"

definition qef_target :: "nat \<Rightarrow> nat \<Rightarrow> nat \<Rightarrow> nat" where
  "qef_target N child neighbor =
     (let (floating_out, pos_out) = foldl (\<lambda>(f, p) d.
            if bit (floating neighbor) d \<or> bit (pos neighbor) d \<noteq> bit child d then (f OR push_bit d 1, p)
            else (f, p OR (pos neighbor AND push_bit d 1))) (0, 0) [0..<N]
      in fromPosAndFloating pos_out floating_out)"

definition qef_step :: "nat \<Rightarrow> (nat \<times> nat) list list \<Rightarrow> nat \<times> nat \<Rightarrow> fault + (nat \<times> nat) list list" where
  "qef_step N tables = (\<lambda>(i, j).
     if qef_valid N i j then
       let t = qef_target N i j in
       if t < length tables then bindE (push_back (3 ^ N) (i, j) (tables ! t)) (\<lambda>x. Inr (tables[t := x]))
       else Inl OutOfRange
     else Inr tables)"

record neighbor_tables =
  pushIndexTable :: "(nat option \<times> nat) list list"
  cornerTable :: "(nat \<times> nat) list list"
  neighborTable :: "(nat \<times> nat) list list"
  qefSumTable :: "(nat \<times> nat) list list"

definition corner_row :: "nat \<Rightarrow> nat \<Rightarrow> fault + (nat \<times> nat) list" where
  "corner_row N c =
     bindE (push_some (2 ^ N - 1) (getCorner N c) [0..<3 ^ N - 1]) (\<lambda>row. assertE (length row = 2 ^ N - 1) row)"

definition neighbor_row :: "nat \<Rightarrow> nat \<Rightarrow> fault + (nat \<times> nat) list" where
  "neighbor_row N s =
     bindE (push_some (2 ^ N) (getNeighbor N s) [0..<3 ^ N - 1]) (\<lambda>row.
       assertE (length row = 2 ^ (N - dimension s) - 1) row)"

definition NeighborTables :: "nat \<Rightarrow> fault + neighbor_tables" where
  "NeighborTables N =
     bindE (mapE (corner_row N) [0..<2 ^ N]) (\<lambda>corners.
     bindE (mapE (neighbor_row N) [0..<3 ^ N]) (\<lambda>neighbors.
     bindE (foldE (qef_step N) (replicate (3 ^ N) []) (List.product [0..<2 ^ N] [0..<3 ^ N])) (\<lambda>sums.
       Inr \<lparr>pushIndexTable = map (\<lambda>c. map (pushIndex N c) [0..<3 ^ N - 1]) [0..<2 ^ N],
            cornerTable = corners, neighborTable = neighbors, qefSumTable = sums\<rparr>)))"

section \<open>The subspaces that touch\<close>

record edge_tables =
  subspace_table :: "nat list list"
  neighbor_table :: "nat list list"
  boundary_table :: "nat list list"

definition push_all :: "nat \<Rightarrow> 'a list \<Rightarrow> fault + 'a list" where
  "push_all capacity xs = foldE (\<lambda>out x. push_back capacity x out) [] xs"

definition touches :: "nat \<Rightarrow> nat \<Rightarrow> bool" where
  "touches a b \<longleftrightarrow> a \<noteq> b \<and> (contains a b \<or> contains b a)"

definition EdgeTables :: "nat \<Rightarrow> fault + edge_tables" where
  "EdgeTables N =
     (let table = (\<lambda>P. mapE (\<lambda>i. push_all (3 ^ N - 1) (filter (\<lambda>j. touches i j \<and> P i j) [0..<3 ^ N])) [0..<3 ^ N]) in
      bindE (table contains) (\<lambda>s. bindE (table (\<lambda>i j. True)) (\<lambda>n. bindE (table (\<lambda>i j. dimension j < N)) (\<lambda>b.
        Inr \<lparr>subspace_table = s, neighbor_table = n, boundary_table = b\<rparr>))))"

text \<open>The accessors: the tables are built at the first call.\<close>

definition neighbors :: "nat \<Rightarrow> nat \<Rightarrow> nat list" where
  "neighbors N i = (case EdgeTables N of Inl _ \<Rightarrow> [] | Inr t \<Rightarrow> neighbor_table t ! i)"

definition subspaces :: "nat \<Rightarrow> nat \<Rightarrow> nat list" where
  "subspaces N i = (case EdgeTables N of Inl _ \<Rightarrow> [] | Inr t \<Rightarrow> subspace_table t ! i)"

definition boundary :: "nat \<Rightarrow> nat \<Rightarrow> nat list" where
  "boundary N i = (case EdgeTables N of Inl _ \<Rightarrow> [] | Inr t \<Rightarrow> boundary_table t ! i)"

section \<open>Sign patterns that are a disk\<close>

text \<open>A bit field says which subspaces are inside. The flood starts from the lowest one; each round
  marks the new ones and collects their neighbours on the boundary that are inside.\<close>

definition first_inside :: "nat \<Rightarrow> 32 word \<Rightarrow> 32 word" where
  "first_inside N b = foldl (\<lambda>new i. if new = 0 \<and> bit b i then push_bit i 1 else new) 0 [0..<3 ^ N]"

definition flood_neighbors :: "nat \<Rightarrow> 32 word \<Rightarrow> nat \<Rightarrow> 32 word \<Rightarrow> 32 word" where
  "flood_neighbors N b i next =
     foldl (\<lambda>next n. if bit b n then next OR push_bit n 1 else next) next (boundary N i)"

definition flood_round :: "nat \<Rightarrow> 32 word \<Rightarrow> 32 word \<Rightarrow> 32 word \<Rightarrow> 32 word \<times> 32 word" where
  "flood_round N b new connected =
     foldl (\<lambda>(next, conn) i.
        if bit new i \<and> \<not> bit conn i then (flood_neighbors N b i next, conn OR push_bit i 1) else (next, conn))
       (0, connected) [0..<3 ^ N]"

definition bits :: "32 word \<Rightarrow> nat set" where
  "bits w = {i. bit w i}"

lemma mem_bits: "i \<in> bits w \<longleftrightarrow> bit w i"
  by (simp add: bits_def)

lemma bits_simps: "bits 0 = {}" "bits (v OR w) = bits v \<union> bits w" "bits (2 ^ n) = (if n < 32 then {n} else {})"
  by (auto simp: bits_def bit_or_iff bit_exp_iff)

lemma bits_eqI: "bits v = bits w \<Longrightarrow> v = w"
  by (rule bit_eqI) (auto simp: bits_def)

lemma bits_below_32: "i \<in> bits w \<Longrightarrow> i < 32"
  using bit_imp_le_length[of w i] by (simp add: bits_def)

lemma flood_neighbors_bits: "bits (flood_neighbors N b i next) = bits next \<union> (bits b \<inter> set (boundary N i))"
proof -
  have "bits (foldl (\<lambda>next n. if bit b n then next OR push_bit n 1 else next) next ns) = bits next \<union> (bits b \<inter> set ns)" for ns
  proof (induction ns arbitrary: "next")
    case (Cons n ns)
    have "n < 32" if "bit b n" using that bits_below_32[of n b] by (simp add: mem_bits)
    with Cons.IH show ?case by (auto simp: bits_simps mem_bits)
  qed simp
  then show ?thesis by (simp add: flood_neighbors_def)
qed

lemma flood_round_bits:
  "bits (fst (flood_round N b new conn)) = (\<Union>i \<in> {..<3 ^ N} \<inter> bits new - bits conn. bits b \<inter> set (boundary N i))
   \<and> bits (snd (flood_round N b new conn)) = bits conn \<union> (bits new \<inter> {..<3 ^ N})"
proof -
  define F where "F = foldl (\<lambda>(next, conn) i.
        if bit new i \<and> \<not> bit conn i then (flood_neighbors N b i next, conn OR push_bit i 1) else (next, conn)) (0, conn)"
  have "bits (fst (F [0..<m])) = (\<Union>i \<in> {..<m} \<inter> bits new - bits conn. bits b \<inter> set (boundary N i))
      \<and> bits (snd (F [0..<m])) = bits conn \<union> (bits new \<inter> {..<m})" for m
  proof (induction m)
    case 0
    show ?case by (simp add: F_def bits_simps)
  next
    case (Suc m)
    obtain x c where xc: "F [0..<m] = (x, c)" by force
    have F: "F [0..<Suc m] = (if bit new m \<and> \<not> bit c m then (flood_neighbors N b m x, c OR push_bit m 1) else (x, c))"
      using xc by (simp add: F_def)
    have c: "bit c m \<longleftrightarrow> m \<in> bits conn" using Suc xc by (auto simp: bits_def)
    have m: "m < 32" if "bit new m" using that bits_below_32[of m new] by (simp add: mem_bits)
    show ?case
    proof (cases "bit new m \<and> \<not> bit c m")
      case True
      then have "{..<Suc m} \<inter> bits new - bits conn = insert m ({..<m} \<inter> bits new - bits conn)"
        "bits new \<inter> {..<Suc m} = insert m (bits new \<inter> {..<m})" using c by (auto simp: bits_def less_Suc_eq)
      with Suc xc F True m show ?thesis by (simp add: flood_neighbors_bits bits_simps Un_ac)
    next
      case False
      then have "{..<Suc m} \<inter> bits new - bits conn = {..<m} \<inter> bits new - bits conn"
        "bits conn \<union> bits new \<inter> {..<Suc m} = bits conn \<union> bits new \<inter> {..<m}" using c by (auto simp: bits_def less_Suc_eq)
      with Suc xc F False show ?thesis by auto
    qed
  qed
  then show ?thesis by (simp add: F_def flood_round_def)
qed

function flood :: "nat \<Rightarrow> 32 word \<Rightarrow> 32 word \<Rightarrow> 32 word \<Rightarrow> 32 word" where
  "flood N b new connected =
     (if new = 0 then connected
      else case flood_round N b new connected of (next, conn) \<Rightarrow> flood N b next conn)"
  by pat_completeness auto

text \<open>A round marks a new subspace or leaves nothing for the next one.\<close>

termination flood
proof (relation "measures [\<lambda>(N, b, new, conn). card ({..<3 ^ N} - bits conn), \<lambda>(N, b, new, conn). if new = 0 then 0 else 1]", goal_cases)
  case (2 N b new conn nxt conn')
  note r = flood_round_bits[of N b new conn, unfolded 2(2)[symmetric] fst_conv snd_conv]
  show ?case
  proof (cases "{..<3 ^ N} \<inter> bits new - bits conn = {}")
    case True
    then have "bits nxt = {}" "{..<3 ^ N} - bits conn' = {..<3 ^ N} - bits conn" using r by auto
    then have "nxt = 0" "card ({..<3 ^ N} - bits conn') = card ({..<3 ^ N} - bits conn)"
      using bits_eqI[of nxt 0] by (simp_all add: bits_simps)
    with 2(1) show ?thesis by simp
  next
    case False
    then have "{..<3 ^ N} - bits conn' \<subset> {..<3 ^ N} - bits conn" using r by auto
    then have "card ({..<3 ^ N} - bits conn') < card ({..<3 ^ N} - bits conn)" by (intro psubset_card_mono) auto
    then show ?thesis by simp
  qed
qed simp

declare flood.simps [simp del]

definition checkBitfield :: "nat \<Rightarrow> 32 word \<Rightarrow> bool" where
  "checkBitfield N b =
     (let new_inside = first_inside N b in
      if new_inside = 0 \<or> new_inside = push_bit (3 ^ N) 1 - 1 then False
      else flood N b new_inside 0 = b)"

text \<open>The table is a vector of bits, half as long as there are fields; \<open>known\<close> is the vector that says
  which entries were computed.\<close>

record manifold_tables =
  m_size :: nat
  m_data :: "nat \<Rightarrow> bool"
  m_known :: "nat \<Rightarrow> bool"

definition ManifoldTables :: "nat \<Rightarrow> manifold_tables" where
  "ManifoldTables N = \<lparr>m_size = 2 ^ (3 ^ N - 2), m_data = (\<lambda>_. False), m_known = (\<lambda>_. False)\<rparr>"

definition manifold :: "nat \<Rightarrow> 32 word \<Rightarrow> manifold_tables \<Rightarrow> fault + bool \<times> manifold_tables" where
  "manifold N b s =
     (let top_bit = push_bit (3 ^ N - 2) 1;
          inv = NOT b AND (push_bit 1 top_bit - 1);
          index = unat (if b AND top_bit \<noteq> 0 then inv else b)
      in if m_size s \<le> index then Inl OutOfRange
         else if \<not> m_known s index then
           let d = checkBitfield N b \<and> checkBitfield N inv in Inr (d, s\<lparr>m_data := (m_data s)(index := d)\<rparr>)
         else Inr (m_data s index, s))"

end
