(* ===== verification/CellProps.thy ===== *)
theory CellProps
  imports CellTables
begin

text \<open>
  Properties of the tables of the renderers: what the indices mean in space, that the tables are
  built, that summing over children counts every place once, and that the sign patterns accepted
  as a disk are those whose two sides are connected.
\<close>

section \<open>Digits\<close>

definition digit :: "nat \<Rightarrow> nat \<Rightarrow> nat" where
  "digit i d = i div 3 ^ d mod 3"

lemma digit_simps: "digit i 0 = i mod 3" "digit i (Suc d) = digit (i div 3) d"
  by (simp_all add: digit_def div_mult2_eq)

lemma digit_zero [simp]: "digit 0 d = 0"
  by (simp add: digit_def)

lemma digit_less: "digit i d < 3"
  by (simp add: digit_def)

lemma digit_cases: "digit i d = 0 \<or> digit i d = 1 \<or> digit i d = 2"
  using digit_less[of i d] by linarith

lemma digit_high:
  assumes "i < 3 ^ N" "N \<le> d"
  shows "digit i d = 0"
proof -
  have "(3 :: nat) ^ N \<le> 3 ^ d" using assms(2) by (rule power_increasing) simp
  with assms(1) have "i < 3 ^ d" by (rule less_le_trans)
  then show ?thesis by (simp add: digit_def)
qed

lemma digits_eqI: "(\<And>d. digit i d = digit j d) \<Longrightarrow> i = j"
proof (induction i arbitrary: j rule: less_induct)
  case (less i)
  have low: "i mod 3 = j mod 3" using less.prems[of 0] by (simp add: digit_simps)
  have high: "i div 3 = j div 3" if "i \<noteq> 0"
    using less.IH[of "i div 3" "j div 3"] less.prems[of "Suc _"] that by (simp add: digit_simps)
  show ?case
  proof (cases "i = 0")
    case True
    have "digit j d = 0" for d using less.prems[of d] True by simp
    then show ?thesis using True
    proof (induction j rule: less_induct)
      case (less j)
      show ?case
      proof (rule ccontr)
        assume "i \<noteq> j"
        with less.prems(2) have "0 < j" by simp
        then have "i = j div 3" using less.IH[of "j div 3"] less.prems(1)[of "Suc _"] less.prems(2) by (simp add: digit_simps)
        moreover have "j mod 3 = 0" using less.prems(1)[of 0] by (simp add: digit_simps)
        ultimately show False using less.prems(2) \<open>0 < j\<close> by presburger
      qed
    qed
  next
    case False
    then show ?thesis using low high by (metis div_mult_mod_eq)
  qed
qed

lemma digits_less: "(\<And>d. N \<le> d \<Longrightarrow> digit i d = 0) \<Longrightarrow> i < 3 ^ N"
proof (induction N arbitrary: i)
  case 0
  then show ?case using digits_eqI[of i 0] by simp
next
  case (Suc N)
  have "i div 3 < 3 ^ N" using Suc.prems[of "Suc _"] by (intro Suc.IH) (simp add: digit_simps)
  then show ?case by simp
qed

lemma bit_shifted: "bit (push_bit 1 w OR (if b then 1 else 0)) d \<longleftrightarrow>
    (case d of 0 \<Rightarrow> b | Suc e \<Rightarrow> d < 8 \<and> bit w e)" for w :: "8 word"
  unfolding bit_or_iff bit_push_bit_iff by (cases d) auto

lemma bit_floating: "bit (floating i) d \<longleftrightarrow> d < 8 \<and> digit i d = 2"
proof (induction i arbitrary: d rule: floating.induct)
  case (1 i)
  show ?case
  proof (cases "i = 0")
    case False
    then have eq: "floating i = push_bit 1 (floating (i div 3)) OR (if i mod 3 = 2 then 1 else 0)"
      by (subst floating.simps) (rule if_not_P)
    show ?thesis unfolding eq bit_shifted using 1[OF False, of "d - 1"] by (cases d) (auto simp: digit_simps)
  qed (simp add: floating.simps[of 0])
qed

lemma bit_pos: "bit (pos i) d \<longleftrightarrow> d < 8 \<and> digit i d = 1"
proof (induction i arbitrary: d rule: pos.induct)
  case (1 i)
  show ?case
  proof (cases "i = 0")
    case False
    then have eq: "pos i = push_bit 1 (pos (i div 3)) OR (if i mod 3 = 1 then 1 else 0)"
      by (subst pos.simps) (rule if_not_P)
    show ?thesis unfolding eq bit_shifted using 1[OF False, of "d - 1"] by (cases d) (auto simp: digit_simps)
  qed (simp add: pos.simps[of 0])
qed

lemma bit_fixed: "bit (fixed i) d \<longleftrightarrow> d < 8 \<and> digit i d \<noteq> 2"
  by (auto simp: fixed_def bit_not_iff bit_floating)

lemma bit_fixed_in: "bit (fixed_in N i) d \<longleftrightarrow> d < 8 \<and> d < N \<and> digit i d \<noteq> 2"
  using bit_mask_iff[of N d, where 'a="8 word"] by (auto simp: fixed_in_def bit_and_iff bit_fixed mask_eq_exp_minus_1)

lemma all_digits: "(\<forall>d. P d) \<longleftrightarrow> P 0 \<and> (\<forall>d. P (Suc d))" for P :: "nat \<Rightarrow> bool"
  by (metis old.nat.exhaust)

lemma contains_digits: "contains i n \<longleftrightarrow> (\<forall>d. digit i d = 2 \<or> digit i d = digit n d)"
proof (induction i n rule: contains.induct)
  case (1 i n)
  show ?case
  proof (cases "i = 0")
    case True
    have "n = 0 \<longleftrightarrow> (\<forall>d. digit 0 d = digit n d)" using digits_eqI[of 0 n] by auto
    with True show ?thesis by (simp add: contains.simps[of 0])
  next
    case False
    have "(\<forall>d. digit i d = 2 \<or> digit i d = digit n d) \<longleftrightarrow>
        (digit i 0 = 2 \<or> digit i 0 = digit n 0) \<and> (\<forall>d. digit i (Suc d) = 2 \<or> digit i (Suc d) = digit n (Suc d))"
      by (rule all_digits)
    with False 1 show ?thesis by (auto simp: contains.simps[of i] digit_simps)
  qed
qed

lemma digit_fromPosAndFloating:
  "digit (fromPosAndFloating p f) d = (if bit f d then 2 else if bit p d then 1 else 0)"
proof (induction p f arbitrary: d rule: fromPosAndFloating.induct)
  case (1 p f)
  show ?case
  proof (cases "f \<noteq> 0 \<or> p \<noteq> 0")
    case True
    with 1[OF True, of "d - 1"] show ?thesis
      by (cases d) (simp_all add: fromPosAndFloating.simps[of p f] digit_simps bit_drop_bit_eq)
  next
    case False
    then show ?thesis by (simp add: fromPosAndFloating.simps[of 0 0])
  qed
qed

lemma digit_corner_neighbor: "digit (corner_neighbor c) d = (if bit c d then 1 else 0)"
proof (induction c arbitrary: d rule: corner_neighbor.induct)
  case (1 c)
  then show ?case
    by (cases d; cases "c = 0") (auto simp: corner_neighbor.simps[of c] corner_neighbor.simps[of 0] digit_simps bit_0 bit_Suc odd_iff_mod_2_eq_one)
qed

lemma digit_join: "digit (join i j) d = (if digit i d = digit j d then digit i d else 2)"
proof (induction i j arbitrary: d rule: join.induct)
  case (1 i j)
  show ?case
  proof (cases "i \<noteq> 0 \<or> j \<noteq> 0")
    case True
    then have eq: "join i j = 3 * join (i div 3) (j div 3) + (if i mod 3 \<noteq> j mod 3 then 2 else i mod 3)"
      by (subst join.simps) (rule if_P)
    show ?thesis using 1[OF True] by (cases d) (auto simp: eq digit_simps)
  qed (simp add: join.simps[of 0 0])
qed

lemma digit_whichNeighbor:
  "digit (whichNeighbor c n) d = (if digit n d = (if bit c d then 1 else 0) then digit n d else 2)"
proof (induction c n arbitrary: d rule: whichNeighbor.induct)
  case (1 c n)
  show ?case
  proof (cases "c \<noteq> 0 \<or> n \<noteq> 0")
    case True
    then have eq: "whichNeighbor c n = (if c mod 2 = n mod 3 then c mod 2 else 2) + 3 * whichNeighbor (c div 2) (n div 3)"
      by (subst whichNeighbor.simps) (rule if_P)
    show ?thesis using 1[OF True] by (cases d) (auto simp: eq digit_simps bit_0 bit_Suc odd_iff_mod_2_eq_one)
  qed (simp add: whichNeighbor.simps[of 0 0])
qed

lemma bits_less: "k < 2 ^ N \<longleftrightarrow> (\<forall>d \<ge> N. \<not> bit k d)" for k :: nat
proof -
  have "k < 2 ^ N \<longleftrightarrow> take_bit N k = k" by (simp add: take_bit_nat_eq_self_iff)
  also have "\<dots> \<longleftrightarrow> (\<forall>d. (d < N \<and> bit k d) = bit k d)" by (simp add: bit_eq_iff bit_take_bit_iff)
  finally show ?thesis by (meson not_le)
qed

lemma bit_unat [simp]: "bit (unat w) d \<longleftrightarrow> bit w d"
  by (simp add: bit_unsigned_iff)

lemma bit_ones: "bit (2 ^ N - 1 :: nat) d \<longleftrightarrow> d < N" "bit (2 ^ N - 1 :: 8 word) d \<longleftrightarrow> d < N \<and> d < 8"
  using bit_mask_iff[of N d, where 'a=nat] bit_mask_iff[of N d, where 'a="8 word"] by (auto simp: mask_eq_exp_minus_1)

section \<open>What the indices mean\<close>

text \<open>A cell of size one stands at a point of the grid. A neighbour is one step away along its fixed
  axes, a corner is a point of the grid, and the middle of a subspace is a point of the grid of half
  the size.\<close>

definition step_along :: "nat \<Rightarrow> nat \<Rightarrow> int" where
  "step_along n d = (if digit n d = 0 then - 1 else if digit n d = 1 then 1 else 0)"

definition vertex_at :: "nat \<Rightarrow> nat \<Rightarrow> int" where
  "vertex_at c d = (if bit c d then 1 else 0)"

definition middle :: "nat \<Rightarrow> nat \<Rightarrow> int" where
  "middle s d = (if digit s d = 0 then 0 else if digit s d = 1 then 2 else 1)"

lemma getCorner_bits:
  "getCorner N c n = Some k \<longleftrightarrow>
     (\<forall>d. d < 8 \<and> digit n d \<noteq> 2 \<longrightarrow> (digit n d = 1 \<longleftrightarrow> bit c d)) \<and>
     (\<forall>d. bit k d \<longleftrightarrow> bit c d \<noteq> (d < 8 \<and> d < N \<and> digit n d \<noteq> 2) \<or> bit c d \<and> d < 8 \<and> digit n d = 2)"
  by (auto simp: getCorner_def bit_eq_iff bit_and_iff bit_or_iff bit_xor_iff bit_pos bit_fixed bit_fixed_in bit_floating)

lemma corner_geometry:
  assumes "N \<le> 8" "c < 2 ^ N" "n < 3 ^ N"
  shows "getCorner N c n = Some k \<longleftrightarrow> k < 2 ^ N \<and> (\<forall>d < N. vertex_at c d = step_along n d + vertex_at k d)"
proof -
  have c: "\<not> bit c d" if "N \<le> d" for d using assms(2) that bits_less by blast
  have n: "digit n d = 0" if "N \<le> d" for d using digit_high[OF assms(3) that] .
  show ?thesis unfolding getCorner_bits bits_less
  proof (rule iffI; intro conjI allI impI; (elim conjE)?)
    fix d assume 1: "\<forall>d. d < 8 \<and> digit n d \<noteq> 2 \<longrightarrow> (digit n d = 1 \<longleftrightarrow> bit c d)"
      and 2: "\<forall>d. bit k d \<longleftrightarrow> bit c d \<noteq> (d < 8 \<and> d < N \<and> digit n d \<noteq> 2) \<or> bit c d \<and> d < 8 \<and> digit n d = 2"
    show "\<not> bit k d" if "N \<le> d" using 2[rule_format, of d] c[OF that] that by simp
    show "vertex_at c d = step_along n d + vertex_at k d" if "d < N"
      using 1[rule_format, of d] 2[rule_format, of d] that assms(1) digit_cases[of n d]
      by (auto simp: vertex_at_def step_along_def)
  next
    fix d assume 1: "\<forall>d \<ge> N. \<not> bit k d" and 2: "\<forall>d < N. vertex_at c d = step_along n d + vertex_at k d"
    show "digit n d = 1 \<longleftrightarrow> bit c d" if "d < 8" "digit n d \<noteq> 2"
      using 2[rule_format, of d] c[of d] n[of d] that digit_cases[of n d]
      by (cases "d < N") (auto simp: vertex_at_def step_along_def split: if_splits)
    show "bit k d \<longleftrightarrow> bit c d \<noteq> (d < 8 \<and> d < N \<and> digit n d \<noteq> 2) \<or> bit c d \<and> d < 8 \<and> digit n d = 2"
      using 1[rule_format, of d] 2[rule_format, of d] c[of d] assms(1) digit_cases[of n d]
      by (cases "d < N") (auto simp: vertex_at_def step_along_def split: if_splits)
  qed
qed

lemma neighbor_digits:
  "getNeighbor N s n = Some t \<longleftrightarrow> (\<forall>d. digit n d = 2 \<or> digit n d = digit s d) \<and>
     (\<forall>d. digit t d = (if d < 8 \<and> digit s d = 2 then 2
        else if d < N \<and> d < 8 \<and> (digit s d = 1) \<noteq> (digit n d \<noteq> 2) then 1 else 0))"
proof -
  have "fromPosAndFloating p f = t \<longleftrightarrow> (\<forall>d. digit t d = digit (fromPosAndFloating p f) d)" for p f
    using digits_eqI by metis
  then show ?thesis
    by (auto simp: getNeighbor_def contains_digits digit_fromPosAndFloating bit_floating bit_and_iff bit_xor_iff bit_pos
        bit_fixed_in bit_ones)
qed

lemma neighbor_geometry:
  assumes "N \<le> 8" "s < 3 ^ N" "n < 3 ^ N"
  shows "getNeighbor N s n = Some t \<longleftrightarrow> t < 3 ^ N \<and> (\<forall>d < N. middle s d = 2 * step_along n d + middle t d)"
proof -
  have s: "digit s d = 0" and n: "digit n d = 0" if "N \<le> d" for d
    using digit_high[OF assms(2) that] digit_high[OF assms(3) that] .
  show ?thesis unfolding neighbor_digits
  proof (rule iffI; intro conjI allI impI; (elim conjE)?)
    assume 1: "\<forall>d. digit n d = 2 \<or> digit n d = digit s d"
      and 2: "\<forall>d. digit t d = (if d < 8 \<and> digit s d = 2 then 2
        else if d < N \<and> d < 8 \<and> (digit s d = 1) \<noteq> (digit n d \<noteq> 2) then 1 else 0)"
    show "t < 3 ^ N" using 2 s by (intro digits_less) simp
    show "middle s d = 2 * step_along n d + middle t d" if "d < N" for d
      using 1[rule_format, of d] 2[rule_format, of d] that assms(1) digit_cases[of s d] digit_cases[of n d]
      by (auto simp: middle_def step_along_def)
  next
    fix d assume 1: "t < 3 ^ N" and 2: "\<forall>d < N. middle s d = 2 * step_along n d + middle t d"
    have t: "digit t d = 0" if "N \<le> d" using digit_high[OF 1 that] .
    show "digit n d = 2 \<or> digit n d = digit s d"
      using 2[rule_format, of d] s[of d] n[of d] digit_cases[of s d] digit_cases[of n d] digit_cases[of t d]
      by (cases "d < N") (auto simp: middle_def step_along_def)
    show "digit t d = (if d < 8 \<and> digit s d = 2 then 2 else if d < N \<and> d < 8 \<and> (digit s d = 1) \<noteq> (digit n d \<noteq> 2) then 1 else 0)"
      using 2[rule_format, of d] s[of d] n[of d] t assms(1) digit_cases[of s d] digit_cases[of n d] digit_cases[of t d]
      by (cases "d < N") (auto simp: middle_def step_along_def)
  qed
qed

lemma and_eq: "a AND b = k \<longleftrightarrow> (\<forall>d. bit a d \<and> bit b d \<longleftrightarrow> bit k d)" for a b k :: nat
  by (simp add: bit_eq_iff bit_and_iff)

lemma or_eq: "a OR b = k \<longleftrightarrow> (\<forall>d. bit a d \<or> bit b d \<longleftrightarrow> bit k d)" for a b k :: nat
  by (simp add: bit_eq_iff bit_or_iff)

lemma within_bits:
  "withinTreeIndex N c n = Some k \<longleftrightarrow>
     (\<forall>d. d < 8 \<and> d < N \<and> digit n d \<noteq> 2 \<longrightarrow> (digit n d = 1) \<noteq> bit c d) \<and>
     (\<forall>d. bit k d \<longleftrightarrow> d < 8 \<and> (digit n d = 1 \<or> digit n d = 2 \<and> bit c d))"
proof -
  have "(unat (pos n) XOR c) AND unat (fixed_in N n) = unat (fixed_in N n) \<longleftrightarrow>
      (\<forall>d. d < 8 \<and> d < N \<and> digit n d \<noteq> 2 \<longrightarrow> (digit n d = 1) \<noteq> bit c d)"
    unfolding and_eq bit_xor_iff bit_unat bit_pos bit_fixed_in by (rule iff_allI) blast
  moreover have "unat (pos n) OR (unat (floating n) AND c) = k \<longleftrightarrow>
      (\<forall>d. bit k d \<longleftrightarrow> d < 8 \<and> (digit n d = 1 \<or> digit n d = 2 \<and> bit c d))"
    unfolding or_eq bit_and_iff bit_unat bit_pos bit_floating by (rule iff_allI) blast
  ultimately show ?thesis by (simp add: withinTreeIndex_def)
qed

lemma push_geometry:
  assumes "N \<le> 8" "c < 2 ^ N" "n < 3 ^ N" and push: "pushIndex N c n = (m, k)"
  shows "k < 2 ^ N" and "d < N \<Longrightarrow> vertex_at c d + step_along n d = 2 * (case m of None \<Rightarrow> 0 | Some m \<Rightarrow> step_along m d) + vertex_at k d"
    and "m = Some j \<Longrightarrow> j < 3 ^ N \<and> (\<exists>d < N. step_along j d \<noteq> 0)"
proof -
  have c: "\<not> bit c d" and n: "digit n d = 0" if "N \<le> d" for d
    using assms(2) that bits_less digit_high[OF assms(3) that] by blast+
  have "k < 2 ^ N \<and> (\<forall>d < N. vertex_at c d + step_along n d = 2 * (case m of None \<Rightarrow> 0 | Some m \<Rightarrow> step_along m d) + vertex_at k d)
    \<and> (\<forall>j. m = Some j \<longrightarrow> j < 3 ^ N \<and> (\<exists>d < N. step_along j d \<noteq> 0))"
  proof (cases "withinTreeIndex N c n")
    case (Some i)
    with push have m: "m = None" "withinTreeIndex N c n = Some k" by (simp_all add: pushIndex_def)
    then have 1: "\<forall>d. d < 8 \<and> d < N \<and> digit n d \<noteq> 2 \<longrightarrow> (digit n d = 1) \<noteq> bit c d"
      and 2: "\<forall>d. bit k d \<longleftrightarrow> d < 8 \<and> (digit n d = 1 \<or> digit n d = 2 \<and> bit c d)" by (simp_all add: within_bits)
    have "vertex_at c d + step_along n d = vertex_at k d" if "d < N" for d
      using 1[rule_format, of d] 2[rule_format, of d] that assms(1) digit_cases[of n d]
      by (auto simp: vertex_at_def step_along_def)
    moreover have "k < 2 ^ N" unfolding bits_less using 2 n by auto
    ultimately show ?thesis using m by simp
  next
    case None
    then have m: "m = Some (whichNeighbor c n)" "k = (2 ^ N - 1) AND ((c XOR unat (fixed n)) OR (c AND unat (floating n)))"
      using push by (simp_all add: pushIndex_def neighborTargetIndex_def)
    have kb: "bit k d \<longleftrightarrow> d < N \<and> (bit c d \<noteq> (d < 8 \<and> digit n d \<noteq> 2) \<or> bit c d \<and> d < 8 \<and> digit n d = 2)" for d
      unfolding m(2) bit_and_iff bit_or_iff bit_xor_iff bit_ones bit_unat bit_fixed bit_floating by blast
    have "\<exists>d < N. d < 8 \<and> digit n d \<noteq> 2 \<and> (digit n d = 1 \<longleftrightarrow> bit c d)"
    proof (rule ccontr)
      assume "\<not> ?thesis"
      then have "withinTreeIndex N c n \<noteq> None"
        by (auto simp: withinTreeIndex_def bit_eq_iff bit_and_iff bit_xor_iff bit_pos bit_fixed_in)
      with None show False by simp
    qed
    then obtain e where e: "e < N" "digit n e \<noteq> 2" "digit n e = 1 \<longleftrightarrow> bit c e" by blast
    have "step_along (whichNeighbor c n) e \<noteq> 0"
      using e digit_cases[of n e] by (auto simp: step_along_def digit_whichNeighbor)
    moreover have "whichNeighbor c n < 3 ^ N" using c n by (intro digits_less) (simp add: digit_whichNeighbor)
    moreover have "vertex_at c d + step_along n d = 2 * step_along (whichNeighbor c n) d + vertex_at k d" if "d < N" for d
      using kb[of d] that assms(1) digit_cases[of n d] by (auto simp: vertex_at_def step_along_def digit_whichNeighbor)
    moreover have "k < 2 ^ N" unfolding bits_less using kb by simp
    ultimately show ?thesis using m(1) e(1) by auto
  qed
  then show "k < 2 ^ N" "d < N \<Longrightarrow> vertex_at c d + step_along n d = 2 * (case m of None \<Rightarrow> 0 | Some m \<Rightarrow> step_along m d) + vertex_at k d"
    "m = Some j \<Longrightarrow> j < 3 ^ N \<and> (\<exists>d < N. step_along j d \<noteq> 0)" by blast+
qed

lemma index_round_trip:
  assumes "N \<le> 8" "s < 3 ^ N"
  shows "fromPosAndFloating (pos s) (floating s) = s"
proof (rule digits_eqI)
  fix d
  have "digit s d = 0" if "8 \<le> d" using digit_high[OF assms(2)] that assms(1) by simp
  then show "digit (fromPosAndFloating (pos s) (floating s)) d = digit s d"
    using digit_cases[of s d] by (cases "d < 8") (auto simp: digit_fromPosAndFloating bit_floating bit_pos)
qed

section \<open>The tables are built\<close>

lemma push_back_all:
  "length out + length xs \<le> cap \<Longrightarrow> foldE (\<lambda>out x. push_back cap x out) out xs = Inr (out @ xs)"
  by (induction xs arbitrary: out) (simp_all add: push_back_def)

lemma push_all_eq: "length xs \<le> cap \<Longrightarrow> push_all cap xs = Inr xs"
  using push_back_all[of "[]" xs cap] by (simp add: push_all_def)

definition chosen :: "('a \<Rightarrow> 'b option) \<Rightarrow> 'a list \<Rightarrow> ('a \<times> 'b) list" where
  "chosen f xs = map (\<lambda>x. (x, the (f x))) (filter (\<lambda>x. f x \<noteq> None) xs)"

lemma push_some_eq:
  assumes "length (filter (\<lambda>x. f x \<noteq> None) xs) \<le> cap"
  shows "push_some cap f xs = Inr (chosen f xs)"
proof -
  have "length out + length (filter (\<lambda>x. f x \<noteq> None) xs) \<le> cap \<Longrightarrow>
      foldE (\<lambda>out n. case f n of None \<Rightarrow> Inr out | Some p \<Rightarrow> push_back cap (n, p) out) out xs = Inr (out @ chosen f xs)" for out
    by (induction xs arbitrary: out) (auto simp: push_back_def chosen_def split: option.splits)
  from this[of "[]"] assms show ?thesis by (simp add: push_some_def)
qed

lemma contains_corner_digits: "contains_corner i c \<longleftrightarrow> (\<forall>d. digit i d = 2 \<or> digit i d = (if bit c d then 1 else 0))"
proof (induction i c rule: contains_corner.induct)
  case (1 i c)
  show ?case
  proof (cases "i = 0")
    case True
    have "c = 0 \<longleftrightarrow> (\<forall>d. \<not> bit c d)" by (simp add: bit_eq_iff)
    with True show ?thesis by (simp add: contains_corner.simps[of 0])
  next
    case False
    have "(\<forall>d. digit i d = 2 \<or> digit i d = (if bit c d then 1 else 0)) \<longleftrightarrow>
        (digit i 0 = 2 \<or> digit i 0 = (if bit c 0 then 1 else 0))
        \<and> (\<forall>d. digit i (Suc d) = 2 \<or> digit i (Suc d) = (if bit c (Suc d) then 1 else 0))"
      by (rule all_digits)
    with False 1 show ?thesis
      by (auto simp: contains_corner.simps[of i] digit_simps bit_0 bit_Suc odd_iff_mod_2_eq_one)
  qed
qed

lemma getCorner_defined:
  assumes "N \<le> 8" "c < 2 ^ N" "n < 3 ^ N"
  shows "getCorner N c n \<noteq> None \<longleftrightarrow> contains_corner n c"
proof -
  have c: "\<not> bit c d" and n: "digit n d = 0" if "N \<le> d" for d
    using assms(2) that bits_less digit_high[OF assms(3) that] by blast+
  have "getCorner N c n \<noteq> None \<longleftrightarrow> (\<forall>d. (bit (pos n) d \<and> bit (fixed n) d) = (bit c d \<and> bit (fixed n) d))"
    unfolding getCorner_def bit_eq_iff[where 'a=nat] by (simp add: bit_and_iff)
  also have "\<dots> \<longleftrightarrow> contains_corner n c"
    unfolding contains_corner_digits bit_pos bit_fixed
  proof (rule iff_allI)
    fix d
    show "((d < 8 \<and> digit n d = 1) \<and> d < 8 \<and> digit n d \<noteq> 2) = (bit c d \<and> d < 8 \<and> digit n d \<noteq> 2) \<longleftrightarrow>
        (digit n d = 2 \<or> digit n d = (if bit c d then 1 else 0))"
      using c[of d] n[of d] assms(1) digit_cases[of n d] by (cases "N \<le> d") auto
  qed
  finally show ?thesis .
qed

definition corner_counts :: "nat \<Rightarrow> bool" where
  "corner_counts N \<longleftrightarrow> list_all (\<lambda>c. length (filter (\<lambda>n. contains_corner n c) [0..<3 ^ N - 1]) = 2 ^ N - 1) [0..<2 ^ N]"

definition neighbor_counts :: "nat \<Rightarrow> bool" where
  "neighbor_counts N \<longleftrightarrow>
     list_all (\<lambda>s. length (filter (\<lambda>n. contains n s) [0..<3 ^ N - 1]) = 2 ^ (N - dimension s) - 1) [0..<3 ^ N]"

lemma counts: "corner_counts 2" "corner_counts 3" "neighbor_counts 2" "neighbor_counts 3"
  by code_simp+

lemma corner_row_built:
  assumes "N \<le> 8" "corner_counts N" "c < 2 ^ N"
  shows "corner_row N c = Inr (chosen (getCorner N c) [0..<3 ^ N - 1])"
proof -
  have "filter (\<lambda>n. getCorner N c n \<noteq> None) [0..<3 ^ N - 1] = filter (\<lambda>n. contains_corner n c) [0..<3 ^ N - 1]"
    using getCorner_defined[OF assms(1,3)] by (intro filter_cong) auto
  moreover have "length (filter (\<lambda>n. contains_corner n c) [0..<3 ^ N - 1]) = 2 ^ N - 1"
    using assms(2,3) by (simp add: corner_counts_def list_all_iff)
  ultimately have "length (filter (\<lambda>n. getCorner N c n \<noteq> None) [0..<3 ^ N - 1]) = 2 ^ N - 1" by simp
  then show ?thesis by (simp add: corner_row_def push_some_eq assertE_def) (simp add: chosen_def)
qed

lemma neighbor_row_built:
  assumes "neighbor_counts N" "s < 3 ^ N"
  shows "neighbor_row N s = Inr (chosen (getNeighbor N s) [0..<3 ^ N - 1])"
proof -
  have "filter (\<lambda>n. getNeighbor N s n \<noteq> None) [0..<3 ^ N - 1] = filter (\<lambda>n. contains n s) [0..<3 ^ N - 1]"
    by (intro filter_cong) (auto simp: getNeighbor_def)
  moreover have "length (filter (\<lambda>n. contains n s) [0..<3 ^ N - 1]) = 2 ^ (N - dimension s) - 1"
    using assms by (simp add: neighbor_counts_def list_all_iff)
  ultimately have len: "length (filter (\<lambda>n. getNeighbor N s n \<noteq> None) [0..<3 ^ N - 1]) = 2 ^ (N - dimension s) - 1" by simp
  have "(2 :: nat) ^ (N - dimension s) \<le> 2 ^ N" by (rule power_increasing) simp_all
  then have "length (filter (\<lambda>n. getNeighbor N s n \<noteq> None) [0..<3 ^ N - 1]) \<le> 2 ^ N" using len by linarith
  from push_some_eq[OF this] show ?thesis by (simp add: neighbor_row_def assertE_def) (use len in \<open>simp add: chosen_def\<close>)
qed

section \<open>Sums over children\<close>

lemma ex_bits: "\<exists>i :: nat. i < 2 ^ N \<and> (\<forall>d < N. bit i d = P d)" for P :: "nat \<Rightarrow> bool"
proof (induction N arbitrary: P)
  case (Suc N)
  from Suc.IH[of "\<lambda>d. P (Suc d)"] obtain i :: nat where i: "i < 2 ^ N" "\<forall>d < N. bit i d = P (Suc d)" by blast
  have "bit (2 * i + of_bool (P 0)) d = P d" if "d < Suc N" for d
    using i(2) that by (cases d) (auto simp: bit_0 bit_Suc)
  moreover have "2 * i + of_bool (P 0) < 2 ^ Suc N" using i(1) by (cases "P 0") auto
  ultimately show ?case by blast
qed simp

lemma ex_digits: "(\<And>d. f d < 3) \<Longrightarrow> \<exists>j < 3 ^ N. \<forall>d < N. digit j d = f d" for f :: "nat \<Rightarrow> nat"
proof (induction N arbitrary: f)
  case (Suc N)
  from Suc.IH[of "\<lambda>d. f (Suc d)"] Suc.prems obtain j where j: "j < 3 ^ N" "\<forall>d < N. digit j d = f (Suc d)" by blast
  have "digit (3 * j + f 0) d = f d" if "d < Suc N" for d
    using j(2) that Suc.prems[of 0] by (cases d) (auto simp: digit_simps)
  moreover have "3 * j + f 0 < 3 ^ Suc N" using j(1) Suc.prems[of 0] by simp
  ultimately show ?case by blast
qed simp

lemma eq_by_bits: "i < 2 ^ N \<Longrightarrow> i' < 2 ^ N \<Longrightarrow> (\<And>d. d < N \<Longrightarrow> bit i d = bit i' d) \<Longrightarrow> i = i'" for i i' :: nat
  by (rule bit_eqI) (metis bits_less not_le)

lemma eq_by_digits: "j < 3 ^ N \<Longrightarrow> j' < 3 ^ N \<Longrightarrow> (\<And>d. d < N \<Longrightarrow> digit j d = digit j' d) \<Longrightarrow> j = j'"
  by (rule digits_eqI) (metis digit_high not_le)

lemma qef_valid_digits: "N \<le> 8 \<Longrightarrow> qef_valid N i j \<longleftrightarrow> (\<forall>d < N. digit j d = 2 \<or> digit j d = 1 \<or> \<not> bit i d)"
  by (auto simp: qef_valid_def list_all_iff bit_fixed_in bit_pos)

lemma qef_target_digits:
  assumes "N \<le> 8"
  shows "digit (qef_target N i j) d =
    (if d < N then if digit j d = 2 \<or> (digit j d = 1) \<noteq> bit i d then 2 else digit j d else 0)"
proof -
  define F where "F = foldl (\<lambda>(f, p) d. if bit (floating j) d \<or> bit (pos j) d \<noteq> bit i d then (f OR push_bit d 1, p)
            else (f, p OR (pos j AND push_bit d 1))) (0 :: 8 word, 0 :: 8 word)"
  have one: "bit (push_bit e 1 :: 8 word) d \<longleftrightarrow> d = e \<and> d < 8" for d e
    unfolding bit_push_bit_iff by (auto simp: bit_1_iff)
  define C where "C d \<longleftrightarrow> digit j d = 2 \<or> (digit j d = 1) \<noteq> bit i d" for d
  have "n \<le> 8 \<Longrightarrow> (\<forall>d. bit (fst (F [0..<n])) d \<longleftrightarrow> d < n \<and> C d)
      \<and> (\<forall>d. bit (snd (F [0..<n])) d \<longleftrightarrow> d < n \<and> \<not> C d \<and> digit j d = 1)" for n
  proof (induction n)
    case 0
    show ?case by (simp add: F_def)
  next
    case (Suc n)
    obtain f p where fp: "F [0..<n] = (f, p)" by force
    have F: "F [0..<Suc n] = (if C n then (f OR push_bit n 1, p) else (f, p OR (pos j AND push_bit n 1)))"
      using Suc.prems fp by (simp add: F_def C_def bit_floating bit_pos)
    have fd: "\<forall>d. bit f d \<longleftrightarrow> d < n \<and> C d" "\<forall>d. bit p d \<longleftrightarrow> d < n \<and> \<not> C d \<and> digit j d = 1" using Suc fp by simp_all
    have f': "bit (f OR push_bit n 1) d \<longleftrightarrow> bit f d \<or> d = n" for d
      unfolding bit_or_iff one using Suc.prems by auto
    have p': "bit (p OR (pos j AND push_bit n 1)) d \<longleftrightarrow> bit p d \<or> d = n \<and> digit j n = 1" for d
      unfolding bit_or_iff bit_and_iff one bit_pos using Suc.prems by auto
    show ?case unfolding F by (cases "C n") (simp_all only: if_True if_False fst_conv snd_conv f' p' fd less_Suc_eq, blast+)
  qed
  from this[OF assms] have "digit (qef_target N i j) d = (if d < N \<and> C d then 2 else if d < N \<and> digit j d = 1 then 1 else 0)"
    unfolding qef_target_def Let_def F_def[symmetric] by (cases "F [0..<N]") (auto simp: digit_fromPosAndFloating)
  then show ?thesis using digit_cases[of j d] by (auto simp: C_def)
qed

definition sums_into :: "nat \<Rightarrow> nat \<Rightarrow> nat \<times> nat \<Rightarrow> bool" where
  "sums_into N k = (\<lambda>(i, j). qef_valid N i j \<and> qef_target N i j = k)"

definition pairs :: "nat \<Rightarrow> (nat \<times> nat) list" where
  "pairs N = List.product [0..<2 ^ N] [0..<3 ^ N]"

lemma axis_options:
  fixes x y :: nat
  assumes "(if a then 2 else if x = 1 then 0 else 1 :: nat) = (if b then 2 else if y = 1 then 0 else 1)"
    and "(if x = 2 \<or> (x = 1) \<noteq> a then 2 else x) = (if y = 2 \<or> (y = 1) \<noteq> b then 2 else y)"
    and "x = 2 \<or> x = 1 \<or> \<not> a" "y = 2 \<or> y = 1 \<or> \<not> b" "x < 3" "y < 3"
  shows "a = b \<and> x = y"
proof -
  have "x = 0 \<or> x = 1 \<or> x = 2" "y = 0 \<or> y = 1 \<or> y = 2" using assms(5,6) by linarith+
  then show ?thesis using assms(1-4) by (elim disjE; cases a; cases b; simp)
qed

lemma sums_bounded:
  assumes "N \<le> 8"
  shows "length (filter (sums_into N k) (pairs N)) \<le> 3 ^ N"
proof -
  define f where "f i j d = (if bit i d then 2 else if digit j d = 1 then 0 else (1 :: nat))" for i j d :: nat
  define h where "h = (\<lambda>(i, j). SOME m. m < 3 ^ N \<and> (\<forall>d < N. digit m d = f i j d))"
  let ?S = "set (filter (sums_into N k) (pairs N))"
  have h: "h (i, j) < 3 ^ N \<and> (\<forall>d < N. digit (h (i, j)) d = f i j d)" for i j
  proof -
    have "\<exists>m. m < 3 ^ N \<and> (\<forall>d < N. digit m d = f i j d)" using ex_digits[of "f i j" N] by (auto simp: f_def)
    from someI_ex[OF this] show ?thesis by (simp add: h_def)
  qed
  have "inj_on h ?S"
  proof (rule inj_onI)
    fix e e' assume e: "e \<in> ?S" "e' \<in> ?S" "h e = h e'"
    obtain i j i' j' where ij: "e = (i, j)" "e' = (i', j')" by force
    have b: "i < 2 ^ N" "i' < 2 ^ N" "j < 3 ^ N" "j' < 3 ^ N" using e ij by (auto simp: pairs_def)
    have "bit i d = bit i' d \<and> digit j d = digit j' d" if d: "d < N" for d
    proof -
      have "f i j d = f i' j' d" using h[of i j] h[of i' j'] e(3) ij d by metis
      moreover have "digit (qef_target N i j) d = digit (qef_target N i' j') d"
        using e ij by (simp add: sums_into_def)
      moreover have "digit j d = 2 \<or> digit j d = 1 \<or> \<not> bit i d" "digit j' d = 2 \<or> digit j' d = 1 \<or> \<not> bit i' d"
        using e ij d assms by (auto simp: sums_into_def qef_valid_digits)
      ultimately show ?thesis
        using d unfolding f_def qef_target_digits[OF assms] if_P[OF d]
        by (intro axis_options[of "bit i d" "digit j d" "bit i' d" "digit j' d"] digit_less)
    qed
    then show "e = e'" using eq_by_bits[OF b(1,2)] eq_by_digits[OF b(3,4)] ij by simp
  qed
  moreover have "h ` ?S \<subseteq> {..<3 ^ N}" using h by (auto simp: case_prod_beta')
  ultimately have "card ?S \<le> card {..<(3 :: nat) ^ N}" by (rule card_inj_on_le) simp
  moreover have "distinct (filter (sums_into N k) (pairs N))" by (simp add: pairs_def distinct_product)
  ultimately show ?thesis by (simp add: distinct_card[symmetric])
qed

lemma qef_target_less: "N \<le> 8 \<Longrightarrow> qef_target N i j < 3 ^ N"
  by (rule digits_less) (simp add: qef_target_digits)

lemma qef_fold:
  assumes "N \<le> 8"
  shows "length T = 3 ^ N \<Longrightarrow> (\<And>k. k < 3 ^ N \<Longrightarrow> length (T ! k) + length (filter (sums_into N k) xs) \<le> 3 ^ N) \<Longrightarrow>
    foldE (qef_step N) T xs = Inr (map (\<lambda>k. T ! k @ filter (sums_into N k) xs) [0..<3 ^ N])"
proof (induction xs arbitrary: T)
  case Nil
  then show ?case using map_nth[of T] by simp
next
  case (Cons e xs)
  obtain i j where e: "e = (i, j)" by force
  let ?t = "qef_target N i j"
  show ?case
  proof (cases "qef_valid N i j")
    case False
    then have "sums_into N k e = False" for k by (simp add: sums_into_def e)
    with Cons.IH[OF Cons.prems(1)] Cons.prems(2) False show ?thesis by (simp add: qef_step_def e)
  next
    case True
    have t: "?t < 3 ^ N" using qef_target_less[OF assms] .
    let ?T = "T[?t := T ! ?t @ [e]]"
    have into: "sums_into N k e \<longleftrightarrow> k = ?t" for k using True by (auto simp: sums_into_def e)
    have "length (T ! ?t) < 3 ^ N" using Cons.prems(2)[OF t] into[of ?t] by simp
    then have step: "qef_step N T e = Inr ?T" using True t Cons.prems(1) by (simp add: qef_step_def e push_back_def Let_def)
    have "length (?T ! k) + length (filter (sums_into N k) xs) \<le> 3 ^ N" if "k < 3 ^ N" for k
      using Cons.prems(1) Cons.prems(2)[OF that] into[of k] that by (cases "k = ?t") auto
    from Cons.IH[OF _ this] have "foldE (qef_step N) ?T xs = Inr (map (\<lambda>k. ?T ! k @ filter (sums_into N k) xs) [0..<3 ^ N])"
      using Cons.prems(1) by simp
    moreover have "?T ! k @ filter (sums_into N k) xs = T ! k @ filter (sums_into N k) (e # xs)" if "k < 3 ^ N" for k
      using Cons.prems(1) into[of k] that by (cases "k = ?t") auto
    ultimately show ?thesis using step by (simp cong: map_cong)
  qed
qed

lemma mapE_rows: "(\<And>x. x \<in> set xs \<Longrightarrow> f x = Inr (g x)) \<Longrightarrow> mapE f xs = Inr (map g xs)"
  by (rule mapE_Inr)

lemma neighbor_tables_built:
  assumes "N = 2 \<or> N = 3"
  shows "NeighborTables N = Inr \<lparr>pushIndexTable = map (\<lambda>c. map (pushIndex N c) [0..<3 ^ N - 1]) [0..<2 ^ N],
    cornerTable = map (\<lambda>c. chosen (getCorner N c) [0..<3 ^ N - 1]) [0..<2 ^ N],
    neighborTable = map (\<lambda>s. chosen (getNeighbor N s) [0..<3 ^ N - 1]) [0..<3 ^ N],
    qefSumTable = map (\<lambda>k. filter (sums_into N k) (pairs N)) [0..<3 ^ N]\<rparr>"
proof -
  have N: "N \<le> 8" "corner_counts N" "neighbor_counts N" using assms counts by auto
  have "mapE (corner_row N) [0..<2 ^ N] = Inr (map (\<lambda>c. chosen (getCorner N c) [0..<3 ^ N - 1]) [0..<2 ^ N])"
    using N by (intro mapE_rows corner_row_built) auto
  moreover have "mapE (neighbor_row N) [0..<3 ^ N] = Inr (map (\<lambda>s. chosen (getNeighbor N s) [0..<3 ^ N - 1]) [0..<3 ^ N])"
    using N by (intro mapE_rows neighbor_row_built) auto
  moreover have "foldE (qef_step N) (replicate (3 ^ N) []) (List.product [0..<2 ^ N] [0..<3 ^ N])
      = Inr (map (\<lambda>k. filter (sums_into N k) (pairs N)) [0..<3 ^ N])"
    using qef_fold[OF N(1), of "replicate (3 ^ N) []" "pairs N"] sums_bounded[OF N(1)]
    by (simp add: pairs_def cong: map_cong)
  ultimately show ?thesis by (simp add: NeighborTables_def)
qed

text \<open>C25: The neighbour tables are built (no assertion fails and no fixed capacity is exceeded) and
  describe the grid: the row of a corner lists the neighbours that have this grid point as a corner,
  with its number there; the row of a subspace lists the neighbours that share it, with its number
  there; and going into a child, the table of neighbours names the cell and the child of it that is
  one step away, which is a child of the same cell when no neighbour is named.\<close>

theorem neighbor_tables_are_geometry:
  assumes "N = 2 \<or> N = 3" "c < 2 ^ N" "s < 3 ^ N" "n < 3 ^ N - 1"
  shows "\<exists>t. NeighborTables N = Inr t
    \<and> ((n, k) \<in> set (cornerTable t ! c) \<longleftrightarrow> k < 2 ^ N \<and> (\<forall>d < N. vertex_at c d = step_along n d + vertex_at k d))
    \<and> ((n, u) \<in> set (neighborTable t ! s) \<longleftrightarrow> u < 3 ^ N \<and> (\<forall>d < N. middle s d = 2 * step_along n d + middle u d))
    \<and> (case pushIndexTable t ! c ! n of (m, k) \<Rightarrow> k < 2 ^ N
        \<and> (\<forall>d < N. vertex_at c d + step_along n d = 2 * (case m of None \<Rightarrow> 0 | Some m \<Rightarrow> step_along m d) + vertex_at k d))"
proof -
  have N: "N \<le> 8" and n: "n < 3 ^ N" using assms(1,4) by auto
  define t where "t = \<lparr>pushIndexTable = map (\<lambda>c. map (pushIndex N c) [0..<3 ^ N - 1]) [0..<2 ^ N],
    cornerTable = map (\<lambda>c. chosen (getCorner N c) [0..<3 ^ N - 1]) [0..<2 ^ N],
    neighborTable = map (\<lambda>s. chosen (getNeighbor N s) [0..<3 ^ N - 1]) [0..<3 ^ N],
    qefSumTable = map (\<lambda>k. filter (sums_into N k) (pairs N)) [0..<3 ^ N]\<rparr>"
  have built: "NeighborTables N = Inr t" unfolding t_def by (rule neighbor_tables_built[OF assms(1)])
  have rows: "pushIndexTable t ! c ! n = pushIndex N c n" "cornerTable t ! c = chosen (getCorner N c) [0..<3 ^ N - 1]"
    "neighborTable t ! s = chosen (getNeighbor N s) [0..<3 ^ N - 1]"
    using assms(2-4) by (simp_all add: t_def)
  have row: "(n, k) \<in> set (chosen f [0..<3 ^ N - 1]) \<longleftrightarrow> f n = Some k" for f :: "nat \<Rightarrow> nat option" and k
    using assms(4) by (auto simp: chosen_def image_iff)
  obtain m j where mj: "pushIndex N c n = (m, j)" by force
  have "case pushIndexTable t ! c ! n of (m, k) \<Rightarrow> k < 2 ^ N
        \<and> (\<forall>d < N. vertex_at c d + step_along n d = 2 * (case m of None \<Rightarrow> 0 | Some m \<Rightarrow> step_along m d) + vertex_at k d)"
    using push_geometry(1,2)[OF N assms(2) n mj] by (simp add: rows mj)
  then show ?thesis
    using built by (intro exI[of _ t] conjI) (simp_all only: rows(2,3) row corner_geometry[OF N assms(2) n] neighbor_geometry[OF N assms(3) n])
qed

theorem neighbor_tables_are_geometry_witness:
  "\<exists>t. NeighborTables 2 = Inr t \<and> (0, 3) \<in> set (cornerTable t ! 0)"
proof -
  have "vertex_at 0 0 = step_along 0 0 + vertex_at 3 0" "vertex_at 0 1 = step_along 0 1 + vertex_at 3 1" by code_simp+
  then have "\<forall>d < 2. vertex_at 0 d = step_along 0 d + vertex_at 3 d" using less_2_cases by fastforce
  moreover obtain t where "NeighborTables 2 = Inr t"
    "(0, 3) \<in> set (cornerTable t ! 0) \<longleftrightarrow> 3 < (2 :: nat) ^ 2 \<and> (\<forall>d < 2. vertex_at 0 d = step_along 0 d + vertex_at 3 d)"
    using neighbor_tables_are_geometry[of 2 0 0 0 3 0] by auto
  ultimately show ?thesis by auto
qed

definition at_place :: "nat \<Rightarrow> (nat \<Rightarrow> int) \<Rightarrow> nat \<times> nat \<Rightarrow> bool" where
  "at_place N q = (\<lambda>(i, j). list_all (\<lambda>d. q d = 2 * vertex_at i d + middle j d) [0..<N])"

lemma filter_one: "distinct xs \<Longrightarrow> e \<in> set xs \<Longrightarrow> (\<And>x. x \<in> set xs \<Longrightarrow> P x \<longleftrightarrow> x = e) \<Longrightarrow> filter P xs = [e]"
proof (induction xs)
  case (Cons x xs)
  show ?case
  proof (cases "x = e")
    case True
    then have "filter P xs = []" using Cons.prems by (auto simp: filter_empty_conv)
    with True Cons.prems(3)[of x] show ?thesis by simp
  next
    case False
    with Cons show ?thesis by simp
  qed
qed simp

lemma place_options:
  fixes x y :: nat
  assumes "2 * (if a then 1 else 0) + (if x = 0 then 0 else if x = 1 then 2 else 1)
      = 2 * (if b then 1 else 0) + (if y = 0 then 0 else if y = 1 then 2 else (1 :: int))"
    and "x = 2 \<or> x = 1 \<or> \<not> a" "y = 2 \<or> y = 1 \<or> \<not> b" "x < 3" "y < 3"
  shows "a = b \<and> x = y"
proof -
  have "x = 0 \<or> x = 1 \<or> x = 2" "y = 0 \<or> y = 1 \<or> y = 2" using assms(4,5) by linarith+
  then show ?thesis using assms(1-3) by (elim disjE; cases a; cases b; simp)
qed

lemma place_unique:
  assumes N: "N \<le> 8" and b: "i < 2 ^ N" "i' < 2 ^ N" "j < 3 ^ N" "j' < 3 ^ N"
    and v: "qef_valid N i j" "qef_valid N i' j'" and q: "at_place N q (i, j)" "at_place N q (i', j')"
  shows "(i, j) = (i', j')"
proof -
  have "bit i d = bit i' d \<and> digit j d = digit j' d" if d: "d < N" for d
  proof -
    have "2 * vertex_at i d + middle j d = 2 * vertex_at i' d + middle j' d" using q d by (simp add: at_place_def list_all_iff)
    moreover have "digit j d = 2 \<or> digit j d = 1 \<or> \<not> bit i d" "digit j' d = 2 \<or> digit j' d = 1 \<or> \<not> bit i' d"
      using v d by (simp_all add: qef_valid_digits[OF N])
    ultimately show ?thesis unfolding vertex_at_def middle_def by (rule place_options[OF _ _ _ digit_less digit_less])
  qed
  then show ?thesis using eq_by_bits[OF b(1,2)] eq_by_digits[OF b(3,4)] by simp
qed

lemma place_taken:
  assumes N: "N \<le> 8" and q: "\<And>d. d < N \<Longrightarrow> 0 \<le> q d \<and> q d \<le> 4"
  shows "\<exists>i j. i < 2 ^ N \<and> j < 3 ^ N \<and> qef_valid N i j \<and> at_place N q (i, j)
    \<and> (\<forall>d < N. digit (qef_target N i j) d = (if q d = 0 then 0 else if q d = 4 then 1 else 2))"
proof -
  obtain i :: nat where i: "i < 2 ^ N" "\<forall>d < N. bit i d = (3 \<le> q d)" using ex_bits[of N "\<lambda>d. 3 \<le> q d"] by blast
  have less3: "(if q d = 0 then 0 else if q d = 2 \<or> q d = 4 then 1 else 2) < (3 :: nat)" for d by simp
  obtain j where j: "j < 3 ^ N" "\<forall>d < N. digit j d = (if q d = 0 then 0 else if q d = 2 \<or> q d = 4 then 1 else 2)"
    using ex_digits[of "\<lambda>d. if q d = 0 then 0 else if q d = 2 \<or> q d = 4 then 1 else 2" N, OF less3] by blast
  have q': "q d = 0 \<or> q d = 1 \<or> q d = 2 \<or> q d = 3 \<or> q d = 4" if "d < N" for d using q[OF that] by linarith
  have "qef_valid N i j" unfolding qef_valid_digits[OF N] using i(2) j(2) q' by auto
  moreover have "at_place N q (i, j)" unfolding at_place_def list_all_iff prod.case
  proof
    fix d assume "d \<in> set [0..<N]"
    then have d: "d < N" by simp
    show "q d = 2 * vertex_at i d + middle j d"
      using q'[OF d] i(2)[rule_format, OF d] j(2)[rule_format, OF d] unfolding vertex_at_def middle_def by (elim disjE) simp_all
  qed
  moreover have "digit (qef_target N i j) d = (if q d = 0 then 0 else if q d = 4 then 1 else 2)" if d: "d < N" for d
    using q'[OF d] i(2)[rule_format, OF d] j(2)[rule_format, OF d] unfolding qef_target_digits[OF N] if_P[OF d] by (elim disjE) simp_all
  ultimately show ?thesis using i(1) j(1) by blast
qed

text \<open>C26: Summing over the children counts every place once. Mark the middles of the subspaces of the
  children of a cell on the grid of a quarter of its size: each of the points between the low and
  the high corner of the cell occurs in the summation tables exactly once, although children share
  most of them, and it occurs in the table of the subspace of the cell that it lies in. The vectors
  of fixed capacity that hold the tables suffice.\<close>

theorem sums_count_places_once:
  assumes "N = 2 \<or> N = 3" "\<forall>d < N. 0 \<le> q d \<and> q d \<le> 4"
  shows "\<exists>t k e. NeighborTables N = Inr t \<and> k < 3 ^ N
    \<and> (\<forall>d < N. digit k d = (if q d = 0 then 0 else if q d = 4 then 1 else 2))
    \<and> (\<forall>k' < 3 ^ N. filter (at_place N q) (qefSumTable t ! k') = (if k' = k then [e] else []))"
proof -
  have N: "N \<le> 8" using assms(1) by auto
  obtain i j where ij: "i < 2 ^ N" "j < 3 ^ N" "qef_valid N i j" "at_place N q (i, j)"
    and k: "\<forall>d < N. digit (qef_target N i j) d = (if q d = 0 then 0 else if q d = 4 then 1 else 2)"
    using place_taken[OF N, of q] assms(2) by blast
  have mem: "e \<in> set (filter (sums_into N k') (pairs N)) \<longleftrightarrow> (\<exists>i' j'. e = (i', j') \<and> i' < 2 ^ N \<and> j' < 3 ^ N
      \<and> qef_valid N i' j' \<and> qef_target N i' j' = k')" for k' e
    by (auto simp: sums_into_def pairs_def)
  have only: "e = (i, j)" if "e \<in> set (filter (sums_into N k') (pairs N))" "at_place N q e" for k' e
    using that place_unique[OF N _ ij(1) _ ij(2) _ ij(3) _ ij(4)] unfolding mem by blast
  have "filter (at_place N q) (filter (sums_into N k') (pairs N)) = (if k' = qef_target N i j then [(i, j)] else [])" for k'
  proof (cases "k' = qef_target N i j")
    case True
    have "filter (at_place N q) (filter (sums_into N k') (pairs N)) = [(i, j)]"
      using True ij only by (intro filter_one) (auto simp: pairs_def distinct_product sums_into_def)
    with True show ?thesis by simp
  next
    case False
    then have "\<not> at_place N q e" if "e \<in> set (filter (sums_into N k') (pairs N))" for e
      using only[OF that] that unfolding mem by blast
    then show ?thesis using False by (simp add: filter_empty_conv)
  qed
  then show ?thesis using neighbor_tables_built[OF assms(1)] k qef_target_less[OF N, of i j] by auto
qed

theorem sums_count_places_once_witness:
  "\<exists>t k e. NeighborTables 2 = Inr t \<and> k < 3 ^ 2 \<and> filter (at_place 2 (\<lambda>d. 2)) (qefSumTable t ! k) = [e]"
  using sums_count_places_once[of 2 "\<lambda>d. 2"] by fastforce

end
