(* ===== verification/ManifoldProps.thy ===== *)
theory ManifoldProps
  imports CellProps
begin

text \<open>
  The sign patterns that the renderers accept as a disk: a flood over the bits of the field finds
  the part that is connected to its lowest bit, so that a field is accepted exactly when its inside
  and its outside are both connected along the boundary of the cell.
\<close>

section \<open>The boundary table\<close>

lemma length_others: "i < n \<Longrightarrow> length (filter (\<lambda>j. i \<noteq> j \<and> P j) [0..<n]) \<le> n - 1"
proof -
  assume i: "i < n"
  have "length (filter (\<lambda>j. i \<noteq> j \<and> P j) [0..<n]) = card (set (filter (\<lambda>j. i \<noteq> j \<and> P j) [0..<n]))"
    by (rule distinct_card[symmetric]) simp
  also have "\<dots> \<le> card ({..<n} - {i})" by (rule card_mono) auto
  finally show ?thesis using i by simp
qed

lemma edge_row: "i < 3 ^ N \<Longrightarrow> push_all (3 ^ N - 1) (filter (\<lambda>j. touches i j \<and> P i j) [0..<3 ^ N])
    = Inr (filter (\<lambda>j. touches i j \<and> P i j) [0..<3 ^ N])"
  using length_others[of i "3 ^ N" "\<lambda>j. (contains i j \<or> contains j i) \<and> P i j"]
  by (intro push_all_eq) (simp add: touches_def conj_assoc)

lemma edge_tables_built:
  "EdgeTables N = Inr \<lparr>subspace_table = map (\<lambda>i. filter (\<lambda>j. touches i j \<and> contains i j) [0..<3 ^ N]) [0..<3 ^ N],
    neighbor_table = map (\<lambda>i. filter (touches i) [0..<3 ^ N]) [0..<3 ^ N],
    boundary_table = map (\<lambda>i. filter (\<lambda>j. touches i j \<and> dimension j < N) [0..<3 ^ N]) [0..<3 ^ N]\<rparr>"
proof -
  have "mapE (\<lambda>i. push_all (3 ^ N - 1) (filter (\<lambda>j. touches i j \<and> P i j) [0..<3 ^ N])) [0..<3 ^ N]
      = Inr (map (\<lambda>i. filter (\<lambda>j. touches i j \<and> P i j) [0..<3 ^ N]) [0..<3 ^ N])" for P
    by (rule mapE_rows) (simp only: edge_row set_upt atLeastLessThan_iff)
  from this[of contains] this[of "\<lambda>i j. True"] this[of "\<lambda>i j. dimension j < N"]
  show ?thesis by (simp add: EdgeTables_def Let_def)
qed

lemma set_boundary: "i < 3 ^ N \<Longrightarrow> set (boundary N i) = {j. j < 3 ^ N \<and> touches i j \<and> dimension j < N}"
  by (auto simp: boundary_def edge_tables_built)

section \<open>Flooding\<close>

definition next_to :: "nat set \<Rightarrow> (nat \<times> nat) set" where
  "next_to S = {(i, j). i \<in> S \<and> j \<in> S \<and> touches i j}"

definition linked :: "nat set \<Rightarrow> bool" where
  "linked S \<longleftrightarrow> S \<noteq> {} \<and> (\<forall>i \<in> S. \<forall>j \<in> S. (i, j) \<in> (next_to S)\<^sup>*)"

lemma next_to_sym: "(i, j) \<in> next_to S \<Longrightarrow> (j, i) \<in> next_to S"
  by (auto simp: next_to_def touches_def)

lemma linked_from:
  assumes "i \<in> S"
  shows "linked S \<longleftrightarrow> (next_to S)\<^sup>* `` {i} = S"
proof -
  have sub: "(next_to S)\<^sup>* `` {i} \<subseteq> S"
  proof
    fix j assume "j \<in> (next_to S)\<^sup>* `` {i}"
    then have "(i, j) \<in> (next_to S)\<^sup>*" by simp
    then show "j \<in> S" using assms by (induction rule: rtrancl_induct) (auto simp: next_to_def)
  qed
  have "sym (next_to S)" by (rule symI) (rule next_to_sym)
  then have backwards: "(i, j) \<in> (next_to S)\<^sup>* \<Longrightarrow> (j, i) \<in> (next_to S)\<^sup>*" for j using sym_rtrancl by (metis symD)
  show ?thesis
  proof
    assume "linked S"
    then show "(next_to S)\<^sup>* `` {i} = S" using sub assms by (auto simp: linked_def)
  next
    assume eq: "(next_to S)\<^sup>* `` {i} = S"
    have "(j, k) \<in> (next_to S)\<^sup>*" if "j \<in> S" "k \<in> S" for j k
      using that backwards[of j] eq by (metis Image_singleton_iff rtrancl_trans)
    with assms show "linked S" by (auto simp: linked_def)
  qed
qed

lemma closed_reach:
  assumes "\<And>x y. x \<in> A \<Longrightarrow> (x, y) \<in> R \<Longrightarrow> y \<in> A"
  shows "R\<^sup>* `` A = A"
proof -
  have "y \<in> A" if "(x, y) \<in> R\<^sup>*" "x \<in> A" for x y using that assms by (induction rule: rtrancl_induct) auto
  then show ?thesis by auto
qed

text \<open>The fields that have only subspaces of the boundary in them.\<close>

definition boundary_field :: "nat \<Rightarrow> 32 word \<Rightarrow> bool" where
  "boundary_field N b \<longleftrightarrow> bits b \<subseteq> {..<3 ^ N - 1}"

lemma dimensions: "list_all (\<lambda>j. dimension j < 2) [0..<8]" "list_all (\<lambda>j. dimension j < 3) [0..<26]"
  by code_simp+

lemma boundary_dimension: "N = 2 \<or> N = 3 \<Longrightarrow> j < 3 ^ N - 1 \<Longrightarrow> dimension j < N"
  using dimensions unfolding list_all_iff by auto

lemma flood_bits:
  assumes N: "N = 2 \<or> N = 3" and b: "boundary_field N b"
  shows "bits new \<subseteq> bits b \<Longrightarrow> bits conn \<subseteq> bits b \<Longrightarrow>
    (\<And>x y. x \<in> bits conn \<Longrightarrow> (x, y) \<in> next_to (bits b) \<Longrightarrow> y \<in> bits conn \<union> bits new) \<Longrightarrow>
    bits (flood N b new conn) = (next_to (bits b))\<^sup>* `` (bits new \<union> bits conn)"
  using b N
proof (induction N b new conn rule: flood.induct)
  case (1 N b new conn)
  note N = 1(6)
  show ?case
  proof (cases "new = 0")
    case True
    have "(next_to (bits b))\<^sup>* `` bits conn = bits conn"
      using 1(4) True by (intro closed_reach) (auto simp: bits_simps)
    with True show ?thesis by (simp add: flood.simps[of N b 0] bits_simps)
  next
    case False
    obtain nx cn where r: "flood_round N b new conn = (nx, cn)" by force
    have B: "bits b \<subseteq> {..<3 ^ N - 1}" using 1(5) by (simp add: boundary_field_def)
    have low: "i < 3 ^ N" if "i \<in> bits new" for i using B 1(2) that by auto
    have cn: "bits cn = bits conn \<union> bits new" using flood_round_bits[of N b new conn] r low by auto
    have dim: "x < 3 ^ N \<and> dimension x < N" if "x \<in> bits b" for x
    proof -
      have x: "x < 3 ^ N - 1" using subsetD[OF B that] by simp
      show ?thesis using boundary_dimension[OF N x] x by simp
    qed
    have "bits b \<inter> set (boundary N i) = {y. (i, y) \<in> next_to (bits b)}" if "i \<in> bits new" for i
      using set_boundary[OF low[OF that]] dim 1(2) that by (auto simp: next_to_def)
    then have nx: "bits nx = next_to (bits b) `` (bits new - bits conn)"
      using flood_round_bits[of N b new conn] r low by auto
    have "bits (flood N b nx cn) = (next_to (bits b))\<^sup>* `` (bits nx \<union> bits cn)"
    proof (rule 1(1)[OF False r[symmetric]])
      show "bits nx \<subseteq> bits b" by (auto simp: nx next_to_def)
      show "bits cn \<subseteq> bits b" using 1(2,3) by (simp add: cn)
      show "y \<in> bits cn \<union> bits nx" if "x \<in> bits cn" "(x, y) \<in> next_to (bits b)" for x y
        using that 1(4)[of x y] unfolding cn nx by auto
    qed (rule 1(5), rule N)
    moreover have "(next_to (bits b))\<^sup>* `` (bits nx \<union> bits cn) = (next_to (bits b))\<^sup>* `` (bits new \<union> bits conn)"
      unfolding nx cn by (auto intro: converse_rtrancl_into_rtrancl)
    ultimately show ?thesis using False r by (simp add: flood.simps[of N b new])
  qed
qed

lemma first_inside_bits:
  assumes "boundary_field N b"
  shows "if bits b = {} then first_inside N b = 0 else \<exists>i \<in> bits b. bits (first_inside N b) = {i}"
proof -
  define F where "F = foldl (\<lambda>new i. if new = 0 \<and> bit b i then push_bit i 1 else new) (0 :: 32 word)"
  have "(F [0..<m] = 0 \<longleftrightarrow> bits b \<inter> {..<m} = {}) \<and> (F [0..<m] \<noteq> 0 \<longrightarrow> (\<exists>i \<in> bits b. bits (F [0..<m]) = {i}))" for m
  proof (induction m)
    case (Suc m)
    have F: "F [0..<Suc m] = (if F [0..<m] = 0 \<and> bit b m then push_bit m 1 else F [0..<m])" by (simp add: F_def)
    have new: "bits (push_bit m 1) = {m}" "push_bit m 1 \<noteq> (0 :: 32 word)" if "bit b m"
    proof -
      have "m < 32" using that bits_below_32[of m b] by (simp add: mem_bits)
      then show "bits (push_bit m 1) = {m}" by (simp add: bits_simps)
      then show "push_bit m 1 \<noteq> (0 :: 32 word)" using bits_simps(1) by (metis insert_not_empty)
    qed
    show ?case
    proof (cases "F [0..<m] = 0 \<and> bit b m")
      case True
      then have "F [0..<Suc m] = push_bit m 1" using F by simp
      with True new show ?thesis by (auto simp: mem_bits less_Suc_eq simp del: push_bit_of_1)
    next
      case False
      then have "F [0..<Suc m] = F [0..<m]" "m \<in> bits b \<longrightarrow> F [0..<m] \<noteq> 0" using F by (auto simp: mem_bits)
      with Suc show ?thesis by (auto simp: less_Suc_eq)
    qed
  qed (simp add: F_def)
  moreover have "bits b \<inter> {..<3 ^ N} = bits b" using assms by (auto simp: boundary_field_def)
  ultimately show ?thesis unfolding first_inside_def F_def[symmetric] by auto
qed

lemma checkBitfield_linked:
  assumes N: "N = 2 \<or> N = 3" and b: "boundary_field N b"
  shows "checkBitfield N b \<longleftrightarrow> linked (bits b)"
proof (cases "bits b = {}")
  case True
  then show ?thesis using first_inside_bits[OF b] by (simp add: checkBitfield_def linked_def)
next
  case False
  then obtain i where i: "i \<in> bits b" "bits (first_inside N b) = {i}" using first_inside_bits[OF b] by auto
  have "first_inside N b \<noteq> 0" using i(2) by (auto simp: bits_simps)
  moreover have "first_inside N b \<noteq> push_bit (3 ^ N) 1 - 1"
  proof
    assume "first_inside N b = push_bit (3 ^ N) 1 - 1"
    moreover have "push_bit (3 ^ N) 1 - 1 = (mask (3 ^ N) :: 32 word)" by (simp add: mask_eq_exp_minus_1)
    moreover have "(1 :: nat) < 3 ^ N" using N by auto
    then have "0 \<in> bits (mask (3 ^ N))" "1 \<in> bits (mask (3 ^ N))" unfolding mem_bits bit_mask_iff by simp_all
    ultimately show False using i(2) by auto
  qed
  moreover have "bits (flood N b (first_inside N b) 0) = (next_to (bits b))\<^sup>* `` {i}"
    using flood_bits[OF N b, of "first_inside N b" 0] i by (simp add: bits_simps)
  moreover have "flood N b (first_inside N b) 0 = b \<longleftrightarrow> bits (flood N b (first_inside N b) 0) = bits b"
    using bits_eqI by auto
  ultimately show ?thesis using linked_from[OF i(1)] by (simp add: checkBitfield_def)
qed

section \<open>The table\<close>

definition outside :: "nat \<Rightarrow> 32 word \<Rightarrow> 32 word" where
  "outside N b = NOT b AND (push_bit 1 (push_bit (3 ^ N - 2) 1) - 1)"

lemma outside_bits:
  assumes "N = 2 \<or> N = 3"
  shows "bits (outside N b) = {..<3 ^ N - 1} - bits b"
proof -
  have eq: "push_bit 1 (push_bit (3 ^ N - 2) 1) - 1 = (mask (3 ^ N - 1) :: 32 word)"
    using assms by (auto simp: mask_eq_exp_minus_1)
  have "(3 :: nat) ^ N - 1 \<le> 32" using assms by auto
  then show ?thesis unfolding outside_def eq set_eq_iff mem_bits bit_and_iff bit_not_iff bit_mask_iff
    by (auto simp: mem_bits)
qed

definition queries :: "nat \<Rightarrow> 32 word list \<Rightarrow> fault + manifold_tables" where
  "queries N qs = foldE (\<lambda>s b. bindE (manifold N b s) (\<lambda>(_, s). Inr s)) (ManifoldTables N) qs"

lemma queries_known: "queries N qs = Inr s \<Longrightarrow> m_size s = 2 ^ (3 ^ N - 2) \<and> m_known s = (\<lambda>_. False)"
  unfolding queries_def
  by (rule foldE_invariant[where I="\<lambda>s. m_size s = 2 ^ (3 ^ N - 2) \<and> m_known s = (\<lambda>_. False)"])
    (auto simp: ManifoldTables_def manifold_def Let_def bindE_Inr_iff split: if_splits)

text \<open>C24: A sign pattern of the boundary of a cell is accepted as manifold, whatever was asked before,
  exactly when it has both signs and, for each sign, any two subspaces of this sign are joined by a
  chain of touching subspaces of the boundary with this sign. The query stays inside the table,
  although this is half as long as there are patterns, and the flood comes to an end.\<close>

theorem manifold_is_two_disks:
  assumes "N = 2 \<or> N = 3" "bits b \<subseteq> {..<3 ^ N - 1}" "queries N qs = Inr s"
  shows "\<exists>s'. manifold N b s = Inr (linked (bits b) \<and> linked ({..<3 ^ N - 1} - bits b), s')"
proof -
  let ?top = "push_bit (3 ^ N - 2) 1 :: 32 word"
  have s: "m_size s = 2 ^ (3 ^ N - 2)" "m_known s = (\<lambda>_. False)" using queries_known[OF assms(3)] by simp_all
  have top: "b AND ?top \<noteq> 0 \<longleftrightarrow> 3 ^ N - 2 \<in> bits b"
    using assms(1) by (auto simp: mem_bits and_exp_eq_0_iff_not_bit)
  have b: "boundary_field N b" "boundary_field N (outside N b)"
    using assms(2) outside_bits[OF assms(1)] by (auto simp: boundary_field_def)
  have "\<not> m_size s \<le> unat (if b AND ?top \<noteq> 0 then outside N b else b)"
  proof -
    have "\<not> bit (if b AND ?top \<noteq> 0 then outside N b else b) d" if "3 ^ N - 2 \<le> d" for d
      using that assms(2) outside_bits[OF assms(1), of b] top by (cases "d = 3 ^ N - 2") (auto simp: mem_bits[symmetric] subset_iff)
    then show ?thesis unfolding s(1) not_le bits_less by simp
  qed
  then show ?thesis
    using checkBitfield_linked[OF assms(1) b(1)] checkBitfield_linked[OF assms(1) b(2)]
    unfolding manifold_def Let_def outside_def[symmetric] outside_bits[OF assms(1)] by (simp add: s(2))
qed

theorem manifold_is_two_disks_witness:
  "\<exists>s'. manifold 2 0x83 (ManifoldTables 2) = Inr (linked (bits 0x83) \<and> linked ({..<3 ^ 2 - 1} - bits 0x83), s')"
proof (rule manifold_is_two_disks)
  have "\<not> bit (0x83 :: 32 word) i" if "8 \<le> i" for i
  proof -
    have "(0x83 :: 32 word) = take_bit 8 0x83" by simp
    then show ?thesis using that by (metis bit_take_bit_iff not_le)
  qed
  then have "i < 8" if "bit (0x83 :: 32 word) i" for i using that not_le by blast
  then show "bits 0x83 \<subseteq> {..<3 ^ 2 - 1}" unfolding bits_def by auto
  show "queries 2 [] = Inr (ManifoldTables 2)" by (simp add: queries_def)
qed simp

end
