(* ===== verification/DerivEval.thy ===== *)
theory DerivEval
  imports Libfive
begin

text \<open>
  The evaluators of derivatives (\<open>src/five/eval/eval_deriv_array.cpp\<close>,
  \<open>src/five/eval/eval_jacobian.cpp\<close>): forward differentiation over a tape. A row of the array of
  derivatives is a matrix of three rows and \<open>N\<close> columns; it is the list of its entries here,
  column by column, so that the entry \<open>(i % 3, i / 3)\<close> of the code is slot \<open>i\<close>. The slots of one
  walk share the values of one point, which is all a single point and the gradient need.
\<close>

section \<open>Clauses\<close>

definition f32_two :: f32 where "f32_two = 0x40000000"

text \<open>One entry of \<open>od\<close>, from the values \<open>ov\<close>, \<open>av\<close>, \<open>bv\<close> and the entries \<open>ad\<close>, \<open>bd\<close>.\<close>

definition deriv_value :: "libm \<Rightarrow> bool \<Rightarrow> opcode \<Rightarrow> f32 \<Rightarrow> f32 \<Rightarrow> f32 \<Rightarrow> f32 \<Rightarrow> f32 \<Rightarrow> fault + f32" where
  "deriv_value lib clear_vars op ov av bv ad bd = (case op of
     OP_ADD \<Rightarrow> Inr (f32_add ad bd)
   | OP_MUL \<Rightarrow> Inr (f32_add (f32_mul bd av) (f32_mul ad bv))
   | OP_MIN \<Rightarrow> Inr (if f32_lt av bv then ad else bd)
   | OP_MAX \<Rightarrow> Inr (if f32_lt av bv then bd else ad)
   | OP_SUB \<Rightarrow> Inr (f32_sub ad bd)
   | OP_DIV \<Rightarrow> Inr (f32_div (f32_sub (f32_mul ad bv) (f32_mul bd av)) (m_array_pow lib bv f32_two))
   | OP_ATAN2 \<Rightarrow> Inr (f32_div (f32_sub (f32_mul ad bv) (f32_mul bd av))
                        (f32_add (m_array_pow lib av f32_two) (m_array_pow lib bv f32_two)))
   | OP_POW \<Rightarrow> Inr (f32_mul ad (f32_mul bv (m_array_pow lib av (f32_sub bv f32_one))))
   | OP_NTH_ROOT \<Rightarrow> Inr (if f32_eq ad 0 then 0
                        else f32_mul ad (f32_div (m_pow lib av (f32_sub (f32_div f32_one bv) f32_one)) bv))
   | OP_MOD \<Rightarrow> Inr ad
   | OP_NANFILL \<Rightarrow> Inr (if f32_isnan av then bd else ad)
   | OP_COMPARE \<Rightarrow> Inr 0
   | OP_SQUARE \<Rightarrow> Inr (f32_mul (f32_mul ad av) f32_two)
   | OP_SQRT \<Rightarrow> Inr (if f32_lt av 0 \<or> f32_eq ad 0 then 0 else f32_div ad (f32_mul f32_two ov))
   | OP_NEG \<Rightarrow> Inr (f32_uminus ad)
   | OP_SIN \<Rightarrow> Inr (f32_mul ad (m_cos lib av))
   | OP_COS \<Rightarrow> Inr (f32_mul ad (f32_uminus (m_sin lib av)))
   | OP_TAN \<Rightarrow> Inr (f32_mul ad (m_array_pow lib (f32_div f32_one (m_cos lib av)) f32_two))
   | OP_ASIN \<Rightarrow> Inr (f32_div ad (f32_sqrt (f32_sub f32_one (m_array_pow lib av f32_two))))
   | OP_ACOS \<Rightarrow> Inr (f32_div ad (f32_uminus (f32_sqrt (f32_sub f32_one (m_array_pow lib av f32_two)))))
   | OP_ATAN \<Rightarrow> Inr (f32_div ad (f32_add (m_array_pow lib av f32_two) f32_one))
   | OP_LOG \<Rightarrow> Inr (f32_div ad av)
   | OP_EXP \<Rightarrow> Inr (f32_mul ad (m_exp lib av))
   | OP_ABS \<Rightarrow> Inr (if f32_lt 0 av then ad else f32_uminus ad)
   | OP_RECIP \<Rightarrow> Inr (f32_div ad (f32_uminus (m_array_pow lib av f32_two)))
   | CONST_VAR \<Rightarrow> Inr (if clear_vars then 0 else ad)
   | _ \<Rightarrow> Inl AssertFailed)"

type_synonym row_derivs = "f32 list list"

text \<open>A clause fills the first \<open>n\<close> slots of its row; \<open>ask j i\<close> is what oracle \<open>j\<close> writes to slot \<open>i\<close>.\<close>

definition deriv_clause ::
    "libm \<Rightarrow> (nat \<Rightarrow> nat \<Rightarrow> f32) \<Rightarrow> bool \<Rightarrow> nat \<Rightarrow> row_values \<Rightarrow> row_derivs \<Rightarrow> clause \<Rightarrow> fault + row_derivs" where
  "deriv_clause lib ask clear_vars n v d k =
     (if k_op k = ORACLE then Inr (d[k_id k := map (ask (k_a k)) [0..<n] @ drop n (d ! k_id k)])
      else bindE (mapE (\<lambda>i. deriv_value lib clear_vars (k_op k) (v ! k_id k) (v ! k_a k) (v ! k_b k)
                             (d ! k_a k ! i) (d ! k_b k ! i)) [0..<n])
             (\<lambda>row. Inr (d[k_id k := row @ drop n (d ! k_id k)])))"

section \<open>The evaluator\<close>

definition set_axis :: "nat \<Rightarrow> nat \<Rightarrow> row_derivs \<Rightarrow> row_derivs" where
  "set_axis r a d = d[r := map (\<lambda>i. if i mod 3 = a then f32_one else d ! r ! i) [0..<length (d ! r)]]"

definition set_axes :: "deck \<Rightarrow> row_derivs \<Rightarrow> row_derivs" where
  "set_axes dk d = set_axis (d_Z dk) 2 (set_axis (d_Y dk) 1 (set_axis (d_X dk) 0 d))"

definition DerivArrayEvaluator :: "nat \<Rightarrow> deck \<Rightarrow> row_derivs" where
  "DerivArrayEvaluator N dk = set_axes dk (replicate (d_num_clauses dk + 1) (replicate (3 * N) 0))"

text \<open>\<open>derivs\<close>: the values first, over the whole tape, and then the derivatives.\<close>

definition derivs ::
    "libm \<Rightarrow> (nat \<Rightarrow> f32) \<Rightarrow> (nat \<Rightarrow> nat \<Rightarrow> f32) \<Rightarrow> bool \<Rightarrow> nat \<Rightarrow> tape \<Rightarrow> row_values \<Rightarrow> row_derivs
     \<Rightarrow> fault + (f32 list \<times> f32) \<times> row_values \<times> row_derivs" where
  "derivs lib oracle ask clear_vars cols tp v d =
     bindE (eval_tape lib oracle tp v) (\<lambda>v.
     bindE (foldE (deriv_clause lib ask clear_vars (3 * cols) v) d (rev (tp_clauses tp))) (\<lambda>d.
       Inr ((take (3 * cols) (d ! tp_root tp), v ! tp_root tp), v, d)))"

definition deriv ::
    "libm \<Rightarrow> (nat \<Rightarrow> f32) \<Rightarrow> (nat \<Rightarrow> nat \<Rightarrow> f32) \<Rightarrow> deck \<Rightarrow> tape \<Rightarrow> f32 \<Rightarrow> f32 \<Rightarrow> f32 \<Rightarrow> row_values \<Rightarrow> row_derivs
     \<Rightarrow> fault + (f32 list \<times> f32) \<times> row_values \<times> row_derivs" where
  "deriv lib oracle ask dk tp x y z v d = derivs lib oracle ask False 1 tp (set_point dk x y z v) d"

text \<open>The entry point: a fresh evaluator, whose first column is set to the point.\<close>

definition libfive_tree_eval_d ::
    "libm \<Rightarrow> build \<Rightarrow> nat \<Rightarrow> (nat \<Rightarrow> f32) \<Rightarrow> (nat \<Rightarrow> nat \<Rightarrow> f32) \<Rightarrow> handle \<Rightarrow> f32 \<Rightarrow> f32 \<Rightarrow> f32 \<Rightarrow> cache
     \<Rightarrow> fault + (f32 \<times> f32 \<times> f32) \<times> cache" where
  "libfive_tree_eval_d lib opn N oracle_value oracle_deriv h px py pz c =
     bindE (the_tree h) (\<lambda>t.
     bindE (Deck opn t c) (\<lambda>(d, c).
     bindE (deriv lib (\<lambda>j. oracle_value (d_oracles d ! j)) (\<lambda>j i. oracle_deriv (d_oracles d ! j) i) d (d_tape d) px py pz
              (ArrayEvaluator d (\<lambda>_. None)) (DerivArrayEvaluator N d))
       (\<lambda>((ds, _), _). Inr ((ds ! 0, ds ! 1, ds ! 2), c))))"

text \<open>\<open>getAmbiguousDerivs\<close> of one point: the equal branches of some minimum or maximum have
  different derivatives.\<close>

definition getAmbiguousDerivs :: "(nat \<Rightarrow> bool) \<Rightarrow> tape \<Rightarrow> row_values \<Rightarrow> row_derivs \<Rightarrow> bool" where
  "getAmbiguousDerivs checkAmbiguous tp v d =
     foldl (\<lambda>ambig k.
        if k_op k = ORACLE then ambig \<or> checkAmbiguous (k_a k)
        else if k_op k = OP_MIN \<or> k_op k = OP_MAX then
          ambig \<or> f32_eq (v ! k_a k) (v ! k_b k) \<and> list_ex (\<lambda>i. \<not> f32_eq (d ! k_a k ! i) (d ! k_b k ! i)) [0..<3]
        else ambig) False (rev (tp_clauses tp))"

section \<open>The gradient\<close>

text \<open>\<open>deck->vars.left\<close>: the variables in the order of their rows.\<close>

definition vars_left :: "deck \<Rightarrow> (nat \<times> nat) list" where
  "vars_left dk = sort_key fst (d_vars dk)"

record gradient_state =
  g_j :: "f32 list"
  g_values :: row_values
  g_derivs :: row_derivs
  g_remap :: "nat list"
  g_index :: nat

text \<open>The function \<open>run\<close> of the code: evaluate the variables that were loaded, and clear the array.\<close>

definition flush :: "libm \<Rightarrow> (nat \<Rightarrow> f32) \<Rightarrow> (nat \<Rightarrow> nat \<Rightarrow> f32) \<Rightarrow> tape \<Rightarrow> gradient_state \<Rightarrow> fault + gradient_state" where
  "flush lib oracle ask tp s =
     bindE (if g_remap s = [] then Inr s
            else bindE (derivs lib oracle ask True ((length (g_remap s) + 2) div 3) tp (g_values s) (g_derivs s))
              (\<lambda>((ds, _), v, d).
                Inr (s\<lparr>g_j := foldl (\<lambda>j i. j[g_remap s ! i := ds ! i]) (g_j s) [0..<length (g_remap s)],
                       g_values := v, g_derivs := d, g_remap := []\<rparr>)))
       (\<lambda>s. Inr (s\<lparr>g_derivs := map (map (\<lambda>_. 0)) (g_derivs s)\<rparr>))"

definition load_var ::
    "libm \<Rightarrow> (nat \<Rightarrow> f32) \<Rightarrow> (nat \<Rightarrow> nat \<Rightarrow> f32) \<Rightarrow> nat \<Rightarrow> tape \<Rightarrow> gradient_state \<Rightarrow> nat \<times> nat \<Rightarrow> fault + gradient_state" where
  "load_var lib oracle ask N tp s = (\<lambda>(r, t).
     let slot = length (g_remap s);
         s = s\<lparr>g_derivs := (g_derivs s)[r := (g_derivs s ! r)[slot := f32_one]],
               g_remap := g_remap s @ [g_index s], g_index := Suc (g_index s)\<rparr>
     in if length (g_remap s) = 3 * N then flush lib oracle ask tp s else Inr s)"

definition gradient ::
    "libm \<Rightarrow> (nat \<Rightarrow> f32) \<Rightarrow> (nat \<Rightarrow> nat \<Rightarrow> f32) \<Rightarrow> nat \<Rightarrow> deck \<Rightarrow> tape \<Rightarrow> f32 \<Rightarrow> f32 \<Rightarrow> f32 \<Rightarrow> row_values \<Rightarrow> row_derivs
     \<Rightarrow> fault + (nat \<times> f32) list \<times> row_values \<times> row_derivs" where
  "gradient lib oracle ask N dk tp x y z v d =
     bindE (flush lib oracle ask tp \<lparr>g_j = replicate (length (d_vars dk)) 0, g_values = set_point dk x y z v,
              g_derivs = d, g_remap = [], g_index = 0\<rparr>) (\<lambda>s.
     bindE (foldE (load_var lib oracle ask N tp) s (vars_left dk)) (\<lambda>s.
     bindE (flush lib oracle ask tp s) (\<lambda>s.
       Inr (zip (map snd (vars_left dk)) (g_j s), g_values s, set_axes dk (g_derivs s)))))"

end
