(* ===== verification/Solver.thy ===== *)
theory Solver
  imports DerivEval
begin

text \<open>
  The root finder (\<open>src/five/solve/solver.cpp\<close>): it moves the free variables of a tree against
  the gradient until the value of the tree at a point is nearly zero, with a backtracking search
  for the length of each step.
\<close>

section \<open>Double precision\<close>

text \<open>The code adds squares and takes a half in double precision. What \<open>pow\<close> returns for a square
  is the parameter \<open>sq\<close>; the half of a float is exact in double precision.\<close>

definition f64_pack :: "bool \<Rightarrow> int \<Rightarrow> int \<Rightarrow> f64" where
  "f64_pack neg m e = word_of_int (round_pos 52 (- 1074) 0x7FF0000000000000 m e + (if neg then 2 ^ 63 else 0))"

definition f64_add :: "f64 \<Rightarrow> f64 \<Rightarrow> f64" where
  "f64_add a b =
     (if f64_isnan a \<or> f64_isnan b then 0x7FF8000000000000
      else if f64_isinf a then (if f64_isinf b \<and> f64_neg a \<noteq> f64_neg b then 0x7FF8000000000000 else a)
      else if f64_isinf b \<or> f64_mag a = 0 \<and> f64_mag b \<noteq> 0 then b
      else if f64_mag a \<noteq> 0 \<and> f64_mag b = 0 then a
      else
        let e = min (f64_exp a) (f64_exp b);
            va = f64_man a * 2 ^ nat (f64_exp a - e) * (if f64_neg a then - 1 else 1);
            vb = f64_man b * 2 ^ nat (f64_exp b - e) * (if f64_neg b then - 1 else 1);
            v = va + vb
        in if v = 0 then (if f64_neg a \<and> f64_neg b then 0x8000000000000000 else 0)
           else f64_pack (v < 0) \<bar>v\<bar> e)"

definition half :: "f32 \<Rightarrow> f64" where
  "half x = (let d = f64_of_f32 x in
     if f64_isnan d \<or> f64_isinf d \<or> f64_mag d = 0 then d else f64_pack (f64_neg d) (f64_man d) (f64_exp d - 1))"

section \<open>One step\<close>

definition EPSILON :: f32 where "EPSILON = 0x358637BD"

type_synonym solution = "(nat \<times> f32) list"

text \<open>\<open>v.second - step * ds.at(v.first)\<close>\<close>

definition moved :: "f32 \<Rightarrow> solution \<Rightarrow> nat \<Rightarrow> f32 \<Rightarrow> f32" where
  "moved step ds t x = f32_sub x (f32_mul step (the (map_of ds t)))"

definition set_vars :: "deck \<Rightarrow> f32 \<Rightarrow> solution \<Rightarrow> solution \<Rightarrow> row_values \<Rightarrow> row_values" where
  "set_vars dk step ds vars v = foldl (\<lambda>v (t, x). snd (setVar dk t (moved step ds t x) v)) v vars"

definition slope_sum :: "(f32 \<Rightarrow> f64) \<Rightarrow> solution \<Rightarrow> f32" where
  "slope_sum sq ds = foldl (\<lambda>d (t, x). f32_of_f64 (f64_add (f64_of_f32 d) (sq x))) 0 ds"

text \<open>The search halves the step until it is accepted; nothing else ends it.\<close>

fun line_search ::
    "nat \<Rightarrow> libm \<Rightarrow> (nat \<Rightarrow> f32) \<Rightarrow> deck \<Rightarrow> tape \<Rightarrow> f32 \<Rightarrow> f32 \<Rightarrow> f32 \<Rightarrow> f32 \<Rightarrow> f32 \<Rightarrow> solution \<Rightarrow> solution \<Rightarrow> f32 \<Rightarrow> row_values
     \<Rightarrow> fault + (bool \<times> f32 \<times> solution) \<times> row_values" where
  "line_search 0 lib oracle dk tp px py pz r slope ds vars step v = Inl OutOfFuel"
| "line_search (Suc fuel) lib oracle dk tp px py pz r slope ds vars step v =
     bindE (array_value lib oracle dk tp px py pz (set_vars dk step ds vars v)) (\<lambda>(r', v).
       let diff = f32_sub r r' in
       if f64_le (half slope) (f64_of_f32 (f32_div diff step)) \<or> f32_lt (f32_abs diff) EPSILON
          \<or> f32_lt slope EPSILON \<or> f32_lt r' EPSILON
       then Inr ((f32_lt (f32_abs diff) EPSILON, r', map (\<lambda>(t, x). (t, moved step ds t x)) vars), v)
       else line_search fuel lib oracle dk tp px py pz r slope ds vars (f32_div step f32_two) v)"

section \<open>The loop\<close>

record search =
  s_r :: f32
  s_converged :: bool
  s_ds :: solution
  s_vars :: solution
  s_values :: row_values
  s_derivs :: row_derivs

definition update_ds :: "solution \<Rightarrow> solution \<Rightarrow> solution" where
  "update_ds g ds = map (\<lambda>(t, x). (t, case map_of g t of Some y \<Rightarrow> y | None \<Rightarrow> x)) ds"

text \<open>\<open>gas\<close> is an \<open>unsigned\<close> that each round counts down before it starts, and that stops the loop at
  zero: \<open>rounds\<close> is the number of rounds it allows, the value of \<open>gas - 1\<close> modulo \<open>2 ^ 32\<close>.\<close>

fun search_loop ::
    "nat \<Rightarrow> nat \<Rightarrow> libm \<Rightarrow> (f32 \<Rightarrow> f64) \<Rightarrow> (nat \<Rightarrow> f32) \<Rightarrow> (nat \<Rightarrow> nat \<Rightarrow> f32) \<Rightarrow> nat \<Rightarrow> deck \<Rightarrow> tape \<Rightarrow> f32 \<Rightarrow> f32 \<Rightarrow> f32 \<Rightarrow> search
     \<Rightarrow> fault + search" where
  "search_loop 0 fuel lib sq oracle ask N dk tp px py pz s = Inr s"
| "search_loop (Suc rounds) fuel lib sq oracle ask N dk tp px py pz s =
     (if s_converged s \<or> \<not> f32_le EPSILON (f32_abs (s_r s)) then Inr s
      else bindE (gradient lib oracle ask N dk tp px py pz (s_values s) (s_derivs s)) (\<lambda>(g, v, d).
        let ds = update_ds g (s_ds s);
            s = s\<lparr>s_ds := ds, s_values := v, s_derivs := d\<rparr>
        in if list_all (\<lambda>(t, x). f32_lt (f32_abs x) EPSILON) ds then Inr s
           else
             let slope = slope_sum sq ds in
             bindE (line_search fuel lib oracle dk tp px py pz (s_r s) slope ds (s_vars s) (f32_div (s_r s) slope) v)
               (\<lambda>((converged, r, vars), v).
                 search_loop rounds fuel lib sq oracle ask N dk tp px py pz
                   (s\<lparr>s_converged := converged, s_r := r, s_vars := vars, s_values := v\<rparr>))))"

section \<open>Finding a root\<close>

text \<open>The static \<open>findRoot\<close>, the one for an evaluator, which loads the variables and drops the masked
  ones, and the one for a tree.\<close>

definition find_root ::
    "nat \<Rightarrow> libm \<Rightarrow> (f32 \<Rightarrow> f64) \<Rightarrow> (nat \<Rightarrow> f32) \<Rightarrow> (nat \<Rightarrow> nat \<Rightarrow> f32) \<Rightarrow> nat \<Rightarrow> deck \<Rightarrow> tape \<Rightarrow> f32 \<Rightarrow> f32 \<Rightarrow> f32
     \<Rightarrow> solution \<Rightarrow> 32 word \<Rightarrow> row_values \<Rightarrow> row_derivs \<Rightarrow> fault + f32 \<times> solution" where
  "find_root fuel lib sq oracle ask N dk tp px py pz vars gas v d =
     bindE (array_value lib oracle dk tp px py pz v) (\<lambda>(r, v).
     bindE (search_loop (unat (gas - 1)) fuel lib sq oracle ask N dk tp px py pz
              \<lparr>s_r = r, s_converged = False, s_ds = map (\<lambda>(t, x). (t, 0)) vars, s_vars = vars,
               s_values = v, s_derivs = d\<rparr>)
       (\<lambda>s. Inr (s_r s, s_vars s)))"

definition findRoot_evaluator ::
    "nat \<Rightarrow> libm \<Rightarrow> (f32 \<Rightarrow> f64) \<Rightarrow> (nat \<Rightarrow> f32) \<Rightarrow> (nat \<Rightarrow> nat \<Rightarrow> f32) \<Rightarrow> nat \<Rightarrow> deck \<Rightarrow> tape \<Rightarrow> solution \<Rightarrow> f32 \<Rightarrow> f32 \<Rightarrow> f32
     \<Rightarrow> nat list \<Rightarrow> 32 word \<Rightarrow> row_values \<Rightarrow> row_derivs \<Rightarrow> fault + f32 \<times> solution" where
  "findRoot_evaluator fuel lib sq oracle ask N dk tp vars px py pz masked gas v d =
     (let v = foldl (\<lambda>v (t, x). snd (setVar dk t x v)) v vars;
          vars = filter (\<lambda>(t, x). t \<notin> set masked) vars
      in find_root fuel lib sq oracle ask N dk tp px py pz vars gas v d)"

definition findRoot ::
    "nat \<Rightarrow> libm \<Rightarrow> (f32 \<Rightarrow> f64) \<Rightarrow> build \<Rightarrow> (nat \<Rightarrow> f32) \<Rightarrow> (nat \<Rightarrow> nat \<Rightarrow> f32) \<Rightarrow> nat \<Rightarrow> nat \<Rightarrow> solution \<Rightarrow> f32 \<Rightarrow> f32 \<Rightarrow> f32
     \<Rightarrow> nat list \<Rightarrow> 32 word \<Rightarrow> cache \<Rightarrow> fault + (f32 \<times> solution) \<times> cache" where
  "findRoot fuel lib sq opn oracle ask N t vars px py pz masked gas c =
     bindE (Deck opn t c) (\<lambda>(d, c).
     bindE (findRoot_evaluator fuel lib sq (\<lambda>j. oracle (d_oracles d ! j)) (\<lambda>j. ask (d_oracles d ! j)) N d (d_tape d)
              vars px py pz masked gas (ArrayEvaluator d (map_of vars)) (DerivArrayEvaluator N d)) (\<lambda>out. Inr (out, c)))"

end
