(* ===== verification/DerivWalk.thy ===== *)
theory DerivWalk
  imports DerivEval RegionProps Libfive
begin

text \<open>
  The walk for derivatives, one slot at a time: the derivative of an expression by recursion, the
  walk of a single slot as a machine on values and derivatives together, and that the array of
  derivatives holds the derivatives of the nodes.
\<close>

section \<open>Derivatives of expressions\<close>

definition apply_deriv :: "libm \<Rightarrow> bool \<Rightarrow> opcode \<Rightarrow> f32 \<Rightarrow> f32 \<Rightarrow> f32 \<Rightarrow> f32 \<Rightarrow> f32 \<Rightarrow> f32" where
  "apply_deriv lib clear_vars op ov av bv ad bd =
     (case deriv_value lib clear_vars op ov av bv ad bd of Inl _ \<Rightarrow> 0 | Inr x \<Rightarrow> x)"

text \<open>\<open>seed\<close> gives the derivatives of axes, variables and oracles.\<close>

fun deriv_expr :: "libm \<Rightarrow> bool \<Rightarrow> env \<Rightarrow> (expr \<Rightarrow> f32) \<Rightarrow> expr \<Rightarrow> f32" where
  "deriv_expr lib clear_vars env seed Null = 0"
| "deriv_expr lib clear_vars env seed (Constant v) = 0"
| "deriv_expr lib clear_vars env seed (Free p) = seed (Free p)"
| "deriv_expr lib clear_vars env seed (Oracle p) = seed (Oracle p)"
| "deriv_expr lib clear_vars env seed (Apply op l r) =
     (if op = VAR_X \<or> op = VAR_Y \<or> op = VAR_Z then seed (Apply op Null Null)
      else apply_deriv lib clear_vars op (eval_expr lib env (Apply op l r)) (eval_expr lib env l) (eval_expr lib env r)
             (deriv_expr lib clear_vars env seed l) (deriv_expr lib clear_vars env seed r))"

lemma deriv_value_unary: "args op = 1 \<Longrightarrow> deriv_value lib cl op ov av bv ad bd = deriv_value lib cl op ov av bv' ad bd'"
  by (cases op) (simp_all add: args_def deriv_value_def)

lemma deriv_value_operates: "operates op \<Longrightarrow> args op \<noteq> 0 \<Longrightarrow> deriv_value lib cl op ov av bv ad bd = Inr (apply_deriv lib cl op ov av bv ad bd)"
  by (cases op) (simp_all add: args_def operates_def deriv_value_def apply_deriv_def)

section \<open>One slot\<close>

definition slot_clause :: "libm \<Rightarrow> (nat \<Rightarrow> f32) \<Rightarrow> bool \<Rightarrow> row_values \<Rightarrow> f32 list \<Rightarrow> clause \<Rightarrow> fault + f32 list" where
  "slot_clause lib ask clear_vars v s k =
     (if k_op k = ORACLE then Inr (s[k_id k := ask (k_a k)])
      else bindE (deriv_value lib clear_vars (k_op k) (v ! k_id k) (v ! k_a k) (v ! k_b k) (s ! k_a k) (s ! k_b k))
             (\<lambda>x. Inr (s[k_id k := x])))"

definition slope_value :: "libm \<Rightarrow> bool \<Rightarrow> opcode \<Rightarrow> f32 \<times> f32 \<Rightarrow> f32 \<times> f32 \<Rightarrow> fault + f32 \<times> f32" where
  "slope_value lib clear_vars op a b =
     bindE (clause_value lib op (fst a) (fst b)) (\<lambda>o'.
     bindE (deriv_value lib clear_vars op o' (fst a) (fst b) (snd a) (snd b)) (\<lambda>x. Inr (o', x)))"

definition slope_clause ::
    "libm \<Rightarrow> bool \<Rightarrow> (nat \<Rightarrow> f32 \<times> f32) \<Rightarrow> (f32 \<times> f32) list \<Rightarrow> clause \<Rightarrow> fault + (f32 \<times> f32) list" where
  "slope_clause lib clear_vars ask w k =
     (if k_op k = ORACLE then Inr (w[k_id k := ask (k_a k)])
      else bindE (slope_value lib clear_vars (k_op k) (w ! k_a k) (w ! k_b k)) (\<lambda>x. Inr (w[k_id k := x])))"

definition slope_of :: "libm \<Rightarrow> bool \<Rightarrow> env \<Rightarrow> (expr \<Rightarrow> f32) \<Rightarrow> expr \<Rightarrow> f32 \<times> f32" where
  "slope_of lib clear_vars env seed e = (eval_expr lib env e, deriv_expr lib clear_vars env seed e)"

interpretation slope: tape_algebra "slope_clause lib cl ask" "slope_value lib cl" ask "slope_of lib cl env seed"
  for lib cl ask env seed
proof
  show "slope_clause lib cl ask v k = (if k_op k = ORACLE then Inr (v[k_id k := ask (k_a k)])
      else bindE (slope_value lib cl (k_op k) (v ! k_a k) (v ! k_b k)) (\<lambda>x. Inr (v[k_id k := x])))" for v k
    by (simp add: slope_clause_def)
  show "slope_value lib cl op a b = slope_value lib cl op a b'" if "args op = 1" for op a b b'
  proof -
    have "clause_value lib op (fst a) (fst b) = clause_value lib op (fst a) (fst b')" by (rule clause_value_unary[OF that])
    moreover have "deriv_value lib cl op ov (fst a) (fst b) (snd a) (snd b) = deriv_value lib cl op ov (fst a) (fst b') (snd a) (snd b')" for ov
      by (rule deriv_value_unary[OF that])
    ultimately show ?thesis by (simp only: slope_value_def)
  qed
  show "slope_value lib cl op (slope_of lib cl env seed l) (slope_of lib cl env seed r) = Inr (slope_of lib cl env seed (Apply op l r))"
    if "operates op" "args op \<noteq> 0" for op l r
    using that by (auto simp: slope_value_def slope_of_def apply_clause_value deriv_value_operates args_def)
qed

text \<open>Once the values are there, the walk of the slot is the second half of the walk of both.\<close>

lemma slope_step:
  assumes "row_right (clause_value lib) ov v k" "clause_shape rows oracles k" "rows < length v" "length s = length v"
  shows "slope_clause lib cl (\<lambda>j. (ov j, ask j)) (zip v s) k = (case slot_clause lib ask cl v s k of Inl e \<Rightarrow> Inl e | Inr s' \<Rightarrow> Inr (zip v s'))"
proof -
  have upd: "(zip v s)[k_id k := (v ! k_id k, x)] = zip v (s[k_id k := x])" for x
    by (simp add: update_zip)
  have k: "k_id k < length v" "k_op k \<noteq> ORACLE \<Longrightarrow> k_a k < length v \<and> k_b k < length v"
    using assms(2,3) by (auto simp: clause_shape_def)
  show ?thesis
  proof (cases "k_op k = ORACLE")
    case True
    with assms(1) upd show ?thesis by (simp add: slope_clause_def slot_clause_def row_right_def)
  next
    case False
    with assms(1) k assms(4) show ?thesis
      by (cases "deriv_value lib cl (k_op k) (v ! k_id k) (v ! k_a k) (v ! k_b k) (s ! k_a k) (s ! k_b k)")
        (simp_all add: slope_clause_def slot_clause_def slope_value_def row_right_def upd)
  qed
qed

lemma slot_clause_length: "slot_clause lib ask cl v s k = Inr s' \<Longrightarrow> length s' = length s"
  by (auto simp: slot_clause_def bindE_Inr_iff split: if_splits)

lemma slope_walk:
  assumes "rows < length v"
  shows "\<forall>k \<in> set ks. row_right (clause_value lib) ov v k \<and> clause_shape rows oracles k \<Longrightarrow> length s = length v \<Longrightarrow>
    foldE (slope_clause lib cl (\<lambda>j. (ov j, ask j))) (zip v s) ks = Inr w \<Longrightarrow>
    \<exists>s'. foldE (slot_clause lib ask cl v) s ks = Inr s' \<and> w = zip v s' \<and> length s' = length v"
proof (induction ks arbitrary: s)
  case (Cons k ks)
  have step: "slope_clause lib cl (\<lambda>j. (ov j, ask j)) (zip v s) k =
    (case slot_clause lib ask cl v s k of Inl e \<Rightarrow> Inl e | Inr s' \<Rightarrow> Inr (zip v s'))"
    using slope_step[of lib ov v k rows oracles s cl ask] Cons.prems(1,2) assms by simp
  with Cons.prems(3) obtain s1 where s1: "slot_clause lib ask cl v s k = Inr s1"
    by (cases "slot_clause lib ask cl v s k") auto
  with Cons.IH[of s1] Cons.prems step slot_clause_length[OF s1] show ?case by simp
qed simp

section \<open>All slots\<close>

lemma deriv_clause_slots:
  assumes d: "\<forall>i < n. \<exists>s'. slot_clause lib (\<lambda>j. ask j i) cl v (map (\<lambda>r. r ! i) d) k = Inr s'"
    and k: "clause_shape rows oracles k" "rows < length d" and len: "\<forall>r \<in> set d. m = length r" and n: "n \<le> m"
  shows "\<exists>d'. deriv_clause lib ask cl n v d k = Inr d' \<and> length d' = length d \<and> (\<forall>r \<in> set d'. m = length r)
    \<and> (\<forall>i < n. slot_clause lib (\<lambda>j. ask j i) cl v (map (\<lambda>r. r ! i) d) k = Inr (map (\<lambda>r. r ! i) d'))"
proof -
  have rows: "k_id k < length d" "k_op k \<noteq> ORACLE \<Longrightarrow> k_a k < length d \<and> k_b k < length d"
    using k by (auto simp: clause_shape_def)
  have l: "length (d ! k_id k) = m" using len rows(1) by (metis nth_mem)
  have ok: "length (d[k_id k := xs @ drop n (d ! k_id k)]) = length d \<and> (\<forall>r \<in> set (d[k_id k := xs @ drop n (d ! k_id k)]). m = length r)
    \<and> (\<forall>i < n. (map (\<lambda>r. r ! i) d)[k_id k := xs ! i] = map (\<lambda>r. r ! i) (d[k_id k := xs @ drop n (d ! k_id k)]))"
    if "length xs = n" for xs
    using that len l n set_update_subset_insert[of d "k_id k" "xs @ drop n (d ! k_id k)"]
    by (auto simp: map_update nth_append)
  show ?thesis
  proof (cases "k_op k = ORACLE")
    case True
    with ok[of "map (ask (k_a k)) [0..<n]"] show ?thesis by (simp add: deriv_clause_def slot_clause_def)
  next
    case False
    let ?f = "\<lambda>i. deriv_value lib cl (k_op k) (v ! k_id k) (v ! k_a k) (v ! k_b k) (d ! k_a k ! i) (d ! k_b k ! i)"
    have slot: "slot_clause lib (\<lambda>j. ask j i) cl v (map (\<lambda>r. r ! i) d) k
      = bindE (?f i) (\<lambda>x. Inr ((map (\<lambda>r. r ! i) d)[k_id k := x]))" for i
      using False rows by (simp add: slot_clause_def)
    have "\<forall>i < n. \<exists>x. ?f i = Inr x" using d slot by (fastforce simp: bindE_Inr_iff)
    then have "\<forall>i. \<exists>x. i < n \<longrightarrow> ?f i = Inr x" by blast
    then obtain g where g: "\<forall>i. i < n \<longrightarrow> ?f i = Inr (g i)" using choice[of "\<lambda>i x. i < n \<longrightarrow> ?f i = Inr x"] by blast
    then have "mapE ?f [0..<n] = Inr (map g [0..<n])" by (intro mapE_Inr) simp
    with ok[of "map g [0..<n]"] g slot False show ?thesis by (simp add: deriv_clause_def)
  qed
qed

lemma deriv_walk_slots:
  assumes "n \<le> m" "rows < l"
  shows "\<forall>k \<in> set ks. clause_shape rows oracles k \<Longrightarrow> length d = l \<Longrightarrow> \<forall>r \<in> set d. m = length r \<Longrightarrow>
    \<forall>i < n. \<exists>s. foldE (slot_clause lib (\<lambda>j. ask j i) cl v) (map (\<lambda>r. r ! i) d) ks = Inr s \<Longrightarrow>
    \<exists>d'. foldE (deriv_clause lib ask cl n v) d ks = Inr d' \<and> length d' = l \<and> (\<forall>r \<in> set d'. m = length r)
      \<and> (\<forall>i < n. foldE (slot_clause lib (\<lambda>j. ask j i) cl v) (map (\<lambda>r. r ! i) d) ks = Inr (map (\<lambda>r. r ! i) d'))"
proof (induction ks arbitrary: d)
  case (Cons k ks)
  have "\<forall>i < n. \<exists>s'. slot_clause lib (\<lambda>j. ask j i) cl v (map (\<lambda>r. r ! i) d) k = Inr s'"
    using Cons.prems(4) by (fastforce simp: bindE_Inr_iff)
  from deriv_clause_slots[OF this, of rows oracles m] Cons.prems(1-3) assms
  obtain d1 where d1: "deriv_clause lib ask cl n v d k = Inr d1" "length d1 = l" "\<forall>r \<in> set d1. m = length r"
    "\<forall>i < n. slot_clause lib (\<lambda>j. ask j i) cl v (map (\<lambda>r. r ! i) d) k = Inr (map (\<lambda>r. r ! i) d1)" by auto
  with Cons.prems(4) have "\<forall>i < n. \<exists>s. foldE (slot_clause lib (\<lambda>j. ask j i) cl v) (map (\<lambda>r. r ! i) d1) ks = Inr s" by simp
  with Cons.IH[OF _ d1(2,3)] Cons.prems(1) obtain d' where "foldE (deriv_clause lib ask cl n v) d1 ks = Inr d'" "length d' = l"
    "\<forall>r \<in> set d'. m = length r" "\<forall>i < n. foldE (slot_clause lib (\<lambda>j. ask j i) cl v) (map (\<lambda>r. r ! i) d1) ks = Inr (map (\<lambda>r. r ! i) d')" by auto
  with d1 show ?case by simp
qed simp

end
