(* ===== verification/DerivProps.thy ===== *)
theory DerivProps
  imports DerivWalk
begin

text \<open>
  Properties of the evaluators of derivatives: the derivative at a point and the gradient in the
  free variables are the derivatives of the tree, computed by recursion.
\<close>

section \<open>The array of derivatives\<close>

definition seeded :: "cache \<Rightarrow> nat list \<Rightarrow> (expr \<Rightarrow> f32) \<Rightarrow> nat \<Rightarrow> row_derivs \<Rightarrow> bool" where
  "seeded c ts seed i e \<longleftrightarrow> (\<forall>t \<in> set ts. \<forall>n. node_at c t = Some n \<and> t_rank n = 0 \<and> t_op n \<noteq> ORACLE \<longrightarrow>
     e ! row_of ts t ! i = (case tree_of c t of Constant v \<Rightarrow> 0 | a \<Rightarrow> seed a))"

lemma leaf_tree:
  assumes ok: "store_ok c" and n: "node_at c t = Some n" "t_rank n = 0" "t_op n \<noteq> ORACLE"
  shows "t_op n = CONSTANT \<and> tree_of c t = Constant (t_value n) \<or> t_op n = VAR_FREE \<and> tree_of c t = Free t
    \<or> t_op n \<in> {VAR_X, VAR_Y, VAR_Z} \<and> tree_of c t = Apply (t_op n) Null Null"
  using rank_zero_leaf(1,2)[OF ok n(1)] n(2,3) node_args[OF ok n(1)] tree_of_0[OF ok]
  by (auto simp: tree_of_node[OF ok n(1)] args_ok_def arity_ok_def)

lemma seeded_slope:
  assumes "store_ok c" "node_at c t = Some n" "t_rank n = 0" "t_op n \<noteq> ORACLE"
  shows "deriv_expr lib cl env seed (tree_of c t) = (case tree_of c t of Constant v \<Rightarrow> 0 | a \<Rightarrow> seed a)"
  using leaf_tree[OF assms] by auto

lemma deck_derivs:
  assumes ok: "store_ok c" and dm: "deck_made c root ts d c' clauses x y z"
    and v: "eval_tape lib (\<lambda>j. ov (d_oracles d ! j)) (d_tape d) v0 = Inr v" "rows_ok (eval_expr lib env) c ts ts v" "length v0 = d_num_clauses d + 1"
    and env: "\<And>t. e_oracle env t = ov (oracle_of c t)"
    and e: "length e = d_num_clauses d + 1" "\<forall>r \<in> set e. m = length r" "3 * cols \<le> m"
    and seed: "\<And>i. i < 3 * cols \<Longrightarrow> seeded c ts (seed i) i e"
    and orc: "\<And>i xs t ys. i < 3 * cols \<Longrightarrow> ts = xs @ t # ys \<Longrightarrow> op_of c t = ORACLE \<Longrightarrow> seed i (Oracle t) = ask (length (oracle_list c xs)) i"
  shows "\<exists>e'. derivs lib (\<lambda>j. ov (d_oracles d ! j)) ask cl cols (d_tape d) v0 e
      = Inr ((map (\<lambda>i. deriv_expr lib cl env (seed i) (tree_of c root)) [0..<3 * cols], eval_expr lib env (tree_of c root)), v, e')
    \<and> length e' = d_num_clauses d + 1 \<and> (\<forall>r \<in> set e'. m = length r)"
proof -
  let ?ks = "tp_clauses (d_tape d)" and ?rows = "d_num_clauses d" and ?ov = "\<lambda>j. ov (d_oracles d ! j)"
  note D = dm[unfolded deck_made_def]
  have ts: "distinct ts" "0 \<notin> set ts" "child_first c ts" "\<forall>t \<in> set ts. live c t" using D by blast+
  have tp: "?ks = tape_of c ts [] ts" "tp_root (d_tape d) = 1" "row_of ts root = 1" "root \<in> set ts" using D by blast+
  have shape: "tape_shape ?rows (length (d_oracles d)) ?ks" using deck_tape_ok[OF ok dm] by (simp add: tape_ok_def)
  have "?rows < length v0" using v(3) by simp
  note W = point.walk_rows[OF shape this v(1)[unfolded eval_tape_def]]
  have len: "length v = ?rows + 1" using W v(3) by simp
  have right: "\<forall>k \<in> set (rev ?ks). row_right (clause_value lib) ?ov v k \<and> clause_shape ?rows (length (d_oracles d)) k"
    using W shape by (simp add: tape_shape_def)
  have row: "row_of ts t < length v" if "t \<in> set ts" for t
    using D that len unfolding rows_distinct_def by (metis (no_types, lifting))
  have slot: "\<exists>s'. foldE (slot_clause lib (\<lambda>j. ask j i) cl v) (map (\<lambda>r. r ! i) e) (rev ?ks) = Inr s'
      \<and> s' ! 1 = deriv_expr lib cl env (seed i) (tree_of c root)" if i: "i < 3 * cols" for i
  proof -
    let ?s = "map (\<lambda>r. r ! i) e" and ?res = "slope_of lib cl env (seed i)"
    have s: "length ?s = length v" using e(1) len by simp
    have "leaves_ok ?res c ts (zip v ?s)"
      unfolding leaves_ok_def
    proof (intro ballI allI impI)
      fix t n assume t: "t \<in> set ts" "node_at c t = Some n \<and> t_rank n = 0 \<and> t_op n \<noteq> ORACLE"
      then have "e ! row_of ts t ! i = deriv_expr lib cl env (seed i) (tree_of c t)"
        using seed[OF i] seeded_slope[OF ok, of t n] by (simp add: seeded_def)
      then show "zip v ?s ! row_of ts t = ?res (tree_of c t)"
        using v(2) t(1) row[OF t(1)] e(1) len by (simp add: slope_of_def rows_ok_def)
    qed
    moreover have "rows_ok ?res c ts [] (zip v ?s)" using v(2) s by (simp add: rows_ok_def)
    moreover have "?res (Oracle t) = (?ov (length (oracle_list c xs)), ask (length (oracle_list c xs)) i)"
      if "ts = xs @ t # ys" "op_of c t = ORACLE" for xs t ys
      using orc[OF i that] oracle_index[OF that] D env by (simp add: slope_of_def)
    ultimately have "\<exists>w. foldE (slope_clause lib cl (\<lambda>j. (?ov j, ask j i))) (zip v ?s) (rev (tape_of c ts [] ts)) = Inr w
        \<and> rows_ok ?res c ts ts w \<and> length w = length (zip v ?s)"
      using slope.eval_all[OF ok ts, of lib cl env "seed i" "zip v ?s" "\<lambda>j. (?ov j, ask j i)" "[]" ts "zip v ?s"] by blast
    then obtain w where w: "foldE (slope_clause lib cl (\<lambda>j. (?ov j, ask j i))) (zip v ?s) (rev ?ks) = Inr w" "rows_ok ?res c ts ts w"
      unfolding tp(1) by blast
    from slope_walk[OF _ right s w(1)] len obtain s' where s': "foldE (slot_clause lib (\<lambda>j. ask j i) cl v) ?s (rev ?ks) = Inr s'"
      "w = zip v s'" "length s' = length v" by auto
    have "w ! 1 = ?res (tree_of c root)" using w(2) tp by (metis rows_ok_def)
    with s' row[OF tp(4)] tp(3) show ?thesis by (auto simp: slope_of_def)
  qed
  have "\<forall>k \<in> set (rev ?ks). clause_shape ?rows (length (d_oracles d)) k" using right by blast
  moreover have "\<forall>i < 3 * cols. \<exists>s. foldE (slot_clause lib (\<lambda>j. ask j i) cl v) (map (\<lambda>r. r ! i) e) (rev ?ks) = Inr s"
    using slot by blast
  moreover have "?rows < ?rows + 1" by simp
  ultimately obtain e' where
    e': "foldE (deriv_clause lib ask cl (3 * cols) v) e (rev ?ks) = Inr e'" "length e' = ?rows + 1" "\<forall>r \<in> set e'. m = length r"
    "\<forall>i < 3 * cols. foldE (slot_clause lib (\<lambda>j. ask j i) cl v) (map (\<lambda>r. r ! i) e) (rev ?ks) = Inr (map (\<lambda>r. r ! i) e')"
    using deriv_walk_slots[OF e(3) _ _ e(1,2), where ks = "rev ?ks" and oracles = "length (d_oracles d)" and lib = lib and ask = ask and cl = cl and v = v] by blast
  have one: "1 < length e'" using row[OF tp(4)] tp(3) len e'(2) by simp
  then have m: "length (e' ! 1) = m" using e'(3) by (metis nth_mem)
  have "e' ! 1 ! i = deriv_expr lib cl env (seed i) (tree_of c root)" if i: "i < 3 * cols" for i
  proof -
    obtain s' where "foldE (slot_clause lib (\<lambda>j. ask j i) cl v) (map (\<lambda>r. r ! i) e) (rev ?ks) = Inr s'"
      "s' ! 1 = deriv_expr lib cl env (seed i) (tree_of c root)" using slot[OF i] by blast
    moreover from this(1) have "s' = map (\<lambda>r. r ! i) e'" using e'(4) i by simp
    ultimately show ?thesis using one by simp
  qed
  then have "take (3 * cols) (e' ! 1) = map (\<lambda>i. deriv_expr lib cl env (seed i) (tree_of c root)) [0..<3 * cols]"
    using m e(3) by (intro nth_equalityI) simp_all
  moreover have "v ! 1 = eval_expr lib env (tree_of c root)" using v(2) tp by (metis rows_ok_def)
  ultimately show ?thesis using v(1) e' tp(2) by (simp add: derivs_def)
qed

section \<open>The derivatives of the axes\<close>

lemma axis_leaf:
  assumes ok: "store_ok c" and dm: "deck_made c root ts d c' clauses x y z"
    and t: "t \<in> set ts" "node_at c t = Some n" "t_rank n = 0" "t_op n \<noteq> ORACLE"
  shows "row_of ts t = d_X d \<longleftrightarrow> t_op n = VAR_X" "row_of ts t = d_Y d \<longleftrightarrow> t_op n = VAR_Y" "row_of ts t = d_Z d \<longleftrightarrow> t_op n = VAR_Z"
proof -
  note D = dm[unfolded deck_made_def]
  have rd: "\<forall>t u r. map_of clauses t = Some r \<longrightarrow> map_of clauses u = Some r \<longrightarrow> t = u" and rt: "map_of clauses t = Some (row_of ts t)"
    using D t(1) unfolding rows_distinct_def by blast+
  have ext: "store_ok c'" "extends c c'" "live c' t" "tree_of c' t = tree_of c t"
    using D t(1) live_extends tree_of_extends[OF ok] by blast+
  have iff: "row_of ts t = r \<longleftrightarrow> t_op n = op"
    if a: "live c' a" "tree_of c' a = Apply op Null Null" "map_of clauses a = Some r" "op \<in> {VAR_X, VAR_Y, VAR_Z}" for a r op
  proof -
    have "row_of ts t = r \<longleftrightarrow> t = a" using rd rt a(3) by auto
    also have "\<dots> \<longleftrightarrow> tree_of c t = Apply op Null Null" using tree_of_inj[OF ext(1,3) a(1)] ext(4) a(2) by auto
    also have "\<dots> \<longleftrightarrow> t_op n = op" using leaf_tree[OF ok t(2-4)] a(4) by auto
    finally show ?thesis .
  qed
  show "row_of ts t = d_X d \<longleftrightarrow> t_op n = VAR_X" by (rule iff[of x]) (use D in simp_all)
  show "row_of ts t = d_Y d \<longleftrightarrow> t_op n = VAR_Y" by (rule iff[of y]) (use D in simp_all)
  show "row_of ts t = d_Z d \<longleftrightarrow> t_op n = VAR_Z" by (rule iff[of z]) (use D in simp_all)
qed

definition rectangular :: "nat \<Rightarrow> nat \<Rightarrow> row_derivs \<Rightarrow> bool" where
  "rectangular l m e \<longleftrightarrow> length e = l \<and> (\<forall>r \<in> set e. m = length r)"

lemma rectangular_row: "rectangular l m e \<Longrightarrow> r < l \<Longrightarrow> length (e ! r) = m"
  unfolding rectangular_def by (metis nth_mem)

lemma rectangular_update: "rectangular l m e \<Longrightarrow> length xs = m \<Longrightarrow> rectangular l m (e[r := xs])"
  using set_update_subset_insert[of e r xs] by (auto simp: rectangular_def)

lemma rectangular_axis: "rectangular l m e \<Longrightarrow> r < l \<Longrightarrow> rectangular l m (set_axis r a e)"
  by (simp add: set_axis_def rectangular_update rectangular_row)

lemma set_axis_entry:
  assumes "rectangular l m e" "r < l" "q < l" "i < m"
  shows "set_axis r a e ! q ! i = (if q = r \<and> i mod 3 = a then f32_one else e ! q ! i)"
proof -
  have "length e = l" using assms(1) by (simp add: rectangular_def)
  with assms rectangular_row[OF assms(1,2)] show ?thesis by (simp add: set_axis_def nth_list_update)
qed

lemma rectangular_axes:
  "rectangular l m e \<Longrightarrow> d_X d < l \<Longrightarrow> d_Y d < l \<Longrightarrow> d_Z d < l \<Longrightarrow> rectangular l m (set_axes d e)"
  unfolding set_axes_def by (intro rectangular_axis)

lemma set_axes_entry:
  assumes "rectangular l m e" "d_X d < l" "d_Y d < l" "d_Z d < l" "q < l" "i < m"
  shows "set_axes d e ! q ! i =
    (if q = d_X d \<and> i mod 3 = 0 \<or> q = d_Y d \<and> i mod 3 = 1 \<or> q = d_Z d \<and> i mod 3 = 2 then f32_one else e ! q ! i)"
proof -
  note X = rectangular_axis[OF assms(1,2), of 0]
  note Y = rectangular_axis[OF X assms(3), of 1]
  show ?thesis unfolding set_axes_def
    using set_axis_entry[OF assms(1,2,5,6), of 0] set_axis_entry[OF X assms(3,5,6), of 1] set_axis_entry[OF Y assms(4,5,6), of 2] by auto
qed

lemma rectangular_zero: "rectangular l m (replicate l (replicate m 0))"
  by (simp add: rectangular_def)

text \<open>What differentiating with respect to coordinate \<open>i\<close> starts from.\<close>

definition point_seed :: "cache \<Rightarrow> (nat \<Rightarrow> nat \<Rightarrow> f32) \<Rightarrow> nat \<Rightarrow> expr \<Rightarrow> f32" where
  "point_seed c odv i e = (case e of
     Apply op l r \<Rightarrow> if op = [VAR_X, VAR_Y, VAR_Z] ! i then f32_one else 0
   | Oracle t \<Rightarrow> odv (oracle_of c t) i
   | _ \<Rightarrow> 0)"

lemma evaluator_seeded:
  assumes ok: "store_ok c" and dm: "deck_made c root ts d c' clauses x y z" and i: "i < 3" and N: "0 < N"
  shows "seeded c ts (point_seed c odv i) i (DerivArrayEvaluator N d)"
  unfolding seeded_def
proof (intro ballI allI impI)
  fix t n assume t: "t \<in> set ts" "node_at c t = Some n \<and> t_rank n = 0 \<and> t_op n \<noteq> ORACLE"
  then have n: "node_at c t = Some n" "t_rank n = 0" "t_op n \<noteq> ORACLE" by simp_all
  let ?l = "d_num_clauses d + 1"
  have row: "row_of ts t < ?l" using dm t(1) unfolding deck_made_def rows_distinct_def by metis
  have len: "length clauses = ?l" using dm by (simp add: deck_made_def)
  have "DerivArrayEvaluator N d ! row_of ts t ! i =
    (if t_op n = VAR_X \<and> i mod 3 = 0 \<or> t_op n = VAR_Y \<and> i mod 3 = 1 \<or> t_op n = VAR_Z \<and> i mod 3 = 2 then f32_one else 0)"
    unfolding DerivArrayEvaluator_def axis_leaf[OF ok dm t(1) n, symmetric]
    using set_axes_entry[OF rectangular_zero[of ?l "3 * N"], of d "row_of ts t" i] axis_rows_differ(2)[OF dm] row i N len by (simp del: replicate.simps(2))
  moreover have "i = 0 \<or> i = 1 \<or> i = 2" using i by auto
  ultimately show "DerivArrayEvaluator N d ! row_of ts t ! i = (case tree_of c t of Constant v \<Rightarrow> 0 | a \<Rightarrow> point_seed c odv i a)"
    using leaf_tree[OF ok n] by (auto simp: point_seed_def)
qed


lemma length_set_point [simp]: "length (set_point d px py pz v) = length v"
  by (simp add: set_point_def)

lemma point_deriv:
  assumes ok: "store_ok c" and dm: "deck_made c root ts d c' clauses x y z" and N: "0 < N"
  shows "\<exists>w. deriv lib (\<lambda>j. ov (d_oracles d ! j)) (\<lambda>j. odv (d_oracles d ! j)) d (d_tape d) px py pz
      (ArrayEvaluator d vars) (DerivArrayEvaluator N d)
    = Inr ((map (\<lambda>i. deriv_expr lib False (env_of c vars ov px py pz) (point_seed c odv i) (tree_of c root)) [0..<3],
        eval_expr lib (env_of c vars ov px py pz) (tree_of c root)), w)"
proof -
  let ?l = "d_num_clauses d + 1" and ?env = "env_of c vars ov px py pz"
  obtain v where v: "foldE (eval_clause lib (\<lambda>j. ov (d_oracles d ! j))) (set_point d px py pz (ArrayEvaluator d vars))
      (rev (tp_clauses (d_tape d))) = Inr v" "rows_ok (eval_expr lib ?env) c ts ts v"
    using deck_rows[OF ok dm] by blast
  have "length clauses = ?l" using dm by (simp add: deck_made_def)
  then have rect: "rectangular ?l (3 * N) (DerivArrayEvaluator N d)"
    unfolding DerivArrayEvaluator_def using axis_rows_differ(2)[OF dm] by (intro rectangular_axes rectangular_zero) simp_all
  have orc: "point_seed c odv i (Oracle t) = odv (d_oracles d ! length (oracle_list c xs)) i"
    if "ts = xs @ t # ys" "op_of c t = ORACLE" for i xs t ys
    using oracle_index[OF that] dm by (simp add: point_seed_def deck_made_def)
  have "\<exists>e'. derivs lib (\<lambda>j. ov (d_oracles d ! j)) (\<lambda>j. odv (d_oracles d ! j)) False 1 (d_tape d)
      (set_point d px py pz (ArrayEvaluator d vars)) (DerivArrayEvaluator N d)
    = Inr ((map (\<lambda>i. deriv_expr lib False ?env (point_seed c odv i) (tree_of c root)) [0..<3 * 1], eval_expr lib ?env (tree_of c root)), v, e')
    \<and> length e' = ?l \<and> (\<forall>r \<in> set e'. 3 * N = length r)"
  proof (rule deck_derivs[OF ok dm v(1)[folded eval_tape_def] v(2)])
    show "seeded c ts (point_seed c odv i) i (DerivArrayEvaluator N d)" if "i < 3 * 1" for i
      using evaluator_seeded[OF ok dm _ N] that by simp
    show "point_seed c odv i (Oracle t) = odv (d_oracles d ! length (oracle_list c xs)) i"
      if "i < 3 * 1" "ts = xs @ t # ys" "op_of c t = ORACLE" for i xs t ys using orc that by blast
  qed (use rect N in \<open>simp_all add: rectangular_def env_of_def\<close>)
  then show ?thesis unfolding deriv_def by auto
qed

definition slope_at :: "libm \<Rightarrow> cache \<Rightarrow> (nat \<Rightarrow> f32) \<Rightarrow> (nat \<Rightarrow> nat \<Rightarrow> f32) \<Rightarrow> f32 \<Rightarrow> f32 \<Rightarrow> f32 \<Rightarrow> nat \<Rightarrow> nat \<Rightarrow> f32" where
  "slope_at lib c ov odv px py pz p i =
     deriv_expr lib False (env_of c (\<lambda>_. None) ov px py pz) (point_seed c odv i) (tree_of c p)"

text \<open>C17: \<open>libfive_tree_eval_d\<close> differentiates a tree at a point by one walk over its tape for the values
  and one for the derivatives: the three numbers it returns are the derivatives of the tree in the
  three coordinates, computed by recursion with the rule of each operation, where a coordinate has
  the derivative one, constants and free variables have none and an oracle answers for itself.\<close>

theorem eval_d_computes_derivative:
  assumes "fresh_addresses alloc" "api_reachable lib alloc s" "p \<in> set (a_trees s)" "0 < N"
  shows "\<exists>c'. libfive_tree_eval_d lib (operation lib alloc (Suc fuel) True) N oracle_value oracle_deriv (Some p) px py pz (a_cache s)
    = Inr ((slope_at lib (a_cache s) oracle_value oracle_deriv px py pz p 0, slope_at lib (a_cache s) oracle_value oracle_deriv px py pz p 1,
        slope_at lib (a_cache s) oracle_value oracle_deriv px py pz p 2), c') \<and> api_ok \<lparr>a_trees = a_trees s, a_cache = c'\<rparr>"
proof -
  have s: "store_ok (a_cache s)" "live (a_cache s) p" "\<forall>p \<in> set (a_trees s). live (a_cache s) p"
    using reachable_ok[OF assms(1,2)] assms(3) by (auto simp: api_ok_def)
  obtain d c' ts clauses x y z where d: "Deck (operation lib alloc (Suc fuel) True) p (a_cache s) = Inr (d, c')"
    "deck_made (a_cache s) p ts d c' clauses x y z"
    using Deck_made[OF s(1,2) operation_makes_axes[OF assms(1)], of lib fuel] by blast
  have "store_ok c'" "extends (a_cache s) c'" using d(2) by (simp_all add: deck_made_def)
  with d(1) point_deriv[OF s(1) d(2) assms(4), of lib oracle_value oracle_deriv px py pz "\<lambda>_. None"] s(3) live_extends show ?thesis
    by (auto simp: libfive_tree_eval_d_def the_tree_def api_ok_def slope_at_def upt_rec numeral_2_eq_2)
qed


theorem eval_d_computes_derivative_witness:
  "\<exists>c'. libfive_tree_eval_d sample_libm (operation sample_libm next_address (Suc 3) True) 256 (\<lambda>_. 0) (\<lambda>_ _. 0) (Some 5) f32_one 0 0 (a_cache sample_state)
    = Inr ((slope_at sample_libm (a_cache sample_state) (\<lambda>_. 0) (\<lambda>_ _. 0) f32_one 0 0 5 0,
        slope_at sample_libm (a_cache sample_state) (\<lambda>_. 0) (\<lambda>_ _. 0) f32_one 0 0 5 1,
        slope_at sample_libm (a_cache sample_state) (\<lambda>_. 0) (\<lambda>_ _. 0) f32_one 0 0 5 2), c')
    \<and> api_ok \<lparr>a_trees = a_trees sample_state, a_cache = c'\<rparr>"
  by (rule eval_d_computes_derivative[OF fresh_sample client_reachable]) (simp_all add: sample_trees)

end
