(* ===== verification/GradientProps.thy ===== *)
theory GradientProps
  imports DerivProps
begin

text \<open>
  The gradient in the free variables: the rows that a walk leaves are ready for the next one, and
  the batches of variables fill the gradient slot by slot.
\<close>

section \<open>Rows that are ready for a point\<close>

text \<open>Constants and variables are loaded; what stands in the other rows does not matter.\<close>

definition loaded :: "cache \<Rightarrow> nat list \<Rightarrow> deck \<Rightarrow> (nat \<Rightarrow> f32) \<Rightarrow> row_values \<Rightarrow> bool" where
  "loaded c ts d vals v \<longleftrightarrow> length v = d_num_clauses d + 1 \<and> (\<forall>t \<in> set ts. \<forall>n. node_at c t = Some n \<longrightarrow>
     (t_op n = CONSTANT \<longrightarrow> v ! row_of ts t = t_value n) \<and> (t_op n = VAR_FREE \<longrightarrow> v ! row_of ts t = vals t))"

definition env_at :: "cache \<Rightarrow> (nat \<Rightarrow> f32) \<Rightarrow> (nat \<Rightarrow> f32) \<Rightarrow> f32 \<Rightarrow> f32 \<Rightarrow> f32 \<Rightarrow> env" where
  "env_at c vals ov x y z = env_of c (\<lambda>t. Some (vals t)) ov x y z"

lemma env_at_simps [simp]:
  "e_x (env_at c vals ov x y z) = x" "e_y (env_at c vals ov x y z) = y" "e_z (env_at c vals ov x y z) = z"
  "e_var (env_at c vals ov x y z) = vals" "e_oracle (env_at c vals ov x y z) t = ov (oracle_of c t)"
  by (simp_all add: env_at_def env_of_def)

lemma leaf_rank:
  assumes "store_ok c" "node_at c t = Some n" "t_op n = CONSTANT \<or> t_op n = VAR_FREE"
  shows "t_rank n = 0" "t_op n \<noteq> ORACLE"
  using rank_zero_leaf(3)[OF assms(1,2)] assms(3) by auto

lemma loaded_fresh:
  assumes ok: "store_ok c" and dm: "deck_made c root ts d c' clauses x y z"
  shows "loaded c ts d (\<lambda>t. case vars t of Some v \<Rightarrow> v | None \<Rightarrow> 0) (ArrayEvaluator d vars)"
  unfolding loaded_def
proof (intro conjI ballI allI impI)
  fix t n assume t: "t \<in> set ts" "node_at c t = Some n"
  let ?env = "env_of c vars (\<lambda>_. 0)"
  have row: "ArrayEvaluator d vars ! row_of ts t = eval_expr undefined (?env a b e) (tree_of c t)"
    if op: "t_op n = CONSTANT \<or> t_op n = VAR_FREE" and at: "a = ArrayEvaluator d vars ! d_X d" "b = ArrayEvaluator d vars ! d_Y d"
      "e = ArrayEvaluator d vars ! d_Z d" for a b e
    using start_row[OF ok dm t leaf_rank[OF ok t(2) op], of a b e vars undefined "\<lambda>_. 0"] at by (simp add: set_point_def)
  show "ArrayEvaluator d vars ! row_of ts t = t_value n" if "t_op n = CONSTANT"
    using row that tree_of_node[OF ok t(2)] by simp
  show "ArrayEvaluator d vars ! row_of ts t = (case vars t of Some v \<Rightarrow> v | None \<Rightarrow> 0)" if "t_op n = VAR_FREE"
    using row that tree_of_node[OF ok t(2)] by (simp add: env_of_def)
qed (simp add: ArrayEvaluator_fill)

lemma loaded_leaves:
  assumes ok: "store_ok c" and dm: "deck_made c root ts d c' clauses x y z" and v: "loaded c ts d vals v"
  shows "leaves_ok (eval_expr lib (env_at c vals ov px py pz)) c ts (set_point d px py pz v)"
  unfolding leaves_ok_def
proof (intro ballI allI impI)
  fix t n assume t: "t \<in> set ts" and n': "node_at c t = Some n \<and> t_rank n = 0 \<and> t_op n \<noteq> ORACLE"
  then have n: "node_at c t = Some n" "t_rank n = 0" "t_op n \<noteq> ORACLE" by simp_all
  have len: "length clauses = length v" using dm v by (simp add: deck_made_def loaded_def)
  note axis = axis_leaf[OF ok dm t n] and ax = axis_rows_differ(1,2)[OF dm]
  show "set_point d px py pz v ! row_of ts t = eval_expr lib (env_at c vals ov px py pz) (tree_of c t)"
    using leaf_tree[OF ok n] v t n(1) axis ax len by (auto simp: set_point_def loaded_def)
qed

lemma eval_tape_loaded:
  assumes ok: "store_ok c" and dm: "deck_made c root ts d c' clauses x y z" and v: "loaded c ts d vals v"
  shows "\<exists>w. eval_tape lib (\<lambda>j. ov (d_oracles d ! j)) (d_tape d) (set_point d px py pz v) = Inr w
    \<and> rows_ok (eval_expr lib (env_at c vals ov px py pz)) c ts ts w \<and> loaded c ts d vals w"
proof -
  let ?env = "env_at c vals ov px py pz" and ?v = "set_point d px py pz v" and ?ov = "\<lambda>j. ov (d_oracles d ! j)"
  note D = dm[unfolded deck_made_def]
  have ts: "distinct ts" "0 \<notin> set ts" "child_first c ts" "\<forall>t \<in> set ts. live c t" using D by blast+
  have "eval_expr lib ?env (Oracle t) = ?ov (length (oracle_list c xs))" if "ts = xs @ t # ys" "op_of c t = ORACLE" for xs t ys
    using oracle_index[OF that] D by simp
  moreover have "rows_ok (eval_expr lib ?env) c ts [] ?v" using D v by (simp add: rows_ok_def loaded_def)
  ultimately obtain w where w: "foldE (eval_clause lib ?ov) ?v (rev (tape_of c ts [] ts)) = Inr w"
    "rows_ok (eval_expr lib ?env) c ts ts w" "length w = length ?v"
    using point.eval_all[OF ok ts loaded_leaves[OF ok dm v, of lib ov px py pz], of ?ov "[]" ts ?v] by blast
  have "loaded c ts d vals w"
    unfolding loaded_def
  proof (intro conjI ballI allI impI)
    fix t n assume t: "t \<in> set ts" "node_at c t = Some n"
    then have row: "w ! row_of ts t = eval_expr lib ?env (tree_of c t)" using w(2) by (simp add: rows_ok_def)
    show "w ! row_of ts t = t_value n" if "t_op n = CONSTANT" using row that tree_of_node[OF ok t(2)] by simp
    show "w ! row_of ts t = vals t" if "t_op n = VAR_FREE" using row that tree_of_node[OF ok t(2)] by simp
  qed (use w(3) v in \<open>simp add: loaded_def\<close>)
  with w D show ?thesis by (simp add: eval_tape_def)
qed

text \<open>Walking again over the rows that a walk left changes nothing.\<close>

lemma eval_tape_again:
  assumes ok: "store_ok c" and dm: "deck_made c root ts d c' clauses x y z"
    and v: "eval_tape lib ov (d_tape d) v = Inr w" "length v = d_num_clauses d + 1"
  shows "eval_tape lib ov (d_tape d) w = Inr w" "length w = d_num_clauses d + 1"
proof -
  let ?ks = "tp_clauses (d_tape d)"
  have shape: "tape_shape (d_num_clauses d) (length (d_oracles d)) ?ks" using deck_tape_ok[OF ok dm] by (simp add: tape_ok_def)
  have "d_num_clauses d < length v" using v(2) by simp
  note W = point.walk_rows[OF shape this v(1)[unfolded eval_tape_def]]
  then have lw: "d_num_clauses d < length w" using v(2) by simp
  have "\<forall>k \<in> set ?ks. row_right (clause_value lib) ov w k" using W by blast
  from point.walk_to[OF shape lw this] obtain u where "foldE (eval_clause lib ov) w (rev ?ks) = Inr u" "length u = length w" "\<forall>r. u ! r = w ! r"
    by auto
  moreover from this(2,3) have "u = w" by (intro nth_equalityI) simp_all
  ultimately show "eval_tape lib ov (d_tape d) w = Inr w" by (simp add: eval_tape_def)
  show "length w = d_num_clauses d + 1" using W v(2) by simp
qed


lemma loaded_before:
  assumes ok: "store_ok c" and dm: "deck_made c root ts d c' clauses x y z"
    and v: "eval_tape lib ov (d_tape d) v = Inr w" "length v = d_num_clauses d + 1" and w: "loaded c ts d vals w"
  shows "loaded c ts d vals v"
proof -
  have shape: "tape_shape (d_num_clauses d) (length (d_oracles d)) (tp_clauses (d_tape d))"
    using deck_tape_ok[OF ok dm] by (simp add: tape_ok_def)
  have "d_num_clauses d < length v" using v(2) by simp
  note W = point.walk_rows[OF shape this v(1)[unfolded eval_tape_def]]
  have ts: "0 \<notin> set ts" using dm unfolding deck_made_def by blast
  have "w ! row_of ts t = v ! row_of ts t"
    if t: "t \<in> set ts" "node_at c t = Some n" "t_op n = CONSTANT \<or> t_op n = VAR_FREE" for t n
  proof -
    have "k_id k \<noteq> row_of ts t" if k: "k \<in> set (tp_clauses (d_tape d))" for k
    proof
      assume id: "k_id k = row_of ts t"
      obtain m n' where m: "m \<in> set ts" "node_at c m = Some n'" "k_id k = row_of ts m" "t_op n' = ORACLE \<or> 0 < t_rank n'"
        using clause_of_node[OF ok dm k] by metis
      then have "m = t" using row_of_inj[OF m(1) t(1)] id ts t(1) by metis
      with m(2,4) t(2) leaf_rank[OF ok t(2,3)] show False by simp
    qed
    then have "row_of ts t \<notin> k_id ` set (tp_clauses (d_tape d))" by (metis imageE)
    with W show ?thesis by blast
  qed
  with w v(2) show ?thesis by (simp add: loaded_def)
qed

section \<open>The variables of a deck\<close>

lemma deck_vars:
  assumes "store_ok c" "deck_made c root ts d c' clauses x y z"
  shows "set (vars_left d) = {(row_of ts t, t) | t. t \<in> set ts \<and> op_of c t = VAR_FREE}" "distinct (map snd (vars_left d))"
    "length (vars_left d) = length (d_vars d)"
proof -
  note D = assms(2)[unfolded deck_made_def]
  have dv: "d_vars d = map (\<lambda>t. (row_of ts t, t)) (filter (\<lambda>t. op_of c t = VAR_FREE) ts)" using D by (simp add: var_rows_def)
  show "set (vars_left d) = {(row_of ts t, t) | t. t \<in> set ts \<and> op_of c t = VAR_FREE}" by (auto simp: vars_left_def dv)
  show "length (vars_left d) = length (d_vars d)" by (simp add: vars_left_def)
  have "mset (map snd (vars_left d)) = mset (map snd (d_vars d))" by (simp add: vars_left_def)
  moreover have "distinct ts" using D by blast
  then have "distinct (map snd (d_vars d))" by (simp add: dv comp_def)
  ultimately show "distinct (map snd (vars_left d))" by (metis mset_eq_imp_distinct_iff)
qed

section \<open>One batch\<close>

definition var_seed :: "nat \<Rightarrow> expr \<Rightarrow> f32" where
  "var_seed t e = (if e = Free t then f32_one else 0)"

text \<open>Slot \<open>i\<close> is set for the variable with index \<open>remap ! i\<close>, and only for it.\<close>

definition batch_loaded :: "deck \<Rightarrow> nat \<Rightarrow> nat list \<Rightarrow> row_derivs \<Rightarrow> bool" where
  "batch_loaded d N remap e \<longleftrightarrow> rectangular (d_num_clauses d + 1) (3 * N) e \<and>
     (\<forall>q < d_num_clauses d + 1. \<forall>i < 3 * N. e ! q ! i = (if i < length remap \<and> q = fst (vars_left d ! (remap ! i)) then f32_one else 0))"

lemma batch_seeded:
  assumes ok: "store_ok c" and dm: "deck_made c root ts d c' clauses x y z"
    and b: "batch_loaded d N remap e" "\<forall>a \<in> set remap. a < length (vars_left d)" and i: "i < 3 * N"
  shows "seeded c ts (if i < length remap then var_seed (snd (vars_left d ! (remap ! i))) else (\<lambda>_. 0)) i e"
  unfolding seeded_def
proof (intro ballI allI impI)
  fix t n assume t: "t \<in> set ts" and n': "node_at c t = Some n \<and> t_rank n = 0 \<and> t_op n \<noteq> ORACLE"
  then have n: "node_at c t = Some n" "t_rank n = 0" "t_op n \<noteq> ORACLE" by simp_all
  let ?L = "vars_left d" and ?seed = "if i < length remap then var_seed (snd (vars_left d ! (remap ! i))) else (\<lambda>_. 0)"
  have ts: "0 \<notin> set ts" and row: "row_of ts t < d_num_clauses d + 1"
    using dm t unfolding deck_made_def rows_distinct_def by metis+
  have e: "e ! row_of ts t ! i = (if i < length remap \<and> row_of ts t = fst (?L ! (remap ! i)) then f32_one else 0)"
    using b(1) row i by (simp add: batch_loaded_def)
  show "e ! row_of ts t ! i = (case tree_of c t of Constant v \<Rightarrow> 0 | a \<Rightarrow> ?seed a)"
  proof (cases "i < length remap")
    case True
    then have "remap ! i < length ?L" using b(2) by simp
    then have "?L ! (remap ! i) \<in> set ?L" by simp
    then obtain u where u: "?L ! (remap ! i) = (row_of ts u, u)" "u \<in> set ts" "op_of c u = VAR_FREE"
      unfolding deck_vars(1)[OF ok dm] by blast
    then have iff: "row_of ts t = row_of ts u \<longleftrightarrow> t = u" using row_of_inj[OF t u(2)] t ts by metis
    have "t = u \<Longrightarrow> t_op n = VAR_FREE" using u(3) n(1) by (simp add: op_of_def)
    then show ?thesis using e u(1) iff leaf_tree[OF ok n] True by (auto simp: var_seed_def)
  next
    case False
    then show ?thesis using e leaf_tree[OF ok n] by auto
  qed
qed

lemma zeroed: "rectangular l m e \<Longrightarrow> rectangular l m (map (map (\<lambda>_. 0)) e)"
  "rectangular l m e \<Longrightarrow> q < l \<Longrightarrow> i < m \<Longrightarrow> map (map (\<lambda>_. 0)) e ! q ! i = (0 :: f32)"
  by (auto simp: rectangular_def rectangular_row)

lemma scatter:
  "a + n \<le> length j \<Longrightarrow> length (foldl (\<lambda>j i. j[a + i := ds ! i]) j [0..<n]) = length j \<and>
   (\<forall>k. foldl (\<lambda>j i. j[a + i := ds ! i]) j [0..<n] ! k = (if a \<le> k \<and> k < a + n then ds ! (k - a) else j ! k))"
proof (induction n)
  case (Suc n)
  then have IH: "length (foldl (\<lambda>j i. j[a + i := ds ! i]) j [0..<n]) = length j"
    "\<And>k. foldl (\<lambda>j i. j[a + i := ds ! i]) j [0..<n] ! k = (if a \<le> k \<and> k < a + n then ds ! (k - a) else j ! k)" by simp_all
  show ?case using IH Suc.prems by (auto simp: nth_list_update less_Suc_eq)
qed auto


section \<open>The sweep over the variables\<close>

text \<open>\<open>w\<close> are the rows of the point and \<open>D t\<close> the derivative in variable \<open>t\<close>: the variables
  before the current batch have their derivative, those of the batch wait in their slots.\<close>

definition sweeping :: "libm \<Rightarrow> (nat \<Rightarrow> f32) \<Rightarrow> deck \<Rightarrow> nat \<Rightarrow> row_values \<Rightarrow> (nat \<Rightarrow> f32) \<Rightarrow> gradient_state \<Rightarrow> bool" where
  "sweeping lib ov d N w D s \<longleftrightarrow>
     eval_tape lib ov (d_tape d) (g_values s) = Inr w \<and> length (g_values s) = d_num_clauses d + 1
     \<and> batch_loaded d N (g_remap s) (g_derivs s) \<and> length (g_j s) = length (vars_left d) \<and> g_index s \<le> length (vars_left d)
     \<and> length (g_remap s) \<le> g_index s \<and> length (g_remap s) \<le> 3 * N
     \<and> g_remap s = [g_index s - length (g_remap s)..<g_index s]
     \<and> (\<forall>a < g_index s - length (g_remap s). g_j s ! a = D (snd (vars_left d ! a)))"

lemma flush_sweeping:
  assumes ok: "store_ok c" and dm: "deck_made c root ts d c' clauses x y z" and nor: "d_oracles d = []"
    and w: "rows_ok (eval_expr lib (env_at c vals ov px py pz)) c ts ts w"
    and D: "\<And>t. D t = deriv_expr lib True (env_at c vals ov px py pz) (var_seed t) (tree_of c root)"
    and s: "sweeping lib (\<lambda>j. ov (d_oracles d ! j)) d N w D s"
  shows "\<exists>s'. flush lib (\<lambda>j. ov (d_oracles d ! j)) ask (d_tape d) s = Inr s' \<and> sweeping lib (\<lambda>j. ov (d_oracles d ! j)) d N w D s'
    \<and> g_remap s' = [] \<and> g_index s' = g_index s"
proof -
  let ?env = "env_at c vals ov px py pz" and ?ov = "\<lambda>j. ov (d_oracles d ! j)" and ?L = "vars_left d"
  let ?p = "g_remap s" and ?l = "d_num_clauses d + 1"
  define n where "n = length ?p"
  define a where "a = g_index s - n"
  note S = s[unfolded sweeping_def, folded n_def, folded a_def]
  then have T: "eval_tape lib ?ov (d_tape d) (g_values s) = Inr w" "length (g_values s) = ?l" "batch_loaded d N ?p (g_derivs s)"
    "length (g_j s) = length ?L" "g_index s \<le> length ?L" "n \<le> 3 * N" "\<forall>b < a. g_j s ! b = D (snd (?L ! b))"
    by blast+
  have an: "a + n = g_index s" "a + n \<le> length (g_j s)" using S by (simp_all add: a_def)
  have pp: "?p = [a..<a + n]" unfolding an(1) using S by blast
  then have p: "?p ! i = a + i" if "i < n" for i using that by simp
  have below: "\<forall>b \<in> set ?p. b < length ?L" unfolding pp using an(1) T(5) by simp
  have rect: "rectangular ?l (3 * N) (g_derivs s)" using T(3) by (simp add: batch_loaded_def)
  have clear: "batch_loaded d N [] (map (map (\<lambda>_. 0)) e)" if "rectangular ?l (3 * N) e" for e
    using zeroed[OF that] by (simp add: batch_loaded_def)
  show ?thesis
  proof (cases "?p = []")
    case True
    then have "n = 0" by (simp add: n_def)
    then have "a = g_index s" using an(1) by simp
    with True T clear[OF rect] show ?thesis by (simp add: flush_def sweeping_def)
  next
    case False
    define cols where "cols = (n + 2) div 3"
    from T(6) have cols: "3 * cols \<le> 3 * N" "n \<le> 3 * cols" unfolding cols_def by presburger+
    let ?seed = "\<lambda>i. if i < n then var_seed (snd (?L ! (?p ! i))) else (\<lambda>_. 0)"
    let ?ds = "map (\<lambda>i. deriv_expr lib True ?env (?seed i) (tree_of c root)) [0..<3 * cols]"
    have "\<exists>e'. derivs lib ?ov ask True cols (d_tape d) (g_values s) (g_derivs s)
      = Inr ((?ds, eval_expr lib ?env (tree_of c root)), w, e') \<and> length e' = ?l \<and> (\<forall>r \<in> set e'. 3 * N = length r)"
    proof (rule deck_derivs[OF ok dm _ w])
      show "seeded c ts (?seed i) i (g_derivs s)" if "i < 3 * cols" for i
        using batch_seeded[OF ok dm _ below, of N "g_derivs s" i] T(3) that cols unfolding n_def by simp
      show "?seed i (Oracle t) = ask (length (oracle_list c xs)) i" if "i < 3 * cols" "ts = xs @ t # ys" "op_of c t = ORACLE" for i xs t ys
      proof -
        have "d_oracles d = oracle_list c ts" using dm by (simp add: deck_made_def)
        with nor that show ?thesis by (simp add: oracle_list_def)
      qed
    qed (use T rect cols in \<open>simp_all add: rectangular_def\<close>)
    then obtain e' where e': "derivs lib ?ov ask True cols (d_tape d) (g_values s) (g_derivs s)
      = Inr ((?ds, eval_expr lib ?env (tree_of c root)), w, e')" "rectangular ?l (3 * N) e'" unfolding rectangular_def by blast
    define j where "j = foldl (\<lambda>j i. j[a + i := ?ds ! i]) (g_j s) [0..<n]"
    have "foldl (\<lambda>j i. j[?p ! i := ?ds ! i]) (g_j s) [0..<n] = j"
      unfolding j_def by (rule foldl_cong) (simp_all add: p)
    then have flush: "flush lib ?ov ask (d_tape d) s = Inr (s\<lparr>g_j := j, g_values := w, g_derivs := map (map (\<lambda>_. 0)) e', g_remap := []\<rparr>)"
      using False e'(1) by (simp add: flush_def n_def cols_def)
    note J = scatter[OF an(2), of ?ds, folded j_def]
    have "j ! b = D (snd (?L ! b))" if "b < g_index s" for b
    proof (cases "b < a")
      case True
      with J T show ?thesis by simp
    next
      case False
      with J that an have "j ! b = ?ds ! (b - a)" by simp
      moreover have "b - a < n" "b - a < 3 * cols" "?p ! (b - a) = b" using that an False cols p[of "b - a"] by simp_all
      ultimately show ?thesis by (simp add: D)
    qed
    moreover note eval_tape_again[OF ok dm, of lib ?ov "g_values s" w]
    ultimately show ?thesis using flush T J clear[OF e'(2)] by (simp add: sweeping_def)
  qed
qed


lemma load_batch:
  assumes b: "batch_loaded d N p e" "length p < 3 * N" and r: "r = fst (vars_left d ! a)" "r < d_num_clauses d + 1"
  shows "batch_loaded d N (p @ [a]) (e[r := (e ! r)[length p := f32_one]])"
proof -
  let ?l = "d_num_clauses d + 1" and ?e = "e[r := (e ! r)[length p := f32_one]]"
  have rect: "rectangular ?l (3 * N) e" using b(1) by (simp add: batch_loaded_def)
  note row = rectangular_row[OF rect r(2)]
  have entry: "e ! q ! i = (if i < length p \<and> q = fst (vars_left d ! (p ! i)) then f32_one else 0)" if "q < ?l" "i < 3 * N" for q i
    using b(1) that by (simp add: batch_loaded_def)
  have "length e = ?l" using rect by (simp add: rectangular_def)
  have "?e ! q ! i = (if i < length (p @ [a]) \<and> q = fst (vars_left d ! ((p @ [a]) ! i)) then f32_one else 0)"
    if "q < ?l" "i < 3 * N" for q i
  proof -
    have e: "?e ! q ! i = (if q = r \<and> i = length p then f32_one else e ! q ! i)"
      using \<open>length e = ?l\<close> row b(2) r(2) that by (simp add: nth_list_update)
    consider "i < length p" | "i = length p" | "length p < i" by linarith
    then show ?thesis unfolding e entry[OF that] using r(1) by cases (simp_all add: nth_append)
  qed
  moreover have "rectangular ?l (3 * N) ?e" by (rule rectangular_update[OF rect]) (simp add: row)
  ultimately show ?thesis by (simp add: batch_loaded_def)
qed

lemma load_sweeping:
  assumes ok: "store_ok c" and dm: "deck_made c root ts d c' clauses x y z" and nor: "d_oracles d = []"
    and w: "rows_ok (eval_expr lib (env_at c vals ov px py pz)) c ts ts w"
    and D: "\<And>t. D t = deriv_expr lib True (env_at c vals ov px py pz) (var_seed t) (tree_of c root)"
    and s: "sweeping lib (\<lambda>j. ov (d_oracles d ! j)) d N w D s" "length (g_remap s) < 3 * N" "g_index s < length (vars_left d)"
  shows "\<exists>s'. load_var lib (\<lambda>j. ov (d_oracles d ! j)) ask N (d_tape d) s (vars_left d ! g_index s) = Inr s'
    \<and> sweeping lib (\<lambda>j. ov (d_oracles d ! j)) d N w D s' \<and> length (g_remap s') < 3 * N \<and> g_index s' = Suc (g_index s)"
proof -
  let ?ov = "\<lambda>j. ov (d_oracles d ! j)" and ?L = "vars_left d" and ?p = "g_remap s" and ?a = "g_index s"
  obtain r t where rt: "?L ! ?a = (r, t)" by force
  then have "(r, t) \<in> set ?L" using s(3) by (metis nth_mem)
  then have "t \<in> set ts" "r = row_of ts t" unfolding deck_vars(1)[OF ok dm] by blast+
  then have r: "r < d_num_clauses d + 1" using dm unfolding deck_made_def rows_distinct_def by metis
  let ?s = "s\<lparr>g_derivs := (g_derivs s)[r := (g_derivs s ! r)[length ?p := f32_one]], g_remap := ?p @ [?a], g_index := Suc ?a\<rparr>"
  have load: "load_var lib ?ov ask N (d_tape d) s (?L ! ?a) = (if length (g_remap ?s) = 3 * N then flush lib ?ov ask (d_tape d) ?s else Inr ?s)"
    by (simp add: load_var_def rt Let_def)
  note S = s(1)[unfolded sweeping_def]
  have batch: "batch_loaded d N (?p @ [?a]) (g_derivs ?s)"
    using load_batch[of d N ?p "g_derivs s" r ?a] S s(2) rt r by simp
  have p: "?p = [?a - length ?p..<?a]" using S by blast
  have "Suc ?a - length (?p @ [?a]) = ?a - length ?p" by simp
  then have pa: "?p @ [?a] = [Suc ?a - length (?p @ [?a])..<Suc ?a]" by (metis diff_le_self p upt_Suc_append)
  have T: "eval_tape lib ?ov (d_tape d) (g_values s) = Inr w" "length (g_values s) = d_num_clauses d + 1"
    "length (g_j s) = length ?L" "length ?p \<le> ?a" "\<forall>b < ?a - length ?p. g_j s ! b = D (snd (?L ! b))" using S by blast+
  have S': "sweeping lib ?ov d N w D ?s"
    unfolding sweeping_def using T s(2,3) batch pa by simp
  show ?thesis
  proof (cases "length (g_remap ?s) = 3 * N")
    case True
    from flush_sweeping[OF ok dm nor w D S', of ask] obtain s' where
      "flush lib ?ov ask (d_tape d) ?s = Inr s'" "sweeping lib ?ov d N w D s'" "g_remap s' = []" "g_index s' = Suc ?a" by auto
    moreover have "0 < 3 * N" using True by simp
    ultimately show ?thesis unfolding load using True by simp
  next
    case False
    then show ?thesis unfolding load using S' s(2) by simp
  qed
qed

lemma load_all:
  assumes ok: "store_ok c" and dm: "deck_made c root ts d c' clauses x y z" and nor: "d_oracles d = []"
    and w: "rows_ok (eval_expr lib (env_at c vals ov px py pz)) c ts ts w"
    and D: "\<And>t. D t = deriv_expr lib True (env_at c vals ov px py pz) (var_seed t) (tree_of c root)"
  shows "sweeping lib (\<lambda>j. ov (d_oracles d ! j)) d N w D s \<Longrightarrow> length (g_remap s) < 3 * N \<Longrightarrow> drop (g_index s) (vars_left d) = xs \<Longrightarrow>
    \<exists>s'. foldE (load_var lib (\<lambda>j. ov (d_oracles d ! j)) ask N (d_tape d)) s xs = Inr s'
    \<and> sweeping lib (\<lambda>j. ov (d_oracles d ! j)) d N w D s' \<and> g_index s' = length (vars_left d)"
proof (induction xs arbitrary: s)
  case Nil
  then show ?case by (auto simp: sweeping_def)
next
  case (Cons a xs)
  then have i: "g_index s < length (vars_left d)" by (metis drop_eq_Nil list.discI not_le)
  then have a: "a = vars_left d ! g_index s" "xs = drop (Suc (g_index s)) (vars_left d)"
    using Cons.prems(3) by (metis Cons_nth_drop_Suc list.inject)+
  from load_sweeping[OF ok dm nor w D Cons.prems(1,2) i, of ask] obtain s1 where
    s1: "load_var lib (\<lambda>j. ov (d_oracles d ! j)) ask N (d_tape d) s a = Inr s1" "sweeping lib (\<lambda>j. ov (d_oracles d ! j)) d N w D s1"
    "length (g_remap s1) < 3 * N" "g_index s1 = Suc (g_index s)" unfolding a(1) by blast
  from Cons.IH[OF s1(2,3)] a(2) s1(1,4) show ?case by simp
qed

section \<open>The gradient\<close>

lemma gradient_loaded:
  assumes ok: "store_ok c" and dm: "deck_made c root ts d c' clauses x y z" and nor: "d_oracles d = []" and N: "0 < N"
    and v: "loaded c ts d vals v" and e: "rectangular (d_num_clauses d + 1) (3 * N) e"
  shows "\<exists>w. gradient lib (\<lambda>j. ov (d_oracles d ! j)) ask N d (d_tape d) px py pz v e
      = Inr (map (\<lambda>(r, t). (t, deriv_expr lib True (env_at c vals ov px py pz) (var_seed t) (tree_of c root))) (vars_left d),
          w, DerivArrayEvaluator N d)
    \<and> loaded c ts d vals w"
proof -
  let ?ov = "\<lambda>j. ov (d_oracles d ! j)" and ?env = "env_at c vals ov px py pz" and ?L = "vars_left d" and ?l = "d_num_clauses d + 1"
  define D where "D t = deriv_expr lib True ?env (var_seed t) (tree_of c root)" for t
  obtain w where w: "eval_tape lib ?ov (d_tape d) (set_point d px py pz v) = Inr w" "rows_ok (eval_expr lib ?env) c ts ts w" "loaded c ts d vals w"
    using eval_tape_loaded[OF ok dm v, of lib ov px py pz] by blast
  let ?s0 = "\<lparr>g_j = replicate (length (d_vars d)) 0, g_values = set_point d px py pz v, g_derivs = e, g_remap = [], g_index = 0\<rparr>"
  let ?s1 = "?s0\<lparr>g_derivs := map (map (\<lambda>_. 0)) e\<rparr>"
  have "batch_loaded d N [] (g_derivs ?s1)" using zeroed[OF e] by (simp add: batch_loaded_def)
  then have s1: "sweeping lib ?ov d N w D ?s1"
    using w(1) v deck_vars(3)[OF ok dm] by (simp add: sweeping_def loaded_def)
  have "length (g_remap ?s1) < 3 * N" "drop (g_index ?s1) ?L = ?L" using N by simp_all
  from load_all[OF ok dm nor w(2) D_def s1 this, of ask] obtain s2 where
    s2: "foldE (load_var lib ?ov ask N (d_tape d)) ?s1 ?L = Inr s2" "sweeping lib ?ov d N w D s2" "g_index s2 = length ?L" by blast
  from flush_sweeping[OF ok dm nor w(2) D_def s2(2), of ask] obtain s3 where
    s3: "flush lib ?ov ask (d_tape d) s2 = Inr s3" "sweeping lib ?ov d N w D s3" "g_remap s3 = []" "g_index s3 = length ?L"
    unfolding s2(3) by blast
  note S = s3(2)[unfolded sweeping_def s3(3,4)]
  have j: "g_j s3 = map (\<lambda>a. D (snd a)) ?L" using S by (intro nth_equalityI) simp_all
  have "zip (map snd ?L) (g_j s3) = map (\<lambda>(r, t). (t, D t)) ?L"
    unfolding j by (simp add: zip_map_map zip_same_conv_map split_beta)
  moreover have "g_derivs s3 = replicate ?l (replicate (3 * N) 0)"
  proof -
    have b: "batch_loaded d N [] (g_derivs s3)" using S by simp
    then have R: "rectangular ?l (3 * N) (g_derivs s3)" by (simp add: batch_loaded_def)
    show ?thesis
    proof (rule nth_equalityI)
      show len: "length (g_derivs s3) = length (replicate ?l (replicate (3 * N) 0))" using R by (simp add: rectangular_def)
      fix q assume "q < length (g_derivs s3)"
      then have q: "q < ?l" using len by simp
      have "g_derivs s3 ! q = replicate (3 * N) 0"
        using rectangular_row[OF R q] b q by (intro nth_equalityI) (simp_all add: batch_loaded_def)
      with q show "g_derivs s3 ! q = replicate ?l (replicate (3 * N) 0) ! q" by (simp del: replicate.simps(2))
    qed
  qed
  moreover have "flush lib ?ov ask (d_tape d) ?s0 = Inr ?s1" by (simp add: flush_def)
  moreover have "loaded c ts d vals (g_values s3)"
    using loaded_before[OF ok dm _ _ w(3), of lib ?ov "g_values s3"] S by simp
  ultimately show ?thesis using s2(1) s3(1) by (simp add: gradient_def DerivArrayEvaluator_def D_def)
qed


fun free_vars :: "expr \<Rightarrow> nat set" where
  "free_vars (Free t) = {t}"
| "free_vars (Apply op l r) = free_vars l \<union> free_vars r"
| "free_vars _ = {}"

lemma below_step: "below c q t \<Longrightarrow> node_at c p = Some n \<Longrightarrow> q = t_lhs n \<or> q = t_rhs n \<Longrightarrow> q \<noteq> 0 \<Longrightarrow> below c p t"
proof (induction rule: below.induct)
  case below_refl
  then show ?case using below.intros by blast
next
  case (below_child q' n' r)
  then show ?case using below.below_child by blast
qed

lemma free_vars_below:
  assumes ok: "store_ok c" and p: "live c p"
  shows "t \<in> free_vars (tree_of c p) \<longleftrightarrow> below c p t \<and> op_of c t = VAR_FREE"
proof
  have "live c p \<Longrightarrow> t \<in> free_vars (tree_of c p) \<Longrightarrow> below c p t \<and> op_of c t = VAR_FREE" for p
  proof (induction "tree_of c p" arbitrary: p)
    case (Free u)
    then obtain n where n: "node_at c p = Some n" by (auto simp: live_def)
    with Free tree_of_node[OF ok n] show ?case using below_refl by (auto simp: op_of_def split: if_splits)
  next
    case (Apply op l r)
    then obtain n where n: "node_at c p = Some n" by (auto simp: live_def)
    with Apply.hyps(3) have lr: "l = tree_of c (t_lhs n)" "r = tree_of c (t_rhs n)"
      using tree_of_node[OF ok n] by (auto split: if_splits)
    have live: "q = t_lhs n \<or> q = t_rhs n \<Longrightarrow> q \<noteq> 0 \<Longrightarrow> live c q" for q
      using node_args[OF ok n] by (auto simp: args_ok_def)
    from Apply.prems(2) consider "t \<in> free_vars (tree_of c (t_lhs n))" | "t \<in> free_vars (tree_of c (t_rhs n))"
      unfolding Apply.hyps(3)[symmetric] lr by auto
    then show ?case
    proof cases
      case 1
      then have "t_lhs n \<noteq> 0" using tree_of_0[OF ok] by (cases "t_lhs n = 0") auto
      with 1 Apply.hyps(1)[OF lr(1)] live show ?thesis using below_step[OF _ n] by blast
    next
      case 2
      then have "t_rhs n \<noteq> 0" using tree_of_0[OF ok] by (cases "t_rhs n = 0") auto
      with 2 Apply.hyps(2)[OF lr(2)] live show ?thesis using below_step[OF _ n] by blast
    qed
  qed (metis empty_iff free_vars.simps)+
  then show "t \<in> free_vars (tree_of c p) \<Longrightarrow> below c p t \<and> op_of c t = VAR_FREE" using p by blast
next
  have sub: "free_vars (tree_of c q) \<subseteq> free_vars (tree_of c p)" if "below c p q" for q
    using that
  proof (induction rule: below.induct)
    case (below_child q n r)
    have "t_op n \<noteq> CONSTANT" "t_op n \<noteq> VAR_FREE" "t_op n \<noteq> ORACLE"
      using node_args[OF ok below_child(2)] below_child(3,4) by (auto simp: args_ok_def arity_ok_def args_def split: if_splits)
    with below_child show ?case by (auto simp: tree_of_node[OF ok below_child(2)])
  qed simp
  assume t: "below c p t \<and> op_of c t = VAR_FREE"
  then obtain n where n: "node_at c t = Some n" "t_op n = VAR_FREE" by (auto simp: op_of_def split: option.splits)
  with sub[of t] t show "t \<in> free_vars (tree_of c p)" by (simp add: tree_of_node[OF ok n(1)])
qed

definition var_slope :: "libm \<Rightarrow> cache \<Rightarrow> (nat \<Rightarrow> f32) \<Rightarrow> f32 \<Rightarrow> f32 \<Rightarrow> f32 \<Rightarrow> nat \<Rightarrow> nat \<Rightarrow> f32" where
  "var_slope lib c vals px py pz p t = deriv_expr lib True (env_at c vals (\<lambda>_. 0) px py pz) (var_seed t) (tree_of c p)"

lemma gradient_map:
  assumes ok: "store_ok c" and dm: "deck_made c root ts d c' clauses x y z" and root: "live c root"
  shows "map_of (map (\<lambda>(r, t). (t, f t)) (vars_left d)) t = (if t \<in> free_vars (tree_of c root) then Some (f t) else None)"
proof -
  have "map (\<lambda>(r, t). (t, f t)) (vars_left d) = map (\<lambda>t. (t, f t)) (map snd (vars_left d))" by (simp add: split_beta comp_def)
  moreover have "t \<in> set (map snd (vars_left d)) \<longleftrightarrow> t \<in> free_vars (tree_of c root)"
  proof -
    have "set ts = {q. below c root q}" using dm unfolding deck_made_def by blast
    then show ?thesis unfolding set_map deck_vars(1)[OF ok dm] free_vars_below[OF ok root] by force
  qed
  ultimately show ?thesis by (simp add: map_of_map_restrict restrict_map_def del: map_map)
qed

text \<open>C16: \<open>JacobianEvaluator::gradient\<close> differentiates a tree without oracles in all of its free
  variables: it loads the variables into the slots of the array in batches of \<open>3 * N\<close>, walks the
  tape once for each batch and reads each variable's derivative out of its slot. The result has
  exactly the free variables of the tree, each with its recursive derivative (where \<open>CONST_VAR\<close>
  clears what is below it), however many variables there are; afterwards the array holds the
  derivatives of the axes again, so that the evaluator can go on with points.\<close>

theorem gradient_is_derivative:
  assumes "fresh_addresses alloc" "api_reachable lib alloc s" "p \<in> set (a_trees s)" "0 < N"
    and "Deck (operation lib alloc (Suc fuel) True) p (a_cache s) = Inr (d, c')" "d_oracles d = []"
  shows "\<exists>g w. gradient lib (\<lambda>_. 0) ask N d (d_tape d) px py pz (ArrayEvaluator d vars) (DerivArrayEvaluator N d) = Inr (g, w, DerivArrayEvaluator N d)
    \<and> (\<forall>t. map_of g t = (if t \<in> free_vars (tree_of (a_cache s) p)
          then Some (var_slope lib (a_cache s) (\<lambda>t. case vars t of Some v \<Rightarrow> v | None \<Rightarrow> 0) px py pz p t) else None))"
proof -
  have s: "store_ok (a_cache s)" "live (a_cache s) p" using reachable_ok[OF assms(1,2)] assms(3) by (auto simp: api_ok_def)
  obtain ts clauses x y z where d: "deck_made (a_cache s) p ts d c' clauses x y z"
    using Deck_made[OF s operation_makes_axes[OF assms(1)], of lib fuel] assms(5) by auto
  have "length clauses = d_num_clauses d + 1" using d by (simp add: deck_made_def)
  then have rect: "rectangular (d_num_clauses d + 1) (3 * N) (DerivArrayEvaluator N d)"
    unfolding DerivArrayEvaluator_def using axis_rows_differ(2)[OF d] by (intro rectangular_axes rectangular_zero) simp_all
  let ?vals = "\<lambda>t. case vars t of Some v \<Rightarrow> v | None \<Rightarrow> 0"
  obtain w where "gradient lib (\<lambda>_. 0) ask N d (d_tape d) px py pz (ArrayEvaluator d vars) (DerivArrayEvaluator N d)
    = Inr (map (\<lambda>(r, t). (t, var_slope lib (a_cache s) ?vals px py pz p t)) (vars_left d), w, DerivArrayEvaluator N d)"
    using gradient_loaded[OF s(1) d assms(6,4) loaded_fresh[OF s(1) d] rect, of lib "\<lambda>_. 0" ask px py pz vars]
    unfolding var_slope_def by blast
  then show ?thesis using gradient_map[OF s(1) d s(2), of "var_slope lib (a_cache s) ?vals px py pz p"] by blast
qed

definition slope_calls :: "call list" where
  "slope_calls = [Var, Nonary 2, Binary 18 (Some 1) (Some 2)]"

definition slope_state :: api where
  "slope_state = (case run_calls sample_libm next_address 5 slope_calls sample_start of Inl e \<Rightarrow> sample_start | Inr s \<Rightarrow> s)"

lemma slope_state_facts:
  "api_reachable sample_libm next_address slope_state" "a_trees slope_state = [3, 2, 1]" "tree_of (a_cache slope_state) 3 = Apply OP_MUL (Free 1) (Apply VAR_X Null Null)"
proof -
  have "case run_calls sample_libm next_address 5 slope_calls sample_start of Inl e \<Rightarrow> False | Inr s \<Rightarrow> True" by code_simp
  from case_returned[OF this] have "run_calls sample_libm next_address 5 slope_calls sample_start = Inr slope_state" by (auto simp: slope_state_def)
  from run_calls_reachable[OF this] api_start show "api_reachable sample_libm next_address slope_state" by (simp add: sample_start_def)
  show "a_trees slope_state = [3, 2, 1]" "tree_of (a_cache slope_state) 3 = Apply OP_MUL (Free 1) (Apply VAR_X Null Null)" by code_simp+
qed

theorem gradient_is_derivative_witness:
  "\<exists>d c' g w. Deck (operation sample_libm next_address (Suc 3) True) 3 (a_cache slope_state) = Inr (d, c')
    \<and> gradient sample_libm (\<lambda>_. 0) (\<lambda>_ _. 0) 1 d (d_tape d) f32_two 0 0 (ArrayEvaluator d (\<lambda>_. Some f32_one)) (DerivArrayEvaluator 1 d)
        = Inr (g, w, DerivArrayEvaluator 1 d) \<and> map_of g 1 = Some f32_two"
proof -
  have "case Deck (operation sample_libm next_address (Suc 3) True) 3 (a_cache slope_state) of Inl e \<Rightarrow> False | Inr (d, c') \<Rightarrow> d_oracles d = []"
    by code_simp
  then obtain d c' where d: "Deck (operation sample_libm next_address (Suc 3) True) 3 (a_cache slope_state) = Inr (d, c')" "d_oracles d = []"
    by (auto split: sum.splits prod.splits)
  have "var_slope sample_libm (a_cache slope_state) (\<lambda>t. case Some f32_one of Some v \<Rightarrow> v | None \<Rightarrow> 0) f32_two 0 0 3 1 = f32_two"
    unfolding var_slope_def slope_state_facts(3) by code_simp
  moreover have "1 \<in> free_vars (tree_of (a_cache slope_state) 3)" by (simp add: slope_state_facts)
  ultimately show ?thesis
    using gradient_is_derivative[OF fresh_sample slope_state_facts(1) _ _ d, of 1 "\<lambda>_ _. 0" f32_two 0 0 "\<lambda>_. Some f32_one"] d(1)
    by (auto simp: slope_state_facts(2))
qed

end
