(* ===== verification/SolverProps.thy ===== *)
theory SolverProps
  imports Solver GradientProps IntervalFlags
begin

text \<open>
  Properties of the root finder: the residual it returns is the value of the tree at the solution
  it returns, and where a derivative is not a number its search for a step never ends.
\<close>

section \<open>Setting variables\<close>

lemma loaded_setVar:
  assumes ok: "store_ok c" and dm: "deck_made c root ts d c' clauses x y z" and v: "loaded c ts d vals v"
  shows "loaded c ts d (vals(t := a)) (snd (setVar d t a v))"
proof -
  note D = dm[unfolded deck_made_def]
  have dv: "d_vars d = map (\<lambda>t. (row_of ts t, t)) (filter (\<lambda>t. op_of c t = VAR_FREE) ts)"
    unfolding var_rows_def[symmetric] using D by blast
  have ts: "0 \<notin> set ts" using D by blast
  have rows: "row_of ts u < length v" if "u \<in> set ts" for u
  proof -
    have "map_of clauses u = Some (row_of ts u)" "rows_distinct clauses" "d_num_clauses d + 1 = length clauses" using D that by blast+
    moreover have "length v = d_num_clauses d + 1" using v by (simp add: loaded_def)
    ultimately show ?thesis unfolding rows_distinct_def by metis
  qed
  have free: "op_of c u = VAR_FREE \<longleftrightarrow> t_op n = VAR_FREE" if "node_at c u = Some n" for u n
    using that by (simp add: op_of_def)
  show ?thesis
  proof (cases "find (\<lambda>(_, t'). t' = t) (d_vars d)")
    case None
    then have "t \<notin> set ts \<or> op_of c t \<noteq> VAR_FREE" by (auto simp: find_None_iff dv)
    with None v free show ?thesis by (auto simp: loaded_def setVar_def)
  next
    case (Some q)
    then have q: "q \<in> set (d_vars d)" "snd q = t" by (auto simp: find_Some_iff split_beta)
    then have t: "q = (row_of ts t, t)" "t \<in> set ts" "op_of c t = VAR_FREE" by (auto simp: dv)
    have set: "snd (setVar d t a v) = v[row_of ts t := a]" using Some t(1) by (simp add: setVar_def)
    have other: "row_of ts u = row_of ts t \<longleftrightarrow> u = t" if "u \<in> set ts" for u
      using row_of_inj[OF that t(2)] that t(2) ts by metis
    show ?thesis unfolding set loaded_def
    proof (intro conjI ballI allI impI)
      fix u n assume u: "u \<in> set ts" "node_at c u = Some n"
      have row: "v[row_of ts t := a] ! row_of ts u = (if u = t then a else v ! row_of ts u)"
        using other[OF u(1)] rows[OF t(2)] by (auto simp: nth_list_update)
      show "v[row_of ts t := a] ! row_of ts u = t_value n" if "t_op n = CONSTANT"
      proof -
        have "u \<noteq> t" using that t(3) free[OF u(2)] by auto
        with row v u that show ?thesis by (simp add: loaded_def)
      qed
      show "v[row_of ts t := a] ! row_of ts u = (vals(t := a)) u" if "t_op n = VAR_FREE"
        using row v u that by (simp add: loaded_def)
    qed (use v in \<open>simp add: loaded_def\<close>)
  qed
qed

definition over :: "(nat \<Rightarrow> f32) \<Rightarrow> solution \<Rightarrow> nat \<Rightarrow> f32" where
  "over vals vars t = (case map_of vars t of Some x \<Rightarrow> x | None \<Rightarrow> vals t)"

lemma loaded_setVars:
  assumes ok: "store_ok c" and dm: "deck_made c root ts d c' clauses x y z"
  shows "loaded c ts d vals v \<Longrightarrow> distinct (map fst vars) \<Longrightarrow>
    loaded c ts d (over vals (map (\<lambda>(t, x). (t, f t x)) vars)) (foldl (\<lambda>v (t, x). snd (setVar d t (f t x) v)) v vars)"
proof (induction vars arbitrary: vals v)
  case Nil
  then show ?case by (simp add: over_def)
next
  case (Cons a vars)
  obtain t y where a: "a = (t, y)" by force
  have "loaded c ts d (vals(t := f t y)) (snd (setVar d t (f t y) v))" by (rule loaded_setVar[OF ok dm Cons.prems(1)])
  from Cons.IH[OF this] Cons.prems(2) have
    "loaded c ts d (over (vals(t := f t y)) (map (\<lambda>(t, x). (t, f t x)) vars)) (foldl (\<lambda>v (t, x). snd (setVar d t (f t x) v)) v (a # vars))"
    by (simp only: a foldl_Cons prod.case list.map distinct.simps simp_thms fst_conv)
  moreover have "over (vals(t := f t y)) (map (\<lambda>(t, x). (t, f t x)) vars) = over vals (map (\<lambda>(t, x). (t, f t x)) (a # vars))"
  proof
    fix u
    have "t \<notin> fst ` set vars" using Cons.prems(2) by (simp add: a)
    then have "map_of (map (\<lambda>(t, x). (t, f t x)) vars) t = None" by (force simp: map_of_eq_None_iff)
    then show "over (vals(t := f t y)) (map (\<lambda>(t, x). (t, f t x)) vars) u = over vals (map (\<lambda>(t, x). (t, f t x)) (a # vars)) u"
      by (auto simp: over_def a split: option.splits)
  qed
  ultimately show ?case by simp
qed

lemma over_other: "t \<notin> fst ` set vars \<Longrightarrow> over vals vars t = vals t"
proof -
  assume "t \<notin> fst ` set vars"
  then have "map_of vars t = None" by (simp only: map_of_eq_None_iff not_False_eq_True)
  then show ?thesis unfolding over_def by (simp only: option.case)
qed

lemma over_key: "t \<in> fst ` set vars \<Longrightarrow> over vals vars t = over vals' vars t"
proof -
  assume "t \<in> fst ` set vars"
  then obtain y where "map_of vars t = Some y" by (metis map_of_eq_None_iff not_None_eq)
  then show ?thesis unfolding over_def by simp
qed

lemma over_outside: "\<forall>t. t \<notin> fst ` set vars \<longrightarrow> vals t = vals' t \<Longrightarrow> over vals vars = over vals' vars"
proof
  fix t assume "\<forall>t. t \<notin> fst ` set vars \<longrightarrow> vals t = vals' t"
  then show "over vals vars t = over vals' vars t"
    using over_other[of t vars] over_key[of t vars vals vals'] by (cases "t \<in> fst ` set vars") simp_all
qed

lemma moved_fst: "fst ` set (map (\<lambda>(t, x). (t, f t x)) vars) = fst ` set vars"
  by force

lemma moved_keys [simp]: "map fst (map (\<lambda>(t, x). (t, f t x)) vars) = map fst vars"
  by (simp add: split_beta comp_def)

section \<open>The residual\<close>

lemma array_value_loaded:
  assumes ok: "store_ok c" and dm: "deck_made c root ts d c' clauses x y z" and v: "loaded c ts d vals v"
  shows "\<exists>w. array_value lib (\<lambda>j. ov (d_oracles d ! j)) d (d_tape d) px py pz v
      = Inr (eval_expr lib (env_at c vals ov px py pz) (tree_of c root), w) \<and> loaded c ts d vals w"
proof -
  obtain w where w: "eval_tape lib (\<lambda>j. ov (d_oracles d ! j)) (d_tape d) (set_point d px py pz v) = Inr w"
    "rows_ok (eval_expr lib (env_at c vals ov px py pz)) c ts ts w" "loaded c ts d vals w"
    using eval_tape_loaded[OF ok dm v] by blast
  have "w ! 1 = eval_expr lib (env_at c vals ov px py pz) (tree_of c root)"
    using w(2) dm unfolding rows_ok_def deck_made_def by metis
  with w dm show ?thesis by (simp add: array_value_def deck_made_def)
qed

text \<open>One trial of the search: the variables are moved, the tree is evaluated.\<close>

lemma trial:
  assumes ok: "store_ok c" and dm: "deck_made c root ts d c' clauses x y z" and v: "loaded c ts d vals v"
    and out: "\<forall>t. t \<notin> fst ` set vars \<longrightarrow> vals t = base t" and dist: "distinct (map fst vars)"
  shows "\<exists>w. array_value lib (\<lambda>j. ov (d_oracles d ! j)) d (d_tape d) px py pz (set_vars d step ds vars v)
      = Inr (eval_expr lib (env_at c (over base (map (\<lambda>(t, x). (t, moved step ds t x)) vars)) ov px py pz) (tree_of c root), w)
    \<and> loaded c ts d (over base (map (\<lambda>(t, x). (t, moved step ds t x)) vars)) w"
proof -
  let ?vars = "map (\<lambda>(t, x). (t, moved step ds t x)) vars"
  have "over vals ?vars = over base ?vars" using out by (intro over_outside) (simp only: moved_fst)
  then have "loaded c ts d (over base ?vars) (set_vars d step ds vars v)"
    using loaded_setVars[OF ok dm v dist, of "moved step ds"] by (simp add: set_vars_def)
  from array_value_loaded[OF ok dm this] show ?thesis .
qed

lemma line_search_residual:
  assumes ok: "store_ok c" and dm: "deck_made c root ts d c' clauses x y z" and dist: "distinct (map fst vars)"
  shows "loaded c ts d vals v \<Longrightarrow> \<forall>t. t \<notin> fst ` set vars \<longrightarrow> vals t = base t \<Longrightarrow>
    line_search fuel lib (\<lambda>j. ov (d_oracles d ! j)) d (d_tape d) px py pz r slope ds vars step v = Inr ((b, r', vars'), w) \<Longrightarrow>
    map fst vars' = map fst vars \<and> loaded c ts d (over base vars') w
      \<and> r' = eval_expr lib (env_at c (over base vars') ov px py pz) (tree_of c root)"
proof (induction fuel arbitrary: vals v step)
  case (Suc fuel)
  let ?vars = "map (\<lambda>(t, x). (t, moved step ds t x)) vars"
  obtain u where u: "array_value lib (\<lambda>j. ov (d_oracles d ! j)) d (d_tape d) px py pz (set_vars d step ds vars v)
      = Inr (eval_expr lib (env_at c (over base ?vars) ov px py pz) (tree_of c root), u)" "loaded c ts d (over base ?vars) u"
    using trial[OF ok dm Suc.prems(1,2) dist] by blast
  have out: "\<forall>t. t \<notin> fst ` set vars \<longrightarrow> over base ?vars t = base t"
    using over_other[of _ ?vars base] unfolding moved_fst by blast
  show ?case
    using Suc.prems(3) Suc.IH[OF u(2) out] u moved_keys[of "moved step ds" vars] by (auto simp: Let_def simp del: map_map split: if_splits)
qed simp


definition search_ok ::
    "libm \<Rightarrow> (nat \<Rightarrow> f32) \<Rightarrow> f32 \<Rightarrow> f32 \<Rightarrow> f32 \<Rightarrow> cache \<Rightarrow> nat \<Rightarrow> nat list \<Rightarrow> deck \<Rightarrow> nat \<Rightarrow> (nat \<Rightarrow> f32) \<Rightarrow> nat list \<Rightarrow> search \<Rightarrow> bool" where
  "search_ok lib ov px py pz c root ts d N base keys s \<longleftrightarrow>
     map fst (s_vars s) = keys \<and> loaded c ts d (over base (s_vars s)) (s_values s)
     \<and> rectangular (d_num_clauses d + 1) (3 * N) (s_derivs s)
     \<and> s_r s = eval_expr lib (env_at c (over base (s_vars s)) ov px py pz) (tree_of c root)"

lemma evaluator_rectangular:
  assumes "deck_made c root ts d c' clauses x y z"
  shows "rectangular (d_num_clauses d + 1) (3 * N) (DerivArrayEvaluator N d)"
proof -
  have "length clauses = d_num_clauses d + 1" using assms by (simp add: deck_made_def)
  then show ?thesis
    unfolding DerivArrayEvaluator_def using axis_rows_differ(2)[OF assms] by (intro rectangular_axes rectangular_zero) simp_all
qed

lemma search_loop_residual:
  assumes ok: "store_ok c" and dm: "deck_made c root ts d c' clauses x y z" and nor: "d_oracles d = []" and N: "0 < N"
    and dist: "distinct keys"
  shows "search_ok lib ov px py pz c root ts d N base keys s \<Longrightarrow>
    search_loop rounds fuel lib sq (\<lambda>j. ov (d_oracles d ! j)) ask N d (d_tape d) px py pz s = Inr s' \<Longrightarrow>
    search_ok lib ov px py pz c root ts d N base keys s'"
proof (induction rounds arbitrary: s)
  case (Suc rounds)
  let ?ov = "\<lambda>j. ov (d_oracles d ! j)"
  show ?case
  proof (cases "s_converged s \<or> \<not> f32_le EPSILON (f32_abs (s_r s))")
    case True
    with Suc.prems show ?thesis by simp
  next
    case False
    note S = Suc.prems(1)[unfolded search_ok_def]
    then obtain g v where g: "gradient lib ?ov ask N d (d_tape d) px py pz (s_values s) (s_derivs s) = Inr (g, v, DerivArrayEvaluator N d)"
      "loaded c ts d (over base (s_vars s)) v"
      using gradient_loaded[OF ok dm nor N, of "over base (s_vars s)" "s_values s" "s_derivs s" lib ov ask px py pz] by blast
    define ds where "ds = update_ds g (s_ds s)"
    define s1 where "s1 = s\<lparr>s_ds := ds, s_values := v, s_derivs := DerivArrayEvaluator N d\<rparr>"
    have s1: "search_ok lib ov px py pz c root ts d N base keys s1"
      using S g(2) evaluator_rectangular[OF dm] by (simp add: s1_def search_ok_def)
    have loop: "search_loop (Suc rounds) fuel lib sq ?ov ask N d (d_tape d) px py pz s =
      (if list_all (\<lambda>(t, x). f32_lt (f32_abs x) EPSILON) ds then Inr s1
       else bindE (line_search fuel lib ?ov d (d_tape d) px py pz (s_r s1) (slope_sum sq ds) ds (s_vars s1) (f32_div (s_r s1) (slope_sum sq ds)) v)
         (\<lambda>((b, r, vars), v). search_loop rounds fuel lib sq ?ov ask N d (d_tape d) px py pz
            (s1\<lparr>s_converged := b, s_r := r, s_vars := vars, s_values := v\<rparr>)))"
      using False g(1) by (simp add: Let_def ds_def s1_def)
    show ?thesis
    proof (cases "list_all (\<lambda>(t, x). f32_lt (f32_abs x) EPSILON) ds")
      case True
      with loop Suc.prems(2) s1 show ?thesis by simp
    next
      case all: False
      then obtain b r vars w where l: "line_search fuel lib ?ov d (d_tape d) px py pz (s_r s1) (slope_sum sq ds) ds (s_vars s1)
          (f32_div (s_r s1) (slope_sum sq ds)) v = Inr ((b, r, vars), w)"
        and next_loop: "search_loop rounds fuel lib sq ?ov ask N d (d_tape d) px py pz (s1\<lparr>s_converged := b, s_r := r, s_vars := vars, s_values := w\<rparr>) = Inr s'"
        using Suc.prems(2)[unfolded loop if_not_P[OF all] bindE_Inr_iff] by auto
      have keys: "distinct (map fst (s_vars s1))" using S dist by (simp add: s1_def)
      have v: "loaded c ts d (over base (s_vars s1)) v" "\<forall>t. t \<notin> fst ` set (s_vars s1) \<longrightarrow> over base (s_vars s1) t = base t"
        using g(2) over_other by (simp_all add: s1_def)
      note R = line_search_residual[OF ok dm keys v l]
      let ?s2 = "s1\<lparr>s_converged := b, s_r := r, s_vars := vars, s_values := w\<rparr>"
      have "search_ok lib ov px py pz c root ts d N base keys ?s2"
        using R s1 by (simp add: search_ok_def)
      then show ?thesis using Suc.IH next_loop by blast
    qed
  qed
qed simp

fun has_oracle :: "expr \<Rightarrow> bool" where
  "has_oracle (Oracle t) \<longleftrightarrow> True"
| "has_oracle (Apply op l r) \<longleftrightarrow> has_oracle l \<or> has_oracle r"
| "has_oracle _ \<longleftrightarrow> False"

lemma no_oracles:
  assumes ok: "store_ok c" and dm: "deck_made c root ts d c' clauses x y z" and e: "\<not> has_oracle (tree_of c root)"
  shows "d_oracles d = []"
proof -
  have sub: "has_oracle (tree_of c q) \<Longrightarrow> has_oracle (tree_of c root)" if "below c root q" for q
    using that
  proof (induction rule: below.induct)
    case (below_child q n r)
    have "t_op n \<noteq> CONSTANT" "t_op n \<noteq> VAR_FREE" "t_op n \<noteq> ORACLE"
      using node_args[OF ok below_child(2)] below_child(3,4) by (auto simp: args_ok_def arity_ok_def args_def split: if_splits)
    with below_child show ?case by (auto simp: tree_of_node[OF ok below_child(2)])
  qed simp
  have "op_of c t \<noteq> ORACLE" if t: "t \<in> set ts" for t
  proof
    assume o': "op_of c t = ORACLE"
    obtain n where n: "node_at c t = Some n" using deck_node[OF dm t] .
    then have "has_oracle (tree_of c t)" using o' by (simp add: tree_of_node[OF ok n] op_of_def)
    moreover have "below c root t" using dm t by (simp add: deck_made_def)
    ultimately show False using sub e by blast
  qed
  moreover have "d_oracles d = oracle_list c ts" using dm unfolding deck_made_def by blast
  ultimately show ?thesis by (simp add: oracle_list_def)
qed


text \<open>What a solution leaves the variables at: the masked ones keep the value they were given, and
  those the caller did not mention are zero.\<close>

definition settled :: "solution \<Rightarrow> solution \<Rightarrow> nat \<Rightarrow> f32" where
  "settled vars sol = over (over (\<lambda>_. 0) vars) sol"

lemma find_root_residual:
  assumes ok: "store_ok c" and dm: "deck_made c root ts d c' clauses x y z" and nor: "d_oracles d = []" and N: "0 < N"
    and dist: "distinct (map fst vars)" and v: "loaded c ts d base v" "rectangular (d_num_clauses d + 1) (3 * N) e"
    and over: "over base vars = base"
    and run: "find_root fuel lib sq (\<lambda>j. ov (d_oracles d ! j)) ask N d (d_tape d) px py pz vars gas v e = Inr (r, sol)"
  shows "r = eval_expr lib (env_at c (over base sol) ov px py pz) (tree_of c root) \<and> map fst sol = map fst vars"
proof -
  obtain w where w: "array_value lib (\<lambda>j. ov (d_oracles d ! j)) d (d_tape d) px py pz v
      = Inr (eval_expr lib (env_at c base ov px py pz) (tree_of c root), w)" "loaded c ts d base w"
    using array_value_loaded[OF ok dm v(1)] by blast
  let ?s = "\<lparr>s_r = eval_expr lib (env_at c base ov px py pz) (tree_of c root), s_converged = False,
    s_ds = map (\<lambda>(t, x). (t, 0)) vars, s_vars = vars, s_values = w, s_derivs = e\<rparr>"
  obtain s' where s': "search_loop (unat (gas - 1)) fuel lib sq (\<lambda>j. ov (d_oracles d ! j)) ask N d (d_tape d) px py pz ?s = Inr s'"
    "r = s_r s'" "sol = s_vars s'" using run w(1) by (auto simp: find_root_def bindE_Inr_iff)
  have "search_ok lib ov px py pz c root ts d N base (map fst vars) ?s"
    using w(2) v(2) over by (simp add: search_ok_def)
  from search_loop_residual[OF ok dm nor N dist this s'(1)] s'(2,3) show ?thesis by (simp add: search_ok_def)
qed

lemma over_self: "over (over vals vars) (filter (\<lambda>(t, x). P t) vars) = over vals vars"
proof
  fix t
  have "map_of (filter (\<lambda>(t, x). P t) vars) t = (if P t then map_of vars t else None)"
    by (induction vars) auto
  then show "over (over vals vars) (filter (\<lambda>(t, x). P t) vars) t = over vals vars t"
    by (cases "P t"; cases "map_of vars t") (simp_all only: over_def option.case if_True if_False)
qed

lemma loaded_given:
  assumes ok: "store_ok c" and dm: "deck_made c root ts d c' clauses x y z" and dist: "distinct (map fst vars)"
  shows "loaded c ts d (over (\<lambda>_. 0) vars) (foldl (\<lambda>v (t, x). snd (setVar d t x v)) (ArrayEvaluator d (map_of vars)) vars)"
proof -
  have "over (\<lambda>_. 0) vars = (\<lambda>t. case map_of vars t of Some v \<Rightarrow> v | None \<Rightarrow> 0)"
    unfolding over_def by (rule ext) (cases rule: option.exhaust, simp_all only: option.case)
  with loaded_fresh[OF ok dm, of "map_of vars"] have "loaded c ts d (over (\<lambda>_. 0) vars) (ArrayEvaluator d (map_of vars))" by simp
  from loaded_setVars[OF ok dm this dist, of "\<lambda>t x. x"] show ?thesis
    using over_self[of "\<lambda>_. 0" vars "\<lambda>_. True"] by simp
qed

text \<open>C39: When \<open>findRoot\<close> returns, the residual it returns is the value of the tree at the point with
  the variables at the solution it returns: the masked variables at the values they were given and
  the others where the search left them. The bookkeeping of the search (values that live in the
  rows of the evaluator, the map of the solution, the residual carried from round to round) never
  comes apart, and the solution has exactly the variables that were given and not masked.\<close>

theorem residual_is_value:
  assumes "fresh_addresses alloc" "api_reachable lib alloc s" "p \<in> set (a_trees s)" "0 < N"
    and "\<not> has_oracle (tree_of (a_cache s) p)" "distinct (map fst vars)"
    and "findRoot fuel lib sq (operation lib alloc (Suc k) True) oracle ask N p vars px py pz masked gas (a_cache s) = Inr ((r, sol), c')"
  shows "r = eval_expr lib (env_at (a_cache s) (settled vars sol) oracle px py pz) (tree_of (a_cache s) p)
    \<and> map fst sol = filter (\<lambda>t. t \<notin> set masked) (map fst vars)"
proof -
  let ?c = "a_cache s" and ?sub = "filter (\<lambda>(t, x). t \<notin> set masked) vars"
  have s: "store_ok ?c" "live ?c p" using reachable_ok[OF assms(1,2)] assms(3) by (auto simp: api_ok_def)
  obtain d c1 ts clauses x y z where d: "Deck (operation lib alloc (Suc k) True) p ?c = Inr (d, c1)" "deck_made ?c p ts d c1 clauses x y z"
    using Deck_made[OF s operation_makes_axes[OF assms(1)], of lib k] by blast
  have nor: "d_oracles d = []" by (rule no_oracles[OF s(1) d(2) assms(5)])
  let ?v = "foldl (\<lambda>v (t, x). snd (setVar d t x v)) (ArrayEvaluator d (map_of vars)) vars"
  note v = loaded_given[OF s(1) d(2) assms(6)]
  have run: "find_root fuel lib sq (\<lambda>j. oracle (d_oracles d ! j)) (\<lambda>j. ask (d_oracles d ! j)) N d (d_tape d) px py pz ?sub gas ?v (DerivArrayEvaluator N d)
      = Inr (r, sol)"
    using assms(7) d(1) by (auto simp: findRoot_def findRoot_evaluator_def bindE_Inr_iff)
  have dist: "distinct (map fst ?sub)" using assms(6) by (rule distinct_map_filter)
  have "map fst ?sub = filter (\<lambda>t. t \<notin> set masked) (map fst vars)" by (induction vars) auto
  with find_root_residual[OF s(1) d(2) nor assms(4) dist v evaluator_rectangular[OF d(2)] over_self run] show ?thesis
    by (simp add: settled_def)
qed


definition float_square :: "f32 \<Rightarrow> f64" where
  "float_square x = f64_of_f32 (f32_mul x x)"

text \<open>A search in one variable whose first trial is accepted.\<close>

lemma find_root_one_round:
  assumes ok: "store_ok c" and dm: "deck_made c root ts d c' clauses x y z" and nor: "d_oracles d = []" and N: "0 < N" and root: "live c root"
    and v: "loaded c ts d base v" "rectangular (d_num_clauses d + 1) (3 * N) e" and t: "t \<in> free_vars (tree_of c root)"
    and r: "eval_expr lib (env_at c base ov px py pz) (tree_of c root) = r" "f32_le EPSILON (f32_abs r)"
    and D: "deriv_expr lib True (env_at c base ov px py pz) (var_seed t) (tree_of c root) = D" "\<not> f32_lt (f32_abs D) EPSILON"
    and step: "moved (f32_div r (slope_sum sq [(t, D)])) [(t, D)] t a = a'"
    and r': "eval_expr lib (env_at c (over base [(t, a')]) ov px py pz) (tree_of c root) = r'" "f32_lt r' EPSILON"
  shows "find_root (Suc n) lib sq (\<lambda>j. ov (d_oracles d ! j)) ask N d (d_tape d) px py pz [(t, a)] 2 v e = Inr (r', [(t, a')])"
proof -
  let ?ov = "\<lambda>j. ov (d_oracles d ! j)" and ?D = "\<lambda>t. deriv_expr lib True (env_at c base ov px py pz) (var_seed t) (tree_of c root)"
  let ?step = "f32_div r (slope_sum sq [(t, D)])"
  obtain w where w: "array_value lib ?ov d (d_tape d) px py pz v = Inr (r, w)" "loaded c ts d base w"
    using array_value_loaded[OF ok dm v(1), of lib ov px py pz] unfolding r(1) by blast
  let ?g = "map (\<lambda>(r, t). (t, ?D t)) (vars_left d)"
  obtain u where g: "gradient lib ?ov ask N d (d_tape d) px py pz w e = Inr (?g, u, DerivArrayEvaluator N d)" "loaded c ts d base u"
    using gradient_loaded[OF ok dm nor N w(2) v(2)] by blast
  have "map_of ?g t = Some D" using gradient_map[OF ok dm root, of ?D t] t D(1) by simp
  then have ds: "update_ds ?g [(t, 0)] = [(t, D)]" by (simp only: update_ds_def list.map prod.case option.case)
  obtain q where "array_value lib ?ov d (d_tape d) px py pz (set_vars d ?step [(t, D)] [(t, a)] u) = Inr (r', q)"
    using trial[OF ok dm g(2), of "[(t, a)]" base lib ov px py pz ?step "[(t, D)]"] by (auto simp: step r'(1))
  then have l: "\<exists>b. line_search (Suc n) lib ?ov d (d_tape d) px py pz r (slope_sum sq [(t, D)]) [(t, D)] [(t, a)] ?step u = Inr ((b, r', [(t, a')]), q)"
    by (simp add: r'(2) step Let_def)
  have gas: "unat (2 - 1 :: 32 word) = Suc 0" by simp
  show ?thesis
    unfolding find_root_def gas using w(1) g(1) ds l r(2) D(2) by (auto simp: Let_def simp del: line_search.simps)
qed

theorem residual_is_value_witness:
  "\<exists>c'. findRoot (Suc 0) sample_libm float_square (operation sample_libm next_address (Suc 3) True) (\<lambda>_. 0) (\<lambda>_ _. 0) 1 3 [(1, f32_one)] f32_two 0 0 [] 2 (a_cache slope_state)
     = Inr ((0, [(1, 0)]), c')
   \<and> 0 = eval_expr sample_libm (env_at (a_cache slope_state) (settled [(1, f32_one)] [(1, 0)]) (\<lambda>_. 0) f32_two 0 0) (tree_of (a_cache slope_state) 3)"
proof -
  let ?c = "a_cache slope_state" and ?vars = "[(1, f32_one)] :: solution" and ?tree = "Apply OP_MUL (Free 1) (Apply VAR_X Null Null)"
  let ?env = "\<lambda>vals. env_at ?c vals (\<lambda>_. 0) f32_two 0 0"
  have s: "store_ok ?c" "live ?c 3" using reachable_ok[OF fresh_sample slope_state_facts(1)] by (auto simp: api_ok_def slope_state_facts(2))
  obtain d c1 ts clauses x y z where d: "Deck (operation sample_libm next_address (Suc 3) True) 3 ?c = Inr (d, c1)" "deck_made ?c 3 ts d c1 clauses x y z"
    using Deck_made[OF s operation_makes_axes[OF fresh_sample], of sample_libm 3] by blast
  have o': "\<not> has_oracle (tree_of ?c 3)" by (simp add: slope_state_facts(3))
  have e: "eval_expr sample_libm (?env (over (\<lambda>_. 0) ?vars)) ?tree = f32_two" "f32_le EPSILON (f32_abs f32_two)"
    "deriv_expr sample_libm True (?env (over (\<lambda>_. 0) ?vars)) (var_seed 1) ?tree = f32_two" "\<not> f32_lt (f32_abs f32_two) EPSILON"
    "moved (f32_div f32_two (slope_sum float_square [(1, f32_two)])) [(1, f32_two)] 1 f32_one = 0"
    "eval_expr sample_libm (?env (over (over (\<lambda>_. 0) ?vars) [(1, 0)])) ?tree = 0" "f32_lt 0 EPSILON" by code_simp+
  have "find_root (Suc 0) sample_libm float_square (\<lambda>j. (\<lambda>_. 0) (d_oracles d ! j)) (\<lambda>_ _. 0) 1 d (d_tape d) f32_two 0 0 ?vars 2
      (foldl (\<lambda>v (t, x). snd (setVar d t x v)) (ArrayEvaluator d (map_of ?vars)) ?vars) (DerivArrayEvaluator 1 d) = Inr (0, [(1, 0)])"
    by (rule find_root_one_round[OF s(1) d(2) no_oracles[OF s(1) d(2) o'] _ s(2) loaded_given[OF s(1) d(2)] evaluator_rectangular[OF d(2)]])
      (use e in \<open>simp_all only: slope_state_facts(3), simp_all\<close>)
  with d(1) have run: "findRoot (Suc 0) sample_libm float_square (operation sample_libm next_address (Suc 3) True) (\<lambda>_. 0) (\<lambda>_ _. 0) 1 3 ?vars f32_two 0 0 [] 2 ?c
     = Inr ((0, [(1, 0)]), c1)" by (simp add: findRoot_def findRoot_evaluator_def del: One_nat_def)
  from residual_is_value[OF fresh_sample slope_state_facts(1) _ _ o' _ run] run show ?thesis
    by (simp add: slope_state_facts(2))
qed

section \<open>Steps that are not numbers\<close>

lemma nan_arith:
  "f32_isnan b \<Longrightarrow> f32_div a b = f32_nan" "f32_isnan a \<Longrightarrow> f32_div a b = f32_nan" "f32_isnan a \<Longrightarrow> f32_mul a b = f32_nan"
  "f32_isnan b \<Longrightarrow> f32_sub a b = f32_nan"
  by (simp_all add: f32_div_def f32_mul_def f32_sub_def Let_def)

lemma nan_nan [simp]: "f32_isnan f32_nan"
  by code_simp

lemma nan_order: "f32_isnan a \<Longrightarrow> \<not> f32_lt a b" "f32_isnan a \<Longrightarrow> \<not> f32_lt b a" "f32_isnan a \<Longrightarrow> \<not> f32_lt (f32_abs a) b"
  "f32_isnan a \<Longrightarrow> \<not> f64_le b' (f64_of_f32 a)"
proof -
  assume a: "f32_isnan a"
  then show "\<not> f32_lt a b" "\<not> f32_lt b a" "\<not> f32_lt (f32_abs a) b" by (simp_all add: f32_lt_def abs_nan)
  have "f64_isnan 0x7FF8000000000000" by code_simp
  with a show "\<not> f64_le b' (f64_of_f32 a)" by (simp add: f64_le_def f64_of_f32_def)
qed

lemma nan_sum:
  assumes "f64_isnan a \<or> f64_isnan b"
  shows "f32_isnan (f32_of_f64 (f64_add a b))"
proof -
  have "f64_isnan 0x7FF8000000000000" by code_simp
  then have "f64_isnan (f64_add a b)" using assms by (simp add: f64_add_def)
  then show ?thesis by (simp add: f32_of_f64_def)
qed

lemma nan_slope:
  assumes sq: "\<And>x. f32_isnan x \<Longrightarrow> f64_isnan (sq x)" and ds: "(t, x) \<in> set ds" "f32_isnan x"
  shows "f32_isnan (slope_sum sq ds)"
proof -
  have n: "f64_isnan 0x7FF8000000000000" by code_simp
  have "f32_isnan d \<or> (\<exists>(t, x) \<in> set ds. f32_isnan x) \<Longrightarrow>
    f32_isnan (foldl (\<lambda>d (t, x). f32_of_f64 (f64_add (f64_of_f32 d) (sq x))) d ds)" for d
  proof (induction ds arbitrary: d)
    case (Cons a ds)
    obtain u y where a: "a = (u, y)" by force
    from Cons.prems have "f32_isnan (f32_of_f64 (f64_add (f64_of_f32 d) (sq y))) \<or> (\<exists>(t, x) \<in> set ds. f32_isnan x)"
    proof -
      consider "f32_isnan d" | "f32_isnan y" | "\<exists>(t, x) \<in> set ds. f32_isnan x" using Cons.prems by (auto simp: a)
      then show ?thesis using nan_sum[of "f64_of_f32 d" "sq y"] sq[of y] n by cases (simp_all add: f64_of_f32_def)
    qed
    with Cons.IH show ?case by (simp add: a)
  qed simp
  with ds show ?thesis unfolding slope_sum_def by blast
qed

definition nowhere :: "solution \<Rightarrow> solution" where
  "nowhere vars = map (\<lambda>(t, x). (t, f32_nan)) vars"

lemma line_search_hangs:
  assumes ok: "store_ok c" and dm: "deck_made c root ts d c' clauses x y z" and dist: "distinct (map fst vars)"
    and slope: "f32_isnan slope" and nan: "f32_isnan (eval_expr lib (env_at c (over base (nowhere vars)) ov px py pz) (tree_of c root))"
  shows "loaded c ts d vals v \<Longrightarrow> \<forall>t. t \<notin> fst ` set vars \<longrightarrow> vals t = base t \<Longrightarrow> f32_isnan step \<Longrightarrow>
    line_search fuel lib (\<lambda>j. ov (d_oracles d ! j)) d (d_tape d) px py pz r slope ds vars step v = Inl OutOfFuel"
proof (induction fuel arbitrary: vals v step)
  case (Suc fuel)
  have vars: "map (\<lambda>(t, x). (t, moved step ds t x)) vars = nowhere vars"
    using Suc.prems(3) by (simp add: nowhere_def moved_def nan_arith)
  obtain u where u: "array_value lib (\<lambda>j. ov (d_oracles d ! j)) d (d_tape d) px py pz (set_vars d step ds vars v)
      = Inr (eval_expr lib (env_at c (over base (nowhere vars)) ov px py pz) (tree_of c root), u)" "loaded c ts d (over base (nowhere vars)) u"
    using trial[OF ok dm Suc.prems(1,2) dist, of lib ov px py pz step ds] unfolding vars by blast
  have out: "\<forall>t. t \<notin> fst ` set vars \<longrightarrow> over base (nowhere vars) t = base t"
    using over_other[of _ "nowhere vars" base] unfolding nowhere_def moved_fst[of "\<lambda>t x. f32_nan"] by blast
  have "line_search fuel lib (\<lambda>j. ov (d_oracles d ! j)) d (d_tape d) px py pz r slope ds vars (f32_div step f32_two) u = Inl OutOfFuel"
    by (rule Suc.IH[OF u(2) out]) (simp add: nan_arith Suc.prems(3))
  with u(1) nan slope show ?case by (simp add: Let_def nan_arith nan_order)
qed simp

lemma find_root_hangs:
  assumes ok: "store_ok c" and dm: "deck_made c root ts d c' clauses x y z" and nor: "d_oracles d = []" and N: "0 < N" and root: "live c root"
    and dist: "distinct (map fst vars)" and v: "loaded c ts d base v" "rectangular (d_num_clauses d + 1) (3 * N) e"
    and start: "f32_le EPSILON (f32_abs (eval_expr lib (env_at c base ov px py pz) (tree_of c root)))" "gas \<noteq> 1"
    and t: "t \<in> fst ` set vars" "t \<in> free_vars (tree_of c root)"
      "f32_isnan (deriv_expr lib True (env_at c base ov px py pz) (var_seed t) (tree_of c root))"
    and sq: "\<And>x. f32_isnan x \<Longrightarrow> f64_isnan (sq x)"
    and nan: "f32_isnan (eval_expr lib (env_at c (over base (nowhere vars)) ov px py pz) (tree_of c root))"
  shows "find_root fuel lib sq (\<lambda>j. ov (d_oracles d ! j)) ask N d (d_tape d) px py pz vars gas v e = Inl OutOfFuel"
proof -
  let ?ov = "\<lambda>j. ov (d_oracles d ! j)" and ?r = "eval_expr lib (env_at c base ov px py pz) (tree_of c root)"
  let ?D = "\<lambda>t. deriv_expr lib True (env_at c base ov px py pz) (var_seed t) (tree_of c root)"
  obtain w where w: "array_value lib ?ov d (d_tape d) px py pz v = Inr (?r, w)" "loaded c ts d base w"
    using array_value_loaded[OF ok dm v(1)] by blast
  let ?s = "\<lparr>s_r = ?r, s_converged = False, s_ds = map (\<lambda>(t, x). (t, 0)) vars, s_vars = vars, s_values = w, s_derivs = e\<rparr>"
  let ?g = "map (\<lambda>(r, t). (t, ?D t)) (vars_left d)"
  obtain u where g: "gradient lib ?ov ask N d (d_tape d) px py pz w e = Inr (?g, u, DerivArrayEvaluator N d)" "loaded c ts d base u"
    using gradient_loaded[OF ok dm nor N w(2) v(2)] by blast
  define ds where "ds = update_ds ?g (map (\<lambda>(t, x). (t, 0)) vars)"
  have "map_of ?g t = Some (?D t)" using gradient_map[OF ok dm root, of ?D t] t(2) by simp
  with t(1) have ds: "(t, ?D t) \<in> set ds" by (force simp: ds_def update_ds_def image_iff)
  then have big: "\<not> list_all (\<lambda>(t, x). f32_lt (f32_abs x) EPSILON) ds"
    using nan_order(3)[OF t(3)] by (force simp: list_all_iff)
  have slope: "f32_isnan (slope_sum sq ds)" by (rule nan_slope[OF sq ds t(3)])
  have "line_search fuel lib ?ov d (d_tape d) px py pz ?r (slope_sum sq ds) ds vars (f32_div ?r (slope_sum sq ds)) u = Inl OutOfFuel"
    by (rule line_search_hangs[OF ok dm dist slope nan g(2)]) (simp_all add: nan_arith(1)[OF slope])
  moreover obtain rounds where rounds: "unat (gas - 1) = Suc rounds"
  proof -
    have "gas - 1 \<noteq> 0" using start(2) by simp
    then have "unat (gas - 1) \<noteq> 0" by (simp only: unat_eq_0 not_False_eq_True)
    with that show ?thesis by (cases "unat (gas - 1)") auto
  qed
  ultimately have "search_loop (unat (gas - 1)) fuel lib sq ?ov ask N d (d_tape d) px py pz ?s = Inl OutOfFuel"
    unfolding rounds using start big g(1) by (simp add: Let_def ds_def)
  with w(1) show ?thesis by (simp add: find_root_def)
qed


text \<open>The search for a step ends when a trial is accepted, and only then. When the derivative in
  one of the variables is not a number at the start (and the tree has no value where its variables
  have none), the sum of the squares is not a number, neither is any step, every trial is compared
  to false, and \<open>findRoot\<close> never returns, whatever \<open>gas\<close> it was given (except one, which allows no round): no amount of
  fuel is enough for the model. The square of a value that is not a number is assumed not to be one.\<close>

theorem findRoot_hangs:
  assumes "fresh_addresses alloc" "api_reachable lib alloc s" "p \<in> set (a_trees s)" "0 < N" "gas \<noteq> 1"
    and "\<not> has_oracle (tree_of (a_cache s) p)" "distinct (map fst vars)" "t \<in> fst ` set vars" "t \<in> free_vars (tree_of (a_cache s) p)"
    and "f32_isnan (var_slope lib (a_cache s) (settled vars []) px py pz p t)"
    and "f32_le EPSILON (f32_abs (eval_expr lib (env_at (a_cache s) (settled vars []) (\<lambda>_. 0) px py pz) (tree_of (a_cache s) p)))"
    and "f32_isnan (eval_expr lib (env_at (a_cache s) (settled vars (nowhere vars)) (\<lambda>_. 0) px py pz) (tree_of (a_cache s) p))"
    and "\<And>x. f32_isnan x \<Longrightarrow> f64_isnan (sq x)"
  shows "findRoot fuel lib sq (operation lib alloc (Suc k) True) (\<lambda>_. 0) ask N p vars px py pz [] gas (a_cache s) = Inl OutOfFuel"
proof -
  let ?c = "a_cache s"
  have s: "store_ok ?c" "live ?c p" using reachable_ok[OF assms(1,2)] assms(3) by (auto simp: api_ok_def)
  obtain d c1 ts clauses x y z where d: "Deck (operation lib alloc (Suc k) True) p ?c = Inr (d, c1)" "deck_made ?c p ts d c1 clauses x y z"
    using Deck_made[OF s operation_makes_axes[OF assms(1)], of lib k] by blast
  have nor: "d_oracles d = []" by (rule no_oracles[OF s(1) d(2) assms(6)])
  have start: "settled vars [] = over (\<lambda>_. 0) vars" by (rule ext) (simp add: settled_def over_def[of _ "[]"])
  note v = loaded_given[OF s(1) d(2) assms(7)]
  have "find_root fuel lib sq (\<lambda>j. 0) (\<lambda>j. ask (d_oracles d ! j)) N d (d_tape d) px py pz vars gas
      (foldl (\<lambda>v (t, x). snd (setVar d t x v)) (ArrayEvaluator d (map_of vars)) vars) (DerivArrayEvaluator N d) = Inl OutOfFuel"
  proof (rule find_root_hangs[OF s(1) d(2) nor assms(4) s(2) assms(7) v evaluator_rectangular[OF d(2)], where ov = "\<lambda>_. 0" and t = t])
    show "f32_le EPSILON (f32_abs (eval_expr lib (env_at ?c (over (\<lambda>_. 0) vars) (\<lambda>_. 0) px py pz) (tree_of ?c p)))"
      using assms(11) unfolding start .
    show "f32_isnan (deriv_expr lib True (env_at ?c (over (\<lambda>_. 0) vars) (\<lambda>_. 0) px py pz) (var_seed t) (tree_of ?c p))"
      using assms(10) unfolding start var_slope_def .
    show "f32_isnan (eval_expr lib (env_at ?c (over (over (\<lambda>_. 0) vars) (nowhere vars)) (\<lambda>_. 0) px py pz) (tree_of ?c p))"
      using assms(12) unfolding settled_def .
  qed (rule assms)+
  with d(1) show ?thesis by (simp add: findRoot_def findRoot_evaluator_def)
qed


text \<open>A library whose powers of negative numbers have no value, and the cube root of a variable.\<close>

definition root_libm :: libm where
  "root_libm = sample_libm\<lparr>m_pow := (\<lambda>a b. if f32_lt a 0 \<or> f32_isnan a then f32_nan else a)\<rparr>"

definition root_calls :: "call list" where
  "root_calls = [Var, Const 0x40400000, Binary 25 (Some 1) (Some 2)]"

definition root_state :: api where
  "root_state = (case run_calls root_libm next_address 5 root_calls sample_start of Inl e \<Rightarrow> sample_start | Inr s \<Rightarrow> s)"

lemma root_state_facts:
  "api_reachable root_libm next_address root_state" "a_trees root_state = [3, 2, 1]"
  "tree_of (a_cache root_state) 3 = Apply OP_NTH_ROOT (Free 1) (Constant 0x40400000)"
proof -
  have "case run_calls root_libm next_address 5 root_calls sample_start of Inl e \<Rightarrow> False | Inr s \<Rightarrow> True" by code_simp
  from case_returned[OF this] have "run_calls root_libm next_address 5 root_calls sample_start = Inr root_state" by (auto simp: root_state_def)
  from run_calls_reachable[OF this] api_start show "api_reachable root_libm next_address root_state" by (simp add: sample_start_def)
  show "a_trees root_state = [3, 2, 1]" "tree_of (a_cache root_state) 3 = Apply OP_NTH_ROOT (Free 1) (Constant 0x40400000)" by code_simp+
qed

theorem findRoot_hangs_witness:
  "\<forall>fuel. findRoot fuel root_libm float_square (operation root_libm next_address (Suc 3) True) (\<lambda>_. 0) (\<lambda>_ _. 0) 1 3
     [(1, f32_uminus f32_one)] 0 0 0 [] 25000 (a_cache root_state) = Inl OutOfFuel"
proof
  fix fuel
  let ?tree = "Apply OP_NTH_ROOT (Free 1) (Constant 0x40400000)" and ?v = "[(1, f32_uminus f32_one)]"
  have sq: "f32_isnan x \<Longrightarrow> f64_isnan (float_square x)" for x
  proof -
    have "f64_isnan 0x7FF8000000000000" by code_simp
    then show "f32_isnan x \<Longrightarrow> f64_isnan (float_square x)" by (simp add: float_square_def nan_arith f64_of_f32_def)
  qed
  have "f32_isnan (var_slope root_libm (a_cache root_state) (settled ?v []) 0 0 0 3 1)"
    unfolding var_slope_def root_state_facts(3) by code_simp
  moreover have "f32_le EPSILON (f32_abs (eval_expr root_libm (env_at (a_cache root_state) (settled ?v []) (\<lambda>_. 0) 0 0 0) (tree_of (a_cache root_state) 3)))"
    unfolding root_state_facts(3) by code_simp
  moreover have "f32_isnan (eval_expr root_libm (env_at (a_cache root_state) (settled ?v (nowhere ?v)) (\<lambda>_. 0) 0 0 0) (tree_of (a_cache root_state) 3))"
    unfolding root_state_facts(3) by code_simp
  ultimately show "findRoot fuel root_libm float_square (operation root_libm next_address (Suc 3) True) (\<lambda>_. 0) (\<lambda>_ _. 0) 1 3 ?v 0 0 0 [] 25000 (a_cache root_state)
      = Inl OutOfFuel"
    using sq by (intro findRoot_hangs[OF fresh_sample root_state_facts(1), where t = 1])
      (simp_all add: root_state_facts(2,3) del: eval_expr.simps)
qed

end
