(* ===== verification/Spec2Isabelle.thy ===== *)
theory Spec2Isabelle
  imports DatabaseProps GraphProps AppProps ColumnProps ArchiveProps IntervalFlags MeshProps ManifoldProps SolverProps
begin

text \<open>
  A verification development for structur3D, a collaborative modeller for solids, and for the part
  of its implicit-function kernel (libfive, \<open>src/five\<close>) that turns a document into a tape and
  evaluates it. Paths are relative to the repository's root; \<open>src/\<close> and \<open>include/\<close> hold the
  program, \<open>thirdparty/libfive\<close> the headers of the kernel.

  The program. A user edits a document: spheres and set operations joined by edges. An edit updates
  the graph in memory, writes to a database on disk and is sent to the other replicas, which write
  it to theirs. A background job turns the graph into trees, the trees into expressions of the
  kernel and these into a mesh. The kernel keeps every expression once, flattens an expression into
  a tape, shortens the tape for regions of space, and evaluates it over numbers and intervals.

  Parts and theories, in the order of the imports.

  \<^item> Foundations. \<open>Prelude\<close> has the result type of code that can fail (\<open>fault\<close>, the sum with the
    value) with its plumbing and the collections of facts. \<open>Ieee754\<close> gives \<open>float\<close> and \<open>double\<close> at
    bit level (words of 32 and 64 bits, with decoding, rounding to nearest even, comparison,
    conversion) and \<open>IeeeRounding\<close> the facts about rounding. \<open>Uuid\<close> has the identifiers and their
    text form.
  \<^item> Documents. \<open>Attributes\<close> models \<open>include/data\<close> and \<open>src/data\<close>; \<open>Graph\<close> models
    \<open>src/data/Graph.cpp\<close> with nodes as objects of a heap, since views share and assign through
    them; \<open>GraphProps\<close> shows when its recursion returns, what it returns and where it faults.
  \<^item> The document database. \<open>Tables\<close> has the tables, \<open>Database\<close> the operations of
    \<open>src/db/DatabaseImpl.cpp\<close> with the statements they run, \<open>Replication\<close> histories of writes,
    \<open>Queries\<close> the abstract reading of the tables and its refinement by the queries,
    \<open>DatabaseProps\<close> what replicas agree on and where they do not.
  \<^item> The application. \<open>Protocol\<close> models the messages (\<open>include/wire\<close>, \<open>src/wire\<close>), \<open>Document\<close> the
    open document (\<open>src/document/DocumentImpl.cpp\<close>), \<open>Viewmodel\<close> the three interactors
    (\<open>src/vm/ViewmodelImpl.cpp\<close>). Events of the application are a datatype and their handlers
    functions on one state; a mesh job is queued and runs later, in whatever order the jobs finish.
    \<open>AppInvariant\<close> and \<open>AppProps\<close> hold the invariant over all events and relate edits, messages
    and writes.
  \<^item> The column store. \<open>Bitsery\<close> and \<open>Serialization\<close> model the binary form of attributes
    (\<open>include/utils\<close> over the bitsery headers), \<open>ColumnDb\<close> the store (\<open>include/db/ColumnDB.h\<close> and
    \<open>include/db/column\<close>), \<open>ColumnProps\<close> its convergence and its losses.
  \<^item> Expressions. \<open>Opcode\<close> and \<open>Clause\<close> have the operations and what one of them computes
    (\<open>src/five/tree/opcode.cpp\<close>, \<open>src/five/eval/eval_array.cpp\<close>); \<open>ExprCache\<close> the store that keeps
    one node for each expression, with its rewriting (\<open>src/five/tree/cache.cpp\<close>); \<open>ExprStore\<close> its
    invariant; \<open>ExprValue\<close>, \<open>ExprRewrite\<close>, \<open>ExprTree\<close> and \<open>ExprOrder\<close> what the nodes stand for,
    what rewriting keeps and the operations of \<open>src/five/tree/tree.cpp\<close>.
  \<^item> Tapes. \<open>Deck\<close> models \<open>src/five/eval/deck.cpp\<close>, \<open>tape.cpp\<close> and the walk of \<open>eval_array.cpp\<close>;
    \<open>DeckValue\<close> and \<open>DeckProps\<close> show that the tape computes the tree, \<open>TapePush\<close> that a shortened
    tape does, \<open>TapePruned\<close> what a push leaves out. \<open>Libfive\<close> has the C entry points (\<open>src/five/libfive.cpp\<close>) as calls of a client on
    the handles it owns, and \<open>KernelProps\<close> what such a client can rely on.
  \<^item> Archives. \<open>Archive\<close> models \<open>src/five/tree/archive.cpp\<close>, \<open>serializer.cpp\<close> and
    \<open>deserializer.cpp\<close> on a list of bytes, \<open>ArchiveProps\<close> the round trip.
  \<^item> Regions. \<open>IntervalOps\<close> models the interval class (\<open>thirdparty/libfive/eval/interval.hpp\<close>),
    \<open>IntervalEval\<close> the evaluator (\<open>src/five/eval/eval_interval.cpp\<close>, \<open>base.cpp\<close>), \<open>IntervalSound\<close>
    and \<open>RegionTape\<close> why the tape that a region leaves can stand for the whole tape at its points,
    \<open>RegionProps\<close> the theorem about subdividing and \<open>IntervalFlags\<close> the flag for NaN.
  \<^item> Meshes. \<open>MeshFactory\<close> models \<open>src/mesh/MeshFactory.cpp\<close>, where documents meet the kernel: the
    expression of a forest and the normals of the rendered mesh; \<open>MeshProps\<close> shows that the
    expression is the solid the document stands for.
  \<^item> Cells. \<open>CellTables\<close> models the tables of the octree renderers
    (\<open>src/five/render/brep/neighbor_tables.cpp\<close>, \<open>edge_tables.cpp\<close>, \<open>manifold_tables.cpp\<close> and
    \<open>thirdparty/libfive/render/brep/indexes.hpp\<close>), for the two and three dimensions they are built
    for; \<open>CellProps\<close> and \<open>ManifoldProps\<close> read them as geometry.
  \<^item> Derivatives. \<open>DerivEval\<close> models \<open>src/five/eval/eval_deriv_array.cpp\<close> and
    \<open>eval_jacobian.cpp\<close>, forward differentiation over the same tapes; \<open>DerivWalk\<close> follows one entry of
    the array of derivatives as a machine on values and derivatives together, \<open>DerivProps\<close> and
    \<open>GradientProps\<close> show that the results are the derivatives of the tree.
  \<^item> The solver. \<open>Solver\<close> models \<open>src/five/solve/solver.cpp\<close>, gradient descent on the free variables
    of a tree, with a solution as an association list in the order of its keys; \<open>SolverProps\<close> relates
    what it returns to the tree and shows where it never does.

  Interfaces. Where one part relies on another the contract is a locale, interpreted on the model's
  own operations: the rows and writes the two stores share (\<open>Tables\<close>, \<open>Replication\<close>), the building of expressions that every
  rewriting step uses (\<open>expr_builder\<close>), the serializers, the machines that walk a tape, and the
  relation between two walks over one tape (\<open>tape_simulation\<close>, used for shortened tapes and for the
  enclosure by intervals).

  How code corresponds to definitions.

  \<^item> Definitions bear the names of the functions they model, with a prefix for the class where two
    would clash. A constructor is a function that returns the new state. A method that changes its
    object returns the changed object.
  \<^item> Exceptions, failed assertions, null dereferences and accesses out of range are values of
    \<open>fault\<close>; a handler that faults half-way leaves the state it had reached, as the code does.
  \<^item> Arguments are evaluated from left to right where the language leaves the order open (only
    \<open>fromAffine\<close> builds nodes in two arguments of one call).
  \<^item> The store of expressions holds weak pointers. The model counts references by the handles that
    exist; temporaries that C++ destroys at the end of a statement are taken out of the tables by
    the step that destroys them, which may come later than in the program. Nothing that is shown
    depends on when: the invariant holds before and after.
  \<^item> The result array of an evaluator has many columns that never interact; the model has one.
  \<^item> Timestamps are compared as unsigned numbers. Above 2^63 the signed column type of the database
    orders them otherwise, so a theorem whose conclusion depends on that order assumes they are below.
  \<^item> A name or an identifier from another replica or from the database is checked where the code
    checks it, which is when it is turned into a \<open>Name\<close> or read from its text: \<open>tables_wf\<close> is what
    every operation keeps, \<open>names_wf\<close> what only local edits guarantee.
  \<^item> Numbers in an archive are little-endian, as on every platform the build files name.

  Fuel. The recursion of \<open>subTreeOf\<close> has no bound in the code and does not return on cycles; its
  model takes fuel, and \<open>subTreeOf_returns_iff\<close> says exactly when the number of nodes is enough. The
  rewriting of the expression store calls itself on results of its own; its model takes fuel, and
  \<open>calls_return\<close> gives, for every call but sums and differences, an amount that is enough. The solver's search
  for a step has no bound either; \<open>findRoot_hangs\<close> shows a call that does not return with any fuel. Loops
  with a bound are structural recursions and need none.

  Parameters of the model. The C library's and the compiler's functions on numbers that IEEE 754
  does not fix (roots, powers, trigonometry, and which argument \<open>fmin\<close> returns on a tie or on NaN)
  are one record; what a theorem needs of them is a named hypothesis (\<open>selects\<close>,
  \<open>lattice_clause\<close>, \<open>picks\<close>, \<open>first_nan\<close>), and sample instances discharge it. The interval
  arithmetic of Boost is a record whose documented property, that results enclose, is
  \<open>boost_arithmetic\<close> and \<open>boost_functions\<close>. The allocator chooses the addresses of nodes. Oracles
  answer by functions. The square that the solver takes with \<open>pow\<close> in double precision is a function. The text that sqlite stores for a literal, and the order in which
  \<open>std::reduce\<close> combines, are parameters as well.

  What is shown. The properties fall into groups.

  \<^item> Replication: what replicas agree on once they have seen the same writes, what an ordered history
    leaves, that queries never fault, and the cases in which replicas diverge.
  \<^item> Graphs: the invariant, when the recursion returns, that the trees of a document show all of it.
  \<^item> Application: the invariant over every sequence of events, and that an edit, its messages and the
    writes they cause elsewhere are the same operations.
  \<^item> Binary forms: round trips of attributes, names of operations and archives, and what does not
    survive.
  \<^item> Expressions: sharing, the invariant of the store under every call, safety and termination of
    calls, and the value of what a call returns.
  \<^item> Tapes and regions: the tape computes the tree; so does every tape that was shortened around a
    point, by values or by intervals, as often as one likes.
  \<^item> Meshes: the expression of a document has the value of the solid it stands for, and the normals
    of a mesh are the sums of the normals of the triangles.
  \<^item> Cells: the tables of neighbours describe the grid, summing over children counts every place
    once, and the accepted sign patterns are those with two connected sides.
  \<^item> Derivatives: at a point and in the free variables they are the derivatives computed by
    recursion over the tree, in however many batches the variables are loaded.
  \<^item> The solver: the residual it returns is the value of the tree at the solution it returns.
  Several properties state what the code does where that is not what it was written for (the
  tombstones that collection forgets, identifiers that are not read back,
  the names of variables in archives, missed flags for NaN); each is stated as the behaviour
  it is.

  Not modelled, and why.

  \<^item> Octree renderers, mesh assembly and the feature evaluator (\<open>src/five/render/brep\<close>,
    \<open>src/five/eval/eval_feature.cpp\<close>): their decisions rest on eigenvalues, QEF
    solutions and norms that Eigen computes in floating point; Eigen is not part of the repository
    and has no exact specification to state as a hypothesis.
  \<^item> Worker pools, and the height maps and voxels (\<open>src/five/render/discrete\<close>): threads over
    lock-free queues of Boost and image output.
  \<^item> The SQL connector (\<open>src/sqlpp11-connector-sqlite\<close>) and \<open>include/generated\<close>: a vendored binding to
    sqlite3 and generated column types. The statements the program runs through them are modelled
    where they are built.
  \<^item> The user interface and the tests: platform code, outside the program's logic.
\<close>

end
